(* ===== verification/Prelude.thy ===== *)
theory Prelude
  imports Main "HOL-Library.Monad_Syntax"
begin

text \<open>
  Shared vocabulary of the development: the C objects that every component uses.

  \<^item> A C buffer is a list of characters of a fixed length (the allocated size). The operations
    \<open>peek\<close>, \<open>poke\<close>, \<open>cslice\<close> and \<open>memcpy\<close> check their index ranges and give
    \<open>None\<close> for an access outside the buffer, so a run that ends in \<open>Some\<close> has made no
    out-of-range access. \<open>memmove\<close> within one buffer is \<open>memcpy\<close> with both buffers equal:
    in HOL the source is read before anything is written, as \<open>memmove\<close> promises.
  \<^item> The character classes of \<open>ctype.h\<close> are those of the C locale. \<open>char\<close> is unsigned, as it
    is on the ARM targets of the repository.
  \<^item> Error codes are the positive \<open>errno\<close> numbers of the system; a C function that returns
    \<open>-E\<close> returns \<open>- E\<close> here.
\<close>

named_theorems memsafe \<open>when the range-checked buffer operations succeed, and what they give\<close>
named_theorems cclass \<open>the character classes unfolded\<close>

section \<open>Error codes\<close>

abbreviation (input) EOK :: int where "EOK \<equiv> 0"
abbreviation (input) EPERM :: int where "EPERM \<equiv> 1"
abbreviation (input) ENOENT :: int where "ENOENT \<equiv> 2"
abbreviation (input) EINTR :: int where "EINTR \<equiv> 4"
abbreviation (input) EIO :: int where "EIO \<equiv> 5"
abbreviation (input) EAGAIN :: int where "EAGAIN \<equiv> 11"
abbreviation (input) ENOMEM :: int where "ENOMEM \<equiv> 12"
abbreviation (input) EACCES :: int where "EACCES \<equiv> 13"
abbreviation (input) ENODEV :: int where "ENODEV \<equiv> 19"
abbreviation (input) EINVAL :: int where "EINVAL \<equiv> 22"
abbreviation (input) EMFILE :: int where "EMFILE \<equiv> 24"
abbreviation (input) ENOTTY :: int where "ENOTTY \<equiv> 25"
abbreviation (input) ENOSPC :: int where "ENOSPC \<equiv> 28"
abbreviation (input) EBADMSG :: int where "EBADMSG \<equiv> 74"
abbreviation (input) PSH_UNKNOWN_CMD :: int where "PSH_UNKNOWN_CMD \<equiv> 127"

section \<open>Characters\<close>

abbreviation NUL :: char where "NUL \<equiv> CHR 0x00"

definition code :: "char \<Rightarrow> nat" where
  "code c = of_char c"

definition isdigit :: "char \<Rightarrow> bool" where
  [cclass]: "isdigit c \<longleftrightarrow> 48 \<le> code c \<and> code c \<le> 57"

definition isalpha :: "char \<Rightarrow> bool" where
  [cclass]: "isalpha c \<longleftrightarrow> (65 \<le> code c \<and> code c \<le> 90) \<or> (97 \<le> code c \<and> code c \<le> 122)"

definition isalnum :: "char \<Rightarrow> bool" where
  [cclass]: "isalnum c \<longleftrightarrow> isalpha c \<or> isdigit c"

definition isgraph :: "char \<Rightarrow> bool" where
  [cclass]: "isgraph c \<longleftrightarrow> 33 \<le> code c \<and> code c \<le> 126"

definition isprint :: "char \<Rightarrow> bool" where
  [cclass]: "isprint c \<longleftrightarrow> 32 \<le> code c \<and> code c \<le> 126"

definition isspace :: "char \<Rightarrow> bool" where
  [cclass]: "isspace c \<longleftrightarrow> code c = 32 \<or> (9 \<le> code c \<and> code c \<le> 13)"

lemma code_NUL [simp]: "code NUL = 0"
  by (simp add: code_def)

lemma code_eq_iff [simp]: "code c = code d \<longleftrightarrow> c = d"
  by (simp add: code_def)

lemma code_less: "code c < 256"
  unfolding code_def by (metis of_char_mod_256 mod_less_divisor zero_less_numeral)

lemma not_class_NUL [simp]:
  "\<not> isdigit NUL" "\<not> isalpha NUL" "\<not> isalnum NUL" "\<not> isgraph NUL" "\<not> isprint NUL" "\<not> isspace NUL"
  by (simp_all add: cclass)

section \<open>C buffers\<close>

definition peek :: "'a list \<Rightarrow> nat \<Rightarrow> 'a option" where
  "peek b i = (if i < length b then Some (b ! i) else None)"

definition poke :: "'a list \<Rightarrow> nat \<Rightarrow> 'a \<Rightarrow> 'a list option" where
  "poke b i x = (if i < length b then Some (b[i := x]) else None)"

definition cslice :: "'a list \<Rightarrow> nat \<Rightarrow> nat \<Rightarrow> 'a list option" where
  "cslice b i k = (if i + k \<le> length b then Some (take k (drop i b)) else None)"

definition memcpy :: "'a list \<Rightarrow> nat \<Rightarrow> 'a list \<Rightarrow> nat \<Rightarrow> nat \<Rightarrow> 'a list option" where
  "memcpy dst d src s k =
     (if d + k \<le> length dst \<and> s + k \<le> length src
      then Some (take d dst @ take k (drop s src) @ drop (d + k) dst) else None)"

abbreviation memmove :: "'a list \<Rightarrow> nat \<Rightarrow> nat \<Rightarrow> nat \<Rightarrow> 'a list option" where
  "memmove b d s k \<equiv> memcpy b d b s k"

lemma peek_Some [memsafe]: "i < length b \<Longrightarrow> peek b i = Some (b ! i)"
  by (simp add: peek_def)

lemma poke_Some [memsafe]: "i < length b \<Longrightarrow> poke b i x = Some (b[i := x])"
  by (simp add: poke_def)

lemma cslice_Some [memsafe]: "i + k \<le> length b \<Longrightarrow> cslice b i k = Some (take k (drop i b))"
  by (simp add: cslice_def)

lemma memcpy_Some [memsafe]:
  "d + k \<le> length dst \<Longrightarrow> s + k \<le> length src \<Longrightarrow>
     memcpy dst d src s k = Some (take d dst @ take k (drop s src) @ drop (d + k) dst)"
  by (simp add: memcpy_def)

lemma memcpy_length: "memcpy dst d src s k = Some r \<Longrightarrow> length r = length dst"
  by (auto simp: memcpy_def split: if_splits)

lemma poke_length: "poke b i x = Some r \<Longrightarrow> length r = length b"
  by (auto simp: poke_def split: if_splits)

section \<open>C strings\<close>

text \<open>The string that starts at the head of a buffer ends before its first NUL.\<close>

definition cstr :: "string \<Rightarrow> string" where
  "cstr b = takeWhile (\<lambda>c. c \<noteq> NUL) b"

definition cstr_at :: "string \<Rightarrow> nat \<Rightarrow> string" where
  "cstr_at b i = cstr (drop i b)"

lemma cstr_append_NUL [simp]: "NUL \<notin> set s \<Longrightarrow> cstr (s @ NUL # r) = s"
  unfolding cstr_def by (subst takeWhile_append2) auto

lemma cstr_no_NUL [simp]: "NUL \<notin> set (cstr b)"
  by (auto simp: cstr_def dest: set_takeWhileD)

lemma cstr_id: "NUL \<notin> set b \<Longrightarrow> cstr b = b"
  by (auto simp: cstr_def takeWhile_eq_all_conv)

text \<open>\<open>strcmp\<close>: the sign of the first difference of the character codes, a shorter string first.\<close>

fun strcmp :: "string \<Rightarrow> string \<Rightarrow> int" where
  "strcmp [] [] = 0"
| "strcmp [] (y # ys) = -1"
| "strcmp (x # xs) [] = 1"
| "strcmp (x # xs) (y # ys) =
     (if x = y then strcmp xs ys else if code x < code y then -1 else 1)"

lemma strcmp_eq_0 [simp]: "strcmp xs ys = 0 \<longleftrightarrow> xs = ys"
  by (induction xs ys rule: strcmp.induct) auto

lemma strcmp_refl [simp]: "strcmp xs xs = 0"
  by simp

lemma strcmp_antisym: "strcmp ys xs = - strcmp xs ys"
proof (induction xs ys rule: strcmp.induct)
  case (4 x xs y ys)
  have "code x \<noteq> code y" if "x \<noteq> y"
    using that by simp
  then show ?case using 4 by auto
qed auto

lemma strcmp_range: "strcmp xs ys = -1 \<or> strcmp xs ys = 0 \<or> strcmp xs ys = 1"
  by (induction xs ys rule: strcmp.induct) auto

lemma strcmp_trans: "strcmp xs ys < 0 \<Longrightarrow> strcmp ys zs < 0 \<Longrightarrow> strcmp xs zs < 0"
proof (induction xs ys arbitrary: zs rule: strcmp.induct)
  case (2 y ys)
  then show ?case by (cases zs) (auto split: if_splits)
next
  case (4 x xs y ys)
  from 4 show ?case by (cases zs) (auto split: if_splits)
qed auto

lemma strcmp_le_trans: "strcmp xs ys \<le> 0 \<Longrightarrow> strcmp ys zs \<le> 0 \<Longrightarrow> strcmp xs zs \<le> 0"
  by (metis less_le strcmp_eq_0 strcmp_trans)

section \<open>List facts shared by the buffer proofs\<close>

lemma take_take_append [simp]:
  "k \<le> length xs \<Longrightarrow> take k (take k xs @ ys) = take k xs"
  by simp

lemma take_add_drop: "take i xs @ take j (drop i xs) = take (i + j) xs"
  by (simp add: take_add)

lemma mod_wrap: "a < k \<Longrightarrow> b \<le> k \<Longrightarrow> (a + b) mod k = (if a + b < k then a + b else a + b - k)"
  for a b k :: nat
  by (auto simp: mod_if)

lemma find_append:
  "find P (xs @ ys) = (case find P xs of Some x \<Rightarrow> Some x | None \<Rightarrow> find P ys)"
  by (induction xs) auto

lemma take_list_update_last: "i < length xs \<Longrightarrow> take (Suc i) (xs[i := x]) = take i xs @ [x]"
  by (simp add: take_Suc_conv_app_nth)

lemma concat_replicate_Suc: "concat (replicate (Suc n) xs) = concat (replicate n xs) @ xs"
  by (induction n) auto

end
