(* ===== verification/Numfmt.thy ===== *)
theory Numfmt
  imports Complex_Main Prelude "HOL-Library.Signed_Division"
begin

text \<open>
  The number formatting of \<open>src/psh/pshapp/pshapp.c\<close>: \<open>psh_mod\<close>, \<open>psh_div\<close>, \<open>psh_log\<close>,
  \<open>psh_pow\<close>, the two prefix tables and \<open>psh_prefix\<close>, which prints \<open>x * base ^ y\<close> in short
  binary or SI notation.

  A C \<open>int\<close> is an \<open>int\<close> here; \<open>ck\<close> is the range check of a signed 32-bit result, so that an
  overflow (undefined in C) is \<open>None\<close>. The division of C truncates (\<open>sdiv\<close>, \<open>smod\<close>).
  \<open>psh_log\<close> divides in a loop that does not end for base 1, so it is a partial function.
\<close>

section \<open>Integer helpers\<close>

definition ck :: "int \<Rightarrow> int option" where
  "ck v = (if - (2 ^ 31) \<le> v \<and> v < 2 ^ 31 then Some v else None)"

definition psh_mod :: "int \<Rightarrow> int \<Rightarrow> int" where
  "psh_mod x y = (let ret = x smod y in if ret < 0 then ret + \<bar>y\<bar> else ret)"

definition psh_div :: "int \<Rightarrow> int \<Rightarrow> int" where
  "psh_div x y = (x - psh_mod x y) sdiv y"

partial_function (option) psh_log_loop :: "nat \<Rightarrow> nat \<Rightarrow> int \<Rightarrow> int option" where
  "psh_log_loop base x ret =
     (if base = 0 then None
      else if x div base = 0 then Some ret
      else psh_log_loop base (x div base) (ret + 1))"

definition psh_log :: "nat \<Rightarrow> nat \<Rightarrow> int option" where
  "psh_log base x = psh_log_loop base x 0"

fun psh_pow_loop :: "int \<Rightarrow> nat \<Rightarrow> int \<Rightarrow> int option" where
  "psh_pow_loop x y ret =
     (if y = 0 then Some ret
      else do {
        ret' \<leftarrow> (if odd y then ck (ret * x) else Some ret);
        if y div 2 = 0 then Some ret'
        else do {
          x' \<leftarrow> ck (x * x);
          psh_pow_loop x' (y div 2) ret'
        }
      })"

declare psh_pow_loop.simps [simp del]

definition psh_pow :: "int \<Rightarrow> nat \<Rightarrow> int option" where
  "psh_pow x y = psh_pow_loop x y 1"

section \<open>Prefix tables\<close>

definition bp :: "string list" where
  "bp = ['''', ''K'', ''M'', ''G'', ''T'', ''P'', ''E'', ''Z'', ''Y'']"

definition si :: "string list" where
  "si = [''y'', ''z'', ''a'', ''f'', ''p'', ''n'', ''u'', ''m'', '''', ''k'', ''M'', ''G'',
         ''T'', ''P'', ''E'', ''Z'', ''Y'']"

definition psh_bp :: "int \<Rightarrow> string option" where
  "psh_bp ex = (let e = psh_div ex 10 + 0
     in if e < 0 \<or> int (length bp) \<le> e then None else Some (bp ! nat e))"

definition psh_si :: "int \<Rightarrow> string option" where
  "psh_si ex = (let e = psh_div ex 3 + 8
     in if e < 0 \<or> int (length si) \<le> e then None else Some (si ! nat e))"

section \<open>Printing\<close>

text \<open>\<open>%d\<close> of a non-negative value, and \<open>%0*d\<close> with a width.\<close>

fun dec :: "nat \<Rightarrow> string" where
  "dec k =
     (if k < 10 then [''0123456789'' ! k] else dec (k div 10) @ [''0123456789'' ! (k mod 10)])"

declare dec.simps [simp del]

definition dec0 :: "nat \<Rightarrow> nat \<Rightarrow> string" where
  "dec0 w k = replicate (w - length (dec k)) CHR ''0'' @ dec k"

text \<open>\<open>while (fpart && !(fpart % 10)) { fpart /= 10; prec--; }\<close>\<close>

fun strip_zeros :: "nat \<Rightarrow> nat \<Rightarrow> nat \<times> nat" where
  "strip_zeros fpart prec =
     (if fpart \<noteq> 0 \<and> fpart mod 10 = 0 then strip_zeros (fpart div 10) (prec - 1)
      else (fpart, prec))"

declare strip_zeros.simps [simp del]

text \<open>
  The arithmetic of \<open>psh_prefix\<close> up to the call of \<open>sprintf\<close>: the scaled value and divisor, the
  rounded integer and fractional part, and the exponent of the prefix.
\<close>

record prefix_parts =
  pp_x :: int
  pp_div :: int
  pp_ipart :: int
  pp_fpart :: int
  pp_exp :: int

definition scale_div :: "nat \<Rightarrow> int \<Rightarrow> int \<Rightarrow> (int \<times> int) option" where
  "scale_div base x div1 =
     (if div1 < 0 then do {
        p \<leftarrow> psh_pow (int base) (nat (- div1));
        x' \<leftarrow> ck (x * p);
        d \<leftarrow> psh_pow (int base) 0;
        Some (x', d)
      } else do {
        d \<leftarrow> psh_pow (int base) (nat div1);
        Some (x, d)
      })"

definition psh_prefix_parts :: "nat \<Rightarrow> int \<Rightarrow> int \<Rightarrow> nat \<Rightarrow> int \<Rightarrow> prefix_parts option" where
  "psh_prefix_parts base x y prec offs = do {
     div0 \<leftarrow> psh_log base (nat \<bar>x\<bar>);
     ex \<leftarrow> ck (div0 + y);
     let div1 = div0 - psh_mod ex offs;
     (x', div3) \<leftarrow> scale_div base x div1;
     p10 \<leftarrow> psh_pow 10 (prec + 1);
     let ipart = \<bar>x'\<bar> div div3;
     let fpart = (p10 * (\<bar>x'\<bar> mod div3)) div div3;
     let fpart' = (fpart + 5) div 10;
     pw \<leftarrow> psh_pow 10 prec;
     if fpart' = pw then do {
       lim \<leftarrow> psh_pow (int base) (nat offs);
       if ipart + 1 = lim
       then Some \<lparr>pp_x = x', pp_div = div3, pp_ipart = 1, pp_fpart = 0, pp_exp = ex + offs\<rparr>
       else Some \<lparr>pp_x = x', pp_div = div3, pp_ipart = ipart + 1, pp_fpart = 0, pp_exp = ex\<rparr>
     } else Some \<lparr>pp_x = x', pp_div = div3, pp_ipart = ipart, pp_fpart = fpart', pp_exp = ex\<rparr>
   }"

text \<open>
  \<open>psh_prefix\<close>: the return code and what is left in the buffer (nothing on an error). The base
  is only checked after the logarithm has been taken, as in the code.
\<close>

definition psh_prefix :: "nat \<Rightarrow> int \<Rightarrow> int \<Rightarrow> nat \<Rightarrow> (int \<times> string) option" where
  "psh_prefix base x y prec = do {
     _ \<leftarrow> ck \<bar>x\<bar>;
     _ \<leftarrow> psh_log base (nat \<bar>x\<bar>);
     if prec > 8 then Some (- EINVAL, [])
     else if base \<noteq> 2 \<and> base \<noteq> 10 then Some (- EINVAL, [])
     else do {
       let fp = (if base = 2 then psh_bp else psh_si);
       let offs = (if base = 2 then 10 else 3);
       p \<leftarrow> psh_prefix_parts base x y prec offs;
       let fz = strip_zeros (nat (pp_fpart p)) prec;
       (case fp (if pp_ipart p = 0 \<and> fst fz = 0 then y else pp_exp p) of
          None \<Rightarrow> Some (- EINVAL, [])
        | Some prefix \<Rightarrow>
            let sign = (if pp_x p < 0 then ''-'' else '''')
            in if fst fz \<noteq> 0
               then Some (0, sign @ dec (nat (pp_ipart p)) @ ''.'' @ dec0 (snd fz) (fst fz) @ prefix)
               else Some (0, sign @ dec (nat (pp_ipart p)) @ prefix))
     }
   }"

section \<open>The helpers compute what their names say\<close>

lemma smod_nonneg: "0 \<le> x \<Longrightarrow> x smod y = x mod \<bar>y\<bar>" for x y :: int
  by (cases "y = 0") (auto simp: signed_modulo_int_def sgn_if)

lemma smod_neg: "x < 0 \<Longrightarrow> x smod y = - (- x mod \<bar>y\<bar>)" for x y :: int
  by (auto simp: signed_modulo_int_def sgn_if)

lemma psh_mod_eq: "y \<noteq> 0 \<Longrightarrow> psh_mod x y = x mod \<bar>y\<bar>"
proof (cases "0 \<le> x")
  case True
  moreover assume "y \<noteq> 0"
  ultimately show ?thesis
    by (simp add: psh_mod_def smod_nonneg Let_def not_less)
next
  case False
  moreover assume y: "y \<noteq> 0"
  moreover have b: "x mod \<bar>y\<bar> < \<bar>y\<bar>" by (rule pos_mod_bound) (use y in simp)
  ultimately show ?thesis
    by (auto simp: psh_mod_def smod_neg Let_def zmod_zminus1_eq_if not_less) (use b in linarith)
qed

lemma psh_div_eq: "0 < y \<Longrightarrow> psh_div x y = x div y"
  by (simp add: psh_div_def psh_mod_eq signed_divide_int_def sgn_mult abs_mult
      minus_mod_eq_mult_div mult_sgn_abs)

lemma psh_log_loop_eq:
  "2 \<le> base \<Longrightarrow>
     \<exists>k. psh_log_loop base x ret = Some (ret + int k) \<and> (x = 0 \<and> k = 0 \<or> base ^ k \<le> x)
       \<and> x < base ^ Suc k"
proof (induction x arbitrary: ret rule: less_induct)
  case (less x)
  show ?case
  proof (cases "x div base = 0")
    case True
    with less.prems have "x < base" by (simp add: div_eq_0_iff)
    with True less.prems show ?thesis
      by (intro exI [of _ 0]) (auto simp: psh_log_loop.simps [of base x])
  next
    case False
    then have "x div base < x" using less.prems by (intro div_less_dividend) (auto intro: ccontr)
    from less.IH [OF this less.prems] obtain k
      where k: "psh_log_loop base (x div base) (ret + 1) = Some (ret + 1 + int k)"
        and b: "base ^ k \<le> x div base" "x div base < base ^ Suc k"
      using False by metis
    from b(1) less.prems have "base * base ^ k \<le> base * (x div base)" by simp
    also have "\<dots> \<le> x" by simp
    finally have lo: "base ^ Suc k \<le> x" by simp
    from b(2) less.prems have hi: "x < base ^ Suc (Suc k)"
      by (simp add: div_less_iff_less_mult mult.commute)
    have "psh_log_loop base x ret = Some (ret + int (Suc k))"
      using False k less.prems by (subst psh_log_loop.simps) simp
    with lo hi show ?thesis by blast
  qed
qed

lemma psh_log_eq:
  assumes "2 \<le> base"
  obtains k where "psh_log base x = Some (int k)" "x = 0 \<and> k = 0 \<or> base ^ k \<le> x" "x < base ^ Suc k"
  using psh_log_loop_eq [OF assms, of x 0] by (auto simp: psh_log_def)

lemma ck_Some [simp]: "- 2147483648 \<le> v \<Longrightarrow> v < 2147483648 \<Longrightarrow> ck v = Some v"
  by (simp add: ck_def)

lemma psh_pow_loop_eq:
  "1 \<le> x \<Longrightarrow> 1 \<le> ret \<Longrightarrow> ret * x ^ y < 2 ^ 31 \<Longrightarrow> psh_pow_loop x y ret = Some (ret * x ^ y)"
proof (induction x y ret rule: psh_pow_loop.induct)
  case (1 x y ret)
  let ?r = "if odd y then ret * x else ret"
  have split: "x ^ y = (if odd y then x else 1) * (x * x) ^ (y div 2)"
    by (cases "odd y") (auto elim!: oddE evenE simp: power_mult power2_eq_square)
  have val: "ret * x ^ y = ?r * (x * x) ^ (y div 2)"
    by (subst split) simp
  have one: "1 \<le> x * x" "1 \<le> ?r" "1 \<le> (x * x) ^ (y div 2)"
    using 1(2,3) mult_mono [of 1 x 1 x] mult_mono [of 1 ret 1 x] by (auto intro: one_le_power)
  have "?r * 1 \<le> ?r * (x * x) ^ (y div 2)"
    using one by (intro mult_left_mono) auto
  then have r: "?r < 2 ^ 31" using 1(4) val by linarith
  show ?case
  proof (cases "y div 2 = 0")
    case True
    then show ?thesis
      using r one(2) val by (auto simp: psh_pow_loop.simps [of x y])
  next
    case False
    then have "(x * x) ^ 1 \<le> (x * x) ^ (y div 2)"
      using one(1) by (intro power_increasing) auto
    moreover have "1 * (x * x) ^ (y div 2) \<le> ?r * (x * x) ^ (y div 2)"
      using one by (intro mult_right_mono) auto
    ultimately have "x * x < 2 ^ 31" using 1(4) val by simp
    with False r one 1 val show ?thesis
      by (cases "odd y") (auto simp: psh_pow_loop.simps [of x y])
  qed
qed

lemma psh_pow_eq: "1 \<le> x \<Longrightarrow> x ^ y < 2 ^ 31 \<Longrightarrow> psh_pow x y = Some (x ^ y)"
  using psh_pow_loop_eq [of x 1 y] by (simp add: psh_pow_def)

section \<open>Rounding\<close>

text \<open>
  Rounding a fraction \<open>r / d\<close> to \<open>p\<close> decimal places the way the code does: one more digit than
  needed is computed by truncation, 5 is added and the last digit dropped.
\<close>

definition rounded :: "int \<Rightarrow> int \<Rightarrow> nat \<Rightarrow> int" where
  "rounded r d p = ((10 ^ (p + 1) * r) div d + 5) div 10"

lemma rounded_bounds:
  assumes "0 < d"
  shows "2 * (10 ^ p * r) - d \<le> 2 * d * rounded r d p"
    and "2 * d * rounded r d p \<le> 2 * (10 ^ p * r) + d"
proof -
  let ?a = "10 ^ (p + 1) * r"
  have t: "?a = 10 * (10 ^ p * r)" by simp
  have q: "d * (?a div d) \<le> ?a" "?a < d * (?a div d) + d"
    using assms mult_div_mod_eq [of d ?a] pos_mod_bound [of d ?a] pos_mod_sign [of d ?a]
    by linarith+
  have w: "10 * rounded r d p \<le> ?a div d + 5" "?a div d + 5 < 10 * rounded r d p + 10"
    unfolding rounded_def by linarith+
  have "d * (10 * rounded r d p) \<le> d * (?a div d + 5)"
    using w(1) assms by (intro mult_left_mono) auto
  then have "10 * (d * rounded r d p) \<le> ?a + 5 * d"
    using q(1) by (simp add: algebra_simps)
  then show "2 * d * rounded r d p \<le> 2 * (10 ^ p * r) + d"
    unfolding t by linarith
  have "d * (?a div d + 6) \<le> d * (10 * rounded r d p + 10)"
    using w(2) assms by (intro mult_left_mono) auto
  then have "?a + 5 * d < 10 * (d * rounded r d p) + 10 * d"
    using q(2) by (simp add: algebra_simps)
  then show "2 * (10 ^ p * r) - d \<le> 2 * d * rounded r d p"
    unfolding t by linarith
qed

lemma rounded_range:
  assumes "0 \<le> r" "r < d"
  shows "0 \<le> rounded r d p" "rounded r d p \<le> 10 ^ p"
proof -
  show "0 \<le> rounded r d p"
    using assms by (simp add: rounded_def pos_imp_zdiv_nonneg_iff div_int_pos_iff)
  have "10 ^ p * r \<le> 10 ^ p * (d - 1)"
    using assms by (intro mult_left_mono) auto
  then have "2 * d * rounded r d p \<le> 2 * (10 ^ p * (d - 1)) + d"
    using rounded_bounds(2) [where d = d and p = p and r = r] assms by linarith
  also have "\<dots> < 2 * d * (10 ^ p + 1)"
    using assms zero_less_power [of "10 :: int" p] by (simp add: algebra_simps add_pos_pos)
  finally show "rounded r d p \<le> 10 ^ p"
    using assms by (simp add: mult_less_cancel_left)
qed

text \<open>
  The value the digits \<open>ip\<close> and \<open>fp\<close> (at \<open>w\<close> decimal places) print before a prefix whose
  exponent is \<open>e\<close> rounded down to a multiple of \<open>offs\<close>.
\<close>

definition shown :: "nat \<Rightarrow> int \<Rightarrow> int \<Rightarrow> int \<Rightarrow> nat \<Rightarrow> int \<Rightarrow> real" where
  "shown base offs ip fp w e =
     (real_of_int ip + real_of_int fp / 10 ^ w) * real base powi (offs * (e div offs))"

lemma rounded_error:
  assumes "0 < d"
  shows "\<bar>real_of_int (x div d) + real_of_int (rounded (x mod d) d p) / 10 ^ p - x / d\<bar>
           \<le> 1 / (2 * 10 ^ p)"
proof -
  let ?r = "real_of_int (rounded (x mod d) d p)" and ?f = "real_of_int (x mod d) / d"
  have "real_of_int x = real_of_int d * real_of_int (x div d) + real_of_int (x mod d)"
    by (metis mult_div_mod_eq of_int_add of_int_mult)
  then have x: "x / d = (x div d) + ?f"
    using assms by (simp add: field_simps)
  have b: "2 * (10 ^ p * real_of_int (x mod d)) - d \<le> 2 * d * ?r"
       "2 * d * ?r \<le> 2 * (10 ^ p * real_of_int (x mod d)) + d"
    using rounded_bounds [where d = d and p = p and r = "x mod d"] assms
    by (metis (mono_tags, opaque_lifting) of_int_add of_int_diff of_int_le_iff of_int_mult
        of_int_numeral of_int_power)+
  have "?r \<le> 10 ^ p * ?f + 1 / 2" "10 ^ p * ?f - 1 / 2 \<le> ?r"
    using b assms by (simp_all add: field_simps)
  then have "\<bar>?r - 10 ^ p * ?f\<bar> \<le> 1 / 2" by linarith
  then have "\<bar>?r - 10 ^ p * ?f\<bar> / 10 ^ p \<le> (1 / 2) / 10 ^ p"
    by (intro divide_right_mono) auto
  moreover have "?r / 10 ^ p - ?f = (?r - 10 ^ p * ?f) / 10 ^ p"
    by (simp add: diff_divide_distrib)
  then have "\<bar>?r - 10 ^ p * ?f\<bar> / 10 ^ p = \<bar>?r / 10 ^ p - ?f\<bar>"
    by (simp add: abs_divide)
  ultimately show ?thesis by (simp add: x algebra_simps)
qed

section \<open>The printed value\<close>

definition prefix_base :: "nat \<Rightarrow> int \<Rightarrow> bool" where
  "prefix_base base offs \<longleftrightarrow> base = 2 \<and> offs = 10 \<or> base = 10 \<and> offs = 3"

lemma prefix_baseD:
  assumes "prefix_base base offs"
  shows "2 \<le> base" "0 < offs" "int base ^ nat offs \<le> 1024" "1 \<le> int base"
  using assms by (auto simp: prefix_base_def)

lemma scale_div_eq:
  assumes b: "prefix_base base offs" and x: "\<bar>x\<bar> < 2 ^ 31"
    and k: "x = 0 \<and> k = 0 \<or> int base ^ k \<le> \<bar>x\<bar>" "\<bar>x\<bar> < int base ^ Suc k"
    and mo: "int mo < offs"
  shows "scale_div base x (int k - int mo) = Some (x * int base ^ (mo - k), int base ^ (k - mo))"
proof (cases "k < mo")
  case True
  note B = prefix_baseD [OF b]
  have up: "int base ^ i \<le> 1024" if "i \<le> nat offs" for i
    using power_increasing [OF that B(4)] B(3) by linarith
  have "\<bar>x\<bar> * int base ^ (mo - k) \<le> int base ^ Suc k * int base ^ (mo - k)"
    using k(2) by (intro mult_right_mono) auto
  also have "\<dots> = int base ^ Suc mo" using True by (simp flip: power_add)
  also have "\<dots> \<le> 1024" using mo by (intro up) auto
  finally have "\<bar>x * int base ^ (mo - k)\<bar> \<le> 1024" by (simp add: abs_mult)
  moreover have "int base ^ (mo - k) \<le> 1024" using mo by (intro up) auto
  ultimately show ?thesis
    using True B(4) by (simp add: scale_div_def psh_pow_eq abs_le_iff nat_diff_distrib' flip: of_nat_diff)
next
  case False
  note B = prefix_baseD [OF b]
  have "int base ^ (k - mo) \<le> int base ^ k" using B by (intro power_increasing) auto
  also have "\<dots> < 2 ^ 31" using k(1) x by auto
  finally show ?thesis
    using False B(4) by (simp add: scale_div_def psh_pow_eq nat_diff_distrib)
qed

lemma scale_value:
  assumes "prefix_base base offs" and "ex = int k + y" and "mo = nat (ex mod offs)"
  shows "real_of_int \<bar>x * int base ^ (mo - k)\<bar> / real_of_int (int base ^ (k - mo))
           * real base powi (offs * (ex div offs)) = real_of_int \<bar>x\<bar> * real base powi y"
proof -
  note B = prefix_baseD [OF assms(1)]
  have mo: "int mo = ex mod offs" using B assms(3) by simp
  have "offs * (ex div offs) = y + int (k - mo) - int (mo - k)"
    using mult_div_mod_eq [of offs ex] mo assms(2) by linarith
  then have "real base powi (offs * (ex div offs))
      = real base powi y * real base ^ (k - mo) / real base ^ (mo - k)"
    using B by (simp add: power_int_diff power_int_add)
  then show ?thesis using B by (simp add: abs_mult field_simps)
qed

lemma psh_pow_10: "w \<le> 9 \<Longrightarrow> psh_pow 10 w = Some (10 ^ w)"
  using power_increasing [of w 9 "10 :: int"] by (intro psh_pow_eq) auto

lemma prefix_parts_correct:
  assumes b: "prefix_base base offs" and x: "\<bar>x\<bar> < 2 ^ 31" and y: "\<bar>y\<bar> \<le> 2 ^ 30" and p: "prec \<le> 8"
  obtains parts k where "psh_prefix_parts base x y prec offs = Some parts"
    and "psh_log base (nat \<bar>x\<bar>) = Some (int k)"
    and "0 \<le> pp_ipart parts" and "0 \<le> pp_fpart parts" and "pp_fpart parts < 10 ^ prec"
    and "pp_x parts < 0 \<longleftrightarrow> x < 0"
    and "\<bar>shown base offs (pp_ipart parts) (pp_fpart parts) prec (pp_exp parts)
            - real_of_int \<bar>x\<bar> * real base powi y\<bar>
          \<le> real base powi (offs * ((int k + y) div offs)) / (2 * 10 ^ prec)"
proof -
  note B = prefix_baseD [OF b]
  obtain k where k: "psh_log base (nat \<bar>x\<bar>) = Some (int k)"
    "nat \<bar>x\<bar> = 0 \<and> k = 0 \<or> base ^ k \<le> nat \<bar>x\<bar>" "nat \<bar>x\<bar> < base ^ Suc k"
    using psh_log_eq [OF B(1)] by blast
  have kx: "x = 0 \<and> k = 0 \<or> int base ^ k \<le> \<bar>x\<bar>" "\<bar>x\<bar> < int base ^ Suc k"
    using k(2,3) by (auto simp: le_nat_iff nat_less_iff)
  define ex where "ex = int k + y"
  define mo where "mo = nat (ex mod offs)"
  define d where "d = int base ^ (k - mo)"
  define x' where "x' = x * int base ^ (mo - k)"
  have mo: "int mo = ex mod offs" "int mo < offs" using B by (simp_all add: mo_def)
  have d: "0 < d" using B by (simp add: d_def)
  have "(2 :: int) ^ k \<le> int base ^ k" using B by (intro power_mono) auto
  also have "\<dots> < 2 ^ 31" using kx(1) x by auto
  finally have "k < 31" by (rule power_less_imp_less_exp [rotated]) simp
  then have ck: "ck (int k + y) = Some ex" using y by (simp add: ex_def abs_le_iff)
  have sc: "scale_div base x (int k - psh_mod ex offs) = Some (x', d)"
    using scale_div_eq [OF b x kx mo(2)] mo(1) B by (simp add: psh_mod_eq x'_def d_def)
  let ?ip = "\<bar>x'\<bar> div d" and ?fp = "rounded (\<bar>x'\<bar> mod d) d prec"
  have ip: "0 \<le> ?ip" using d by (simp add: pos_imp_zdiv_nonneg_iff)
  have fp: "0 \<le> ?fp" "?fp \<le> 10 ^ prec" using d by (auto intro!: rounded_range)
  have lim: "psh_pow (int base) (nat offs) = Some (int base ^ nat offs)"
    using B by (intro psh_pow_eq) auto
  define parts where "parts =
    (if ?fp = 10 ^ prec then
       if ?ip + 1 = int base ^ nat offs
       then \<lparr>pp_x = x', pp_div = d, pp_ipart = 1, pp_fpart = 0, pp_exp = ex + offs\<rparr>
       else \<lparr>pp_x = x', pp_div = d, pp_ipart = ?ip + 1, pp_fpart = 0, pp_exp = ex\<rparr>
     else \<lparr>pp_x = x', pp_div = d, pp_ipart = ?ip, pp_fpart = ?fp, pp_exp = ex\<rparr>)"
  have p1: "prec + 1 \<le> 9" "prec \<le> 9" using p by simp_all
  have run: "psh_prefix_parts base x y prec offs = Some parts"
    unfolding parts_def psh_prefix_parts_def k(1) Option.bind.simps ck Let_def sc prod.case
      psh_pow_10 [OF p1(1)] psh_pow_10 [OF p1(2)] lim rounded_def
    by (simp only: if_distrib [of Some] cong: if_cong)
  have sgn: "pp_x parts < 0 \<longleftrightarrow> x < 0"
    using B zero_less_power [of "int base" "mo - k"]
    by (simp add: parts_def x'_def mult_less_0_iff)
  have up: "real base powi (offs * ((ex + offs) div offs))
      = real base ^ nat offs * real base powi (offs * (ex div offs))"
  proof -
    have "real base powi offs = real base ^ nat offs" using B by (simp add: power_int_def)
    moreover have "offs * ((ex + offs) div offs) = offs + offs * (ex div offs)"
      using B by (simp add: distrib_left)
    ultimately show ?thesis using B by (simp add: power_int_add)
  qed
  have sh: "shown base offs (pp_ipart parts) (pp_fpart parts) prec (pp_exp parts)
      = (real_of_int ?ip + real_of_int ?fp / 10 ^ prec) * real base powi (offs * (ex div offs))"
    using up by (auto simp: parts_def shown_def simp flip: of_nat_power)
  have "\<bar>shown base offs (pp_ipart parts) (pp_fpart parts) prec (pp_exp parts)
          - real_of_int \<bar>x\<bar> * real base powi y\<bar>
      = \<bar>real_of_int ?ip + real_of_int ?fp / 10 ^ prec - real_of_int \<bar>x'\<bar> / real_of_int d\<bar>
          * real base powi (offs * (ex div offs))"
    unfolding sh scale_value [OF b ex_def mo_def, symmetric] x'_def [symmetric] d_def [symmetric]
    by (simp only: left_diff_distrib [symmetric] abs_mult) simp
  also have "\<dots> \<le> 1 / (2 * 10 ^ prec) * real base powi (offs * (ex div offs))"
    by (intro mult_right_mono rounded_error [OF d]) simp
  finally have err: "\<bar>shown base offs (pp_ipart parts) (pp_fpart parts) prec (pp_exp parts)
          - real_of_int \<bar>x\<bar> * real base powi y\<bar>
      \<le> real base powi (offs * ((int k + y) div offs)) / (2 * 10 ^ prec)"
    by (simp add: ex_def)
  have rng: "0 \<le> pp_ipart parts" "0 \<le> pp_fpart parts" "pp_fpart parts < 10 ^ prec"
    using ip fp by (simp_all add: parts_def)
  show thesis by (rule that [OF run k(1) rng sgn err])
qed

lemma strip_zeros_value:
  "fp < 10 ^ prec \<Longrightarrow> strip_zeros fp prec = (f, w) \<Longrightarrow>
     w \<le> prec \<and> f < 10 ^ w \<and> fp = f * 10 ^ (prec - w)"
proof (induction fp prec rule: strip_zeros.induct)
  case (1 fp prec)
  show ?case
  proof (cases "fp \<noteq> 0 \<and> fp mod 10 = 0")
    case True
    with 1(2) have "0 < prec" by (cases prec) auto
    moreover from this 1(2) have "fp div 10 < 10 ^ (prec - 1)"
      by (simp add: div_less_iff_less_mult flip: power_Suc2)
    moreover have "strip_zeros (fp div 10) (prec - 1) = (f, w)"
      using 1(3) True by (simp add: strip_zeros.simps [of fp prec])
    ultimately have IH: "w \<le> prec - 1" "f < 10 ^ w" "fp div 10 = f * 10 ^ (prec - 1 - w)"
      using 1(1) [OF True] by auto
    have "prec - w = Suc (prec - 1 - w)" using IH(1) \<open>0 < prec\<close> by simp
    then have "f * 10 ^ (prec - w) = 10 * (fp div 10)" by (simp add: IH(3))
    with True IH show ?thesis by auto
  next
    case False
    then show ?thesis using 1 by (auto simp: strip_zeros.simps [of fp prec])
  qed
qed

lemma shown_strip:
  assumes "0 \<le> fp" "fp < 10 ^ prec" "strip_zeros (nat fp) prec = (f, w)"
  shows "shown base offs ip (int f) w e = shown base offs ip fp prec e"
proof -
  have sv: "w \<le> prec \<and> f < 10 ^ w \<and> nat fp = f * 10 ^ (prec - w)"
    using assms by (intro strip_zeros_value) (auto simp: nat_less_iff)
  then have "real_of_int fp = real f * 10 ^ (prec - w)"
    using assms(1) by (metis of_int_of_nat_eq nat_0_le of_nat_mult of_nat_numeral of_nat_power)
  moreover have "(10 :: real) ^ prec = 10 ^ w * 10 ^ (prec - w)"
    using sv by (simp flip: power_add)
  ultimately show ?thesis by (simp add: shown_def)
qed

text \<open>
  C9: For base 2 (with binary prefixes) and base 10 (with SI prefixes), every 32-bit value other
  than \<open>INT_MIN\<close>, every exponent of a sane size and at most 8 decimal places, \<open>psh_prefix\<close>
  returns without an overflow and without looping. Either the exponent has no prefix in the
  table and the result is \<open>-EINVAL\<close>, or the buffer holds sign, integer part, at most \<open>prec\<close>
  fraction digits and prefix, and the number so printed differs from \<open>x * base ^ y\<close> by at most half
  a unit of the last of the \<open>prec\<close> places.
\<close>

theorem psh_prefix_correct:
  assumes b: "prefix_base base offs" and x: "\<bar>x\<bar> < 2 ^ 31" and y: "\<bar>y\<bar> \<le> 2 ^ 30" and p: "prec \<le> 8"
  shows "\<exists>ip f w e k. w \<le> prec \<and> f < 10 ^ w
     \<and> psh_log base (nat \<bar>x\<bar>) = Some (int k)
     \<and> psh_prefix base x y prec =
         Some (case (if base = 2 then psh_bp else psh_si) (if ip = 0 \<and> f = 0 then y else e) of
                 None \<Rightarrow> (- EINVAL, [])
               | Some prefix \<Rightarrow>
                   (0, (if x < 0 then ''-'' else '''') @ dec ip
                       @ (if f \<noteq> 0 then ''.'' @ dec0 w f else '''') @ prefix))
     \<and> \<bar>shown base offs (int ip) (int f) w e - real_of_int \<bar>x\<bar> * real base powi y\<bar>
         \<le> real base powi (offs * ((int k + y) div offs)) / (2 * 10 ^ prec)"
proof -
  obtain parts k where P: "psh_prefix_parts base x y prec offs = Some parts"
    "psh_log base (nat \<bar>x\<bar>) = Some (int k)" "0 \<le> pp_ipart parts" "0 \<le> pp_fpart parts"
    "pp_fpart parts < 10 ^ prec" "pp_x parts < 0 \<longleftrightarrow> x < 0"
    "\<bar>shown base offs (pp_ipart parts) (pp_fpart parts) prec (pp_exp parts)
        - real_of_int \<bar>x\<bar> * real base powi y\<bar>
      \<le> real base powi (offs * ((int k + y) div offs)) / (2 * 10 ^ prec)"
    using prefix_parts_correct [OF b x y p] by blast
  obtain f w where fw: "strip_zeros (nat (pp_fpart parts)) prec = (f, w)" by fastforce
  have sv: "w \<le> prec \<and> f < 10 ^ w"
    using strip_zeros_value [OF _ fw] P(4,5) by (auto simp: nat_less_iff)
  have "ck \<bar>x\<bar> = Some \<bar>x\<bar>" using x by simp
  then have "psh_prefix base x y prec =
      Some (case (if base = 2 then psh_bp else psh_si)
                 (if nat (pp_ipart parts) = 0 \<and> f = 0 then y else pp_exp parts) of
              None \<Rightarrow> (- EINVAL, [])
            | Some prefix \<Rightarrow>
                (0, (if x < 0 then ''-'' else '''') @ dec (nat (pp_ipart parts))
                    @ (if f \<noteq> 0 then ''.'' @ dec0 w f else '''') @ prefix))"
    using b p P(1-3,6) unfolding prefix_base_def
    by (elim disjE conjE) (simp_all add: psh_prefix_def fw Let_def split: option.split)
  moreover have "\<bar>shown base offs (int (nat (pp_ipart parts))) (int f) w (pp_exp parts)
        - real_of_int \<bar>x\<bar> * real base powi y\<bar>
      \<le> real base powi (offs * ((int k + y) div offs)) / (2 * 10 ^ prec)"
    using P(3,7) shown_strip [OF P(4,5) fw] by simp
  ultimately show ?thesis using sv P(2) by blast
qed

text \<open>The two examples of the comment in \<open>src/psh/psh.h\<close>.\<close>

lemmas prefix_eval = psh_prefix_def psh_prefix_parts_def scale_div_def psh_log_def
  psh_log_loop.simps ck_def psh_pow_def psh_pow_loop.simps psh_mod_def psh_div_def
  signed_modulo_int_def signed_divide_int_def strip_zeros.simps Let_def

lemma psh_prefix_example_si: "psh_prefix 10 (- 15496) 3 2 = Some (0, ''-15.5M'')"
  by (simp add: prefix_eval) (simp add: prefix_eval psh_si_def si_def dec0_def dec.simps)

lemma psh_prefix_example_bin: "psh_prefix 2 2000 10 3 = Some (0, ''1.953M'')"
  by (simp add: prefix_eval) (simp add: prefix_eval psh_bp_def bp_def dec0_def dec.simps)

theorem psh_prefix_correct_witness:
  "prefix_base 10 3 \<and>
   (\<exists>ip f w e k. w \<le> 2 \<and> f < 10 ^ w
     \<and> psh_log 10 (nat \<bar>- 15496\<bar>) = Some (int k)
     \<and> psh_prefix 10 (- 15496) 3 2 =
         Some (case (if (10 :: nat) = 2 then psh_bp else psh_si) (if ip = 0 \<and> f = 0 then 3 else e) of
                 None \<Rightarrow> (- EINVAL, [])
               | Some prefix \<Rightarrow>
                   (0, (if (- 15496 :: int) < 0 then ''-'' else '''') @ dec ip
                       @ (if f \<noteq> 0 then ''.'' @ dec0 w f else '''') @ prefix))
     \<and> \<bar>shown 10 3 (int ip) (int f) w e - real_of_int \<bar>- 15496\<bar> * real 10 powi 3\<bar>
         \<le> real 10 powi (3 * ((int k + 3) div 3)) / (2 * 10 ^ 2))"
  by (intro conjI psh_prefix_correct) (simp_all add: prefix_base_def)

end
