(* ===== verification/Getopt.thy ===== *)
theory Getopt
  imports Prelude "HOL-Library.Sublist"
begin

text \<open>
  The POSIX \<open>getopt\<close> loop over short options, as the command line tools of the repository use it:
  \<open>while ((c = getopt(argc, argv, optstring)) != -1)\<close>. The model runs the whole loop and gives
  the list of what \<open>getopt\<close> returned (an option with its argument, or the \<open>?\<close> of an unknown
  option or a missing argument) and the operands that are left from \<open>optind\<close> on. It stops at
  \<open>--\<close> or at the first operand; it does not permute.
\<close>

datatype optev = Opt char "string option" | OptErr char

text \<open>Whether an option letter occurs in the option string, and whether a colon follows it.\<close>

fun opt_known :: "string \<Rightarrow> char \<Rightarrow> bool" where
  "opt_known [] c = False"
| "opt_known (x # xs) c = ((x = c \<and> c \<noteq> CHR '':'') \<or> opt_known xs c)"

fun opt_takes_arg :: "string \<Rightarrow> char \<Rightarrow> bool" where
  "opt_takes_arg (x # y # xs) c =
     (if x = c \<and> c \<noteq> CHR '':'' then y = CHR '':'' else opt_takes_arg (y # xs) c)"
| "opt_takes_arg _ c = False"

definition is_opt_word :: "string \<Rightarrow> bool" where
  "is_opt_word a = (case a of x # _ # _ \<Rightarrow> x = CHR ''-'' | _ \<Rightarrow> False)"

function getopt_scan :: "string \<Rightarrow> string list \<Rightarrow> optev list \<times> string list"
  and getopt_short :: "string \<Rightarrow> string \<Rightarrow> string list \<Rightarrow> optev list \<times> string list"
where
  "getopt_scan os [] = ([], [])"
| "getopt_scan os (a # args) =
     (if a = ''--'' then ([], args)
      else if is_opt_word a then getopt_short os (tl a) args
      else ([], a # args))"
| "getopt_short os [] args = getopt_scan os args"
| "getopt_short os (c # cs) args =
     (if \<not> opt_known os c then
        (let r = getopt_short os cs args in (OptErr c # fst r, snd r))
      else if opt_takes_arg os c then
        (if cs \<noteq> [] then let r = getopt_scan os args in (Opt c (Some cs) # fst r, snd r)
         else (case args of
            [] \<Rightarrow> ([OptErr c], [])
          | b # bs \<Rightarrow> let r = getopt_scan os bs in (Opt c (Some b) # fst r, snd r)))
      else let r = getopt_short os cs args in (Opt c None # fst r, snd r))"
  by pat_completeness auto
termination
  by (relation "measure (\<lambda>s. case s of
        Inl (os, args) \<Rightarrow> 2 * (sum_list (map length args) + length args)
      | Inr (os, cs, args) \<Rightarrow> 2 * (length cs + sum_list (map length args) + length args) + 1)")
    (auto simp: is_opt_word_def split: list.splits)

text \<open>The operands left over are a suffix of the arguments.\<close>

lemma getopt_suffix:
  "suffix (snd (getopt_scan os args)) args"
  "suffix (snd (getopt_short os cs args)) args"
proof (induction os args and os cs args rule: getopt_scan_getopt_short.induct)
  case (4 os c cs args)
  then show ?case by (cases args) (auto simp: Let_def suffix_Cons)
qed (auto simp: suffix_Cons)

end
