(* ===== verification/History.thy ===== *)
theory History
  imports Numfmt Getopt
begin

text \<open>
  The command history of \<open>src/psh/pshapp/pshapp.c\<close>: the ring of \<open>HISTSZ\<close> entries, the copying
  and printing of an entry, the insertion that \<open>psh_run\<close> makes for every command, the
  \<open>history\<close> builtin and the release at the end of the session.

  The array of entries is a function on indices; every index the code forms is below \<open>HISTSZ\<close>
  (part of the invariant). A command pointer is \<open>Null\<close>, \<open>Freed\<close> or owns a buffer, and
  \<open>cfree\<close> fails on a pointer freed before, so a run that gives \<open>Some\<close> frees nothing twice and
  reads no freed buffer. The contents of an entry are the characters of the line after
  \<open>strtok\<close>: the delimiter behind each word has become \<open>NUL\<close>.
\<close>

section \<open>Types and entry operations\<close>

datatype cptr = Null | Freed | Buf string

record psh_histent =
  ent_n :: nat
  ent_cmd :: cptr

record psh_hist =
  hb :: nat
  he :: nat
  entries :: "nat \<Rightarrow> psh_histent"

definition HISTSZ :: nat where
  "HISTSZ = 512"

definition cfree :: "cptr \<Rightarrow> cptr option" where
  "cfree p = (case p of Freed \<Rightarrow> None | _ \<Rightarrow> Some Freed)"

text \<open>Reading through the pointer of an entry: only an owned buffer can be read.\<close>

definition ent_peek :: "psh_histent \<Rightarrow> nat \<Rightarrow> char option" where
  "ent_peek e i = (case ent_cmd e of Buf b \<Rightarrow> peek b i | _ \<Rightarrow> None)"

fun histentcmd_loop :: "string \<Rightarrow> psh_histent \<Rightarrow> nat \<Rightarrow> nat \<Rightarrow> string option" where
  "histentcmd_loop cmd e i 0 = Some cmd"
| "histentcmd_loop cmd e i (Suc k) = do {
     c \<leftarrow> ent_peek e i;
     cmd' \<leftarrow> poke cmd i (if c = NUL then CHR '' '' else c);
     histentcmd_loop cmd' e (Suc i) k
   }"

definition psh_histentcmd :: "string \<Rightarrow> psh_histent \<Rightarrow> string option" where
  "psh_histentcmd cmd e = histentcmd_loop cmd e 0 (ent_n e)"

fun printhistent_loop :: "psh_histent \<Rightarrow> nat \<Rightarrow> nat \<Rightarrow> string option" where
  "printhistent_loop e i 0 = Some []"
| "printhistent_loop e i (Suc k) = do {
     c \<leftarrow> ent_peek e i;
     r \<leftarrow> printhistent_loop e (Suc i) k;
     Some ((if c = NUL then CHR '' '' else c) # r)
   }"

definition psh_printhistent :: "psh_histent \<Rightarrow> string option" where
  "psh_printhistent e = printhistent_loop e 0 (ent_n e)"

section \<open>Ring operations\<close>

definition hist_prev :: "nat \<Rightarrow> nat" where
  "hist_prev i = (if i \<noteq> 0 then i - 1 else HISTSZ - 1)"

definition hist_next :: "nat \<Rightarrow> nat" where
  "hist_next i = (i + 1) mod HISTSZ"

definition hist_init :: psh_hist where
  "hist_init = \<lparr>hb = 0, he = 0, entries = (\<lambda>_. \<lparr>ent_n = 0, ent_cmd = Null\<rparr>)\<rparr>"

text \<open>\<open>memcmp(cmd, entry->cmd, n) == 0\<close>\<close>

definition ent_same :: "psh_histent \<Rightarrow> string \<Rightarrow> nat \<Rightarrow> bool option" where
  "ent_same e cmd n = (case ent_cmd e of
     Buf b \<Rightarrow> do { x \<leftarrow> cslice cmd 0 n; y \<leftarrow> cslice b 0 n; Some (x = y) }
   | _ \<Rightarrow> if n = 0 then Some True else None)"

text \<open>The selection of the entry for a new command: a repeated command replaces the newest entry.\<close>

definition hist_select :: "psh_hist \<Rightarrow> string \<Rightarrow> nat \<Rightarrow> psh_hist option" where
  "hist_select h cmd n =
     (if he h \<noteq> hb h then do {
        let e = entries h (hist_prev (he h));
        same \<leftarrow> (if n = ent_n e then ent_same e cmd n else Some False);
        if same then do {
          p \<leftarrow> cfree (ent_cmd e);
          Some (h\<lparr>he := hist_prev (he h),
                  entries := (entries h)(hist_prev (he h) := e\<lparr>ent_cmd := p\<rparr>)\<rparr>)
        } else Some h
      } else Some h)"

definition hist_update :: "psh_hist \<Rightarrow> string \<Rightarrow> nat \<Rightarrow> psh_hist option" where
  "hist_update h cmd n = do {
     let h1 = h\<lparr>entries := (entries h)(he h := \<lparr>ent_n = n, ent_cmd = Buf cmd\<rparr>),
                he := hist_next (he h)\<rparr>;
     if he h1 = hb h1 then do {
       _ \<leftarrow> cfree (ent_cmd (entries h1 (hb h1)));
       Some (h1\<lparr>entries := (entries h1)(hb h1 := (entries h1 (hb h1))\<lparr>ent_cmd := Null\<rparr>),
                hb := hist_next (hb h1)\<rparr>)
     } else Some h1
   }"

definition hist_add :: "psh_hist \<Rightarrow> string \<Rightarrow> nat \<Rightarrow> psh_hist option" where
  "hist_add h cmd n = do { h1 \<leftarrow> hist_select h cmd n; hist_update h1 cmd n }"

text \<open>The loop of \<open>history -c\<close>: free every entry from \<open>i\<close> up to the end index.\<close>

fun hist_free_loop :: "nat \<Rightarrow> nat \<Rightarrow> nat \<Rightarrow> (nat \<Rightarrow> psh_histent) \<Rightarrow> (nat \<Rightarrow> psh_histent) option" where
  "hist_free_loop 0 i e es = (if i = e then Some es else None)"
| "hist_free_loop (Suc k) i e es =
     (if i = e then Some es
      else do {
        p \<leftarrow> cfree (ent_cmd (es i));
        hist_free_loop k (hist_next i) e (es(i := (es i)\<lparr>ent_cmd := p\<rparr>))
      })"

definition hist_clear :: "psh_hist \<Rightarrow> psh_hist option" where
  "hist_clear h = do {
     es \<leftarrow> hist_free_loop HISTSZ (hb h) (he h) (entries h);
     Some (h\<lparr>entries := es, hb := 0, he := 0\<rparr>)
   }"

text \<open>The release of \<open>psh_run\<close>: the begin index itself walks up to the end index.\<close>

definition hist_release :: "psh_hist \<Rightarrow> psh_hist option" where
  "hist_release h = do {
     es \<leftarrow> hist_free_loop HISTSZ (hb h) (he h) (entries h);
     Some (h\<lparr>entries := es, hb := he h\<rparr>)
   }"

section \<open>The history builtin\<close>

definition historyhelp :: string where
  "historyhelp =
     ''usage: history [options] or no args to print command history'' @ [CHR 0x0A] @
     ''  -c:  clears command history'' @ [CHR 0x0A] @
     ''  -h:  shows this help message'' @ [CHR 0x0A]"

definition history_size :: "psh_hist \<Rightarrow> nat" where
  "history_size h = (if hb h < he h then he h - hb h else HISTSZ - hb h + he h)"

definition padl :: "nat \<Rightarrow> string \<Rightarrow> string" where
  "padl w s = replicate (w - length s) CHR '' '' @ s"

fun history_lines :: "psh_hist \<Rightarrow> nat \<Rightarrow> nat list \<Rightarrow> string option" where
  "history_lines h c [] = Some []"
| "history_lines h c (i # is) = do {
     s \<leftarrow> psh_printhistent (entries h ((hb h + i) mod HISTSZ));
     r \<leftarrow> history_lines h c is;
     Some (''  '' @ padl c (dec (i + 1)) @ ''  '' @ s @ [CHR 0x0A] @ r)
   }"

text \<open>The two options the \<open>switch\<close> of the builtin accepts.\<close>

definition history_opt :: "optev \<Rightarrow> bool" where
  "history_opt ev = (case ev of Opt c _ \<Rightarrow> c = CHR ''c'' \<or> c = CHR ''h'' | OptErr _ \<Rightarrow> False)"

text \<open>
  \<open>psh_history\<close>: exit status, the history afterwards and what is printed on the standard output.
  \<open>h = None\<close> is a shell whose history was never set up.
\<close>

definition psh_history ::
  "psh_hist option \<Rightarrow> string list \<Rightarrow> (int \<times> psh_hist option \<times> string) option" where
  "psh_history ho args = (case ho of
     None \<Rightarrow> Some (1, None, [])
   | Some h \<Rightarrow>
       if args \<noteq> [] then
         (let r = getopt_scan ''ch'' args
          in if \<not> list_all history_opt (fst r)
             then Some (1, ho, historyhelp)
             else if snd r \<noteq> [] then Some (1, ho, historyhelp)
             else do {
               h' \<leftarrow> (if Opt CHR ''c'' None \<in> set (fst r) then hist_clear h else Some h);
               Some (0, Some h', if Opt CHR ''h'' None \<in> set (fst r) then historyhelp else [])
             })
       else do {
         c \<leftarrow> psh_log 10 (history_size h);
         out \<leftarrow> history_lines h (nat (c + 1)) [0 ..< history_size h];
         Some (0, Some h, out)
       })"

section \<open>Abstraction: the list of remembered lines\<close>

definition detok :: "char \<Rightarrow> char" where
  "detok c = (if c = NUL then CHR '' '' else c)"

definition slot :: "psh_hist \<Rightarrow> nat \<Rightarrow> nat" where
  "slot h j = (hb h + j) mod HISTSZ"

definition hsize :: "psh_hist \<Rightarrow> nat" where
  "hsize h = (he h + HISTSZ - hb h) mod HISTSZ"

definition ent_line :: "psh_histent \<Rightarrow> string" where
  "ent_line e = (case ent_cmd e of Buf b \<Rightarrow> take (ent_n e) b | _ \<Rightarrow> [])"

definition hist_list :: "psh_hist \<Rightarrow> string list" where
  "hist_list h = map (\<lambda>j. ent_line (entries h (slot h j))) [0 ..< hsize h]"

text \<open>
  The invariant: both indices are in range, the entries between them own a buffer of
  \<open>sz + 1\<close> characters of which at most \<open>sz\<close> are the command, and no other entry owns a buffer.
\<close>

definition ent_owned :: "nat \<Rightarrow> psh_histent \<Rightarrow> bool" where
  "ent_owned sz e =
     (case ent_cmd e of Buf b \<Rightarrow> length b = Suc sz \<and> ent_n e \<le> sz | _ \<Rightarrow> False)"

definition ent_unowned :: "psh_histent \<Rightarrow> bool" where
  "ent_unowned e = (case ent_cmd e of Buf b \<Rightarrow> False | _ \<Rightarrow> True)"

definition hist_ok :: "nat \<Rightarrow> psh_hist \<Rightarrow> bool" where
  "hist_ok sz h \<longleftrightarrow> hb h < HISTSZ \<and> he h < HISTSZ \<and>
     (\<forall>j < HISTSZ. if j < hsize h then ent_owned sz (entries h (slot h j))
                    else ent_unowned (entries h (slot h j)))"

text \<open>What an insertion means: a repeated line changes nothing, the oldest line falls out at 511.\<close>

definition hist_push :: "string list \<Rightarrow> string \<Rightarrow> string list" where
  "hist_push l x =
     (if l \<noteq> [] \<and> last l = x then l
      else if length l = HISTSZ - 1 then tl l @ [x] else l @ [x])"

subsection \<open>Index arithmetic\<close>

lemma HISTSZ_pos [simp]: "0 < HISTSZ" "Suc 0 < HISTSZ"
  by (simp_all add: HISTSZ_def)

lemma slot_less [simp]: "slot h j < HISTSZ"
  by (simp add: slot_def)

lemma slot_wrap: "slot h j = (hb h mod HISTSZ + j) mod HISTSZ"
  by (simp add: slot_def mod_simps)

lemma slot_eq_iff [simp]: "j < HISTSZ \<Longrightarrow> k < HISTSZ \<Longrightarrow> slot h j = slot h k \<longleftrightarrow> j = k"
  using mod_less_divisor [of HISTSZ "hb h"]
  by (auto simp: slot_wrap mod_wrap simp del: mod_less_divisor split: if_splits)

lemma hsize_less [simp]: "hsize h < HISTSZ"
  by (simp add: hsize_def)

lemma hsize_eq:
  "hb h < HISTSZ \<Longrightarrow> he h < HISTSZ \<Longrightarrow>
     hsize h = (if hb h \<le> he h then he h - hb h else HISTSZ - hb h + he h)"
  by (auto simp: hsize_def mod_if)

lemma he_slot: "hb h < HISTSZ \<Longrightarrow> he h < HISTSZ \<Longrightarrow> he h = slot h (hsize h)"
  by (auto simp: slot_def hsize_eq)

lemma hb_slot: "hb h < HISTSZ \<Longrightarrow> hb h = slot h 0"
  by (simp add: slot_def)

lemma next_slot: "hist_next (slot h j) = slot h (Suc j)"
  by (simp add: slot_def hist_next_def mod_simps)

lemma prev_slot: "hist_prev (slot h (Suc j)) = slot h j"
proof -
  have "(hb h + Suc j) mod 512 = (if (hb h + j) mod 512 = 511 then 0 else Suc ((hb h + j) mod 512))"
    by (simp add: mod_Suc)
  then show ?thesis by (simp add: hist_prev_def slot_def HISTSZ_def)
qed

lemma slot_HISTSZ [simp]: "slot h HISTSZ = slot h 0"
  by (simp add: slot_def)

lemma hsize_upd:
  "hb h' < HISTSZ \<Longrightarrow> k < HISTSZ \<Longrightarrow> he h' = slot h' k \<Longrightarrow> hsize h' = k"
  by (auto simp: slot_def hsize_def mod_wrap)

lemma hsize_0_iff: "hb h < HISTSZ \<Longrightarrow> he h < HISTSZ \<Longrightarrow> hsize h = 0 \<longleftrightarrow> he h = hb h"
  by (auto simp: hsize_eq)

lemma history_size_eq:
  "hb h < HISTSZ \<Longrightarrow> he h < HISTSZ \<Longrightarrow> he h \<noteq> hb h \<Longrightarrow> history_size h = hsize h"
  by (auto simp: hsize_eq history_size_def)

lemma slot_cong: "hb h' = hb h \<Longrightarrow> slot h' = slot h"
  by (simp add: slot_def fun_eq_iff)

lemma slot_shift: "hb h' = slot h 1 \<Longrightarrow> slot h' j = slot h (Suc j)"
  by (simp add: slot_def mod_simps)

lemma length_hist_list [simp]: "length (hist_list h) = hsize h"
  by (simp add: hist_list_def)

lemma hist_list_Nil_iff [simp]: "hist_list h = [] \<longleftrightarrow> hsize h = 0"
  by (simp add: hist_list_def)

lemma slot_neq_end [simp]: "j < hsize h \<Longrightarrow> slot h j \<noteq> slot h (hsize h)"
  using less_trans [OF _ hsize_less] by auto

subsection \<open>Entries\<close>

lemma histentcmd_loop_eq:
  "ent_cmd e = Buf b \<Longrightarrow> i + k \<le> length b \<Longrightarrow> i + k \<le> length cmd \<Longrightarrow>
     histentcmd_loop cmd e i k = Some (take i cmd @ map detok (take k (drop i b)) @ drop (i + k) cmd)"
proof (induction k arbitrary: i cmd)
  case (Suc k)
  have b: "take (Suc k) (drop i b) = b ! i # take k (drop (Suc i) b)"
    using Suc.prems by (metis Cons_nth_drop_Suc add_lessD1 add_Suc_right le_simps(3) less_eq_Suc_le take_Suc_Cons)
  have "histentcmd_loop cmd e i (Suc k) = histentcmd_loop (cmd[i := detok (b ! i)]) e (Suc i) k"
    using Suc.prems by (simp add: ent_peek_def memsafe detok_def)
  also have "\<dots> = Some (take (Suc i) (cmd[i := detok (b ! i)]) @ map detok (take k (drop (Suc i) b))
      @ drop (Suc i + k) cmd)"
    using Suc.prems by (subst Suc.IH) simp_all
  finally show ?case using Suc.prems by (simp add: b take_list_update_last)
qed simp

lemma histentcmd_eq:
  assumes "ent_owned sz e" "length cmd = Suc sz"
  shows "psh_histentcmd cmd e = Some (map detok (ent_line e) @ drop (ent_n e) cmd)"
  using assms
  by (auto simp: psh_histentcmd_def ent_owned_def ent_line_def histentcmd_loop_eq split: cptr.splits)

lemma printhistent_loop_eq:
  "ent_cmd e = Buf b \<Longrightarrow> i + k \<le> length b \<Longrightarrow>
     printhistent_loop e i k = Some (map detok (take k (drop i b)))"
proof (induction k arbitrary: i)
  case (Suc k)
  have "drop i b = b ! i # drop (Suc i) b"
    using Suc.prems by (simp add: Cons_nth_drop_Suc)
  then show ?case using Suc by (simp add: ent_peek_def memsafe detok_def)
qed simp

lemma printhistent_eq: "ent_owned sz e \<Longrightarrow> psh_printhistent e = Some (map detok (ent_line e))"
  by (auto simp: psh_printhistent_def ent_owned_def ent_line_def printhistent_loop_eq
      split: cptr.splits)

lemma length_ent_line: "ent_owned sz e \<Longrightarrow> length (ent_line e) = ent_n e"
  by (auto simp: ent_owned_def ent_line_def split: cptr.splits)

lemma ent_same_eq:
  "ent_owned sz e \<Longrightarrow> length cmd = Suc sz \<Longrightarrow> n \<le> sz \<Longrightarrow> n = ent_n e \<Longrightarrow>
     ent_same e cmd n = Some (take n cmd = ent_line e)"
  by (auto simp: ent_same_def ent_owned_def ent_line_def memsafe split: cptr.splits)

lemma hist_ok_init: "hist_ok sz hist_init"
  by (simp add: hist_ok_def hist_init_def hsize_def ent_unowned_def)

lemma hist_list_init [simp]: "hist_list hist_init = []"
  by (simp add: hist_list_def hist_init_def hsize_def)

section \<open>Insertion refines the abstract push\<close>

lemma hist_okD:
  assumes "hist_ok sz h"
  shows "hb h < HISTSZ" "he h < HISTSZ" "he h = slot h (hsize h)" "hb h = slot h 0"
    and "j < hsize h \<Longrightarrow> ent_owned sz (entries h (slot h j))"
    and "hsize h \<le> j \<Longrightarrow> j < HISTSZ \<Longrightarrow> ent_unowned (entries h (slot h j))"
  using assms he_slot hb_slot
  by (auto simp: hist_ok_def not_less intro: less_trans [OF _ hsize_less])

lemma last_hist_list:
  "hsize h = Suc k \<Longrightarrow> last (hist_list h) = ent_line (entries h (slot h k))"
  by (simp add: hist_list_def last_map)

lemma hist_list_eqI:
  "hsize h' = k \<Longrightarrow> length l = k \<Longrightarrow>
     (\<And>j. j < k \<Longrightarrow> ent_line (entries h' (slot h' j)) = l ! j) \<Longrightarrow> hist_list h' = l"
  by (rule nth_equalityI) (auto simp: hist_list_def)

lemma nth_hist_list: "j < hsize h \<Longrightarrow> hist_list h ! j = ent_line (entries h (slot h j))"
  by (simp add: hist_list_def)

abbreviation new_ent :: "string \<Rightarrow> nat \<Rightarrow> psh_histent" where
  "new_ent cmd n \<equiv> \<lparr>ent_n = n, ent_cmd = Buf cmd\<rparr>"

lemma new_ent_owned: "length cmd = Suc sz \<Longrightarrow> n \<le> sz \<Longrightarrow> ent_owned sz (new_ent cmd n)"
  by (simp add: ent_owned_def)

lemma new_ent_line: "ent_line (new_ent cmd n) = take n cmd"
  by (simp add: ent_line_def)

lemma hist_select_same:
  assumes ok: "hist_ok sz h" and cmd: "length cmd = Suc sz" "n \<le> sz" and k: "hsize h = Suc k"
    and same: "last (hist_list h) = take n cmd"
  shows "hist_select h cmd n =
    Some (h\<lparr>he := slot h k,
            entries := (entries h)(slot h k := (entries h (slot h k))\<lparr>ent_cmd := Freed\<rparr>)\<rparr>)"
proof -
  note D = hist_okD [OF ok]
  have own: "ent_owned sz (entries h (slot h k))" using D(5) k by simp
  have n: "n = ent_n (entries h (slot h k))"
    using same length_ent_line [OF own] cmd by (simp add: last_hist_list [OF k])
  have "he h \<noteq> hb h" using k hsize_0_iff [OF D(1,2)] by simp
  moreover have "hist_prev (he h) = slot h k" using D(3) k prev_slot by metis
  moreover have "cfree (ent_cmd (entries h (slot h k))) = Some Freed"
    using own by (auto simp: cfree_def ent_owned_def split: cptr.splits)
  ultimately show ?thesis
    using n ent_same_eq [OF own cmd n] same by (simp add: hist_select_def last_hist_list [OF k])
qed

lemma hist_select_other:
  assumes ok: "hist_ok sz h" and cmd: "length cmd = Suc sz" "n \<le> sz"
    and diff: "hist_list h \<noteq> [] \<Longrightarrow> last (hist_list h) \<noteq> take n cmd"
  shows "hist_select h cmd n = Some h"
proof (cases "hsize h")
  case 0
  then show ?thesis using hist_okD(1,2) [OF ok] by (simp add: hist_select_def hsize_0_iff)
next
  case (Suc k)
  note D = hist_okD [OF ok]
  have own: "ent_owned sz (entries h (slot h k))" using D(5) Suc by simp
  have "hist_list h \<noteq> []" using Suc length_hist_list [of h] by force
  then have "ent_line (entries h (slot h k)) \<noteq> take n cmd"
    using diff by (simp add: last_hist_list [OF Suc])
  moreover have "hist_prev (he h) = slot h k" using D(3) Suc prev_slot by metis
  ultimately show ?thesis
    using ent_same_eq [OF own cmd] by (auto simp: hist_select_def Let_def)
qed

lemma hist_update_room:
  assumes "he h = slot h k" "hb h < HISTSZ" "Suc k < HISTSZ"
  shows "hist_update h cmd n =
    Some (h\<lparr>entries := (entries h)(slot h k := new_ent cmd n), he := slot h (Suc k)\<rparr>)"
proof -
  have "slot h (Suc k) \<noteq> hb h" using assms slot_eq_iff [of "Suc k" 0 h] by (simp add: hb_slot)
  then show ?thesis using assms by (simp add: hist_update_def next_slot)
qed

lemma hist_update_full:
  assumes "he h = slot h (HISTSZ - 1)" "hb h < HISTSZ" "ent_owned sz (entries h (hb h))"
  shows "\<exists>e. \<not> ent_owned sz e \<and> ent_unowned e \<and> hist_update h cmd n =
    Some (h\<lparr>entries := (entries h)(slot h (HISTSZ - 1) := new_ent cmd n, hb h := e),
            he := hb h, hb := slot h 1\<rparr>)"
proof -
  have nx: "hist_next (he h) = hb h"
    using assms(1,2) by (simp add: next_slot hb_slot [symmetric])
  have ne: "hb h \<noteq> he h"
    using assms(1,2) slot_eq_iff [of 0 "HISTSZ - 1" h] HISTSZ_pos(2) by (simp add: hb_slot [symmetric])
  have "hist_next (hb h) = slot h 1" using assms(2) next_slot [of h 0] by (simp add: hb_slot [symmetric])
  moreover have "cfree (ent_cmd (entries h (hb h))) = Some Freed"
    using assms(3) by (auto simp: cfree_def ent_owned_def split: cptr.splits)
  ultimately show ?thesis
    using nx ne assms(1)
    by (intro exI [of _ "(entries h (hb h))\<lparr>ent_cmd := Null\<rparr>"])
      (auto simp: hist_update_def ent_owned_def ent_unowned_def)
qed

lemma add_same:
  assumes ok: "hist_ok sz h" and cmd: "length cmd = Suc sz" "n \<le> sz" and k: "hsize h = Suc k"
    and same: "last (hist_list h) = take n cmd"
  shows "\<exists>h'. hist_add h cmd n = Some h' \<and> hist_ok sz h' \<and> hist_list h' = hist_list h"
proof -
  note D = hist_okD [OF ok]
  define h' where "h' = h\<lparr>entries := (entries h)(slot h k := new_ent cmd n)\<rparr>"
  have kS: "Suc k < HISTSZ" using k hsize_less [of h] by simp
  have "hist_add h cmd n = Some h'"
    using D(1,3) k kS
    by (simp add: hist_add_def hist_select_same [OF assms] hist_update_room [where k = k] slot_def h'_def)
  moreover have h': "slot h' = slot h" "hsize h' = hsize h" "hb h' = hb h" "he h' = he h"
    by (simp_all add: slot_def fun_eq_iff hsize_def h'_def)
  moreover have "hist_ok sz h'"
    using ok kS k new_ent_owned [OF cmd] by (auto simp: hist_ok_def h') (auto simp: h'_def)
  moreover have "hist_list h' = hist_list h"
    using kS k same
    by (intro hist_list_eqI) (auto simp: h' nth_hist_list, auto simp: h'_def new_ent_line last_hist_list)
  ultimately show ?thesis by blast
qed

lemma add_room:
  assumes ok: "hist_ok sz h" and cmd: "length cmd = Suc sz" "n \<le> sz"
    and sel: "hist_select h cmd n = Some h" and room: "Suc (hsize h) < HISTSZ"
  shows "\<exists>h'. hist_add h cmd n = Some h' \<and> hist_ok sz h' \<and> hist_list h' = hist_list h @ [take n cmd]"
proof -
  note D = hist_okD [OF ok]
  define h' where "h' = h\<lparr>entries := (entries h)(slot h (hsize h) := new_ent cmd n),
                          he := slot h (Suc (hsize h))\<rparr>"
  have "hist_add h cmd n = Some h'"
    using hist_update_room [OF D(3,1) room] by (simp add: hist_add_def sel h'_def)
  moreover have h': "slot h' = slot h" "hb h' = hb h"
    by (simp_all add: slot_def fun_eq_iff h'_def)
  moreover have hs: "hsize h' = Suc (hsize h)"
    using D(1) room by (intro hsize_upd) (simp_all add: h', simp add: h'_def)
  moreover have "hist_ok sz h'"
    using D room new_ent_owned [OF cmd]
    by (auto simp: hist_ok_def h' hs) (auto simp: h'_def less_Suc_eq)
  moreover have "hist_list h' = hist_list h @ [take n cmd]"
    using hs
    by (rule hist_list_eqI)
      (auto simp: h' nth_append nth_hist_list less_Suc_eq, auto simp: h'_def new_ent_line)
  ultimately show ?thesis by blast
qed

lemma add_full:
  assumes ok: "hist_ok sz h" and cmd: "length cmd = Suc sz" "n \<le> sz"
    and sel: "hist_select h cmd n = Some h" and full: "Suc (hsize h) = HISTSZ"
  shows "\<exists>h'. hist_add h cmd n = Some h' \<and> hist_ok sz h' \<and> hist_list h' = tl (hist_list h) @ [take n cmd]"
proof -
  note D = hist_okD [OF ok]
  have pos: "0 < hsize h" using full HISTSZ_pos(2) by linarith
  have he: "he h = slot h (HISTSZ - 1)" using D(3) full by (metis diff_Suc_1)
  have own: "ent_owned sz (entries h (hb h))" using D(5) [OF pos] D(4) by metis
  obtain e where e: "ent_unowned e" "hist_update h cmd n =
    Some (h\<lparr>entries := (entries h)(slot h (HISTSZ - 1) := new_ent cmd n, hb h := e),
            he := hb h, hb := slot h 1\<rparr>)"
    using hist_update_full [OF he D(1) own] by blast
  define h' where "h' = h\<lparr>entries := (entries h)(slot h (hsize h) := new_ent cmd n, slot h 0 := e),
                          he := slot h HISTSZ, hb := slot h 1\<rparr>"
  have "HISTSZ - 1 = hsize h" using full by simp
  then have "hist_add h cmd n = Some h'"
    using e(2) D(4) by (simp add: hist_add_def sel h'_def)
  moreover have h': "slot h' j = slot h (Suc j)" for j
    by (rule slot_shift) (simp add: h'_def)
  moreover have hs: "hsize h' = hsize h"
  proof (rule hsize_upd)
    show "hb h' < HISTSZ" by (simp add: h'_def)
    show "he h' = slot h' (hsize h)" using full by (simp only: h') (simp add: h'_def)
  qed simp
  moreover have "hist_ok sz h'"
  proof -
    have "if j < hsize h then ent_owned sz (entries h' (slot h (Suc j)))
          else ent_unowned (entries h' (slot h (Suc j)))" if "j < HISTSZ" for j
    proof (cases "Suc j = HISTSZ")
      case True
      then show ?thesis using full e(1) by (simp add: h'_def)
    next
      case False
      then have "Suc j < HISTSZ" "j < hsize h" using that full by linarith+
      then show ?thesis
        using D(5) [of "Suc j"] new_ent_owned [OF cmd] full by (auto simp: h'_def)
    qed
    then show ?thesis by (auto simp: hist_ok_def hs h') (simp_all add: h'_def)
  qed
  moreover have "hist_list h' = tl (hist_list h) @ [take n cmd]"
  proof (rule hist_list_eqI [OF hs])
    fix j assume j: "j < hsize h"
    then have "Suc j < HISTSZ" using full by simp
    moreover have "j < hsize h - 1 \<longleftrightarrow> Suc j \<noteq> hsize h" using j by linarith
    ultimately show "ent_line (entries h' (slot h' j)) = (tl (hist_list h) @ [take n cmd]) ! j"
      using j by (cases "Suc j = hsize h")
        (simp_all add: h' nth_append nth_tl nth_hist_list, simp_all add: h'_def new_ent_line)
  qed (use pos in simp)
  ultimately show ?thesis by blast
qed

lemma hist_add_refines:
  assumes ok: "hist_ok sz h" and cmd: "length cmd = Suc sz" "n \<le> sz"
  shows "\<exists>h'. hist_add h cmd n = Some h' \<and> hist_ok sz h'
           \<and> hist_list h' = hist_push (hist_list h) (take n cmd)"
proof (cases "hist_list h \<noteq> [] \<and> last (hist_list h) = take n cmd")
  case True
  then obtain k where "hsize h = Suc k"
    by (cases "hsize h") auto
  then show ?thesis using True add_same [OF assms] by (auto simp: hist_push_def)
next
  case False
  then have sel: "hist_select h cmd n = Some h"
    using hist_select_other [OF ok cmd] by blast
  consider "Suc (hsize h) < HISTSZ" | "Suc (hsize h) = HISTSZ"
    using hsize_less [of h] by linarith
  then show ?thesis
  proof cases
    case 1
    then have "hsize h \<noteq> HISTSZ - 1" by linarith
    with 1 False add_room [OF assms sel] show ?thesis by (auto simp: hist_push_def)
  next
    case 2
    then have "hsize h = HISTSZ - 1" "0 < hsize h" using HISTSZ_pos(2) by linarith+
    with 2 False add_full [OF assms sel] show ?thesis by (auto simp: hist_push_def)
  qed
qed

section \<open>Release\<close>

lemma hist_free_loop_ok:
  "hsize h \<le> j + k \<Longrightarrow> j \<le> hsize h \<Longrightarrow>
   (\<And>i. j \<le> i \<Longrightarrow> i < hsize h \<Longrightarrow> ent_owned sz (es (slot h i))) \<Longrightarrow>
   \<exists>es'. hist_free_loop k (slot h j) (slot h (hsize h)) es = Some es' \<and>
     (\<forall>i < HISTSZ. if j \<le> i \<and> i < hsize h then ent_unowned (es' (slot h i))
                    else es' (slot h i) = es (slot h i))"
proof (induction k arbitrary: j es)
  case (Suc k)
  show ?case
  proof (cases "j = hsize h")
    case False
    then have j: "j < hsize h" "j < HISTSZ" using Suc.prems hsize_less [of h] by linarith+
    let ?es = "es(slot h j := (es (slot h j))\<lparr>ent_cmd := Freed\<rparr>)"
    have "cfree (ent_cmd (es (slot h j))) = Some Freed"
      using Suc.prems(3) [of j] j by (auto simp: cfree_def ent_owned_def split: cptr.splits)
    then have step: "hist_free_loop (Suc k) (slot h j) (slot h (hsize h)) es =
        hist_free_loop k (slot h (Suc j)) (slot h (hsize h)) ?es"
      using j by (simp add: next_slot)
    have own: "ent_owned sz (?es (slot h i))" if "Suc j \<le> i" "i < hsize h" for i
      using that j Suc.prems(3) [of i] less_trans [OF _ hsize_less, of i h] by simp
    have "\<exists>es'. hist_free_loop k (slot h (Suc j)) (slot h (hsize h)) ?es = Some es' \<and>
        (\<forall>i < HISTSZ. if Suc j \<le> i \<and> i < hsize h then ent_unowned (es' (slot h i))
                       else es' (slot h i) = ?es (slot h i))"
      using Suc.prems j by (intro Suc.IH own) auto
    then obtain es' where es': "hist_free_loop k (slot h (Suc j)) (slot h (hsize h)) ?es = Some es'"
      "\<And>i. i < HISTSZ \<Longrightarrow> if Suc j \<le> i \<and> i < hsize h then ent_unowned (es' (slot h i))
                       else es' (slot h i) = ?es (slot h i)" by blast
    have "if j \<le> i \<and> i < hsize h then ent_unowned (es' (slot h i))
          else es' (slot h i) = es (slot h i)" if "i < HISTSZ" for i
      using es'(2) [OF that] that j by (cases "i = j") (auto simp: ent_unowned_def)
    with step es'(1) show ?thesis by auto
  qed auto
qed auto

lemma hist_free_all:
  assumes "hist_ok sz h"
  obtains es where "hist_free_loop HISTSZ (hb h) (he h) (entries h) = Some es"
    and "\<And>i. i < HISTSZ \<Longrightarrow> ent_unowned (es i)"
proof -
  note D = hist_okD [OF assms]
  obtain es where es: "hist_free_loop HISTSZ (slot h 0) (slot h (hsize h)) (entries h) = Some es"
    "\<forall>i < HISTSZ. if 0 \<le> i \<and> i < hsize h then ent_unowned (es (slot h i))
                   else es (slot h i) = entries h (slot h i)"
    using hist_free_loop_ok [of h 0 HISTSZ sz "entries h"] D(5) hsize_less [of h] by auto
  have "ent_unowned (es i)" if "i < HISTSZ" for i
  proof -
    define j where "j = (i + HISTSZ - hb h) mod HISTSZ"
    have "j < HISTSZ" by (simp add: j_def)
    moreover have "i = slot h j"
      using that D(1) by (auto simp: j_def slot_def mod_if split: if_splits)
    ultimately show ?thesis using es(2) D(6) [of j] by (cases "j < hsize h") auto
  qed
  with es(1) D(3,4) that show thesis by metis
qed

lemma hist_clear_ok:
  "hist_ok sz h \<Longrightarrow> \<exists>h'. hist_clear h = Some h' \<and> hist_ok sz h' \<and> hist_list h' = []"
  by (rule hist_free_all) (auto simp: hist_clear_def hist_ok_def hsize_def)

lemma hist_release_ok:
  "hist_ok sz h \<Longrightarrow> \<exists>h'. hist_release h = Some h' \<and> hist_list h' = []
     \<and> (\<forall>i < HISTSZ. ent_unowned (entries h' i))"
  by (rule hist_free_all) (auto simp: hist_release_def hist_ok_def hsize_def)

section \<open>Printing\<close>

definition history_line :: "nat \<Rightarrow> nat \<Rightarrow> string \<Rightarrow> string" where
  "history_line c i s = ''  '' @ padl c (dec (i + 1)) @ ''  '' @ map detok s @ [CHR 0x0A]"

lemma history_lines_eq:
  assumes "hist_ok sz h"
  shows "\<forall>i \<in> set is. i < hsize h \<Longrightarrow>
    history_lines h c is = Some (concat (map (\<lambda>i. history_line c i (hist_list h ! i)) is))"
proof (induction "is")
  case (Cons i "is")
  then have "ent_owned sz (entries h ((hb h + i) mod HISTSZ))"
    using hist_okD(5) [OF assms, of i] by (simp add: slot_def)
  with Cons show ?case
    by (simp add: printhistent_eq history_line_def nth_hist_list slot_def)
qed simp

section \<open>The interface of a bounded log, and the ring as its implementation\<close>

text \<open>
  What a client of the history relies on: insertion keeps the invariant and appends the line to a
  bounded list without immediate repetitions; clearing empties it.
\<close>

fun add_all :: "('h \<Rightarrow> string \<Rightarrow> nat \<Rightarrow> 'h option) \<Rightarrow> 'h \<Rightarrow> (string \<times> nat) list \<Rightarrow> 'h option" where
  "add_all f h [] = Some h"
| "add_all f h ((cmd, n) # cs) = do { h' \<leftarrow> f h cmd n; add_all f h' cs }"

locale line_log =
  fixes log_init :: "'h"
    and add :: "'h \<Rightarrow> string \<Rightarrow> nat \<Rightarrow> 'h option"
    and clear :: "'h \<Rightarrow> 'h option"
    and contents :: "'h \<Rightarrow> string list"
    and ok :: "nat \<Rightarrow> 'h \<Rightarrow> bool"
    and bound :: nat
  assumes ok_init: "ok sz log_init"
    and contents_init: "contents log_init = []"
    and add_spec: "ok sz h \<Longrightarrow> length cmd = Suc sz \<Longrightarrow> n \<le> sz \<Longrightarrow>
       \<exists>h'. add h cmd n = Some h' \<and> ok sz h' \<and> contents h' =
         (if contents h \<noteq> [] \<and> last (contents h) = take n cmd then contents h
          else if length (contents h) = bound then tl (contents h) @ [take n cmd]
          else contents h @ [take n cmd])"
    and clear_spec: "ok sz h \<Longrightarrow> \<exists>h'. clear h = Some h' \<and> ok sz h' \<and> contents h' = []"
    and bound_pos: "0 < bound"
begin

lemma add_last:
  "ok sz h \<Longrightarrow> length cmd = Suc sz \<Longrightarrow> n \<le> sz \<Longrightarrow> add h cmd n = Some h' \<Longrightarrow>
     contents h' \<noteq> [] \<and> last (contents h') = take n cmd"
  using add_spec [of sz h cmd n] by (auto split: if_splits)

lemma add_bound:
  "ok sz h \<Longrightarrow> length cmd = Suc sz \<Longrightarrow> n \<le> sz \<Longrightarrow> length (contents h) \<le> bound \<Longrightarrow>
     add h cmd n = Some h' \<Longrightarrow> length (contents h') \<le> bound"
  using add_spec [of sz h cmd n] bound_pos by (auto split: if_splits)

lemma add_distinct:
  assumes "ok sz h" "length cmd = Suc sz" "n \<le> sz" "add h cmd n = Some h'" "distinct_adj (contents h)"
  shows "distinct_adj (contents h')"
proof -
  have "distinct_adj (tl (contents h))"
    using assms(5) by (cases "contents h") (auto simp: distinct_adj_Cons)
  moreover have "last (tl (contents h)) = last (contents h)" if "tl (contents h) \<noteq> []"
    using that by (simp add: last_tl)
  ultimately show ?thesis
    using add_spec [OF assms(1-3)] assms(4,5)
    by (auto simp: distinct_adj_append_iff split: if_splits)
qed

lemma add_all_spec:
  "ok sz h \<Longrightarrow> (\<And>cmd n. (cmd, n) \<in> set cs \<Longrightarrow> length cmd = Suc sz \<and> n \<le> sz) \<Longrightarrow>
   length (contents h) \<le> bound \<Longrightarrow> distinct_adj (contents h) \<Longrightarrow>
     \<exists>h'. add_all add h cs = Some h' \<and> ok sz h' \<and> length (contents h') \<le> bound
       \<and> distinct_adj (contents h')
       \<and> (cs \<noteq> [] \<longrightarrow> last (contents h') = take (snd (last cs)) (fst (last cs)))"
proof (induction cs arbitrary: h)
  case (Cons c cs)
  obtain cmd n where c: "c = (cmd, n)" by fastforce
  with Cons.prems have b: "length cmd = Suc sz" "n \<le> sz" by auto
  obtain h1 where h1: "add h cmd n = Some h1" "ok sz h1"
    using add_spec [OF Cons.prems(1) b] by blast
  note props = add_bound [OF Cons.prems(1) b Cons.prems(3) h1(1)]
    add_distinct [OF Cons.prems(1) b h1(1) Cons.prems(4)]
  obtain h' where "add_all add h1 cs = Some h'" "ok sz h'" "length (contents h') \<le> bound"
    "distinct_adj (contents h')"
    "cs \<noteq> [] \<longrightarrow> last (contents h') = take (snd (last cs)) (fst (last cs))"
    using Cons.IH [OF h1(2) _ props] Cons.prems(2) by auto
  with c h1(1) add_last [OF Cons.prems(1) b h1(1)] show ?case by (cases cs) auto
qed simp

end

interpretation ring: line_log hist_init hist_add hist_clear hist_list hist_ok "HISTSZ - 1"
proof unfold_locales
  show "\<exists>h'. hist_add h cmd n = Some h' \<and> hist_ok sz h' \<and> hist_list h' =
         (if hist_list h \<noteq> [] \<and> last (hist_list h) = take n cmd then hist_list h
          else if length (hist_list h) = HISTSZ - 1 then tl (hist_list h) @ [take n cmd]
          else hist_list h @ [take n cmd])"
    if "hist_ok sz h" "length cmd = Suc sz" "n \<le> sz" for sz h cmd n
    using hist_add_refines [OF that] by (simp only: hist_push_def)
qed (use hist_clear_ok in \<open>auto simp: hist_ok_init HISTSZ_def\<close>)

section \<open>Properties\<close>

text \<open>
  C8: Adding a command to the history never touches freed or foreign memory, keeps the ring
  invariant (in particular no buffer is owned outside the live range, so nothing leaks), and
  changes the list of remembered lines exactly as specified: a line equal to the newest one is
  not stored again, the oldest line is dropped when 511 are stored, and otherwise the line is
  appended.
\<close>

theorem hist_add_correct:
  assumes "hist_ok sz h" "length cmd = Suc sz" "n \<le> sz"
  shows "\<exists>h'. hist_add h cmd n = Some h' \<and> hist_ok sz h'
           \<and> hist_list h' = hist_push (hist_list h) (take n cmd)"
  using assms by (rule hist_add_refines)

theorem hist_add_correct_witness:
  "hist_ok 3 hist_init \<and>
   (\<exists>h'. hist_add hist_init (''ls'' @ [NUL, NUL]) 2 = Some h' \<and> hist_ok 3 h'
           \<and> hist_list h' = hist_push (hist_list hist_init) (take 2 (''ls'' @ [NUL, NUL])))"
  by (intro conjI hist_ok_init hist_add_correct) simp_all

text \<open>
  C7: Over a whole session that starts with an empty history, every insertion succeeds, at most
  511 lines are remembered, no two neighbouring lines are equal, and the newest line is the last
  command entered.
\<close>

theorem hist_session:
  assumes "\<forall>(cmd, n) \<in> set cs. length cmd = Suc sz \<and> n \<le> sz"
  shows "\<exists>h. add_all hist_add hist_init cs = Some h \<and> hist_ok sz h \<and> length (hist_list h) \<le> 511
           \<and> distinct_adj (hist_list h)
           \<and> (cs \<noteq> [] \<longrightarrow> last (hist_list h) = take (snd (last cs)) (fst (last cs)))"
  using ring.add_all_spec [OF hist_ok_init, of cs sz] assms by (auto simp: HISTSZ_def)

definition example_cmds :: "(string \<times> nat) list" where
  "example_cmds = [(''ls'' @ [NUL], 2), (''ls'' @ [NUL], 2), (''ps'' @ [NUL], 2)]"

theorem hist_session_witness:
  "\<exists>h. add_all hist_add hist_init example_cmds = Some h \<and> hist_ok 2 h \<and> length (hist_list h) \<le> 511
     \<and> distinct_adj (hist_list h)
     \<and> (example_cmds \<noteq> [] \<longrightarrow>
          last (hist_list h) = take (snd (last example_cmds)) (fst (last example_cmds)))"
  by (rule hist_session) (simp add: example_cmds_def)

text \<open>
  The \<open>history\<close> builtin. Without arguments it prints every remembered line once, oldest
  first, numbered from 1 and with the separators shown as spaces, and changes nothing; with
  \<open>-c\<close> it empties the history without a double free; an unknown option or an operand prints the
  help text, fails and leaves the history alone.
\<close>

lemma psh_history_correct:
  assumes ok: "hist_ok sz h" and ne: "hist_list h \<noteq> []"
  shows "(\<exists>c. psh_log 10 (length (hist_list h)) = Some c \<and> psh_history (Some h) [] =
            Some (0, Some h, concat (map (\<lambda>i. history_line (nat (c + 1)) i (hist_list h ! i))
                                       [0 ..< length (hist_list h)])))
     \<and> (\<exists>h'. psh_history (Some h) [''-c''] = Some (0, Some h', []) \<and> hist_ok sz h'
            \<and> hist_list h' = [])
     \<and> psh_history (Some h) [''-x''] = Some (1, Some h, historyhelp)
     \<and> psh_history (Some h) [''all''] = Some (1, Some h, historyhelp)"
proof (intro conjI)
  note D = hist_okD [OF ok]
  have sz: "history_size h = length (hist_list h)"
    using history_size_eq [OF D(1,2)] ne hsize_0_iff [OF D(1,2)] by simp
  obtain k where k: "psh_log 10 (length (hist_list h)) = Some (int k)"
    by (rule psh_log_eq [of 10 "length (hist_list h)"]) auto
  have "history_lines h c [0 ..< length (hist_list h)] =
      Some (concat (map (\<lambda>i. history_line c i (hist_list h ! i)) [0 ..< length (hist_list h)]))" for c
    by (rule history_lines_eq [OF ok]) simp
  with k sz show "\<exists>c. psh_log 10 (length (hist_list h)) = Some c \<and> psh_history (Some h) [] =
            Some (0, Some h, concat (map (\<lambda>i. history_line (nat (c + 1)) i (hist_list h ! i))
                                       [0 ..< length (hist_list h)]))"
    by (simp add: psh_history_def)
  show "\<exists>h'. psh_history (Some h) [''-c''] = Some (0, Some h', []) \<and> hist_ok sz h' \<and> hist_list h' = []"
    using hist_clear_ok [OF ok]
    by (auto simp: psh_history_def is_opt_word_def history_opt_def Let_def)
qed (simp_all add: psh_history_def is_opt_word_def history_opt_def Let_def)

text \<open>
  At the end of a session every command buffer still owned by the history is freed exactly
  once: the release succeeds and afterwards no entry owns a buffer.
\<close>

lemma hist_release_complete:
  assumes "hist_ok sz h"
  shows "\<exists>h'. hist_release h = Some h' \<and> hist_list h' = []
           \<and> (\<forall>i < HISTSZ. ent_unowned (entries h' i))"
  using assms by (rule hist_release_ok)

definition hist_example :: psh_hist where
  "hist_example = \<lparr>hb = 0, he = 1,
     entries = (\<lambda>_. \<lparr>ent_n = 0, ent_cmd = Null\<rparr>)(0 := \<lparr>ent_n = 2, ent_cmd = Buf (''ls'' @ [NUL])\<rparr>)\<rparr>"

lemma hist_example_ok: "hist_ok 2 hist_example" "hist_list hist_example = [''ls'']"
  by (auto simp: hist_ok_def hist_example_def hsize_def slot_def ent_owned_def ent_unowned_def
      hist_list_def ent_line_def HISTSZ_def)

end
