(* ===== verification/Keys.thy ===== *)
theory Keys
  imports Prelude
begin

text \<open>
  Building blocks of the line editor of \<open>src/psh/pshapp/pshapp.c\<close>: cursor movement on the
  terminal (\<open>psh_movecursor\<close>), decoding of escape sequences (\<open>psh_keyCode\<close>) and word motion
  (\<open>psh_skipword\<close>).
\<close>

section \<open>Terminal output\<close>

text \<open>
  What the editor writes: text, and the four cursor movements it prints as \<open>ESC [ k A\<close>,
  \<open>B\<close>, \<open>C\<close> and \<open>D\<close>.
\<close>

datatype tty_out = Text string | CUU nat | CUD nat | CUF nat | CUB nat

text \<open>
  \<open>psh_movecursor(col, n)\<close> for a terminal of width \<open>w\<close> (\<open>ws_col\<close>; the code takes 80 when the
  \<open>ioctl\<close> fails). The remainder by a width of 0 would trap: \<open>None\<close>.
\<close>

definition ws_col :: "nat option \<Rightarrow> nat" where
  "ws_col io = (case io of None \<Rightarrow> 80 | Some w \<Rightarrow> w)"

definition mc_vertical :: "int \<Rightarrow> int \<Rightarrow> int \<Rightarrow> int \<times> tty_out list" where
  "mc_vertical w col n =
     (if col + n < 0 then
        let p = (- (col + n) + w - 1) div w in (n + p * w, [CUU (nat p)])
      else if col + n > w - 1 then
        let p = (col + n) div w in (n - p * w, [CUD (nat p)])
      else (n, []))"

definition mc_horizontal :: "int \<Rightarrow> tty_out list" where
  "mc_horizontal n = (if n > 0 then [CUF (nat n)] else if n < 0 then [CUB (nat (- n))] else [])"

definition psh_movecursor :: "nat \<Rightarrow> nat \<Rightarrow> int \<Rightarrow> tty_out list option" where
  "psh_movecursor w col n =
     (if w = 0 then None
      else let r = mc_vertical (int w) (int (col mod w)) n in Some (snd r @ mc_horizontal (fst r)))"

text \<open>A cursor on an endless page: row and column; the movements do not leave the page's width.\<close>

fun cursor_step :: "int \<times> int \<Rightarrow> tty_out \<Rightarrow> int \<times> int" where
  "cursor_step (r, c) (CUU k) = (r - int k, c)"
| "cursor_step (r, c) (CUD k) = (r + int k, c)"
| "cursor_step (r, c) (CUF k) = (r, c + int k)"
| "cursor_step (r, c) (CUB k) = (r, c - int k)"
| "cursor_step (r, c) (Text s) = (r, c)"

definition cursor_run :: "int \<times> int \<Rightarrow> tty_out list \<Rightarrow> int \<times> int" where
  "cursor_run p os = fold (\<lambda>t p. cursor_step p t) os p"

lemma ceil_div:
  fixes a w :: int
  assumes "0 < w" "0 < a"
  shows "a \<le> ((a + w - 1) div w) * w" "((a + w - 1) div w) * w < a + w"
proof -
  have "((a + w - 1) div w) * w = a + w - 1 - (a + w - 1) mod w"
    by (simp add: minus_mod_eq_div_mult)
  moreover have "0 \<le> (a + w - 1) mod w" "(a + w - 1) mod w < w" using assms by simp_all
  ultimately show "a \<le> ((a + w - 1) div w) * w" "((a + w - 1) div w) * w < a + w" by linarith+
qed

lemma cursor_horizontal: "cursor_run (r, c) (mc_horizontal n) = (r, c + n)"
  by (simp add: cursor_run_def mc_horizontal_def)

text \<open>The vertical part moves by whole rows and leaves a remaining shift within the row.\<close>

lemma mc_vertical_exact:
  fixes w c :: int
  assumes w: "0 < w" and c: "0 \<le> c" "c < w" and v: "mc_vertical w c n = (n', os)"
  shows "\<exists>q. cursor_run (r, c) os = (r + q, c) \<and> q * w + n' = n \<and> 0 \<le> c + n' \<and> c + n' < w"
proof -
  consider "c + n < 0" | "c + n > w - 1" | "0 \<le> c + n" "c + n \<le> w - 1" by linarith
  then show ?thesis
  proof cases
    case 1
    define p where "p = (- (c + n) + w - 1) div w"
    have p: "- (c + n) \<le> p * w" "p * w < - (c + n) + w"
      using ceil_div [of w "- (c + n)"] w 1 by (simp_all add: p_def)
    have "0 < p * w" using p(1) 1 by linarith
    then have "0 \<le> p" using w by (simp add: zero_less_mult_iff)
    moreover have "n' = n + p * w" "os = [CUU (nat p)]"
      using v 1 by (simp_all add: mc_vertical_def p_def Let_def)
    ultimately show ?thesis using p by (intro exI [of _ "- p"]) (simp add: cursor_run_def)
  next
    case 2
    define p where "p = (c + n) div w"
    have "(c + n) div w * w + (c + n) mod w = c + n" by simp
    moreover have "0 \<le> (c + n) mod w" "(c + n) mod w < w" using w by simp_all
    ultimately have p: "p * w \<le> c + n" "c + n < p * w + w" unfolding p_def by linarith+
    have "0 \<le> p" using 2 w c by (simp add: p_def pos_imp_zdiv_nonneg_iff)
    moreover have "n' = n - p * w" "os = [CUD (nat p)]"
      using v 2 c by (simp_all add: mc_vertical_def p_def Let_def)
    ultimately show ?thesis using p by (intro exI [of _ p]) (simp add: cursor_run_def)
  next
    case 3
    with v show ?thesis by (auto simp: mc_vertical_def cursor_run_def)
  qed
qed

lemma cursor_run_append: "cursor_run p (xs @ ys) = cursor_run (cursor_run p xs) ys"
  by (simp add: cursor_run_def)

lemma movecursor_exact:
  assumes w: "0 < w"
  shows "\<exists>os. psh_movecursor w col n = Some os \<and>
    (\<exists>r' c'. cursor_run (int (col div w), int (col mod w)) os = (r', c')
       \<and> 0 \<le> c' \<and> c' < int w \<and> r' * int w + c' = int col + n)"
proof -
  obtain n' os where v: "mc_vertical (int w) (int (col mod w)) n = (n', os)" by fastforce
  have b: "0 < int w" "0 \<le> int (col mod w)" "int (col mod w) < int w" using w by simp_all
  obtain q where q: "cursor_run (int (col div w), int (col mod w)) os
      = (int (col div w) + q, int (col mod w))" "q * int w + n' = n"
    "0 \<le> int (col mod w) + n'" "int (col mod w) + n' < int w"
    using mc_vertical_exact [OF b v] by blast
  have "int col = int (col div w) * int w + int (col mod w)"
    by (simp flip: of_nat_mult of_nat_add)
  with q have "(int (col div w) + q) * int w + (int (col mod w) + n') = int col + n"
    by (simp add: distrib_right)
  with q w v show ?thesis
    by (simp add: psh_movecursor_def Let_def cursor_run_append cursor_horizontal)
qed

lemma movecursor_Some: "0 < w \<Longrightarrow> \<exists>os. psh_movecursor w col n = Some os"
  using movecursor_exact by blast

section \<open>Escape sequences\<close>

datatype keycode =
    kUp | kDown | kRight | kLeft | kDelete | kHome | kEnd | kCtrlRight | kCtrlLeft | kCtrlUp
  | kCtrlDown | kAltRight | kAltLeft | kAltUp | kAltDown | kAltD

datatype keyres = KAgain | KInval | Key keycode

definition escKeys :: "(char \<times> keycode) list" where
  "escKeys = [(CHR ''f'', kAltRight), (CHR ''b'', kAltLeft), (CHR ''d'', kAltD)]"

definition csiKeys :: "(string \<times> keycode) list" where
  "csiKeys =
     [(''A'', kUp), (''B'', kDown), (''C'', kRight), (''D'', kLeft), (''F'', kEnd), (''H'', kHome),
      (''1;5C'', kCtrlRight), (''1;5D'', kCtrlLeft), (''1;5A'', kCtrlUp), (''1;5B'', kCtrlDown),
      (''1~'', kHome), (''3~'', kDelete), (''4~'', kEnd), (''7~'', kHome), (''8~'', kEnd),
      (''1;3C'', kAltRight), (''1;3D'', kAltLeft), (''1;3A'', kAltUp), (''1;3B'', kAltDown)]"

text \<open>\<open>strncmp(a, b, k) == 0\<close> for two C strings given by their characters.\<close>

fun strncmp_eq :: "string \<Rightarrow> string \<Rightarrow> nat \<Rightarrow> bool" where
  "strncmp_eq a b 0 = True"
| "strncmp_eq [] [] (Suc k) = True"
| "strncmp_eq (x # xs) (y # ys) (Suc k) = (x = y \<and> strncmp_eq xs ys k)"
| "strncmp_eq _ _ (Suc k) = False"

text \<open>The loop over \<open>csiKeys\<close>: the first entry that the received bytes are a prefix of decides.\<close>

fun csi_loop :: "string \<Rightarrow> nat \<Rightarrow> (string \<times> keycode) list \<Rightarrow> keyres" where
  "csi_loop b k [] = KInval"
| "csi_loop b k ((seq, key) # ks) =
     (if \<not> strncmp_eq b seq k then csi_loop b k ks
      else if k \<noteq> length seq then KAgain
      else Key key)"

text \<open>
  \<open>psh_keyCode\<close>: the result and the new value of \<open>*pEsc\<close>. Only a complete CSI or SS3 sequence
  resets it. Reading the bytes received so far is checked against the buffer of 8.
\<close>

definition psh_keyCode :: "string \<Rightarrow> nat \<Rightarrow> (keyres \<times> nat) option" where
  "psh_keyCode buff esc =
     (if esc < 3 then Some (KAgain, esc)
      else do {
        b0 \<leftarrow> peek buff 0; b1 \<leftarrow> peek buff 1; b2 \<leftarrow> peek buff 2;
        if b0 = CHR ''^'' \<and> b1 = CHR ''['' \<and> b2 \<noteq> CHR ''['' \<and> b2 \<noteq> CHR ''O'' then
          Some (case map_of escKeys b2 of Some k \<Rightarrow> Key k | None \<Rightarrow> KInval, esc)
        else if esc < 4 then Some (KAgain, esc)
        else if b0 = CHR ''^'' \<and> b1 = CHR ''['' \<and> (b2 = CHR ''['' \<or> b2 = CHR ''O'') then do {
          b \<leftarrow> cslice buff 3 (esc - 3);
          let r = csi_loop (cstr b) (esc - 3) csiKeys;
          Some (r, case r of Key _ \<Rightarrow> 0 | _ \<Rightarrow> esc)
        }
        else Some (KInval, esc)
      })"

lemma keyCode_Some:
  "length buff = 8 \<Longrightarrow> esc \<le> 8 \<Longrightarrow> \<exists>r e. psh_keyCode buff esc = Some (r, e) \<and> (e = esc \<or> e = 0)"
  by (auto simp: psh_keyCode_def peek_def cslice_def Let_def split: keyres.splits)

section \<open>Word motion\<close>

text \<open>
  \<open>psh_skipword\<close> over the characters in the order it walks over them (forwards from the cursor,
  or backwards from the character before it): the delimiters first, then the word.
\<close>

fun skip_while :: "(char \<Rightarrow> bool) \<Rightarrow> string \<Rightarrow> nat" where
  "skip_while p [] = 0"
| "skip_while p (c # cs) = (if p c then Suc (skip_while p cs) else 0)"

definition psh_skipword :: "(char \<Rightarrow> bool) \<Rightarrow> string \<Rightarrow> nat" where
  "psh_skipword iswordchr walk =
     (let i = skip_while (\<lambda>c. \<not> iswordchr c) walk in i + skip_while iswordchr (drop i walk))"

lemma skip_while_eq: "skip_while p cs = length (takeWhile p cs)"
  by (induction cs) auto

lemma skip_while_le: "skip_while p cs \<le> length cs"
  by (simp add: skip_while_eq length_takeWhile_le)

lemma skipword_le: "psh_skipword p cs \<le> length cs"
  using skip_while_le [of "\<lambda>c. \<not> p c" cs] skip_while_le [of p "drop (skip_while (\<lambda>c. \<not> p c) cs) cs"]
  by (simp add: psh_skipword_def Let_def)

text \<open>The skipped part is a run of delimiters followed by a maximal run of word characters.\<close>

lemma skipword_split:
  obtains d w r where "cs = d @ w @ r" "psh_skipword p cs = length d + length w"
    "\<forall>c \<in> set d. \<not> p c" "\<forall>c \<in> set w. p c" "r = [] \<or> \<not> p (hd r)" "w = [] \<longrightarrow> r = []"
proof
  let ?d = "takeWhile (\<lambda>c. \<not> p c) cs" and ?s = "dropWhile (\<lambda>c. \<not> p c) cs"
  show "cs = ?d @ takeWhile p ?s @ dropWhile p ?s" by simp
  show "psh_skipword p cs = length ?d + length (takeWhile p ?s)"
    by (simp add: psh_skipword_def Let_def skip_while_eq dropWhile_eq_drop)
  show "dropWhile p ?s = [] \<or> \<not> p (hd (dropWhile p ?s))"
    using hd_dropWhile by blast
  show "takeWhile p ?s = [] \<longrightarrow> dropWhile p ?s = []"
  proof (cases ?s)
    case (Cons a as)
    then have "p a" using hd_dropWhile [of "\<lambda>c. \<not> p c" cs] by fastforce
    then show ?thesis by (simp add: Cons)
  qed (simp only: dropWhile.simps simp_thms)
qed (auto dest: set_takeWhileD)

section \<open>Properties\<close>

text \<open>
  Cursor movement. On a terminal of any positive width \<open>w\<close>, with the cursor at the screen
  position of column \<open>col\<close> of a wrapped line, \<open>psh_movecursor(col, n)\<close> prints movements that end
  at the screen position of column \<open>col + n\<close> of that line: the right row and a column within
  the width.
\<close>

lemma psh_movecursor_exact:
  assumes "0 < w"
  shows "\<exists>os. psh_movecursor w col n = Some os \<and>
    (\<exists>r' c'. cursor_run (int (col div w), int (col mod w)) os = (r', c')
       \<and> 0 \<le> c' \<and> c' < int w \<and> r' * int w + c' = int col + n)"
  using assms by (rule movecursor_exact)

end
