(* ===== verification/Complete.thy ===== *)
theory Complete
  imports Keys "HOL-Library.Multiset" "HOL-Library.List_Lexorder"
begin

text \<open>
  Path completion of \<open>src/psh/pshapp/pshapp.c\<close>: \<open>psh_completepath\<close> collects the directory
  entries that start with the typed name, \<open>psh_printfiles\<close> prints them in columns.

  The directory listing (names and whether \<open>d_type\<close> says directory) and the success of each
  allocation, in the order the code makes them, are parameters.
\<close>

section \<open>Collecting candidates\<close>

definition complete_match :: "string \<Rightarrow> string \<Rightarrow> bool" where
  "complete_match base name \<longleftrightarrow>
     \<not> (length name < length base \<or> \<not> strncmp_eq name base (length base)) \<and>
     \<not> (base = [] \<and> (name = ''.'' \<or> name = ''..''))"

definition complete_mark :: "string \<times> bool \<Rightarrow> string" where
  "complete_mark e = fst e @ [if snd e then CHR ''/'' else CHR '' '']"

fun complete_loop ::
  "(nat \<Rightarrow> bool) \<Rightarrow> string \<Rightarrow> nat \<Rightarrow> nat \<Rightarrow> string list \<Rightarrow> (string \<times> bool) list \<Rightarrow> int + string list"
where
  "complete_loop alloc base k sz files [] = Inr files"
| "complete_loop alloc base k sz files (e # es) =
     (if \<not> complete_match base (fst e) then complete_loop alloc base k sz files es
      else if length files = sz then
        (if \<not> alloc k then Inl (- ENOMEM)
         else if \<not> alloc (k + 1) then Inl (- ENOMEM)
         else complete_loop alloc base (k + 2) (2 * sz) (files @ [complete_mark e]) es)
      else if \<not> alloc k then Inl (- ENOMEM)
      else complete_loop alloc base (k + 1) sz (files @ [complete_mark e]) es)"

definition psh_completepath ::
  "(nat \<Rightarrow> bool) \<Rightarrow> (string \<times> bool) list option \<Rightarrow> string \<Rightarrow> int + string list" where
  "psh_completepath alloc listing base = (case listing of
     None \<Rightarrow> Inr []
   | Some es \<Rightarrow> if \<not> alloc 0 then Inl (- ENOMEM) else complete_loop alloc base 1 32 [] es)"

text \<open>\<open>qsort\<close> with \<open>strcasecmp\<close>: one of the orders it may give (equal names keep their order).\<close>

definition tolower :: "char \<Rightarrow> nat" where
  "tolower c = (if 65 \<le> code c \<and> code c \<le> 90 then code c + 32 else code c)"

definition qsort_names :: "string list \<Rightarrow> string list" where
  "qsort_names files = sort_key (map tolower) files"

section \<open>Printing in columns\<close>

text \<open>The width of every column for a given number of rows: the longest name plus 2.\<close>

fun pf_widths_loop :: "string list \<Rightarrow> nat \<Rightarrow> nat \<Rightarrow> int list \<Rightarrow> int list option" where
  "pf_widths_loop [] rows i colsz = Some colsz"
| "pf_widths_loop (f # fs) rows i colsz = do {
     cur \<leftarrow> peek colsz (i div rows);
     colsz' \<leftarrow> (if int (length f) + 2 > cur then poke colsz (i div rows) (int (length f) + 2)
                else Some colsz);
     pf_widths_loop fs rows (Suc i) colsz'
   }"

definition pf_widths :: "string list \<Rightarrow> nat \<Rightarrow> nat \<Rightarrow> int list option" where
  "pf_widths files rows cols = do {
     colsz \<leftarrow> pf_widths_loop files rows 0 (replicate cols 0);
     last \<leftarrow> peek colsz (cols - 1);
     poke colsz (cols - 1) (last - 2)
   }"

text \<open>\<open>nfiles / rows + !!(nfiles % rows)\<close>\<close>

definition pf_cols :: "nat \<Rightarrow> nat \<Rightarrow> nat" where
  "pf_cols nfiles rows = nfiles div rows + (if nfiles mod rows \<noteq> 0 then 1 else 0)"

text \<open>
  The search for the least number of rows that fits. \<open>room\<close> is the number of integers allocated
  for the column widths; \<open>None\<close> as the last component is an array that was never written.
\<close>

function pf_rows ::
  "nat \<Rightarrow> string list \<Rightarrow> nat \<Rightarrow> nat \<Rightarrow> nat \<Rightarrow> int list option \<Rightarrow> (nat \<times> nat \<times> int list option) option"
where
  "pf_rows w files room rows cols colsz =
     (if rows \<le> length files \<and> rows \<noteq> 0 then
        let cols' = pf_cols (length files) rows
        in if room < cols' then None
           else do {
             cs \<leftarrow> pf_widths files rows cols';
             if sum_list cs < int w then Some (rows, cols', Some cs)
             else pf_rows w files room (rows + 1) cols' (Some cs)
           }
      else Some (rows, cols, colsz))"
  by pat_completeness auto
termination
  by (relation "measure (\<lambda>(w, files, room, rows, cols, colsz). length files + 1 - rows)") auto

declare pf_rows.simps [simp del]

text \<open>\<open>%-*s\<close>\<close>

definition padr :: "int \<Rightarrow> string \<Rightarrow> string" where
  "padr width s = s @ replicate (nat \<bar>width\<bar> - length s) CHR '' ''"

fun pf_row :: "nat \<Rightarrow> string list \<Rightarrow> nat \<Rightarrow> int list option \<Rightarrow> nat \<Rightarrow> nat list \<Rightarrow> (nat \<times> string) list option"
where
  "pf_row w files rows colsz row [] = Some []"
| "pf_row w files rows colsz row (col # cs) = do {
     let i = col * rows + row;
     if i \<ge> length files then pf_row w files rows colsz row cs
     else do {
       ws \<leftarrow> colsz;
       len \<leftarrow> peek ws col;
       r \<leftarrow> pf_row w files rows colsz row cs;
       Some ((i, padr (if len > int w then int w else len) (files ! i)) # r)
     }
   }"

fun pf_print :: "nat \<Rightarrow> string list \<Rightarrow> nat \<Rightarrow> nat \<Rightarrow> int list option \<Rightarrow> nat list \<Rightarrow> (nat \<times> string) list list option"
where
  "pf_print w files rows cols colsz [] = Some []"
| "pf_print w files rows cols colsz (row # rs) = do {
     x \<leftarrow> pf_row w files rows colsz row [0 ..< cols];
     y \<leftarrow> pf_print w files rows cols colsz rs;
     Some (x # y)
   }"

text \<open>
  \<open>psh_printfiles\<close>: the rows of cells it prints, each cell with the index of its file. \<open>Inl\<close> is
  the out of memory error; \<open>None\<close> is a division by a width of 0 or a read of a column width that
  was never written.
\<close>

definition psh_printfiles ::
  "bool \<Rightarrow> nat \<Rightarrow> string list \<Rightarrow> (int + (nat \<times> string) list list) option" where
  "psh_printfiles alloc w files =
     (if w = 0 then None
      else
        let rows = sum_list (map length files) div w + 1;
            cols = length files div rows + 1
        in if \<not> alloc then Some (Inl (- ENOMEM))
           else do {
             (rows', cols', colsz) \<leftarrow> pf_rows w files cols rows cols None;
             out \<leftarrow> pf_print w files rows' cols' colsz [0 ..< rows'];
             Some (Inr out)
           })"

definition cells_text :: "(nat \<times> string) list list \<Rightarrow> string" where
  "cells_text rs = [CHR 0x0D, CHR 0x0A]
     @ concat (map (\<lambda>r. concat (map snd r) @ [CHR 0x0D, CHR 0x0A]) rs)"

section \<open>Candidates: what is collected\<close>

lemma strncmp_eq_prefix: "length base \<le> length name \<Longrightarrow>
  strncmp_eq name base (length base) \<longleftrightarrow> take (length base) name = base"
proof (induction base arbitrary: name)
  case (Cons b base)
  then show ?case by (cases name) auto
qed simp

lemma complete_loop_all:
  "\<forall>k. alloc k \<Longrightarrow> complete_loop alloc base k sz files es =
     Inr (files @ map complete_mark (filter (\<lambda>e. complete_match base (fst e)) es))"
  by (induction es arbitrary: k sz files) auto

lemma complete_loop_result:
  "complete_loop alloc base k sz files es =
     Inr (files @ map complete_mark (filter (\<lambda>e. complete_match base (fst e)) es))
   \<or> complete_loop alloc base k sz files es = Inl (- ENOMEM)"
proof (induction es arbitrary: k sz files)
  case (Cons e es)
  show ?case using Cons [of "k + 2" "2 * sz" "files @ [complete_mark e]"]
      Cons [of "k + 1" sz "files @ [complete_mark e]"] Cons [of k sz files] by auto
qed simp

lemma complete_match_iff:
  "complete_match base name \<longleftrightarrow>
     take (length base) name = base \<and> (base = [] \<longrightarrow> name \<noteq> ''.'' \<and> name \<noteq> ''..'')"
proof (cases "length name < length base")
  case True
  then have "take (length base) name \<noteq> base" by auto
  with True show ?thesis by (auto simp: complete_match_def)
next
  case False
  then show ?thesis by (auto simp: complete_match_def strncmp_eq_prefix)
qed
section \<open>Columns: every file is printed once\<close>

lemma pf_widths_loop_Some:
  "0 < rows \<Longrightarrow> i + length fs \<le> rows * length colsz \<Longrightarrow>
     \<exists>cs. pf_widths_loop fs rows i colsz = Some cs \<and> length cs = length colsz"
proof (induction fs arbitrary: i colsz)
  case (Cons f fs)
  then have "i < rows * length colsz" by simp
  then have d: "i div rows < length colsz"
    using Cons.prems(1) by (simp add: div_less_iff_less_mult mult.commute)
  define colsz' where
    "colsz' = (if int (length f) + 2 > colsz ! (i div rows)
               then colsz[i div rows := int (length f) + 2] else colsz)"
  have "length colsz' = length colsz" by (simp add: colsz'_def)
  with Cons.prems Cons.IH [of "Suc i" colsz'] d show ?case
    by (auto simp: memsafe colsz'_def)
qed simp

lemma pf_cols_enough:
  "0 < rows \<Longrightarrow> k \<le> rows * pf_cols k rows"
proof -
  assume "0 < rows"
  then have "k mod rows \<le> rows * (if k mod rows \<noteq> 0 then 1 else 0)"
    by (simp add: less_imp_le)
  then show ?thesis
    using mult_div_mod_eq [of rows k] by (simp only: pf_cols_def distrib_left)
qed

lemma pf_widths_Some:
  assumes "0 < rows" "0 < cols" "length files \<le> rows * cols"
  shows "\<exists>cs. pf_widths files rows cols = Some cs \<and> length cs = cols"
proof -
  obtain cs where "pf_widths_loop files rows 0 (replicate cols 0) = Some cs" "length cs = cols"
    using pf_widths_loop_Some [of rows 0 files "replicate cols 0"] assms by auto
  with assms(2) show ?thesis by (auto simp: pf_widths_def memsafe)
qed

definition pf_fit :: "string list \<Rightarrow> nat \<Rightarrow> nat \<Rightarrow> int list option \<Rightarrow> bool" where
  "pf_fit files rows cols colsz \<longleftrightarrow>
     length files \<le> rows * cols \<and> (\<exists>cs. colsz = Some cs \<and> length cs = cols)"

lemma pf_rows_Some:
  "0 < rows \<Longrightarrow> 0 < length files \<Longrightarrow> length files div rows + 1 \<le> room \<Longrightarrow>
   rows \<le> length files \<or> pf_fit files (rows - 1) cols colsz \<Longrightarrow>
     \<exists>r c cs. pf_rows w files room rows cols colsz = Some (r, c, cs) \<and> 0 < r \<and> pf_fit files r c cs"
proof (induction w files room rows cols colsz rule: pf_rows.induct)
  case (1 w files room rows cols colsz)
  show ?case
  proof (cases "rows \<le> length files")
    case True
    define cols' where "cols' = pf_cols (length files) rows"
    have le: "length files \<le> rows * cols'" unfolding cols'_def by (rule pf_cols_enough [OF 1(2)])
    then have "0 < cols'" using 1(3) by (cases cols') auto
    with le 1(2) obtain cs where cs: "pf_widths files rows cols' = Some cs" "length cs = cols'"
      using pf_widths_Some by blast
    have room: "cols' \<le> room" using 1(4) by (simp add: cols'_def pf_cols_def split: if_splits)
    have eq: "pf_rows w files room rows cols colsz =
        (if sum_list cs < int w then Some (rows, cols', Some cs)
         else pf_rows w files room (rows + 1) cols' (Some cs))"
      using True 1(2) room cs(1)
      by (simp add: pf_rows.simps [of w files room rows] Let_def cols'_def [symmetric])
    have fit: "pf_fit files rows cols' (Some cs)" using le cs(2) by (simp add: pf_fit_def)
    show ?thesis
    proof (cases "sum_list cs < int w")
      case False
      have "length files div (rows + 1) \<le> length files div rows"
        using 1(2) by (intro div_le_mono2) auto
      then have "length files div (rows + 1) + 1 \<le> room" using 1(4) by linarith
      with 1(1) [OF _ cols'_def _ cs(1) False] True room 1(2,3) fit
      show ?thesis by (simp add: eq False)
    qed (use eq fit 1(2) in simp)
  next
    case False
    with 1(2,5) have "pf_fit files rows cols colsz"
      by (auto simp: pf_fit_def intro: le_trans [OF _ mult_le_mono1])
    with False 1(2) show ?thesis by (simp add: pf_rows.simps [of w files room rows])
  qed
qed

lemma pf_row_Some:
  "colsz = Some ws \<Longrightarrow> \<forall>c \<in> set cs. c < length ws \<Longrightarrow>
     \<exists>r. pf_row w files rows colsz row cs = Some r \<and>
       map fst r = filter (\<lambda>i. i < length files) (map (\<lambda>col. col * rows + row) cs) \<and>
       (\<forall>(i, s) \<in> set r. take (length (files ! i)) s = files ! i)"
  by (induction cs) (auto simp: memsafe padr_def Let_def not_le)

lemma pf_print_Some:
  "colsz = Some ws \<Longrightarrow> length ws = cols \<Longrightarrow>
     \<exists>out. pf_print w files rows cols colsz rs = Some out \<and>
       map fst (concat out) = filter (\<lambda>i. i < length files)
         (concat (map (\<lambda>row. map (\<lambda>col. col * rows + row) [0 ..< cols]) rs)) \<and>
       (\<forall>(i, s) \<in> set (concat out). take (length (files ! i)) s = files ! i)"
proof (induction rs)
  case (Cons row rs)
  have "\<forall>c \<in> set [0 ..< cols]. c < length ws" using Cons.prems(2) by simp
  from pf_row_Some [OF Cons.prems(1) this, of w files rows row] obtain r where
    "pf_row w files rows colsz row [0 ..< cols] = Some r"
    "map fst r = filter (\<lambda>i. i < length files) (map (\<lambda>col. col * rows + row) [0 ..< cols])"
    "\<forall>(i, s) \<in> set r. take (length (files ! i)) s = files ! i" by blast
  with Cons show ?case by auto
qed simp

lemma cell_index_inj:
  "row < rows \<Longrightarrow> row' < rows \<Longrightarrow> col * rows + row = col' * rows + row' \<Longrightarrow> col = col' \<and> row = row'"
  for rows :: nat
  by (metis add.commute div_mult_self1_is_m div_less mod_mult_self1 mod_less mult.commute
      mult_div_mod_eq not_less_zero div_mult_self3 add_cancel_right_left)

lemma cell_indices:
  fixes rows cols :: nat
  assumes "0 < rows" "k \<le> rows * cols"
  shows "mset (filter (\<lambda>i. i < k) (concat (map (\<lambda>row. map (\<lambda>col. col * rows + row) [0 ..< cols]) [0 ..< rows])))
       = mset [0 ..< k]" (is "mset (filter _ ?l) = _")
proof -
  have l: "?l = map (\<lambda>(row, col). col * rows + row) (List.product [0 ..< rows] [0 ..< cols])"
    by (simp add: product_concat_map map_concat comp_def)
  have "distinct ?l"
    unfolding l by (auto simp: distinct_map distinct_product inj_on_def dest: cell_index_inj)
  moreover have "i \<in> set ?l" if "i < k" for i
  proof -
    have "i mod rows < rows" "i div rows < cols"
      using that assms by (auto simp: div_less_iff_less_mult mult.commute)
    moreover have "i = i div rows * rows + i mod rows" by simp
    ultimately have "i \<in> (\<lambda>col. col * rows + i mod rows) ` {0 ..< cols}" by force
    with \<open>i mod rows < rows\<close> show ?thesis by force
  qed
  ultimately have "set (filter (\<lambda>i. i < k) ?l) = set [0 ..< k]" "distinct (filter (\<lambda>i. i < k) ?l)"
    by auto
  then show ?thesis using set_eq_iff_mset_eq_distinct distinct_upt by blast
qed

section \<open>Properties\<close>

lemma printfiles_prints_all:
  assumes w: "0 < w" and rows: "sum_list (map length files) div w + 1 \<le> length files"
  shows "\<exists>out. psh_printfiles True w files = Some (Inr out)
     \<and> mset (map fst (concat out)) = mset [0 ..< length files]
     \<and> (\<forall>(i, s) \<in> set (concat out). take (length (files ! i)) s = files ! i)"
proof -
  let ?rows = "sum_list (map length files) div w + 1"
  let ?cols = "length files div ?rows + 1"
  have ne: "0 < length files" using rows by linarith
  obtain r c cs where r: "pf_rows w files ?cols ?rows ?cols None = Some (r, c, cs)" "0 < r"
    "pf_fit files r c cs"
    using pf_rows_Some [OF _ ne, of ?rows ?cols ?cols None w] rows by auto
  then obtain ws where ws: "cs = Some ws" "length ws = c" "length files \<le> r * c"
    by (auto simp: pf_fit_def)
  obtain out where out: "pf_print w files r c cs [0 ..< r] = Some out"
    "map fst (concat out) = filter (\<lambda>i. i < length files)
       (concat (map (\<lambda>row. map (\<lambda>col. col * r + row) [0 ..< c]) [0 ..< r]))"
    "\<forall>(i, s) \<in> set (concat out). take (length (files ! i)) s = files ! i"
    using pf_print_Some [OF ws(1,2), of w files r "[0 ..< r]"] by blast
  have "mset (map fst (concat out)) = mset [0 ..< length files]"
    unfolding out(2) by (rule cell_indices [OF r(2) ws(3)])
  moreover have "psh_printfiles True w files = Some (Inr out)"
    unfolding psh_printfiles_def Let_def r(1) using w out(1) by simp
  ultimately show ?thesis using out(3) by blast
qed

text \<open>Names shorter than the terminal is wide always fit.\<close>

lemma printfiles_total:
  assumes w: "0 < w" and ne: "files \<noteq> []" and short: "\<forall>f \<in> set files. length f < w"
  shows "\<exists>r. psh_printfiles al w files = Some r \<and> (\<forall>e. r = Inl e \<longrightarrow> e = - ENOMEM)"
proof (cases al)
  case True
  obtain w' where w': "w = Suc w'" using w by (cases w) auto
  have "sum_list (map length files) \<le> length files * w'"
    using short unfolding w' by (induction files) auto
  also have "\<dots> < length files * w" using w' ne by simp
  finally have "sum_list (map length files) div w < length files"
    using w by (simp add: less_mult_imp_div_less)
  then show ?thesis using printfiles_prints_all [OF w, of files] True by auto
next
  case False
  then show ?thesis using w by (simp add: psh_printfiles_def)
qed

text \<open>
  C10: The candidates of a completion are exactly the directory entries that start with the typed
  name, in directory order, each with \<open>/\<close> behind a directory and a space behind anything else;
  \<open>.\<close> and \<open>..\<close> are left out only when nothing was typed. The only other result is the out of
  memory error, and it does not occur when the allocations succeed.
\<close>

theorem psh_completepath_correct:
  "(psh_completepath alloc (Some es) base =
      Inr (map complete_mark
             (filter (\<lambda>e. take (length base) (fst e) = base
                        \<and> (base = [] \<longrightarrow> fst e \<noteq> ''.'' \<and> fst e \<noteq> ''..'')) es))
    \<or> psh_completepath alloc (Some es) base = Inl (- ENOMEM))
   \<and> ((\<forall>k. alloc k) \<longrightarrow> (\<exists>files. psh_completepath alloc (Some es) base = Inr files))
   \<and> psh_completepath alloc None base = Inr []"
  using complete_loop_result [of alloc base 1 32 "[]" es]
  by (auto simp: psh_completepath_def complete_loop_all complete_match_iff case_prod_beta)

theorem psh_completepath_correct_witness:
  "psh_completepath (\<lambda>_. True) (Some [(''bin'', True), (''.'', True), (''boot.img'', False)]) ''b''
     = Inr [''bin/'', ''boot.img '']"
  using psh_completepath_correct [of "\<lambda>_. True"
      "[(''bin'', True), (''.'', True), (''boot.img'', False)]" "''b''"]
  by (auto simp: complete_mark_def)

text \<open>
  Printing the candidates. When the names fit into no more lines than there are names,
  \<open>psh_printfiles\<close> writes and reads the column widths within the allocated array, reads none
  before it is written, terminates, and prints every file exactly once, its name never cut.
\<close>

lemma psh_printfiles_prints_all:
  assumes "0 < w" "sum_list (map length files) div w + 1 \<le> length files"
  shows "\<exists>out. psh_printfiles True w files = Some (Inr out)
     \<and> mset (map fst (concat out)) = mset [0 ..< length files]
     \<and> (\<forall>(i, s) \<in> set (concat out). take (length (files ! i)) s = files ! i)"
  using assms by (rule printfiles_prints_all)

text \<open>
  When the names are so long that the first estimate of the number of lines exceeds the
  number of files, the loop that computes the column widths is never entered, and printing reads
  a width that was never written. Stated for every such list of at least one file.
\<close>

lemma psh_printfiles_uninitialised:
  assumes w: "0 < w" and ne: "files \<noteq> []" and rows: "length files < sum_list (map length files) div w + 1"
  shows "psh_printfiles True w files = None"
proof -
  let ?rows = "sum_list (map length files) div w + 1"
  have c: "length files div ?rows + 1 = 1" using rows by simp
  have "pf_rows w files 1 ?rows 1 None = Some (?rows, 1, None)"
    using rows by (subst pf_rows.simps) simp
  moreover have "[0 ..< ?rows] = 0 # [1 ..< ?rows]" by (simp add: upt_conv_Cons)
  ultimately show ?thesis
    unfolding psh_printfiles_def Let_def c using w ne by simp
qed

end
