(* ===== verification/LineEdit.thy ===== *)
theory LineEdit
  imports History Complete
begin

text \<open>
  The interactive line editor: \<open>psh_readcmd\<close> of \<open>src/psh/pshapp/pshapp.c\<close>.

  The state has the locals of \<open>psh_readcmd\<close> (\<open>n\<close> characters before the cursor, \<open>m\<close> behind it,
  \<open>ln\<close>, \<open>hp\<close>, \<open>esc\<close>, \<open>buff\<close> and the command buffer), the clipboard and the \<open>newline\<close> flag of
  \<open>pshapp_common\<close>, and the terminal output in program order. The lengths are natural numbers:
  every subtraction of the code is guarded by a test or by the invariant, and no value exceeds
  \<open>CMDSZ\<close>. One handler per key; \<open>readcmd_step\<close> dispatches one received byte, \<open>readcmd_loop\<close> runs
  the input. \<open>None\<close> is an access outside a buffer.

  Parameters (\<open>edenv\<close>): \<open>CMDSZ\<close> (a build option), the terminal width, and for path completion
  \<open>resolve_path\<close> and \<open>splitname\<close> of libphoenix, the directory contents and the outcome of the
  allocations.
\<close>

section \<open>State\<close>

record edenv =
  e_cmdsz :: nat
  e_wscol :: nat
  e_resolve :: "string \<Rightarrow> int + string \<times> nat"
  e_splitname :: "string \<Rightarrow> string \<times> string"
  e_readdir :: "string \<Rightarrow> (string \<times> bool) list option"
  e_alloc :: "nat \<Rightarrow> bool"
  e_palloc :: bool

record ed =
  ed_cmd :: string
  ed_n :: nat
  ed_m :: nat
  ed_ln :: nat
  ed_hp :: nat
  ed_esc :: nat
  ed_buff :: string
  ed_clip :: string
  ed_cliplen :: nat
  ed_newline :: bool
  ed_exit :: bool
  ed_out :: "tty_out list"

definition PROMPT :: string where
  "PROMPT = ''(psh)% ''"

abbreviation plen :: nat where "plen \<equiv> 7"

abbreviation CSI_CLEAR0 :: string where "CSI_CLEAR0 \<equiv> CHR 0x1B # ''[0J''"
abbreviation CSI_HOME :: string where "CSI_HOME \<equiv> CHR 0x1B # ''[f''"
abbreviation CRLF :: string where "CRLF \<equiv> [CHR 0x0D, CHR 0x0A]"

datatype rcres = Cont ed | Brk ed | BrkErr int ed | BrkExit ed

section \<open>Output helpers\<close>

definition wr :: "string \<Rightarrow> ed \<Rightarrow> ed" where
  "wr t s = s\<lparr>ed_out := ed_out s @ [Text t]\<rparr>"

definition wr_cmd :: "nat \<Rightarrow> nat \<Rightarrow> ed \<Rightarrow> ed option" where
  "wr_cmd i k s = do { t \<leftarrow> cslice (ed_cmd s) i k; Some (wr t s) }"

definition mv :: "edenv \<Rightarrow> nat \<Rightarrow> int \<Rightarrow> ed \<Rightarrow> ed option" where
  "mv env col d s = do {
     os \<leftarrow> psh_movecursor (e_wscol env) col d;
     Some (s\<lparr>ed_out := ed_out s @ os\<rparr>)
   }"

text \<open>
  \<open>if (hp != cmdhist->he) { psh_histentcmd(cmd, cmdhist->entries + hp); hp = cmdhist->he; }\<close>:
  the first edit of a recalled line copies it into the command buffer.
\<close>

definition recall :: "psh_hist \<Rightarrow> ed \<Rightarrow> ed option" where
  "recall h s =
     (if ed_hp s \<noteq> he h then do {
        c \<leftarrow> psh_histentcmd (ed_cmd s) (entries h (ed_hp s));
        Some (s\<lparr>ed_cmd := c, ed_hp := he h\<rparr>)
      } else Some s)"

section \<open>Key handlers\<close>

definition ed_home :: "edenv \<Rightarrow> ed \<Rightarrow> ed option" where
  "ed_home env s =
     (if ed_n s > 0 then do {
        s1 \<leftarrow> mv env (ed_n s + plen) (- int (ed_n s)) s;
        Some (s1\<lparr>ed_m := ed_m s + ed_n s, ed_n := 0\<rparr>)
      } else Some s)"

definition ed_left :: "edenv \<Rightarrow> ed \<Rightarrow> ed option" where
  "ed_left env s =
     (if ed_n s > 0 then do {
        s1 \<leftarrow> mv env (ed_n s + plen) (- 1) s;
        Some (s1\<lparr>ed_n := ed_n s - 1, ed_m := ed_m s + 1\<rparr>)
      } else Some s)"

definition ed_cancel :: "edenv \<Rightarrow> ed \<Rightarrow> ed option" where
  "ed_cancel env s = do {
     let s1 = wr ''^C'' s;
     s2 \<leftarrow> (if ed_m s > 2 then mv env (ed_n s + plen + 2) (int (ed_m s) - 2) s1 else Some s1);
     Some ((wr CRLF s2)\<lparr>ed_n := 0, ed_m := 0\<rparr>)
   }"

definition ed_delete :: "edenv \<Rightarrow> psh_hist \<Rightarrow> ed \<Rightarrow> ed option" where
  "ed_delete env h s =
     (if ed_m s > 0 then do {
        s1 \<leftarrow> recall h s;
        let m = ed_m s - 1;
        c \<leftarrow> memmove (ed_cmd s1) (ed_n s) (ed_n s + 1) m;
        s2 \<leftarrow> wr_cmd (ed_n s) m (wr CSI_CLEAR0 (s1\<lparr>ed_cmd := c, ed_m := m\<rparr>));
        mv env (ed_n s + m + plen) (- int m) s2
      } else Some s)"

definition ed_end :: "edenv \<Rightarrow> ed \<Rightarrow> ed option" where
  "ed_end env s =
     (if ed_m s > 0 then do {
        s1 \<leftarrow> mv env (ed_n s + plen) (int (ed_m s)) s;
        Some (s1\<lparr>ed_n := ed_n s + ed_m s, ed_m := 0\<rparr>)
      } else Some s)"

definition ed_right :: "edenv \<Rightarrow> ed \<Rightarrow> ed option" where
  "ed_right env s =
     (if ed_m s > 0 then do {
        s1 \<leftarrow> mv env (ed_n s + plen) 1 s;
        Some (s1\<lparr>ed_n := ed_n s + 1, ed_m := ed_m s - 1\<rparr>)
      } else Some s)"

definition ed_backspace :: "edenv \<Rightarrow> psh_hist \<Rightarrow> ed \<Rightarrow> ed option" where
  "ed_backspace env h s =
     (if ed_n s > 0 then do {
        s1 \<leftarrow> recall h s;
        let n = ed_n s - 1;
        c \<leftarrow> memmove (ed_cmd s1) n (n + 1) (ed_m s);
        s2 \<leftarrow> wr_cmd n (ed_m s) ((wr [CHR 0x08] s1)\<lparr>ed_cmd := c, ed_n := n\<rparr>);
        mv env (n + ed_m s + plen + 1) (- (int (ed_m s) + 1)) (wr '' '' s2)
      } else Some s)"

definition ed_kill :: "edenv \<Rightarrow> psh_hist \<Rightarrow> ed \<Rightarrow> ed option" where
  "ed_kill env h s =
     (if ed_m s > 0 then do {
        s1 \<leftarrow> recall h s;
        clip \<leftarrow> memcpy (ed_clip s1) 0 (ed_cmd s1) (ed_n s) (ed_m s);
        Some ((wr CSI_CLEAR0 s1)\<lparr>ed_clip := clip, ed_cliplen := ed_m s, ed_m := 0\<rparr>)
      } else Some s)"

definition wr_line :: "psh_hist \<Rightarrow> ed \<Rightarrow> ed option" where
  "wr_line h s =
     (if ed_hp s \<noteq> he h then do {
        t \<leftarrow> psh_printhistent (entries h (ed_hp s));
        Some (wr t s)
      } else wr_cmd 0 (ed_n s + ed_m s) s)"

definition ed_clear :: "edenv \<Rightarrow> psh_hist \<Rightarrow> ed \<Rightarrow> ed option" where
  "ed_clear env h s = do {
     s1 \<leftarrow> wr_line h (wr PROMPT (wr (CSI_HOME @ CSI_CLEAR0) s));
     mv env (ed_n s + ed_m s + plen) (- int (ed_m s)) s1
   }"

definition ed_enter :: "edenv \<Rightarrow> psh_hist \<Rightarrow> char \<Rightarrow> ed \<Rightarrow> ed option" where
  "ed_enter env h c s =
     (if c = CHR 0x0A \<and> ed_newline s then Some (s\<lparr>ed_newline := False\<rparr>)
      else do {
        s1 \<leftarrow> recall h (if c = CHR 0x0D then s\<lparr>ed_newline := True\<rparr> else s);
        s2 \<leftarrow> mv env (ed_n s + plen) (int (ed_m s)) s1;
        Some (wr CRLF s2)
      })"

definition ed_killstart :: "edenv \<Rightarrow> psh_hist \<Rightarrow> ed \<Rightarrow> ed option" where
  "ed_killstart env h s =
     (if ed_n s > 0 then do {
        s1 \<leftarrow> recall h s;
        clip \<leftarrow> memcpy (ed_clip s1) 0 (ed_cmd s1) 0 (ed_n s);
        c \<leftarrow> memmove (ed_cmd s1) 0 (ed_n s) (ed_m s);
        s2 \<leftarrow> mv env (ed_n s + plen) (- int (ed_n s))
                (s1\<lparr>ed_clip := clip, ed_cliplen := ed_n s, ed_cmd := c\<rparr>);
        s3 \<leftarrow> wr_cmd 0 (ed_m s) (s2\<lparr>ed_n := 0\<rparr>);
        mv env (ed_m s + plen) (- int (ed_m s)) (wr CSI_CLEAR0 s3)
      } else Some s)"

definition ed_killword :: "edenv \<Rightarrow> psh_hist \<Rightarrow> ed \<Rightarrow> ed option" where
  "ed_killword env h s =
     (if ed_n s > 0 then do {
        s1 \<leftarrow> recall h s;
        walk \<leftarrow> cslice (ed_cmd s1) 0 (ed_n s);
        let i = psh_skipword isgraph (rev walk);
        if i > 0 then do {
          let n = ed_n s - i;
          clip \<leftarrow> memcpy (ed_clip s1) 0 (ed_cmd s1) n i;
          c \<leftarrow> memmove (ed_cmd s1) n (n + i) (ed_m s);
          s2 \<leftarrow> mv env (n + i + plen) (- int i)
                  (s1\<lparr>ed_n := n, ed_clip := clip, ed_cliplen := i, ed_cmd := c\<rparr>);
          s3 \<leftarrow> wr_cmd n (ed_m s) s2;
          mv env (n + ed_m s + plen) (- int (ed_m s)) (wr CSI_CLEAR0 s3)
        } else Some s1
      } else Some s)"

text \<open>Insertion of \<open>i\<close> characters of a source buffer at the cursor: paste and completion.\<close>

definition ed_splice :: "edenv \<Rightarrow> string \<Rightarrow> nat \<Rightarrow> nat \<Rightarrow> ed \<Rightarrow> ed option" where
  "ed_splice env src off i s = do {
     c1 \<leftarrow> memmove (ed_cmd s) (ed_n s + i) (ed_n s) (ed_m s);
     c2 \<leftarrow> memcpy c1 (ed_n s) src off i;
     s1 \<leftarrow> wr_cmd (ed_n s) (i + ed_m s) (s\<lparr>ed_cmd := c2\<rparr>);
     mv env (ed_n s + i + ed_m s + plen) (- int (ed_m s)) (s1\<lparr>ed_n := ed_n s + i\<rparr>)
   }"

definition ed_paste :: "edenv \<Rightarrow> psh_hist \<Rightarrow> ed \<Rightarrow> ed option" where
  "ed_paste env h s = do {
     let i = (if ed_n s + ed_m s + ed_cliplen s > e_cmdsz env
              then e_cmdsz env - ed_n s - ed_m s else ed_cliplen s);
     if i > 0 then do {
       s1 \<leftarrow> recall h s;
       ed_splice env (ed_clip s1) 0 i s1
     } else Some s
   }"

definition ed_insert :: "edenv \<Rightarrow> psh_hist \<Rightarrow> char \<Rightarrow> ed \<Rightarrow> ed option" where
  "ed_insert env h c s =
     (if ed_n s + ed_m s < e_cmdsz env then do {
        s1 \<leftarrow> recall h s;
        c1 \<leftarrow> memmove (ed_cmd s1) (ed_n s + 1) (ed_n s) (ed_m s);
        c2 \<leftarrow> poke c1 (ed_n s) c;
        s2 \<leftarrow> wr_cmd (ed_n s) (ed_m s + 1) (s1\<lparr>ed_cmd := c2, ed_n := ed_n s + 1\<rparr>);
        mv env (ed_n s + 1 + ed_m s + plen) (- int (ed_m s)) s2
      } else Some (wr [CHR 0x07] s))"

definition ed_up :: "edenv \<Rightarrow> psh_hist \<Rightarrow> ed \<Rightarrow> ed option" where
  "ed_up env h s =
     (if ed_hp s \<noteq> hb h then do {
        let ln = (if ed_hp s = he h then ed_n s + ed_m s else ed_ln s);
        s1 \<leftarrow> mv env (ed_n s + plen) (- int (ed_n s + plen)) (s\<lparr>ed_ln := ln\<rparr>);
        let hp = hist_prev (ed_hp s);
        t \<leftarrow> psh_printhistent (entries h hp);
        Some ((wr t (wr PROMPT (wr CSI_CLEAR0 s1)))\<lparr>ed_hp := hp, ed_n := ent_n (entries h hp), ed_m := 0\<rparr>)
      } else Some s)"

definition ed_down :: "edenv \<Rightarrow> psh_hist \<Rightarrow> ed \<Rightarrow> ed option" where
  "ed_down env h s =
     (if ed_hp s \<noteq> he h then do {
        s1 \<leftarrow> mv env (ed_n s + plen) (- int (ed_n s + plen)) s;
        let hp = hist_next (ed_hp s);
        let s2 = (wr PROMPT (wr CSI_CLEAR0 s1))\<lparr>ed_hp := hp, ed_m := 0\<rparr>;
        if hp = he h then wr_cmd 0 (ed_ln s) (s2\<lparr>ed_n := ed_ln s\<rparr>)
        else do {
          t \<leftarrow> psh_printhistent (entries h hp);
          Some (wr t (s2\<lparr>ed_n := ent_n (entries h hp)\<rparr>))
        }
      } else Some s)"

definition ed_wordleft :: "edenv \<Rightarrow> psh_hist \<Rightarrow> ed \<Rightarrow> ed option" where
  "ed_wordleft env h s =
     (if ed_n s > 0 then do {
        s1 \<leftarrow> recall h s;
        walk \<leftarrow> cslice (ed_cmd s1) 0 (ed_n s);
        let i = psh_skipword isalnum (rev walk);
        s2 \<leftarrow> mv env (ed_n s + plen) (- int i) s1;
        Some (s2\<lparr>ed_n := ed_n s - i, ed_m := ed_m s + i\<rparr>)
      } else Some s)"

definition ed_wordright :: "edenv \<Rightarrow> psh_hist \<Rightarrow> ed \<Rightarrow> ed option" where
  "ed_wordright env h s =
     (if ed_m s > 0 then do {
        s1 \<leftarrow> recall h s;
        walk \<leftarrow> cslice (ed_cmd s1) (ed_n s) (ed_m s);
        let i = psh_skipword isalnum walk;
        s2 \<leftarrow> mv env (ed_n s + plen) (int i) s1;
        Some (s2\<lparr>ed_n := ed_n s + i, ed_m := ed_m s - i\<rparr>)
      } else Some s)"

definition ed_killnextword :: "edenv \<Rightarrow> psh_hist \<Rightarrow> ed \<Rightarrow> ed option" where
  "ed_killnextword env h s =
     (if ed_m s > 0 then do {
        s1 \<leftarrow> recall h s;
        walk \<leftarrow> cslice (ed_cmd s1) (ed_n s) (ed_m s);
        let i = psh_skipword isalnum walk;
        if i > 0 then do {
          let m = ed_m s - i;
          clip \<leftarrow> memcpy (ed_clip s1) 0 (ed_cmd s1) (ed_n s) i;
          c \<leftarrow> memmove (ed_cmd s1) (ed_n s) (ed_n s + i) m;
          s2 \<leftarrow> wr_cmd (ed_n s) m (s1\<lparr>ed_m := m, ed_clip := clip, ed_cliplen := i, ed_cmd := c\<rparr>);
          mv env (ed_n s + m + plen) (- int m) (wr CSI_CLEAR0 s2)
        } else Some s1
      } else Some s)"

section \<open>Path completion\<close>

text \<open>The start of the word before the cursor; a recalled line has \<open>NUL\<close> between its words.\<close>

fun tab_start :: "string \<Rightarrow> nat \<Rightarrow> nat option" where
  "tab_start b 0 = Some 0"
| "tab_start b (Suc i) = do {
     c \<leftarrow> peek b i;
     if c \<noteq> CHR '' '' \<and> c \<noteq> NUL then tab_start b i else Some (Suc i)
   }"

definition tab_hints :: "edenv \<Rightarrow> psh_hist \<Rightarrow> string list \<Rightarrow> ed \<Rightarrow> rcres option" where
  "tab_hints env h files s = do {
     s1 \<leftarrow> mv env (ed_n s + plen) (int (ed_m s)) s;
     r \<leftarrow> psh_printfiles (e_palloc env) (e_wscol env) (qsort_names files);
     (case r of
        Inl e \<Rightarrow> Some (BrkErr e s1)
      | Inr cells \<Rightarrow> do {
          s2 \<leftarrow> wr_line h (wr PROMPT (wr CSI_CLEAR0 (wr (cells_text cells) s1)));
          s3 \<leftarrow> mv env (ed_n s + ed_m s + plen) (- int (ed_m s)) s2;
          Some (Cont s3)
        })
   }"

definition tab_complete :: "edenv \<Rightarrow> psh_hist \<Rightarrow> string \<Rightarrow> string \<Rightarrow> ed \<Rightarrow> rcres option" where
  "tab_complete env h base file s = do {
     s1 \<leftarrow> recall h s;
     let i = length file - length base;
     let i' = (if ed_n s + ed_m s + i > e_cmdsz env then e_cmdsz env - ed_n s - ed_m s else i);
     s2 \<leftarrow> ed_splice env file (length base) i' s1;
     Some (Cont s2)
   }"

definition tab_buffer :: "psh_hist \<Rightarrow> ed \<Rightarrow> string option" where
  "tab_buffer h s =
     (if ed_hp s \<noteq> he h
      then (case ent_cmd (entries h (ed_hp s)) of Buf b \<Rightarrow> Some b | _ \<Rightarrow> None)
      else Some (ed_cmd s))"

text \<open>
  The writes \<open>fpath[nfiles] = '/'\<close> and \<open>fpath[nfiles + 1] = 0\<close> into the buffer of \<open>fsize\<close> bytes that
  \<open>resolve_path\<close> returned.
\<close>

definition add_slash :: "nat \<Rightarrow> string \<Rightarrow> string option" where
  "add_slash fsize fpath = (if length fpath + 1 < fsize then Some (fpath @ ''/'') else None)"

definition ed_tab :: "edenv \<Rightarrow> psh_hist \<Rightarrow> ed \<Rightarrow> rcres option" where
  "ed_tab env h s = do {
     b \<leftarrow> tab_buffer h s;
     i \<leftarrow> tab_start b (ed_n s);
     if i = ed_n s then Some (Cont s)
     else do {
       _ \<leftarrow> poke b (ed_n s) NUL;
       path \<leftarrow> cslice b i (ed_n s - i);
       (case e_resolve env path of
          Inl errno \<Rightarrow> Some (if errno = ENOENT then Cont s else BrkErr (- errno) s)
        | Inr (fpath0, fsize) \<Rightarrow> do {
            l \<leftarrow> peek fpath0 (length fpath0 - 1);
            fpath \<leftarrow> (if last path = CHR ''/'' \<and> l \<noteq> CHR ''/'' then add_slash fsize fpath0 else Some fpath0);
            let bd = e_splitname env fpath;
            (case psh_completepath (e_alloc env) (e_readdir env (snd bd)) (fst bd) of
               Inl e \<Rightarrow> Some (BrkErr e s)
             | Inr [] \<Rightarrow> Some (Cont s)
             | Inr [file] \<Rightarrow> tab_complete env h (fst bd) file s
             | Inr files \<Rightarrow> tab_hints env h files s)
          })
     }
   }"

section \<open>Dispatch\<close>

definition key_action :: "edenv \<Rightarrow> psh_hist \<Rightarrow> keycode \<Rightarrow> ed \<Rightarrow> ed option" where
  "key_action env h k s = (case k of
     kUp \<Rightarrow> ed_up env h s
   | kDown \<Rightarrow> ed_down env h s
   | kRight \<Rightarrow> ed_right env s
   | kLeft \<Rightarrow> ed_left env s
   | kEnd \<Rightarrow> ed_end env s
   | kHome \<Rightarrow> ed_home env s
   | kDelete \<Rightarrow> ed_delete env h s
   | kCtrlLeft \<Rightarrow> ed_wordleft env h s
   | kAltLeft \<Rightarrow> ed_wordleft env h s
   | kCtrlRight \<Rightarrow> ed_wordright env h s
   | kAltRight \<Rightarrow> ed_wordright env h s
   | kAltD \<Rightarrow> ed_killnextword env h s
   | kCtrlUp \<Rightarrow> Some s
   | kCtrlDown \<Rightarrow> Some s
   | kAltUp \<Rightarrow> Some s
   | kAltDown \<Rightarrow> Some s)"

definition regular_step :: "edenv \<Rightarrow> psh_hist \<Rightarrow> ed \<Rightarrow> char \<Rightarrow> ed option" where
  "regular_step env h s c =
     (if ed_esc s = 0 then ed_insert env h c s
      else do {
        b \<leftarrow> poke (ed_buff s) (ed_esc s) c;
        (k, e) \<leftarrow> psh_keyCode b (ed_esc s + 1);
        let s1 = s\<lparr>ed_buff := b, ed_esc := e\<rparr>;
        (case k of
           KInval \<Rightarrow> do { s2 \<leftarrow> recall h s1; Some (s2\<lparr>ed_esc := 0\<rparr>) }
         | KAgain \<Rightarrow> Some s1
         | Key key \<Rightarrow> key_action env h key s1)
      })"

definition eot_step :: "edenv \<Rightarrow> psh_hist \<Rightarrow> ed \<Rightarrow> rcres option" where
  "eot_step env h s =
     (if ed_m s > 0 then map_option Cont (ed_delete env h s)
      else if ed_n s + ed_m s = 0
      then Some (BrkExit ((wr (''exit'' @ CRLF) s)\<lparr>ed_exit := True\<rparr>))
      else Some (Cont s))"

definition esc_step :: "ed \<Rightarrow> char \<Rightarrow> ed option" where
  "esc_step s c =
     (if c = CHR 0x1B then do {
        b0 \<leftarrow> poke (ed_buff s) (ed_esc s) CHR ''^'';
        b1 \<leftarrow> poke b0 (ed_esc s + 1) CHR ''['';
        Some (s\<lparr>ed_newline := False, ed_buff := b1, ed_esc := ed_esc s + 2\<rparr>)
      } else Some (s\<lparr>ed_newline := False\<rparr>))"

definition control_step :: "edenv \<Rightarrow> psh_hist \<Rightarrow> ed \<Rightarrow> char \<Rightarrow> rcres option" where
  "control_step env h s0 c = (let s = s0\<lparr>ed_esc := 0\<rparr> in
     if c = CHR 0x01 then map_option Cont (ed_home env s)
     else if c = CHR 0x02 then map_option Cont (ed_left env s)
     else if c = CHR 0x03 then map_option Brk (ed_cancel env s)
     else if c = CHR 0x04 then eot_step env h s
     else if c = CHR 0x05 then map_option Cont (ed_end env s)
     else if c = CHR 0x06 then map_option Cont (ed_right env s)
     else if c = CHR 0x08 \<or> c = CHR 0x7F then map_option Cont (ed_backspace env h s)
     else if c = CHR 0x09 then ed_tab env h s
     else if c = CHR 0x0B then map_option Cont (ed_kill env h s)
     else if c = CHR 0x0C then map_option Cont (ed_clear env h s)
     else if c = CHR 0x0D \<or> c = CHR 0x0A then map_option Brk (ed_enter env h c s)
     else if c = CHR 0x15 then map_option Cont (ed_killstart env h s)
     else if c = CHR 0x17 then map_option Cont (ed_killword env h s)
     else if c = CHR 0x19 then map_option Cont (ed_paste env h s)
     else map_option Cont (esc_step s c))"

definition is_control :: "char \<Rightarrow> bool" where
  "is_control c \<longleftrightarrow> code c < 32 \<or> code c = 127"

definition readcmd_step :: "edenv \<Rightarrow> psh_hist \<Rightarrow> ed \<Rightarrow> char \<Rightarrow> rcres option" where
  "readcmd_step env h s c =
     (if is_control c then control_step env h s c else map_option Cont (regular_step env h s c))"

text \<open>
  The input loop: the bytes left over and the way it ended, or the state in which it waits for
  more input.
\<close>

fun readcmd_loop :: "edenv \<Rightarrow> psh_hist \<Rightarrow> ed \<Rightarrow> string \<Rightarrow> (rcres \<times> string) option" where
  "readcmd_loop env h s [] = Some (Cont s, [])"
| "readcmd_loop env h s (c # cs) = do {
     r \<leftarrow> readcmd_step env h s c;
     (case r of Cont s' \<Rightarrow> readcmd_loop env h s' cs | _ \<Rightarrow> Some (r, cs))
   }"

text \<open>
  The entry of \<open>psh_readcmd\<close>: a fresh buffer (its contents are arbitrary), raw mode and the
  prompt. \<open>clip\<close>, \<open>cliplen\<close> and \<open>newline\<close> persist from call to call.
\<close>

definition readcmd_init :: "psh_hist \<Rightarrow> string \<Rightarrow> string \<Rightarrow> string \<Rightarrow> nat \<Rightarrow> bool \<Rightarrow> ed" where
  "readcmd_init h cmd0 buff0 clip cliplen newline =
     \<lparr>ed_cmd = cmd0, ed_n = 0, ed_m = 0, ed_ln = 0, ed_hp = he h, ed_esc = 0, ed_buff = buff0,
      ed_clip = clip, ed_cliplen = cliplen, ed_newline = newline, ed_exit = False,
      ed_out = [Text CSI_CLEAR0, Text PROMPT]\<rparr>"

text \<open>
  The exit of \<open>psh_readcmd\<close>: \<open>restore\<close> is the result of the final \<open>tcsetattr\<close>. The value is the
  return code and, on success, the terminated command buffer that the caller now owns.
\<close>

definition readcmd_return :: "ed \<Rightarrow> int \<Rightarrow> (int \<times> string option) option" where
  "readcmd_return s restore =
     (if restore < 0 then Some (restore, None)
      else do {
        c \<leftarrow> poke (ed_cmd s) (ed_n s + ed_m s) NUL;
        Some (int (ed_n s + ed_m s), Some c)
      })"

definition readcmd_finish :: "rcres \<Rightarrow> int \<Rightarrow> (int \<times> string option) option" where
  "readcmd_finish r restore = (case r of
     BrkErr e s \<Rightarrow> if e < 0 then Some (e, None) else readcmd_return s restore
   | BrkExit s \<Rightarrow> Some (if restore < 0 then restore else - ENODEV, None)
   | Brk s \<Rightarrow> readcmd_return s restore
   | Cont s \<Rightarrow> None)"

text \<open>
  \<open>psh_readcmd\<close>: \<open>alloc\<close> is the outcome of the buffer allocation, \<open>raw\<close> and \<open>restore\<close> the
  results of the two \<open>tcsetattr\<close> calls. The value is the final editor state (whose clipboard, \<open>newline\<close>
  and exit flag persist), the return code with the buffer, and the unread input; \<open>Inl\<close> is the state
  in which the call still waits for input.
\<close>

definition ed_final :: "rcres \<Rightarrow> ed" where
  "ed_final r = (case r of Cont s \<Rightarrow> s | Brk s \<Rightarrow> s | BrkErr e s \<Rightarrow> s | BrkExit s \<Rightarrow> s)"

definition psh_readcmd ::
  "bool \<Rightarrow> int \<Rightarrow> int \<Rightarrow> edenv \<Rightarrow> psh_hist \<Rightarrow> ed \<Rightarrow> string \<Rightarrow> (ed + ed \<times> (int \<times> string option) \<times> string) option"
where
  "psh_readcmd alloc raw restore env h s0 input =
     (if \<not> alloc then Some (Inr (s0, (- ENOMEM, None), input))
      else if raw < 0 then Some (Inr (s0, (raw, None), input))
      else do {
        (r, rest) \<leftarrow> readcmd_loop env h s0 input;
        (case r of
           Cont s \<Rightarrow> Some (Inl s)
         | _ \<Rightarrow> do { rc \<leftarrow> readcmd_finish r restore; Some (Inr (ed_final r, rc, rest)) })
      })"

end
