(* ===== verification/EditProofs.thy ===== *)
theory EditProofs
  imports LineEdit
begin

text \<open>
  Correctness of the line editor: memory safety of every handler and its refinement to an
  abstract editor on three strings, the text before the cursor, the text behind it and the
  clipboard.
\<close>

section \<open>Invariant and abstraction\<close>

text \<open>
  While a history entry is shown (\<open>hp\<close> differs from the end index), the two lengths add up to the
  entry's length and no carriage return is pending.
\<close>

definition ed_inv :: "edenv \<Rightarrow> psh_hist \<Rightarrow> ed \<Rightarrow> bool" where
  "ed_inv env h s \<longleftrightarrow>
     0 < e_wscol env \<and> hist_ok (e_cmdsz env) h \<and>
     length (ed_cmd s) = Suc (e_cmdsz env) \<and> length (ed_buff s) = 8 \<and>
     length (ed_clip s) = e_cmdsz env \<and> ed_cliplen s \<le> e_cmdsz env \<and>
     ed_n s + ed_m s \<le> e_cmdsz env \<and> ed_ln s \<le> e_cmdsz env \<and> ed_esc s \<le> 8 \<and>
     (ed_esc s \<noteq> 0 \<longrightarrow> \<not> ed_newline s) \<and>
     (ed_hp s = he h \<or>
      (\<exists>p < hsize h. ed_hp s = slot h p \<and> ed_n s + ed_m s = ent_n (entries h (slot h p)) \<and>
         \<not> ed_newline s))"

definition ed_line :: "psh_hist \<Rightarrow> ed \<Rightarrow> string" where
  "ed_line h s =
     (if ed_hp s = he h then take (ed_n s + ed_m s) (ed_cmd s)
      else map detok (ent_line (entries h (ed_hp s))))"

type_synonym view = "string \<times> string \<times> string"

definition ed_view :: "psh_hist \<Rightarrow> ed \<Rightarrow> view" where
  "ed_view h s = (take (ed_n s) (ed_line h s), drop (ed_n s) (ed_line h s), take (ed_cliplen s) (ed_clip s))"

section \<open>The abstract editor\<close>

fun a_home :: "view \<Rightarrow> view" where
  "a_home (l, r, k) = ([], l @ r, k)"

fun a_end :: "view \<Rightarrow> view" where
  "a_end (l, r, k) = (l @ r, [], k)"

fun a_left :: "view \<Rightarrow> view" where
  "a_left (l, r, k) = (if l = [] then (l, r, k) else (butlast l, last l # r, k))"

fun a_right :: "view \<Rightarrow> view" where
  "a_right (l, r, k) = (case r of [] \<Rightarrow> (l, r, k) | c # r' \<Rightarrow> (l @ [c], r', k))"

fun a_delete :: "view \<Rightarrow> view" where
  "a_delete (l, r, k) = (l, tl r, k)"

fun a_backspace :: "view \<Rightarrow> view" where
  "a_backspace (l, r, k) = (butlast l, r, k)"

fun a_kill :: "view \<Rightarrow> view" where
  "a_kill (l, r, k) = (if r = [] then (l, r, k) else (l, [], r))"

fun a_killstart :: "view \<Rightarrow> view" where
  "a_killstart (l, r, k) = (if l = [] then (l, r, k) else ([], r, l))"

fun a_killword :: "view \<Rightarrow> view" where
  "a_killword (l, r, k) =
     (let i = psh_skipword isgraph (rev l)
      in if i = 0 then (l, r, k) else (take (length l - i) l, r, drop (length l - i) l))"

fun a_paste :: "nat \<Rightarrow> view \<Rightarrow> view" where
  "a_paste cap (l, r, k) = (l @ take (cap - length l - length r) k, r, k)"

fun a_insert :: "nat \<Rightarrow> char \<Rightarrow> view \<Rightarrow> view" where
  "a_insert cap c (l, r, k) = (if length l + length r < cap then (l @ [c], r, k) else (l, r, k))"

fun a_wordleft :: "view \<Rightarrow> view" where
  "a_wordleft (l, r, k) =
     (let i = psh_skipword isalnum (rev l) in (take (length l - i) l, drop (length l - i) l @ r, k))"

fun a_wordright :: "view \<Rightarrow> view" where
  "a_wordright (l, r, k) = (let i = psh_skipword isalnum r in (l @ take i r, drop i r, k))"

fun a_killnextword :: "view \<Rightarrow> view" where
  "a_killnextword (l, r, k) =
     (let i = psh_skipword isalnum r in if i = 0 then (l, r, k) else (l, drop i r, take i r))"

section \<open>Basic facts\<close>

lemma detok_idem [simp]: "detok (detok c) = detok c"
  by (simp add: detok_def)

lemma inv_entry_owned:
  "ed_inv env h s \<Longrightarrow> p < hsize h \<Longrightarrow> ent_owned (e_cmdsz env) (entries h (slot h p))"
  by (simp add: ed_inv_def hist_okD(5))

lemma ed_inv_browse:
  assumes "ed_inv env h s" "ed_hp s \<noteq> he h"
  obtains p where "p < hsize h" "ed_hp s = slot h p"
    "ed_n s + ed_m s = ent_n (entries h (slot h p))" "\<not> ed_newline s"
  using assms by (auto simp: ed_inv_def)

lemma ed_line_length:
  assumes "ed_inv env h s"
  shows "length (ed_line h s) = ed_n s + ed_m s"
proof (cases "ed_hp s = he h")
  case True
  then show ?thesis using assms by (simp add: ed_line_def ed_inv_def)
next
  case False
  then obtain p where "p < hsize h" "ed_hp s = slot h p"
    "ed_n s + ed_m s = ent_n (entries h (slot h p))" using assms ed_inv_browse by metis
  then show ?thesis
    using False length_ent_line [OF inv_entry_owned [OF assms]] by (simp add: ed_line_def)
qed

lemma view_edit:
  "ed_hp s = he h \<Longrightarrow>
     ed_view h s = (take (ed_n s) (ed_cmd s), take (ed_m s) (drop (ed_n s) (ed_cmd s)),
                    take (ed_cliplen s) (ed_clip s))"
  by (simp add: ed_view_def ed_line_def drop_take min_def)

lemma view_lengths:
  assumes "ed_inv env h s" "ed_view h s = (l, r, k)"
  shows "length l = ed_n s" "length r = ed_m s" "length k = ed_cliplen s"
proof -
  have "ed_cliplen s \<le> length (ed_clip s)" using assms(1) by (simp add: ed_inv_def)
  then show "length l = ed_n s" "length r = ed_m s" "length k = ed_cliplen s"
    using ed_line_length [OF assms(1)] assms(2) by (auto simp: ed_view_def)
qed

definition mvout :: "edenv \<Rightarrow> nat \<Rightarrow> int \<Rightarrow> tty_out list" where
  "mvout env col d = the (psh_movecursor (e_wscol env) col d)"

lemma mv_eq: "0 < e_wscol env \<Longrightarrow> mv env col d s = Some (s\<lparr>ed_out := ed_out s @ mvout env col d\<rparr>)"
  using movecursor_Some [of "e_wscol env" col d] by (auto simp: mv_def mvout_def)

lemma ed_invD:
  assumes "ed_inv env h s"
  shows "0 < e_wscol env" "length (ed_cmd s) = Suc (e_cmdsz env)" "length (ed_buff s) = 8"
    "length (ed_clip s) = e_cmdsz env" "ed_cliplen s \<le> e_cmdsz env"
    "ed_n s + ed_m s \<le> e_cmdsz env" "ed_ln s \<le> e_cmdsz env" "ed_esc s \<le> 8"
    "ed_esc s \<noteq> 0 \<Longrightarrow> \<not> ed_newline s" "hist_ok (e_cmdsz env) h"
  using assms by (simp_all add: ed_inv_def)

lemma out_irrelevant [simp]:
  "ed_inv env h (s\<lparr>ed_out := os\<rparr>) = ed_inv env h s"
  "ed_view h (s\<lparr>ed_out := os\<rparr>) = ed_view h s"
  by (simp_all add: ed_inv_def ed_view_def ed_line_def)

lemma wr_simps [simp]:
  "ed_cmd (wr t s) = ed_cmd s" "ed_n (wr t s) = ed_n s" "ed_m (wr t s) = ed_m s"
  "ed_hp (wr t s) = ed_hp s" "ed_ln (wr t s) = ed_ln s" "ed_esc (wr t s) = ed_esc s"
  "ed_clip (wr t s) = ed_clip s" "ed_cliplen (wr t s) = ed_cliplen s"
  "ed_newline (wr t s) = ed_newline s" "ed_buff (wr t s) = ed_buff s" "ed_exit (wr t s) = ed_exit s"
  "ed_inv env h (wr t s) = ed_inv env h s" "ed_view h (wr t s) = ed_view h s"
  by (simp_all add: wr_def)

lemma wr_cmd_eq:
  "i + k \<le> length (ed_cmd s) \<Longrightarrow> wr_cmd i k s = Some (wr (take k (drop i (ed_cmd s))) s)"
  by (simp add: wr_cmd_def memsafe)

text \<open>Recalling gives an editable copy of the line that is shown.\<close>

lemma recall_ok:
  assumes inv: "ed_inv env h s"
  obtains c where "recall h s = Some (s\<lparr>ed_cmd := c, ed_hp := he h\<rparr>)"
    "length c = Suc (e_cmdsz env)" "take (ed_n s + ed_m s) c = ed_line h s"
    "ed_inv env h (s\<lparr>ed_cmd := c, ed_hp := he h\<rparr>)" "ed_view h (s\<lparr>ed_cmd := c, ed_hp := he h\<rparr>) = ed_view h s"
proof (cases "ed_hp s = he h")
  case True
  then have eq: "s\<lparr>ed_cmd := ed_cmd s, ed_hp := he h\<rparr> = s" by (cases s) simp
  show thesis
  proof (rule that [of "ed_cmd s"])
    show "length (ed_cmd s) = Suc (e_cmdsz env)" using inv by (simp add: ed_inv_def)
    show "take (ed_n s + ed_m s) (ed_cmd s) = ed_line h s" using True by (simp add: ed_line_def)
  qed (simp_all only: eq inv, simp add: recall_def True)
next
  case False
  then obtain p where p: "p < hsize h" "ed_hp s = slot h p"
    "ed_n s + ed_m s = ent_n (entries h (slot h p))" using inv ed_inv_browse by metis
  have own: "ent_owned (e_cmdsz env) (entries h (slot h p))"
    using inv p(1) by (rule inv_entry_owned)
  let ?c = "map detok (ent_line (entries h (slot h p))) @ drop (ent_n (entries h (slot h p))) (ed_cmd s)"
  have len: "length ?c = Suc (e_cmdsz env)"
    using inv p(3) length_ent_line [OF own] by (simp add: ed_inv_def)
  have rc: "recall h s = Some (s\<lparr>ed_cmd := ?c, ed_hp := he h\<rparr>)"
    using False inv p(2) histentcmd_eq [OF own] by (simp add: recall_def ed_inv_def)
  have line: "take (ed_n s + ed_m s) ?c = ed_line h s"
    using False p(2,3) length_ent_line [OF own] by (simp add: ed_line_def)
  have "ed_line h (s\<lparr>ed_cmd := ?c, ed_hp := he h\<rparr>) = ed_line h s"
    using line by (simp add: ed_line_def)
  then have "ed_view h (s\<lparr>ed_cmd := ?c, ed_hp := he h\<rparr>) = ed_view h s"
    by (simp add: ed_view_def)
  moreover have "ed_inv env h (s\<lparr>ed_cmd := ?c, ed_hp := he h\<rparr>)"
    using inv len unfolding ed_inv_def by simp
  ultimately show thesis using that [OF rc len line] by simp
qed

section \<open>Motion\<close>

text \<open>
  The shape of every handler lemma: the handler succeeds, keeps the invariant, acts on the view as
  the abstract operation does, and leaves the pending escape sequence and the \<open>newline\<close> flag alone.
\<close>

definition handles :: "edenv \<Rightarrow> psh_hist \<Rightarrow> (ed \<Rightarrow> ed option) \<Rightarrow> (view \<Rightarrow> view) \<Rightarrow> bool" where
  "handles env h f g \<longleftrightarrow>
     (\<forall>s. ed_inv env h s \<longrightarrow>
        (\<exists>s'. f s = Some s' \<and> ed_inv env h s' \<and> ed_view h s' = g (ed_view h s)
           \<and> ed_esc s' = ed_esc s \<and> ed_newline s' = ed_newline s))"

lemma handlesI:
  assumes "\<And>s. ed_inv env h s \<Longrightarrow>
     \<exists>s'. f s = Some s' \<and> ed_inv env h s' \<and> ed_view h s' = g (ed_view h s)
       \<and> ed_esc s' = ed_esc s \<and> ed_newline s' = ed_newline s"
  shows "handles env h f g"
  using assms by (simp add: handles_def)

lemma handlesD:
  "handles env h f g \<Longrightarrow> ed_inv env h s \<Longrightarrow>
     \<exists>s'. f s = Some s' \<and> ed_inv env h s' \<and> ed_view h s' = g (ed_view h s)
       \<and> ed_esc s' = ed_esc s \<and> ed_newline s' = ed_newline s"
  by (simp add: handles_def)

lemmas ed_unfold = ed_inv_def ed_view_def ed_line_def

text \<open>States in which the command buffer is edited: invariant and view from the fields.\<close>

lemma edit_inv:
  assumes "ed_inv env h s" "ed_hp s' = he h" "length (ed_cmd s') = Suc (e_cmdsz env)"
    "ed_n s' + ed_m s' \<le> e_cmdsz env" "length (ed_clip s') = e_cmdsz env"
    "ed_cliplen s' \<le> e_cmdsz env" "ed_ln s' = ed_ln s" "ed_esc s' = ed_esc s"
    "ed_newline s' = ed_newline s" "ed_buff s' = ed_buff s"
  shows "ed_inv env h s'"
  using assms by (simp add: ed_inv_def)

text \<open>Moving the cursor within the line keeps the line.\<close>

lemma motion:
  assumes inv: "ed_inv env h s" and "n' + m' = ed_n s + ed_m s" and "ed_view h s = (l, r, k)"
  shows "ed_inv env h (s\<lparr>ed_out := os, ed_n := n', ed_m := m'\<rparr>)"
    and "ed_view h (s\<lparr>ed_out := os, ed_n := n', ed_m := m'\<rparr>) = (take n' (l @ r), drop n' (l @ r), k)"
proof -
  show "ed_inv env h (s\<lparr>ed_out := os, ed_n := n', ed_m := m'\<rparr>)"
    using assms(1,2) by (simp add: ed_inv_def)
  have "l @ r = ed_line h s" "k = take (ed_cliplen s) (ed_clip s)"
    using assms(3) by (auto simp: ed_view_def)
  moreover have "ed_line h (s\<lparr>ed_out := os, ed_n := n', ed_m := m'\<rparr>) = ed_line h s"
    using assms(2) by (simp add: ed_line_def)
  ultimately show "ed_view h (s\<lparr>ed_out := os, ed_n := n', ed_m := m'\<rparr>)
      = (take n' (l @ r), drop n' (l @ r), k)"
    by (simp add: ed_view_def)
qed

lemma motion_handles:
  assumes "\<And>s l r k. ed_inv env h s \<Longrightarrow> ed_view h s = (l, r, k) \<Longrightarrow>
     \<exists>os n' m'. f s = Some (s\<lparr>ed_out := os, ed_n := n', ed_m := m'\<rparr>) \<and> n' + m' = ed_n s + ed_m s
       \<and> g (l, r, k) = (take n' (l @ r), drop n' (l @ r), k)"
  shows "handles env h f g"
proof (rule handlesI)
  fix s assume inv: "ed_inv env h s"
  obtain l r k where v: "ed_view h s = (l, r, k)" by (cases "ed_view h s") auto
  then obtain os n' m' where f: "f s = Some (s\<lparr>ed_out := os, ed_n := n', ed_m := m'\<rparr>)"
      "n' + m' = ed_n s + ed_m s" "g (l, r, k) = (take n' (l @ r), drop n' (l @ r), k)"
    using assms inv by blast
  show "\<exists>s'. f s = Some s' \<and> ed_inv env h s' \<and> ed_view h s' = g (ed_view h s)
       \<and> ed_esc s' = ed_esc s \<and> ed_newline s' = ed_newline s"
    using motion [OF inv f(2) v, of os] f(1,3) v by simp
qed

lemma take_drop_view:
  assumes "ed_inv env h s" "ed_view h s = (l, r, k)"
  shows "take (ed_n s) (l @ r) = l" "drop (ed_n s) (l @ r) = r"
  using view_lengths [OF assms] by simp_all

lemma home_ok: "handles env h (ed_home env) a_home"
proof (rule motion_handles)
  fix s l r k assume inv: "ed_inv env h s" and v: "ed_view h s = (l, r, k)"
  have "ed_home env s = Some (s\<lparr>ed_out := if ed_n s > 0 then ed_out s @ mvout env (ed_n s + plen) (- int (ed_n s))
      else ed_out s, ed_n := 0, ed_m := ed_m s + ed_n s\<rparr>)"
    using inv by (simp add: ed_home_def mv_eq ed_invD(1))
  then show "\<exists>os n' m'. ed_home env s = Some (s\<lparr>ed_out := os, ed_n := n', ed_m := m'\<rparr>)
      \<and> n' + m' = ed_n s + ed_m s \<and> a_home (l, r, k) = (take n' (l @ r), drop n' (l @ r), k)"
    by (intro exI conjI) (assumption, simp_all)
qed

lemma end_ok: "handles env h (ed_end env) a_end"
proof (rule motion_handles)
  fix s l r k assume inv: "ed_inv env h s" and v: "ed_view h s = (l, r, k)"
  have "ed_end env s = Some (s\<lparr>ed_out := if ed_m s > 0 then ed_out s @ mvout env (ed_n s + plen) (int (ed_m s))
      else ed_out s, ed_n := ed_n s + ed_m s, ed_m := 0\<rparr>)"
    using inv by (simp add: ed_end_def mv_eq ed_invD(1))
  then show "\<exists>os n' m'. ed_end env s = Some (s\<lparr>ed_out := os, ed_n := n', ed_m := m'\<rparr>)
      \<and> n' + m' = ed_n s + ed_m s \<and> a_end (l, r, k) = (take n' (l @ r), drop n' (l @ r), k)"
    using view_lengths [OF inv v] by (intro exI conjI) (assumption, simp_all)
qed

lemma left_ok: "handles env h (ed_left env) a_left"
proof (rule motion_handles)
  fix s l r k assume inv: "ed_inv env h s" and v: "ed_view h s = (l, r, k)"
  show "\<exists>os n' m'. ed_left env s = Some (s\<lparr>ed_out := os, ed_n := n', ed_m := m'\<rparr>)
      \<and> n' + m' = ed_n s + ed_m s \<and> a_left (l, r, k) = (take n' (l @ r), drop n' (l @ r), k)"
  proof (cases l rule: rev_cases)
    case Nil
    then show ?thesis using view_lengths [OF inv v]
      by (intro exI [of _ "ed_out s"] exI [of _ "ed_n s"] exI [of _ "ed_m s"]) (simp add: ed_left_def)
  next
    case (snoc l' c)
    with view_lengths [OF inv v] have n: "ed_n s = Suc (length l')" by simp
    have "ed_left env s = Some (s\<lparr>ed_out := ed_out s @ mvout env (ed_n s + plen) (- 1),
        ed_n := length l', ed_m := ed_m s + 1\<rparr>)"
      using inv n by (simp add: ed_left_def mv_eq ed_invD(1))
    then show ?thesis using snoc n by (intro exI conjI) (assumption, simp_all)
  qed
qed

lemma right_ok: "handles env h (ed_right env) a_right"
proof (rule motion_handles)
  fix s l r k assume inv: "ed_inv env h s" and v: "ed_view h s = (l, r, k)"
  show "\<exists>os n' m'. ed_right env s = Some (s\<lparr>ed_out := os, ed_n := n', ed_m := m'\<rparr>)
      \<and> n' + m' = ed_n s + ed_m s \<and> a_right (l, r, k) = (take n' (l @ r), drop n' (l @ r), k)"
  proof (cases r)
    case Nil
    then show ?thesis using view_lengths [OF inv v]
      by (intro exI [of _ "ed_out s"] exI [of _ "ed_n s"] exI [of _ "ed_m s"]) (simp add: ed_right_def)
  next
    case (Cons c r')
    with view_lengths [OF inv v] have n: "ed_m s = Suc (length r')" "ed_n s = length l" by simp_all
    have "ed_right env s = Some (s\<lparr>ed_out := ed_out s @ mvout env (ed_n s + plen) 1,
        ed_n := ed_n s + 1, ed_m := length r'\<rparr>)"
      using inv n by (simp add: ed_right_def mv_eq ed_invD(1))
    then show ?thesis using Cons n by (intro exI conjI) (assumption, simp_all)
  qed
qed

section \<open>Editing\<close>

definition edited :: "edenv \<Rightarrow> psh_hist \<Rightarrow> ed \<Rightarrow> ed \<Rightarrow> bool" where
  "edited env h s s' \<longleftrightarrow>
     ed_hp s' = he h \<and> length (ed_cmd s') = Suc (e_cmdsz env) \<and>
     ed_n s' + ed_m s' \<le> e_cmdsz env \<and> length (ed_clip s') = e_cmdsz env \<and>
     ed_cliplen s' \<le> e_cmdsz env \<and> ed_ln s' = ed_ln s \<and> ed_esc s' = ed_esc s \<and>
     ed_newline s' = ed_newline s \<and> ed_buff s' = ed_buff s"

definition fields_view :: "ed \<Rightarrow> view" where
  "fields_view s = (take (ed_n s) (ed_cmd s), take (ed_m s) (drop (ed_n s) (ed_cmd s)),
                    take (ed_cliplen s) (ed_clip s))"

text \<open>
  An editing handler does nothing when its guard fails; otherwise it works on the recalled line
  \<open>c\<close>, and it is enough to look at the fields of the state it produces.
\<close>

lemma edit_handles:
  assumes noop: "\<And>s l r k. ed_inv env h s \<Longrightarrow> ed_view h s = (l, r, k) \<Longrightarrow> \<not> act s \<Longrightarrow>
      \<exists>os. f s = Some (s\<lparr>ed_out := os\<rparr>) \<and> g (l, r, k) = (l, r, k)"
    and act: "\<And>s l r k c. ed_inv env h s \<Longrightarrow> act s \<Longrightarrow>
      recall h s = Some (s\<lparr>ed_cmd := c, ed_hp := he h\<rparr>) \<Longrightarrow> length c = Suc (e_cmdsz env) \<Longrightarrow>
      l = take (ed_n s) c \<Longrightarrow> r = take (ed_m s) (drop (ed_n s) c) \<Longrightarrow>
      k = take (ed_cliplen s) (ed_clip s) \<Longrightarrow>
      \<exists>s'. f s = Some s' \<and> edited env h s s' \<and> fields_view s' = g (l, r, k)"
  shows "handles env h f g"
proof (rule handlesI)
  fix s assume inv: "ed_inv env h s"
  obtain l r k where v: "ed_view h s = (l, r, k)" by (cases "ed_view h s") auto
  show "\<exists>s'. f s = Some s' \<and> ed_inv env h s' \<and> ed_view h s' = g (ed_view h s)
       \<and> ed_esc s' = ed_esc s \<and> ed_newline s' = ed_newline s"
  proof (cases "act s")
    case False
    then show ?thesis using noop [OF inv v] inv v by auto
  next
    case True
    obtain c where c: "recall h s = Some (s\<lparr>ed_cmd := c, ed_hp := he h\<rparr>)"
      "length c = Suc (e_cmdsz env)" "take (ed_n s + ed_m s) c = ed_line h s"
      by (rule recall_ok [OF inv])
    have "l = take (ed_n s) c" "r = take (ed_m s) (drop (ed_n s) c)" "k = take (ed_cliplen s) (ed_clip s)"
      using v by (auto simp: ed_view_def drop_take simp flip: c(3))
    from act [OF inv True c(1,2) this] obtain s' where s':
      "f s = Some s'" "edited env h s s'" "fields_view s' = g (l, r, k)" by blast
    have "ed_inv env h s'" using edit_inv [OF inv] s'(2) by (simp add: edited_def)
    moreover have "ed_view h s' = fields_view s'"
      using s'(2) by (simp add: edited_def view_edit fields_view_def)
    ultimately show ?thesis using s' v by (auto simp: edited_def)
  qed
qed

lemma m_0_view: "ed_inv env h s \<Longrightarrow> ed_view h s = (l, r, k) \<Longrightarrow> \<not> ed_m s > 0 \<Longrightarrow> r = []"
  using view_lengths by fastforce

lemma n_0_view: "ed_inv env h s \<Longrightarrow> ed_view h s = (l, r, k) \<Longrightarrow> \<not> ed_n s > 0 \<Longrightarrow> l = []"
  using view_lengths by fastforce

lemma out_self [simp]: "\<exists>os. s = s\<lparr>ed_out := os\<rparr>"
  by (rule exI [of _ "ed_out s"]) simp

lemma delete_ok: "handles env h (ed_delete env h) a_delete"
proof (rule edit_handles [where act = "\<lambda>s. ed_m s > 0"])
  fix s c l r k
  assume inv: "ed_inv env h s" and m: "0 < ed_m s"
    and rc: "recall h s = Some (s\<lparr>ed_cmd := c, ed_hp := he h\<rparr>)" and c: "length c = Suc (e_cmdsz env)"
    and l: "l = take (ed_n s) c" and r: "r = take (ed_m s) (drop (ed_n s) c)"
    and k: "k = take (ed_cliplen s) (ed_clip s)"
  note D = ed_invD [OF inv]
  obtain m' where m': "ed_m s = Suc m'" using m by (cases "ed_m s") auto
  show "\<exists>s'. ed_delete env h s = Some s' \<and> edited env h s s' \<and> fields_view s' = a_delete (l, r, k)"
    using D(5,6) m' c
    by (simp add: ed_delete_def rc memsafe wr_cmd_eq mv_eq D(1) edited_def D(2-4) fields_view_def l r k
        tl_take drop_Suc tl_drop)
qed (auto simp: ed_delete_def dest: m_0_view)

lemma backspace_ok: "handles env h (ed_backspace env h) a_backspace"
proof (rule edit_handles [where act = "\<lambda>s. ed_n s > 0"])
  fix s c l r k
  assume inv: "ed_inv env h s" and n: "0 < ed_n s"
    and rc: "recall h s = Some (s\<lparr>ed_cmd := c, ed_hp := he h\<rparr>)" and c: "length c = Suc (e_cmdsz env)"
    and l: "l = take (ed_n s) c" and r: "r = take (ed_m s) (drop (ed_n s) c)"
    and k: "k = take (ed_cliplen s) (ed_clip s)"
  note D = ed_invD [OF inv]
  obtain n' where n': "ed_n s = Suc n'" using n by (cases "ed_n s") auto
  show "\<exists>s'. ed_backspace env h s = Some s' \<and> edited env h s s' \<and> fields_view s' = a_backspace (l, r, k)"
    using D(5,6) n' c
    by (simp add: ed_backspace_def rc memsafe wr_cmd_eq mv_eq D(1) edited_def D(2-4) fields_view_def l r k
        butlast_take)
qed (auto simp: ed_backspace_def dest: n_0_view)

lemma kill_ok: "handles env h (ed_kill env h) a_kill"
proof (rule edit_handles [where act = "\<lambda>s. ed_m s > 0"])
  fix s c l r k
  assume inv: "ed_inv env h s" and m: "0 < ed_m s"
    and rc: "recall h s = Some (s\<lparr>ed_cmd := c, ed_hp := he h\<rparr>)" and c: "length c = Suc (e_cmdsz env)"
    and l: "l = take (ed_n s) c" and r: "r = take (ed_m s) (drop (ed_n s) c)"
    and k: "k = take (ed_cliplen s) (ed_clip s)"
  note D = ed_invD [OF inv]
  show "\<exists>s'. ed_kill env h s = Some s' \<and> edited env h s s' \<and> fields_view s' = a_kill (l, r, k)"
    using D(5,6) m c
    by (simp add: ed_kill_def rc memsafe edited_def D(2-4) fields_view_def l r k)
qed (auto simp: ed_kill_def dest: m_0_view)

lemma killstart_ok: "handles env h (ed_killstart env h) a_killstart"
proof (rule edit_handles [where act = "\<lambda>s. ed_n s > 0"])
  fix s c l r k
  assume inv: "ed_inv env h s" and n: "0 < ed_n s"
    and rc: "recall h s = Some (s\<lparr>ed_cmd := c, ed_hp := he h\<rparr>)" and c: "length c = Suc (e_cmdsz env)"
    and l: "l = take (ed_n s) c" and r: "r = take (ed_m s) (drop (ed_n s) c)"
    and k: "k = take (ed_cliplen s) (ed_clip s)"
  note D = ed_invD [OF inv]
  have "c \<noteq> []" using c by auto
  then show "\<exists>s'. ed_killstart env h s = Some s' \<and> edited env h s s' \<and> fields_view s' = a_killstart (l, r, k)"
    using D(5,6) n c
    by (simp add: ed_killstart_def rc memsafe wr_cmd_eq mv_eq D(1) edited_def D(2-4) fields_view_def l r k)
qed (auto simp: ed_killstart_def dest: n_0_view)

lemma killword_ok: "handles env h (ed_killword env h) a_killword"
proof (rule edit_handles [where act = "\<lambda>s. ed_n s > 0"])
  fix s c l r k
  assume inv: "ed_inv env h s" and n: "0 < ed_n s"
    and rc: "recall h s = Some (s\<lparr>ed_cmd := c, ed_hp := he h\<rparr>)" and c: "length c = Suc (e_cmdsz env)"
    and l: "l = take (ed_n s) c" and r: "r = take (ed_m s) (drop (ed_n s) c)"
    and k: "k = take (ed_cliplen s) (ed_clip s)"
  note D = ed_invD [OF inv]
  have len: "length l = ed_n s" using l c D(6) by simp
  define i where "i = psh_skipword isgraph (rev l)"
  have i: "i \<le> ed_n s" using skipword_le [of isgraph "rev l"] len by (simp add: i_def)
  have walk: "cslice c 0 (ed_n s) = Some l" using c D(6) l by (simp add: memsafe)
  define n' where "n' = ed_n s - i"
  have n': "ed_n s = n' + i" using i by (simp add: n'_def)
  have lk: "take n' l = take n' c" "drop n' l = take i (drop n' c)"
    using l n' by (simp_all add: drop_take)
  show "\<exists>s'. ed_killword env h s = Some s' \<and> edited env h s s' \<and> fields_view s' = a_killword (l, r, k)"
  proof (cases "i = 0")
    case True
    then show ?thesis
      using D(5,6) n c walk
      by (simp add: ed_killword_def rc i_def [symmetric] edited_def D(2-4) fields_view_def
          flip: l r k)
  next
    case False
    then show ?thesis
      using D(5,6) n c walk n' len
      by (simp add: ed_killword_def rc i_def [symmetric] memsafe wr_cmd_eq mv_eq D(1) edited_def
          D(2-4) fields_view_def lk r k Let_def)
  qed
qed (auto simp: ed_killword_def psh_skipword_def dest: n_0_view)

lemma memmove_memcpy:
  assumes "n + m + i \<le> length c" "off + i \<le> length src"
  shows "memmove c (n + i) n m = Some (take (n + i) c @ take m (drop n c) @ drop (n + i + m) c)"
    and "memcpy (take (n + i) c @ take m (drop n c) @ drop (n + i + m) c) n src off i =
      Some (take n c @ take i (drop off src) @ take m (drop n c) @ drop (n + i + m) c)"
  using assms by (simp_all add: memsafe)

lemma splice_ok:
  assumes inv: "ed_inv env h s" and hp: "ed_hp s = he h" and i: "ed_n s + ed_m s + i \<le> e_cmdsz env"
    and src: "off + i \<le> length src"
  shows "\<exists>s'. ed_splice env src off i s = Some s' \<and> edited env h s s' \<and> fields_view s' =
    (take (ed_n s) (ed_cmd s) @ take i (drop off src), take (ed_m s) (drop (ed_n s) (ed_cmd s)),
     take (ed_cliplen s) (ed_clip s))"
proof -
  note D = ed_invD [OF inv]
  note M = memmove_memcpy [of "ed_n s" "ed_m s" i "ed_cmd s" off src, OF _ src]
  show ?thesis
    using i src D(5)
    by (simp add: ed_splice_def M wr_cmd_eq mv_eq D(1-4) edited_def hp fields_view_def)
qed

lemma insert_ok: "handles env h (ed_insert env h c0) (a_insert (e_cmdsz env) c0)"
proof (rule edit_handles [where act = "\<lambda>s. ed_n s + ed_m s < e_cmdsz env"])
  fix s l r k
  assume "ed_inv env h s" "ed_view h s = (l, r, k)" "\<not> ed_n s + ed_m s < e_cmdsz env"
  then show "\<exists>os. ed_insert env h c0 s = Some (s\<lparr>ed_out := os\<rparr>) \<and> a_insert (e_cmdsz env) c0 (l, r, k) = (l, r, k)"
    using view_lengths by (fastforce simp: ed_insert_def wr_def)
next
  fix s c l r k
  assume inv: "ed_inv env h s" and n: "ed_n s + ed_m s < e_cmdsz env"
    and rc: "recall h s = Some (s\<lparr>ed_cmd := c, ed_hp := he h\<rparr>)" and c: "length c = Suc (e_cmdsz env)"
    and l: "l = take (ed_n s) c" and r: "r = take (ed_m s) (drop (ed_n s) c)"
    and k: "k = take (ed_cliplen s) (ed_clip s)"
  note D = ed_invD [OF inv]
  have mm: "memmove c (Suc (ed_n s)) (ed_n s) (ed_m s)
      = Some (take (Suc (ed_n s)) c @ r @ drop (Suc (ed_n s + ed_m s)) c)"
    using memmove_memcpy(1) [of "ed_n s" "ed_m s" 1 c 0 "[c0]"] n c by (simp add: r)
  have len: "length l = ed_n s" "length r = ed_m s" using l r c n by simp_all
  have pk: "poke (take (Suc (ed_n s)) c @ r @ drop (Suc (ed_n s + ed_m s)) c) (ed_n s) c0
      = Some (l @ c0 # r @ drop (Suc (ed_n s + ed_m s)) c)"
    using n c by (simp add: poke_def l take_Suc_conv_app_nth list_update_append nth_append)
  show "\<exists>s'. ed_insert env h c0 s = Some s' \<and> edited env h s s'
      \<and> fields_view s' = a_insert (e_cmdsz env) c0 (l, r, k)"
    using n c D(5) len
    by (simp add: ed_insert_def rc mm pk wr_cmd_eq mv_eq D(1) edited_def D(2-4)
        fields_view_def k)
qed

lemma paste_ok: "handles env h (ed_paste env h) (a_paste (e_cmdsz env))"
proof (rule edit_handles [where act = "\<lambda>s. ed_n s + ed_m s < e_cmdsz env \<and> ed_cliplen s > 0"])
  fix s l r k
  assume "ed_inv env h s" "ed_view h s = (l, r, k)" "\<not> (ed_n s + ed_m s < e_cmdsz env \<and> ed_cliplen s > 0)"
  then show "\<exists>os. ed_paste env h s = Some (s\<lparr>ed_out := os\<rparr>) \<and> a_paste (e_cmdsz env) (l, r, k) = (l, r, k)"
    using view_lengths [of env h s l r k] by (auto simp: ed_paste_def)
next
  fix s c l r k
  assume inv: "ed_inv env h s" and n: "ed_n s + ed_m s < e_cmdsz env \<and> ed_cliplen s > 0"
    and rc: "recall h s = Some (s\<lparr>ed_cmd := c, ed_hp := he h\<rparr>)" and c: "length c = Suc (e_cmdsz env)"
    and l: "l = take (ed_n s) c" and r: "r = take (ed_m s) (drop (ed_n s) c)"
    and k: "k = take (ed_cliplen s) (ed_clip s)"
  note D = ed_invD [OF inv]
  define i where "i = min (ed_cliplen s) (e_cmdsz env - ed_n s - ed_m s)"
  have i: "(if ed_n s + ed_m s + ed_cliplen s > e_cmdsz env
      then e_cmdsz env - ed_n s - ed_m s else ed_cliplen s) = i" "0 < i"
    using n by (auto simp: i_def min_def)
  have i': "ed_n s + ed_m s + i \<le> e_cmdsz env" "i \<le> e_cmdsz env" using n by (auto simp: i_def)
  have inv': "ed_inv env h (s\<lparr>ed_cmd := c, ed_hp := he h\<rparr>)"
    using edit_inv [OF inv, of "s\<lparr>ed_cmd := c, ed_hp := he h\<rparr>"] D(2-7) c by simp
  have "ed_paste env h s = ed_splice env (ed_clip s) 0 i (s\<lparr>ed_cmd := c, ed_hp := he h\<rparr>)"
    unfolding ed_paste_def i(1) Let_def using i(2) rc by simp
  moreover have "take i (ed_clip s) = take (e_cmdsz env - ed_n s - ed_m s) k"
    by (simp add: k i_def min.commute)
  moreover have "length l = ed_n s" "length r = ed_m s" using l r c D(6) by simp_all
  ultimately show "\<exists>s'. ed_paste env h s = Some s' \<and> edited env h s s'
      \<and> fields_view s' = a_paste (e_cmdsz env) (l, r, k)"
    using splice_ok [OF inv', of i 0 "ed_clip s"] i' D(4) l r k by (simp add: edited_def)
qed

lemma wordleft_ok: "handles env h (ed_wordleft env h) a_wordleft"
proof (rule edit_handles [where act = "\<lambda>s. ed_n s > 0"])
  fix s c l r k
  assume inv: "ed_inv env h s" and n: "0 < ed_n s"
    and rc: "recall h s = Some (s\<lparr>ed_cmd := c, ed_hp := he h\<rparr>)" and c: "length c = Suc (e_cmdsz env)"
    and l: "l = take (ed_n s) c" and r: "r = take (ed_m s) (drop (ed_n s) c)"
    and k: "k = take (ed_cliplen s) (ed_clip s)"
  note D = ed_invD [OF inv]
  have len: "length l = ed_n s" using l c D(6) by simp
  define i where "i = psh_skipword isalnum (rev l)"
  have i: "i \<le> ed_n s" using skipword_le [of isalnum "rev l"] len by (simp add: i_def)
  have walk: "cslice c 0 (ed_n s) = Some l" using c D(6) l by (simp add: memsafe)
  define n' where "n' = ed_n s - i"
  have n': "ed_n s = n' + i" using i by (simp add: n'_def)
  have "drop n' l = take i (drop n' c)" using l n' by (simp add: drop_take)
  then have lk: "take n' l = take n' c" "drop n' l @ r = take (ed_m s + i) (drop n' c)"
    using l r n' take_add [of i "ed_m s" "drop n' c"] by (simp, simp add: add.commute)
  show "\<exists>s'. ed_wordleft env h s = Some s' \<and> edited env h s s' \<and> fields_view s' = a_wordleft (l, r, k)"
    using D(5,6) n c walk n' len
    by (simp add: ed_wordleft_def rc i_def [symmetric] mv_eq D(1) edited_def
        D(2-4) fields_view_def lk k Let_def)
qed (auto simp: ed_wordleft_def psh_skipword_def dest: n_0_view)

lemma wordright_ok: "handles env h (ed_wordright env h) a_wordright"
proof (rule edit_handles [where act = "\<lambda>s. ed_m s > 0"])
  fix s c l r k
  assume inv: "ed_inv env h s" and m: "0 < ed_m s"
    and rc: "recall h s = Some (s\<lparr>ed_cmd := c, ed_hp := he h\<rparr>)" and c: "length c = Suc (e_cmdsz env)"
    and l: "l = take (ed_n s) c" and r: "r = take (ed_m s) (drop (ed_n s) c)"
    and k: "k = take (ed_cliplen s) (ed_clip s)"
  note D = ed_invD [OF inv]
  have len: "length r = ed_m s" using r c D(6) by simp
  define i where "i = psh_skipword isalnum r"
  have i: "i \<le> ed_m s" using skipword_le [of isalnum r] len by (simp add: i_def)
  have walk: "cslice c (ed_n s) (ed_m s) = Some r" using c D(6) r by (simp add: memsafe)
  define m' where "m' = ed_m s - i"
  have m': "ed_m s = m' + i" using i by (simp add: m'_def)
  have "take i r = take i (drop (ed_n s) c)" using r m' by simp
  then have lk: "l @ take i r = take (ed_n s + i) c" "drop i r = take m' (drop (ed_n s + i) c)"
    using l r m' by (simp add: take_add, simp add: drop_take add.commute)
  show "\<exists>s'. ed_wordright env h s = Some s' \<and> edited env h s s' \<and> fields_view s' = a_wordright (l, r, k)"
    using D(5,6) m c walk m'
    by (simp add: ed_wordright_def rc i_def [symmetric] mv_eq D(1) edited_def
        D(2-4) fields_view_def lk k Let_def)
qed (auto simp: ed_wordright_def psh_skipword_def dest: m_0_view)

lemma killnextword_ok: "handles env h (ed_killnextword env h) a_killnextword"
proof (rule edit_handles [where act = "\<lambda>s. ed_m s > 0"])
  fix s c l r k
  assume inv: "ed_inv env h s" and m: "0 < ed_m s"
    and rc: "recall h s = Some (s\<lparr>ed_cmd := c, ed_hp := he h\<rparr>)" and c: "length c = Suc (e_cmdsz env)"
    and l: "l = take (ed_n s) c" and r: "r = take (ed_m s) (drop (ed_n s) c)"
    and k: "k = take (ed_cliplen s) (ed_clip s)"
  note D = ed_invD [OF inv]
  have len: "length r = ed_m s" using r c D(6) by simp
  define i where "i = psh_skipword isalnum r"
  have i: "i \<le> ed_m s" using skipword_le [of isalnum r] len by (simp add: i_def)
  have walk: "cslice c (ed_n s) (ed_m s) = Some r" using c D(6) r by (simp add: memsafe)
  define m' where "m' = ed_m s - i"
  have m': "ed_m s = m' + i" using i by (simp add: m'_def)
  have lk: "take i r = take i (drop (ed_n s) c)" "drop i r = take m' (drop (ed_n s + i) c)"
    using r m' by (simp_all add: drop_take ac_simps)
  show "\<exists>s'. ed_killnextword env h s = Some s' \<and> edited env h s s' \<and> fields_view s' = a_killnextword (l, r, k)"
  proof (cases "i = 0")
    case True
    then show ?thesis
      using D(5,6) m c walk
      by (simp add: ed_killnextword_def rc i_def [symmetric] edited_def D(2-4) fields_view_def
          flip: l r k)
  next
    case False
    then show ?thesis
      using D(5,6) m c walk m'
      by (simp add: ed_killnextword_def rc i_def [symmetric] memsafe wr_cmd_eq mv_eq D(1) edited_def
          D(2-4) fields_view_def lk l k Let_def)
  qed
qed (auto simp: ed_killnextword_def psh_skipword_def dest: m_0_view)

end
