(* ===== verification/EditLoop.thy ===== *)
theory EditLoop
  imports EditProofs
begin

text \<open>
  The line editor as a whole: history browsing, path completion, the dispatch of one received
  byte and the input loop of \<open>psh_readcmd\<close> (\<open>src/psh/pshapp/pshapp.c\<close>). The properties: every
  input keeps the editor inside its buffers, editing keys act as on the abstract editor, and the
  command that is returned is the line on the screen.
\<close>

section \<open>Redrawing, cancelling and entering\<close>

lemma wr_line_ok:
  assumes inv: "ed_inv env h s"
  shows "wr_line h s = Some (wr (ed_line h s) s)"
proof (cases "ed_hp s = he h")
  case True
  then show ?thesis
    using ed_invD(2,6) [OF inv] by (simp add: wr_line_def ed_line_def wr_cmd_eq)
next
  case False
  then obtain p where "p < hsize h" "ed_hp s = slot h p" using inv ed_inv_browse by metis
  then show ?thesis
    using False printhistent_eq [OF inv_entry_owned [OF inv]] by (simp add: wr_line_def ed_line_def)
qed

lemma clear_ok: "handles env h (ed_clear env h) id"
proof (rule handlesI)
  fix s assume inv: "ed_inv env h s"
  have "ed_clear env h s = Some ((wr (ed_line h s) (wr PROMPT (wr (CSI_HOME @ CSI_CLEAR0) s)))\<lparr>ed_out :=
      ed_out (wr (ed_line h s) (wr PROMPT (wr (CSI_HOME @ CSI_CLEAR0) s)))
      @ mvout env (ed_n s + ed_m s + plen) (- int (ed_m s))\<rparr>)"
    using inv wr_line_ok [of env h "wr PROMPT (wr (CSI_HOME @ CSI_CLEAR0) s)"]
    by (simp add: ed_clear_def mv_eq ed_invD(1) wr_def ed_line_def)
  then show "\<exists>s'. ed_clear env h s = Some s' \<and> ed_inv env h s' \<and> ed_view h s' = id (ed_view h s)
       \<and> ed_esc s' = ed_esc s \<and> ed_newline s' = ed_newline s"
    using inv by simp
qed

lemma cancel_ok:
  assumes "ed_inv env h s"
  shows "\<exists>s'. ed_cancel env s = Some s' \<and> ed_n s' = 0 \<and> ed_m s' = 0 \<and> ed_cmd s' = ed_cmd s"
  using assms by (simp add: ed_cancel_def mv_eq ed_invD(1) Let_def)

lemma enter_ok:
  assumes inv: "ed_inv env h s"
  shows "\<exists>s'. ed_enter env h c s = Some s' \<and> ed_n s' = ed_n s \<and> ed_m s' = ed_m s \<and>
     length (ed_cmd s') = Suc (e_cmdsz env) \<and> take (ed_n s + ed_m s) (ed_cmd s') = ed_line h s"
proof (cases "c = CHR 0x0A \<and> ed_newline s")
  case True
  then have "ed_hp s = he h" using inv ed_inv_browse by metis
  then show ?thesis
    using True ed_invD(2) [OF inv] by (simp add: ed_enter_def ed_line_def)
next
  case False
  obtain x where x: "recall h s = Some (s\<lparr>ed_cmd := x, ed_hp := he h\<rparr>)"
    "length x = Suc (e_cmdsz env)" "take (ed_n s + ed_m s) x = ed_line h s"
    by (rule recall_ok [OF inv])
  have "recall h (s\<lparr>ed_newline := b\<rparr>) = Some (s\<lparr>ed_newline := b, ed_cmd := x, ed_hp := he h\<rparr>)" for b
    using x(1) by (cases s) (auto simp: recall_def split: if_splits bind_splits)
  then show ?thesis
    using False x ed_invD(1) [OF inv] by (auto simp: ed_enter_def mv_eq)
qed

section \<open>Browsing the history\<close>

lemma slot_end_iff:
  assumes "hist_ok sz h" "p \<le> hsize h"
  shows "slot h p = he h \<longleftrightarrow> p = hsize h" "slot h p = hb h \<longleftrightarrow> p = 0"
proof -
  have "p < HISTSZ" using assms(2) hsize_less [of h] by linarith
  then show "slot h p = he h \<longleftrightarrow> p = hsize h" "slot h p = hb h \<longleftrightarrow> p = 0"
    using hist_okD(3,4) [OF assms(1)] slot_eq_iff [of p "hsize h" h] slot_eq_iff [of p 0 h] by simp_all
qed

lemma up_ok:
  assumes inv: "ed_inv env h s" and nl: "\<not> ed_newline s" and p: "ed_hp s = slot h (Suc p)" "Suc p \<le> hsize h"
  shows "\<exists>s'. ed_up env h s = Some s' \<and> ed_inv env h s' \<and> ed_hp s' = slot h p
    \<and> ed_view h s' = (map detok (hist_list h ! p), [], take (ed_cliplen s) (ed_clip s))
    \<and> ed_ln s' = (if Suc p = hsize h then ed_n s + ed_m s else ed_ln s)
    \<and> ed_cmd s' = ed_cmd s \<and> ed_newline s' = ed_newline s \<and> ed_clip s' = ed_clip s
    \<and> ed_cliplen s' = ed_cliplen s \<and> ed_esc s' = ed_esc s"
proof -
  note D = ed_invD [OF inv]
  note own = inv_entry_owned [OF inv, of p]
  have ends: "ed_hp s = he h \<longleftrightarrow> Suc p = hsize h" "ed_hp s \<noteq> hb h" "slot h p \<noteq> he h"
    using slot_end_iff [OF D(10)] p by simp_all
  have n: "ent_n (entries h (slot h p)) \<le> e_cmdsz env"
    using own p(2) by (auto simp: ent_owned_def split: cptr.splits)
  define s' where "s' = (wr (map detok (ent_line (entries h (slot h p)))) (wr PROMPT (wr CSI_CLEAR0
      (s\<lparr>ed_ln := if Suc p = hsize h then ed_n s + ed_m s else ed_ln s,
         ed_out := ed_out s @ mvout env (ed_n s + plen) (- int (ed_n s + plen))\<rparr>))))
      \<lparr>ed_hp := slot h p, ed_n := ent_n (entries h (slot h p)), ed_m := 0\<rparr>"
  have up: "ed_up env h s = Some s'"
    using ends p own by (simp add: ed_up_def s'_def mv_eq D(1) prev_slot printhistent_eq Let_def)
  have "ed_inv env h s'"
    unfolding ed_inv_def s'_def using D n nl p(2) by (simp add: Suc_le_eq) blast
  moreover have "ed_view h s' = (map detok (hist_list h ! p), [], take (ed_cliplen s) (ed_clip s))"
    using ends(3) own p(2) by (simp add: s'_def ed_view_def ed_line_def nth_hist_list length_ent_line)
  ultimately show ?thesis using up by (simp add: s'_def)
qed

lemma down_ok:
  assumes inv: "ed_inv env h s" and nl: "\<not> ed_newline s" and p: "ed_hp s = slot h p" "p < hsize h"
  shows "\<exists>s'. ed_down env h s = Some s' \<and> ed_inv env h s' \<and> ed_hp s' = slot h (Suc p)
    \<and> ed_view h s' = (if Suc p = hsize h then take (ed_ln s) (ed_cmd s) else map detok (hist_list h ! Suc p),
                      [], take (ed_cliplen s) (ed_clip s))
    \<and> ed_ln s' = ed_ln s \<and> ed_cmd s' = ed_cmd s \<and> ed_newline s' = ed_newline s \<and> ed_clip s' = ed_clip s
    \<and> ed_cliplen s' = ed_cliplen s \<and> ed_esc s' = ed_esc s"
proof -
  note D = ed_invD [OF inv]
  have nend: "ed_hp s \<noteq> he h" using slot_end_iff [OF D(10)] p by simp
  define s0 where "s0 = (wr PROMPT (wr CSI_CLEAR0
      (s\<lparr>ed_out := ed_out s @ mvout env (ed_n s + plen) (- int (ed_n s + plen))\<rparr>)))\<lparr>ed_hp := slot h (Suc p), ed_m := 0\<rparr>"
  show ?thesis
  proof (cases "Suc p = hsize h")
    case True
    then have he: "slot h (Suc p) = he h" using hist_okD(3) [OF D(10)] by simp
    define s' where "s' = wr (take (ed_ln s) (ed_cmd s)) (s0\<lparr>ed_n := ed_ln s\<rparr>)"
    have "ed_down env h s = Some s'"
      using nend p he D(2,7) by (simp add: ed_down_def s'_def s0_def mv_eq D(1) next_slot wr_cmd_eq Let_def)
    moreover have "ed_inv env h s'"
      unfolding ed_inv_def s'_def s0_def using D he by simp
    ultimately show ?thesis using True he by (simp add: s'_def s0_def view_edit)
  next
    case False
    then have p': "Suc p < hsize h" using p by simp
    note own = inv_entry_owned [OF inv p']
    have he: "slot h (Suc p) \<noteq> he h" using slot_end_iff(1) [OF D(10), of "Suc p"] p' by simp
    have n: "ent_n (entries h (slot h (Suc p))) \<le> e_cmdsz env"
      using own by (auto simp: ent_owned_def split: cptr.splits)
    define s' where "s' = wr (map detok (ent_line (entries h (slot h (Suc p)))))
        (s0\<lparr>ed_n := ent_n (entries h (slot h (Suc p)))\<rparr>)"
    have "ed_down env h s = Some s'"
      using nend p he own by (simp add: ed_down_def s'_def s0_def mv_eq D(1) next_slot printhistent_eq Let_def)
    moreover have "ed_inv env h s'"
      unfolding ed_inv_def s'_def s0_def using D n nl p' by simp blast
    ultimately show ?thesis
      using False he own p' by (simp add: s'_def s0_def ed_view_def ed_line_def nth_hist_list length_ent_line)
  qed
qed

lemma browse_pos:
  assumes "ed_inv env h s"
  obtains p where "ed_hp s = slot h p" "p \<le> hsize h"
proof (cases "ed_hp s = he h")
  case True
  then show thesis using that [of "hsize h"] hist_okD(3) [OF ed_invD(10) [OF assms]] by simp
next
  case False
  then obtain p where "p < hsize h" "ed_hp s = slot h p" by (rule ed_inv_browse [OF assms])
  then show thesis using that [of p] less_imp_le by blast
qed

lemma up_safe:
  assumes inv: "ed_inv env h s" and nl: "\<not> ed_newline s"
  shows "\<exists>s'. ed_up env h s = Some s' \<and> ed_inv env h s' \<and> ed_esc s' = ed_esc s"
proof -
  obtain p where p: "ed_hp s = slot h p" "p \<le> hsize h" by (rule browse_pos [OF inv])
  show ?thesis
  proof (cases p)
    case 0
    then show ?thesis using p(1) hist_okD(4) [OF ed_invD(10) [OF inv]] inv by (simp add: ed_up_def)
  next
    case (Suc q)
    with p up_ok [OF inv nl, of q] show ?thesis by blast
  qed
qed

lemma down_safe:
  assumes inv: "ed_inv env h s" and nl: "\<not> ed_newline s"
  shows "\<exists>s'. ed_down env h s = Some s' \<and> ed_inv env h s' \<and> ed_esc s' = ed_esc s"
proof -
  obtain p where p: "ed_hp s = slot h p" "p \<le> hsize h" by (rule browse_pos [OF inv])
  show ?thesis
  proof (cases "p = hsize h")
    case True
    then show ?thesis using p(1) hist_okD(3) [OF ed_invD(10) [OF inv]] inv by (simp add: ed_down_def)
  next
    case False
    with p down_ok [OF inv nl p(1)] show ?thesis by auto
  qed
qed

section \<open>Path completion\<close>

text \<open>
  What completion relies on in \<open>resolve_path\<close>: it returns a positive error number, or a path that is not empty
  in a buffer where a slash can be put behind it when the slash typed last was taken away.
\<close>

definition resolve_ok :: "edenv \<Rightarrow> bool" where
  "resolve_ok env \<longleftrightarrow> (\<forall>p. case e_resolve env p of
      Inl e \<Rightarrow> 0 < e
    | Inr (f, fsize) \<Rightarrow> f \<noteq> [] \<and> (last p = CHR ''/'' \<and> last f \<noteq> CHR ''/'' \<longrightarrow> length f + 1 < fsize))"

text \<open>
  The condition under which \<open>psh_printfiles\<close> writes its column widths before it reads them, for whatever
  is completed: two or more candidates need no more lines, by the first estimate \<open>len / ws_col + 1\<close>, than
  there are candidates. Where it does not hold the widths are read uninitialised (lemma
  \<open>psh_printfiles_uninitialised\<close>).
\<close>

definition candidates :: "string \<Rightarrow> (string \<times> bool) list \<Rightarrow> string list" where
  "candidates base es = map complete_mark (filter (\<lambda>e. complete_match base (fst e)) es)"

definition hints_fit :: "edenv \<Rightarrow> bool" where
  "hints_fit env \<longleftrightarrow> (\<forall>fpath. case e_splitname env fpath of (base, dir) \<Rightarrow> (case e_readdir env dir of
      None \<Rightarrow> True
    | Some es \<Rightarrow> let files = candidates base es in
        1 < length files \<longrightarrow> sum_list (map length files) div e_wscol env + 1 \<le> length files))"

text \<open>
  The result of a completion: the editor goes on with text inserted at the cursor only, or the
  command is given up with an error.
\<close>

definition tab_result :: "edenv \<Rightarrow> psh_hist \<Rightarrow> ed \<Rightarrow> rcres \<Rightarrow> bool" where
  "tab_result env h s r = (case r of
     Cont s' \<Rightarrow> ed_inv env h s' \<and> ed_esc s' = ed_esc s \<and> ed_newline s' = ed_newline s \<and>
       (\<exists>t. ed_view h s' = (fst (ed_view h s) @ t, snd (ed_view h s)))
   | BrkErr e s' \<Rightarrow> e < 0 | _ \<Rightarrow> False)"

lemma tab_result_self: "ed_inv env h s \<Longrightarrow> tab_result env h s (Cont s)"
  by (auto simp: tab_result_def intro: exI [of _ "[]"])

lemma completepath_names:
  assumes "psh_completepath al listing base = Inr files" "f \<in> set files"
  shows "length base \<le> length f"
proof -
  obtain es where es: "listing = Some es" "complete_loop al base 1 32 [] es = Inr files"
    using assms by (auto simp: psh_completepath_def split: option.splits if_splits)
  then have "files = map complete_mark (filter (\<lambda>e. complete_match base (fst e)) es)"
    using complete_loop_result [of al base 1 32 "[]" es] by auto
  then obtain e where e: "e \<in> set es" "complete_match base (fst e)" "f = complete_mark e"
    using assms(2) by auto
  have "length base \<le> length (fst e)"
    using e(2) by (metis complete_match_iff nle_le take_all_iff)
  then show "length base \<le> length f" using e(3) by (simp add: complete_mark_def)
qed

lemma completepath_candidates:
  "psh_completepath al listing base = Inr files \<Longrightarrow> files \<noteq> [] \<Longrightarrow> \<exists>es. listing = Some es \<and> files = candidates base es"
proof (cases listing)
  case (Some es)
  then show "psh_completepath al listing base = Inr files \<Longrightarrow> files \<noteq> [] \<Longrightarrow> \<exists>es. listing = Some es \<and> files = candidates base es"
    using complete_loop_result [of al base 1 32 "[]" es]
    by (auto simp: psh_completepath_def candidates_def split: if_splits)
qed (simp add: psh_completepath_def)

lemma hints_fit_files:
  assumes "hints_fit env" "psh_completepath al (e_readdir env (snd bd)) (fst bd) = Inr files" "1 < length files"
    and "bd = e_splitname env fpath"
  shows "sum_list (map length files) div e_wscol env + 1 \<le> length files"
proof -
  obtain es where es: "e_readdir env (snd bd) = Some es" "files = candidates (fst bd) es"
    using completepath_candidates [OF assms(2)] assms(3) by fastforce
  have "case bd of (base, dir) \<Rightarrow> (case e_readdir env dir of
      None \<Rightarrow> True
    | Some es \<Rightarrow> let files = candidates base es in
        1 < length files \<longrightarrow> sum_list (map length files) div e_wscol env + 1 \<le> length files)"
    using assms(1) unfolding hints_fit_def assms(4) by (rule spec)
  then show ?thesis using es assms(3) by (simp add: split_beta Let_def)
qed

lemma completepath_err: "psh_completepath al listing base = Inl e \<Longrightarrow> e = - ENOMEM"
proof (cases listing)
  case (Some es)
  then show "psh_completepath al listing base = Inl e \<Longrightarrow> e = - ENOMEM"
    using complete_loop_result [of al base 1 32 "[]" es]
    by (auto simp: psh_completepath_def split: if_splits)
qed (simp add: psh_completepath_def)

lemma tab_complete_ok:
  assumes inv: "ed_inv env h s" and base: "length base \<le> length file"
  shows "\<exists>r. tab_complete env h base file s = Some r \<and> tab_result env h s r"
proof -
  obtain x where x: "recall h s = Some (s\<lparr>ed_cmd := x, ed_hp := he h\<rparr>)"
    "ed_inv env h (s\<lparr>ed_cmd := x, ed_hp := he h\<rparr>)" (is "ed_inv env h ?s1")
    "ed_view h (s\<lparr>ed_cmd := x, ed_hp := he h\<rparr>) = ed_view h s"
    by (rule recall_ok [OF inv])
  define i where "i = (if ed_n s + ed_m s + (length file - length base) > e_cmdsz env
    then e_cmdsz env - ed_n s - ed_m s else length file - length base)"
  have i: "ed_n ?s1 + ed_m ?s1 + i \<le> e_cmdsz env" "length base + i \<le> length file"
    using ed_invD(6) [OF inv] base by (auto simp: i_def)
  obtain s' where s': "ed_splice env file (length base) i ?s1 = Some s'" "edited env h ?s1 s'"
    "fields_view s' = (fst (fields_view ?s1) @ take i (drop (length base) file), snd (fields_view ?s1))"
    using splice_ok [OF x(2) _ i] by (auto simp: fields_view_def)
  have v: "fields_view ?s1 = ed_view h s"
    by (simp add: x(3) [symmetric] view_edit fields_view_def)
  have "ed_inv env h s'" using edit_inv [OF x(2)] s'(2) by (simp add: edited_def)
  moreover have "ed_view h s' = fields_view s'"
    using s'(2) by (simp add: edited_def view_edit fields_view_def)
  ultimately have "tab_result env h s (Cont s')"
    using s'(2,3) v by (auto simp: tab_result_def edited_def)
  then show ?thesis using s'(1) x(1) by (simp add: tab_complete_def i_def Let_def)
qed

lemma tab_hints_ok:
  assumes inv: "ed_inv env h s" and fit: "sum_list (map length files) div e_wscol env + 1 \<le> length files"
  shows "\<exists>r. tab_hints env h files s = Some r \<and> tab_result env h s r"
proof -
  note D = ed_invD [OF inv]
  let ?s1 = "s\<lparr>ed_out := ed_out s @ mvout env (ed_n s + plen) (int (ed_m s))\<rparr>"
  have "mset (map length (qsort_names files)) = mset (map length files)" by (simp add: qsort_names_def)
  then have q: "sum_list (map length (qsort_names files)) = sum_list (map length files)"
    "length (qsort_names files) = length files"
    using sum_mset_sum_list mset_eq_length length_map by metis+
  obtain r where r: "psh_printfiles (e_palloc env) (e_wscol env) (qsort_names files) = Some r"
    "\<And>e. r = Inl e \<Longrightarrow> e = - ENOMEM"
    using printfiles_prints_all [OF D(1), of "qsort_names files"] fit q D(1)
    by (cases "e_palloc env") (auto simp: psh_printfiles_def)
  show ?thesis
  proof (cases r)
    case (Inl e)
    then show ?thesis using r by (simp add: tab_hints_def mv_eq D(1) tab_result_def)
  next
    case (Inr cells)
    let ?s2 = "wr PROMPT (wr CSI_CLEAR0 (wr (cells_text cells) ?s1))"
    have "wr_line h ?s2 = Some (wr (ed_line h ?s2) ?s2)"
      using inv by (intro wr_line_ok) simp
    then have "tab_hints env h files s = Some (Cont ((wr (ed_line h ?s2) ?s2)\<lparr>ed_out :=
        ed_out (wr (ed_line h ?s2) ?s2) @ mvout env (ed_n s + ed_m s + plen) (- int (ed_m s))\<rparr>))"
      using Inr r(1) by (simp add: tab_hints_def mv_eq D(1))
    then show ?thesis using inv by (auto simp: tab_result_def intro: exI [of _ "[]"])
  qed
qed

lemma tab_start_ok: "i \<le> length b \<Longrightarrow> \<exists>j \<le> i. tab_start b i = Some j"
proof (induction i)
  case (Suc i)
  then obtain j where "j \<le> i" "tab_start b i = Some j" by auto
  with Suc.prems show ?case by (auto simp: peek_def intro: exI [of _ j])
qed simp

lemma tab_buffer_ok:
  assumes inv: "ed_inv env h s"
  obtains b where "tab_buffer h s = Some b" "length b = Suc (e_cmdsz env)"
proof (cases "ed_hp s = he h")
  case True
  then show thesis using that [of "ed_cmd s"] ed_invD(2) [OF inv] by (simp add: tab_buffer_def)
next
  case False
  then obtain p where p: "p < hsize h" "ed_hp s = slot h p" by (rule ed_inv_browse [OF inv])
  then obtain b where "ent_cmd (entries h (slot h p)) = Buf b" "length b = Suc (e_cmdsz env)"
    using inv_entry_owned [OF inv p(1)] by (auto simp: ent_owned_def split: cptr.splits)
  with False p(2) that show thesis by (simp add: tab_buffer_def)
qed

lemma tab_ok:
  assumes inv: "ed_inv env h s" and env: "resolve_ok env" "hints_fit env"
  shows "\<exists>r. ed_tab env h s = Some r \<and> tab_result env h s r"
proof -
  note D = ed_invD [OF inv]
  obtain b where b: "tab_buffer h s = Some b" "length b = Suc (e_cmdsz env)"
    by (rule tab_buffer_ok [OF inv])
  have n: "ed_n s < length b" using b(2) D(6) by simp
  obtain i where i: "i \<le> ed_n s" "tab_start b (ed_n s) = Some i"
    using tab_start_ok [of "ed_n s" b] n by auto
  note self = tab_result_self [OF inv]
  define path where "path = take (ed_n s - i) (drop i b)"
  have path: "cslice b i (ed_n s - i) = Some path" "poke b (ed_n s) NUL = Some (b[ed_n s := NUL])"
    using n i(1) by (simp_all add: memsafe path_def)
  show ?thesis
  proof (cases "i = ed_n s \<or> (\<exists>e. e_resolve env path = Inl e)")
    case True
    moreover have "e_resolve env path = Inl e \<Longrightarrow> 0 < e" for e
      using env(1) [unfolded resolve_ok_def, THEN spec, of path] by simp
    ultimately show ?thesis using self b(1) i(2) path
      by (auto simp: ed_tab_def tab_result_def)
  next
    case False
    then obtain f0 fsize where f0: "e_resolve env path = Inr (f0, fsize)" by (cases "e_resolve env path") auto
    then have f0_ok: "f0 \<noteq> []" "last path = CHR ''/'' \<Longrightarrow> last f0 \<noteq> CHR ''/'' \<Longrightarrow> length f0 + 1 < fsize"
      using env(1) [unfolded resolve_ok_def, rule_format, of path] by auto
    then have pk: "peek f0 (length f0 - 1) = Some (last f0)" by (simp add: peek_def last_conv_nth)
    define bd where "bd = e_splitname env
      (if last path = CHR ''/'' \<and> last f0 \<noteq> CHR ''/'' then f0 @ ''/'' else f0)"
    define c where "c = psh_completepath (e_alloc env) (e_readdir env (snd bd)) (fst bd)"
    have tab: "ed_tab env h s = (case c of Inl e \<Rightarrow> Some (BrkErr e s) | Inr [] \<Rightarrow> Some (Cont s)
        | Inr [file] \<Rightarrow> tab_complete env h (fst bd) file s | Inr files \<Rightarrow> tab_hints env h files s)"
      unfolding c_def bd_def using False b(1) i(2) path f0 pk f0_ok(2)
      by (cases "last path = CHR ''/'' \<and> last f0 \<noteq> CHR ''/''") (auto simp: ed_tab_def add_slash_def Let_def)
    have files: "length (fst bd) \<le> length f" if "c = Inr files" "f \<in> set files" for f files
      using completepath_names [OF that(1) [unfolded c_def] that(2)] .
    have fit: "sum_list (map length files) div e_wscol env + 1 \<le> length files" if "c = Inr files" "1 < length files" for files
      using hints_fit_files [OF env(2) that(1) [unfolded c_def] that(2)] bd_def by blast
    have err: "c = Inl e \<Longrightarrow> e = - ENOMEM" for e
      unfolding c_def by (rule completepath_err)
    show ?thesis
    proof (cases c)
      case (Inl e)
      then show ?thesis using tab err by (simp add: tab_result_def)
    next
      case (Inr fs)
      then show ?thesis
        using self tab files tab_complete_ok [OF inv] tab_hints_ok [OF inv fit]
        by (cases fs rule: remdups_adj.cases) simp_all
    qed
  qed
qed

section \<open>One received byte\<close>

lemma handles_Ex:
  "handles env h f g \<Longrightarrow> ed_inv env h s \<Longrightarrow> \<exists>s'. f s = Some s' \<and> ed_inv env h s' \<and> ed_esc s' = ed_esc s"
  using handlesD by metis

lemma key_action_ok:
  assumes inv: "ed_inv env h s" and nl: "\<not> ed_newline s"
  shows "\<exists>s'. key_action env h k s = Some s' \<and> ed_inv env h s' \<and> ed_esc s' = ed_esc s"
  using up_safe [OF inv nl] down_safe [OF inv nl] inv
    handles_Ex [OF right_ok inv] handles_Ex [OF left_ok inv] handles_Ex [OF end_ok inv]
    handles_Ex [OF home_ok inv] handles_Ex [OF delete_ok inv] handles_Ex [OF wordleft_ok inv]
    handles_Ex [OF wordright_ok inv] handles_Ex [OF killnextword_ok inv]
  by (cases k) (simp_all add: key_action_def)

lemma esc_inv:
  "ed_inv env h s \<Longrightarrow> length b = 8 \<Longrightarrow> e \<le> 8 \<Longrightarrow> (e \<noteq> 0 \<Longrightarrow> \<not> ed_newline s) \<Longrightarrow>
     ed_inv env h (s\<lparr>ed_buff := b, ed_esc := e\<rparr>)"
  by (simp add: ed_inv_def)

text \<open>
  The key buffer while an escape sequence is received: \<open>^[\<close>, then \<open>[\<close> or \<open>O\<close>, then the
  beginning of a key of \<open>csiKeys\<close>, at most three characters.
\<close>

definition esc_wf :: "ed \<Rightarrow> bool" where
  "esc_wf s \<longleftrightarrow> ed_esc s = 0 \<or>
     (2 \<le> ed_esc s \<and> ed_esc s \<le> 6 \<and> ed_buff s ! 0 = CHR ''^'' \<and> ed_buff s ! 1 = CHR ''['' \<and>
      NUL \<notin> set (take (ed_esc s) (ed_buff s)) \<and>
      (ed_esc s > 2 \<longrightarrow> ed_buff s ! 2 = CHR ''['' \<or> ed_buff s ! 2 = CHR ''O''))"

lemma strncmp_eq_whole:
  "strncmp_eq b seq k \<Longrightarrow> length b = k \<Longrightarrow> length seq \<le> k \<Longrightarrow> b = seq"
  by (induction b seq k rule: strncmp_eq.induct) auto

lemma csi_loop_decides:
  "length b = k \<Longrightarrow> \<forall>(seq, key) \<in> set ks. length seq \<le> k \<Longrightarrow> csi_loop b k ks \<noteq> KAgain"
proof (induction ks)
  case (Cons sk ks)
  obtain seq key where sk: "sk = (seq, key)" by (cases sk)
  with Cons show ?case using strncmp_eq_whole [of b seq k] by auto
qed simp

lemma csi_again: "length b = k \<Longrightarrow> 4 \<le> k \<Longrightarrow> csi_loop b k csiKeys \<noteq> KAgain"
  by (rule csi_loop_decides) (simp_all add: csiKeys_def)

lemma map_of_escKeys: "map_of escKeys c = None \<longleftrightarrow> c \<notin> {CHR ''f'', CHR ''b'', CHR ''d''}"
  by (auto simp: escKeys_def)

lemma cslice_drop: "i + k \<le> length b \<Longrightarrow> cslice b i k = Some (drop i (take (i + k) b))"
  by (simp add: cslice_def drop_take)

text \<open>
  One more character of a sequence that is not an \<open>ESC f\<close>, \<open>ESC b\<close> or \<open>ESC d\<close>: either the
  sequence is refused, or the buffer stays well formed, or a key is complete and \<open>esc\<close> is 0.
\<close>

lemma keyCode_wf:
  assumes wf: "esc_wf s" and buff: "length (ed_buff s) = 8" and esc: "ed_esc s \<noteq> 0" and c: "c \<noteq> NUL"
    and noalt: "ed_esc s = 2 \<Longrightarrow> c \<notin> {CHR ''f'', CHR ''b'', CHR ''d''}"
    and b: "b = (ed_buff s)[ed_esc s := c]"
    and r: "psh_keyCode b (ed_esc s + 1) = Some (r, e)"
  shows "r = KInval \<or> (r = KAgain \<and> e \<noteq> 2 \<and> esc_wf (s\<lparr>ed_buff := b, ed_esc := e\<rparr>)) \<or> (\<exists>k. r = Key k \<and> e = 0)"
proof -
  have wf': "2 \<le> ed_esc s" "ed_esc s \<le> 6" "NUL \<notin> set (take (ed_esc s) (ed_buff s))"
    "ed_buff s ! 0 = CHR ''^''" "ed_buff s ! 1 = CHR ''[''"
    "ed_esc s > 2 \<Longrightarrow> ed_buff s ! 2 = CHR ''['' \<or> ed_buff s ! 2 = CHR ''O''"
    using wf esc by (auto simp: esc_wf_def)
  have len: "length b = 8" using b buff by simp
  have nonul: "NUL \<notin> set (take (Suc (ed_esc s)) b)"
    using wf'(2,3) buff c by (simp add: b take_list_update_last)
  have b01: "b ! 0 = CHR ''^''" "b ! 1 = CHR ''[''" using wf'(1,4,5) by (auto simp: b)
  have b2: "ed_esc s = 2 \<Longrightarrow> b ! 2 = c" "ed_esc s > 2 \<Longrightarrow> b ! 2 = CHR ''['' \<or> b ! 2 = CHR ''O''"
    using wf'(6) buff by (auto simp: b)
  have pk: "peek b 0 = Some CHR ''^''" "peek b (Suc 0) = Some CHR ''[''" "peek b 2 = Some (b ! 2)"
    using b01 len by (auto simp: peek_def)
  have again: "esc_wf (s\<lparr>ed_buff := b, ed_esc := Suc (ed_esc s)\<rparr>)"
    if "ed_esc s < 6" "b ! 2 = CHR ''['' \<or> b ! 2 = CHR ''O''"
    using that b01 nonul wf'(1) by (auto simp: esc_wf_def)
  show ?thesis
  proof (cases "ed_esc s = 2")
    case True
    then show ?thesis
      using r again b2(1) noalt map_of_escKeys [of c]
      by (cases "c = CHR ''['' \<or> c = CHR ''O''") (auto simp: psh_keyCode_def pk)
  next
    case False
    then have e3: "3 \<le> ed_esc s" using wf'(1) by simp
    then have b2': "b ! 2 = CHR ''['' \<or> b ! 2 = CHR ''O''" using b2(2) by simp
    define t where "t = drop 3 (take (Suc (ed_esc s)) b)"
    have "cstr t = t" using nonul by (intro cstr_id) (auto simp: t_def dest: in_set_dropD)
    moreover have sl: "cslice b 3 (Suc (ed_esc s) - 3) = Some t"
      using cslice_drop [of 3 "Suc (ed_esc s) - 3" b] e3 wf'(2) len by (simp add: t_def)
    moreover have lt: "length t = Suc (ed_esc s) - 3" using wf'(2) len by (simp add: t_def)
    ultimately have eq: "r = csi_loop t (length t) csiKeys" "e = (case r of Key _ \<Rightarrow> 0 | _ \<Rightarrow> Suc (ed_esc s))"
      using r b2' e3 by (auto simp: psh_keyCode_def pk Let_def)
    have "r = KAgain \<Longrightarrow> ed_esc s < 6" using csi_again [of t "length t"] eq(1) lt by force
    then show ?thesis using eq(2) again b2' e3 by (cases r) auto
  qed
qed

text \<open>A regular character, and the key it may complete.\<close>

lemma regular_step_ok:
  assumes inv: "ed_inv env h s" and wf: "esc_wf s" and c: "c \<noteq> NUL"
    and noalt: "ed_esc s = 2 \<Longrightarrow> c \<notin> {CHR ''f'', CHR ''b'', CHR ''d''}"
  shows "\<exists>s'. regular_step env h s c = Some s' \<and> ed_inv env h s' \<and> esc_wf s' \<and> ed_esc s' \<noteq> 2"
proof (cases "ed_esc s = 0")
  case True
  then show ?thesis
    using handles_Ex [OF insert_ok inv, of c] by (auto simp: regular_step_def esc_wf_def)
next
  case False
  note D = ed_invD [OF inv]
  have esc: "ed_esc s < 7" using wf False by (auto simp: esc_wf_def)
  let ?b = "(ed_buff s)[ed_esc s := c]"
  obtain r e where r: "psh_keyCode ?b (ed_esc s + 1) = Some (r, e)" "e = ed_esc s + 1 \<or> e = 0"
    using keyCode_Some [of ?b "ed_esc s + 1"] D(3) esc by auto
  note key = keyCode_wf [OF wf D(3) False c noalt refl r(1)]
  have inv1: "ed_inv env h (s\<lparr>ed_buff := ?b, ed_esc := e\<rparr>)" (is "ed_inv env h ?s1")
    using esc_inv [OF inv, of ?b e] r(2) D(3,9) esc False by auto
  obtain x where x: "recall h ?s1 = Some (?s1\<lparr>ed_cmd := x, ed_hp := he h\<rparr>)"
    "ed_inv env h (?s1\<lparr>ed_cmd := x, ed_hp := he h\<rparr>)"
    by (rule recall_ok [OF inv1])
  let ?s2 = "?s1\<lparr>ed_cmd := x, ed_hp := he h, ed_esc := 0\<rparr>"
  have inv2: "ed_inv env h ?s2" "esc_wf ?s2" using x(2) by (simp_all add: ed_inv_def esc_wf_def)
  have nl: "\<not> ed_newline ?s1" using D(9) False by simp
  have eq: "regular_step env h s c = (case r of
      KInval \<Rightarrow> Some ?s2 | KAgain \<Rightarrow> Some ?s1 | Key key \<Rightarrow> key_action env h key ?s1)"
    using False esc D(3) r(1) x(1) by (simp add: regular_step_def memsafe split: keyres.split)
  show ?thesis
  proof (cases r)
    case (Key k)
    then have "e = 0" using key by auto
    then show ?thesis using eq Key key_action_ok [OF inv1 nl, of k] by (auto simp: esc_wf_def)
  qed (use eq inv1 inv2 key in auto)
qed

text \<open>What one byte may lead to; \<open>e\<close> is the new value of \<open>esc\<close>.\<close>

definition step_result :: "edenv \<Rightarrow> psh_hist \<Rightarrow> (ed \<Rightarrow> bool) \<Rightarrow> rcres \<Rightarrow> bool" where
  "step_result env h P r = (case r of
     Cont s' \<Rightarrow> ed_inv env h s' \<and> P s'
   | Brk s' \<Rightarrow> ed_n s' + ed_m s' \<le> e_cmdsz env \<and> length (ed_cmd s') = Suc (e_cmdsz env)
   | BrkErr e s' \<Rightarrow> e < 0
   | BrkExit s' \<Rightarrow> ed_exit s')"

lemma step_Cont:
  assumes "handles env h f g" "ed_inv env h s"
  shows "\<exists>r. map_option Cont (f s) = Some r \<and> step_result env h (\<lambda>s'. ed_esc s' = ed_esc s) r"
  using handles_Ex [OF assms] by (auto simp: step_result_def)

lemma step_Brk:
  "\<exists>s'. f = Some s' \<and> ed_n s' + ed_m s' \<le> e_cmdsz env \<and> length (ed_cmd s') = Suc (e_cmdsz env) \<Longrightarrow>
     \<exists>r. map_option Brk f = Some r \<and> step_result env h P r"
  by (auto simp: step_result_def)

definition esc_pending :: "char \<Rightarrow> ed \<Rightarrow> bool" where
  "esc_pending c s \<longleftrightarrow> esc_wf s \<and> (ed_esc s = 2 \<longrightarrow> c = CHR 0x1B)"

lemma step_result_mono: "step_result env h P r \<Longrightarrow> (\<And>s. P s \<Longrightarrow> Q s) \<Longrightarrow> step_result env h Q r"
  by (auto simp: step_result_def split: rcres.splits)

lemma esc_step_ok:
  assumes "ed_inv env h s" "ed_esc s = 0"
  shows "\<exists>s'. esc_step s c = Some s' \<and> ed_inv env h s' \<and> esc_pending c s'"
  using assms
  by (auto simp: esc_step_def memsafe ed_invD(3) esc_pending_def esc_wf_def take_list_update_last numeral_2_eq_2)
    (auto simp: ed_inv_def)

lemma control_step_ok:
  assumes inv0: "ed_inv env h s0" and env: "resolve_ok env" "hints_fit env"
  shows "\<exists>r. control_step env h s0 c = Some r \<and> step_result env h (esc_pending c) r"
proof -
  let ?s = "s0\<lparr>ed_esc := 0\<rparr>"
  have inv: "ed_inv env h ?s" using inv0 by (simp add: ed_inv_def)
  note D = ed_invD [OF inv]
  define ok where "ok x \<longleftrightarrow> (\<exists>r. x = Some r \<and> step_result env h (esc_pending c) r)" for x
  have Cont: "ok (map_option Cont (f ?s))"
    if "handles env h f g" for f g
    using step_Cont [OF that inv] by (auto simp: ok_def esc_pending_def esc_wf_def elim!: step_result_mono)
  note conts = Cont [OF home_ok] Cont [OF left_ok] Cont [OF end_ok] Cont [OF right_ok]
    Cont [OF backspace_ok] Cont [OF kill_ok] Cont [OF clear_ok] Cont [OF killstart_ok]
    Cont [OF killword_ok] Cont [OF paste_ok]
  have eot: "ok (eot_step env h ?s)"
    using Cont [OF delete_ok] inv by (auto simp: ok_def eot_step_def step_result_def esc_pending_def esc_wf_def)
  have tab: "ok (ed_tab env h ?s)"
    using tab_ok [OF inv env]
    by (auto simp: ok_def tab_result_def step_result_def esc_pending_def esc_wf_def split: rcres.splits)
  have cancel: "ok (map_option Brk (ed_cancel env ?s))"
    unfolding ok_def using cancel_ok [OF inv] D(2) by (intro step_Brk) auto
  have enter: "ok (map_option Brk (ed_enter env h x ?s))" for x
    unfolding ok_def using enter_ok [OF inv, of x] D(6) by (intro step_Brk) auto
  have esc: "ok (map_option Cont (esc_step ?s c))"
    using esc_step_ok [OF inv, of c] by (auto simp: ok_def step_result_def)
  show ?thesis
    unfolding control_step_def Let_def ok_def [symmetric]
    using conts eot tab cancel enter esc by (simp split: if_split)
qed

section \<open>The input loop\<close>

text \<open>No \<open>ESC f\<close>, \<open>ESC b\<close> or \<open>ESC d\<close> in the input.\<close>

fun no_alt :: "string \<Rightarrow> bool" where
  "no_alt (c # d # cs) \<longleftrightarrow> \<not> (c = CHR 0x1B \<and> d \<in> {CHR ''f'', CHR ''b'', CHR ''d''}) \<and> no_alt (d # cs)"
| "no_alt _ \<longleftrightarrow> True"

lemma readcmd_step_ok:
  assumes "ed_inv env h s" "resolve_ok env" "hints_fit env" "esc_pending p s" "no_alt (p # c # cs)"
  shows "\<exists>r. readcmd_step env h s c = Some r \<and> step_result env h (esc_pending c) r"
proof (cases "is_control c")
  case True
  then show ?thesis using control_step_ok [OF assms(1-3)] by (simp add: readcmd_step_def)
next
  case False
  then have "c \<noteq> NUL" by (auto simp: is_control_def)
  then show ?thesis
    using False regular_step_ok [OF assms(1), of c] assms(4,5)
    by (auto simp: readcmd_step_def step_result_def esc_pending_def)
qed

lemma readcmd_loop_ok:
  "ed_inv env h s \<Longrightarrow> resolve_ok env \<Longrightarrow> hints_fit env \<Longrightarrow> esc_pending p s \<Longrightarrow> no_alt (p # cs) \<Longrightarrow>
     \<exists>r rest. readcmd_loop env h s cs = Some (r, rest) \<and> step_result env h esc_wf r"
proof (induction cs arbitrary: p s)
  case Nil
  then show ?case by (simp add: step_result_def esc_pending_def)
next
  case (Cons c cs)
  obtain r where r: "readcmd_step env h s c = Some r" "step_result env h (esc_pending c) r"
    using readcmd_step_ok [OF Cons.prems] by blast
  show ?case
  proof (cases r)
    case (Cont s')
    then show ?thesis
      using r Cons.IH [of s' c] Cons.prems(2,3,5) by (auto simp: step_result_def)
  qed (use r in \<open>auto simp: step_result_def\<close>)
qed

lemma readcmd_init_inv:
  assumes "0 < e_wscol env" "hist_ok (e_cmdsz env) h" "length cmd0 = Suc (e_cmdsz env)"
    "length buff0 = 8" "length clip = e_cmdsz env" "cliplen \<le> e_cmdsz env"
  shows "ed_inv env h (readcmd_init h cmd0 buff0 clip cliplen nl)"
    and "esc_pending p (readcmd_init h cmd0 buff0 clip cliplen nl)"
  using assms by (simp_all add: ed_inv_def readcmd_init_def esc_pending_def esc_wf_def)

lemma finish_ok:
  assumes "step_result env h P r" "\<forall>s. r \<noteq> Cont s"
  shows "\<exists>rc buf. readcmd_finish r restore = Some (rc, buf) \<and>
     (rc < 0 \<and> buf = None \<or>
      (\<exists>c. buf = Some c \<and> length c = Suc (e_cmdsz env) \<and> 0 \<le> rc \<and> rc \<le> int (e_cmdsz env) \<and> c ! nat rc = NUL))"
  using assms
  by (cases r) (auto simp: step_result_def readcmd_finish_def readcmd_return_def memsafe nat_plus_as_int)

text \<open>
  C1: Memory safety of the line editor. For every input without the three \<open>ESC\<close> letter keys, every
  well-formed history and any contents of the uninitialised buffers, \<open>psh_readcmd\<close> stays inside its
  buffers and reads no column width before it is written; it waits for more input, or returns a negative error, or
  returns a length of at most \<open>CMDSZ\<close> and a buffer of \<open>CMDSZ + 1\<close> characters that is terminated at that
  length. Two conditions concern Tab. \<open>resolve_ok\<close>: the buffer \<open>resolve_path\<close> returns has room for a
  slash behind its path. \<open>hints_fit\<close>: when there are two or more candidates, their total length divided by the
  width of the terminal is below their number. The code does not check either; without the second one
  it prints with column widths that were never written.
\<close>

theorem psh_readcmd_safe:
  assumes "0 < e_wscol env" "hist_ok (e_cmdsz env) h" "length cmd0 = Suc (e_cmdsz env)"
    "length buff0 = 8" "length clip = e_cmdsz env" "cliplen \<le> e_cmdsz env"
    and "resolve_ok env" "hints_fit env" "no_alt input"
  shows "\<exists>res. psh_readcmd alloc raw restore env h (readcmd_init h cmd0 buff0 clip cliplen nl) input = Some res
    \<and> (case res of
         Inl s \<Rightarrow> ed_inv env h s
       | Inr (s, (rc, buf), rest) \<Rightarrow>
           rc < 0 \<and> buf = None \<or>
           (\<exists>c. buf = Some c \<and> length c = Suc (e_cmdsz env) \<and> 0 \<le> rc \<and> rc \<le> int (e_cmdsz env)
              \<and> c ! nat rc = NUL))"
proof (cases "alloc \<and> \<not> raw < 0")
  case True
  have "no_alt (NUL # input)" using assms(9) by (cases input) simp_all
  then obtain r rest where r: "readcmd_loop env h (readcmd_init h cmd0 buff0 clip cliplen nl) input = Some (r, rest)"
    "step_result env h esc_wf r"
    using readcmd_loop_ok [OF readcmd_init_inv(1) [OF assms(1-6)] assms(7,8) readcmd_init_inv(2) [OF assms(1-6)]]
    by blast
  show ?thesis
  proof (cases "\<exists>s. r = Cont s")
    case True
    then show ?thesis using \<open>alloc \<and> _\<close> r by (auto simp: psh_readcmd_def step_result_def)
  next
    case False
    then obtain rc buf where f: "readcmd_finish r restore = Some (rc, buf)"
      "rc < 0 \<and> buf = None \<or>
      (\<exists>c. buf = Some c \<and> length c = Suc (e_cmdsz env) \<and> 0 \<le> rc \<and> rc \<le> int (e_cmdsz env) \<and> c ! nat rc = NUL)"
      using finish_ok [OF r(2)] by blast
    have "psh_readcmd alloc raw restore env h (readcmd_init h cmd0 buff0 clip cliplen nl) input
        = Some (Inr (ed_final r, (rc, buf), rest))"
      using \<open>alloc \<and> _\<close> False r(1) f(1) by (cases r) (simp_all add: psh_readcmd_def)
    then show ?thesis using f(2) by simp
  qed
qed (auto simp: psh_readcmd_def)

text \<open>A terminal of 80 columns, \<open>CMDSZ\<close> 128, no directories: the concrete inputs below.\<close>

definition env80 :: edenv where
  "env80 = \<lparr>e_cmdsz = 128, e_wscol = 80, e_resolve = \<lambda>_. Inl ENOENT, e_splitname = \<lambda>p. (p, ''/''),
            e_readdir = \<lambda>_. None, e_alloc = \<lambda>_. True, e_palloc = True\<rparr>"

lemma env80_simps [simp]:
  "e_cmdsz env80 = 128" "e_wscol env80 = 80"
  by (simp_all add: env80_def)

text \<open>A terminal of 20 columns and a directory of which two names begin with \<open>b\<close>, one longer than a line.\<close>

definition env20 :: edenv where
  "env20 = \<lparr>e_cmdsz = 128, e_wscol = 20, e_resolve = \<lambda>p. Inr (''/'' @ p, length p + 3),
            e_splitname = \<lambda>p. (''b'', ''/''),
            e_readdir = \<lambda>d. Some [(''bin'', True), (''boot-image-of-today.img'', False), (''etc'', True)],
            e_alloc = \<lambda>_. True, e_palloc = True\<rparr>"

lemma env20_ok: "e_cmdsz env20 = 128" "e_wscol env20 = 20" "resolve_ok env20" "hints_fit env20"
  by (simp_all add: env20_def resolve_ok_def hints_fit_def candidates_def complete_match_iff complete_mark_def)

text \<open>The input is \<open>b\<close>, Tab, which prints both candidates, and Enter.\<close>

theorem psh_readcmd_safe_witness:
  "\<exists>res. psh_readcmd True 0 0 env20 hist_init
       (readcmd_init hist_init (replicate 129 CHR ''?'') (replicate 8 CHR ''?'') (replicate 128 CHR ''?'') 0 False)
       [CHR ''b'', CHR 0x09, CHR 0x1B, CHR ''['', CHR ''D'', CHR 0x0D] = Some res
    \<and> (case res of
         Inl s \<Rightarrow> ed_inv env20 hist_init s
       | Inr (s, (rc, buf), rest) \<Rightarrow>
           rc < 0 \<and> buf = None \<or>
           (\<exists>c. buf = Some c \<and> length c = Suc (e_cmdsz env20) \<and> 0 \<le> rc \<and> rc \<le> int (e_cmdsz env20)
              \<and> c ! nat rc = NUL))"
  by (rule psh_readcmd_safe) (simp_all add: hist_ok_init env20_ok)

section \<open>Editing as on the abstract editor\<close>

text \<open>
  The keys that only edit: regular characters and the control characters except Tab, Ctrl-C, Enter,
  escape, and Ctrl-D on an empty line.
\<close>

definition a_step :: "nat \<Rightarrow> char \<Rightarrow> view \<Rightarrow> view option" where
  "a_step cap c v =
     (if \<not> is_control c then Some (a_insert cap c v)
      else if c = CHR 0x01 then Some (a_home v)
      else if c = CHR 0x02 then Some (a_left v)
      else if c = CHR 0x04 then (if fst v = [] \<and> fst (snd v) = [] then None else Some (a_delete v))
      else if c = CHR 0x05 then Some (a_end v)
      else if c = CHR 0x06 then Some (a_right v)
      else if c = CHR 0x08 \<or> c = CHR 0x7F then Some (a_backspace v)
      else if c = CHR 0x0B then Some (a_kill v)
      else if c = CHR 0x0C then Some v
      else if c = CHR 0x15 then Some (a_killstart v)
      else if c = CHR 0x17 then Some (a_killword v)
      else if c = CHR 0x19 then Some (a_paste cap v)
      else if c \<in> {CHR 0x03, CHR 0x09, CHR 0x0A, CHR 0x0D, CHR 0x1B} then None
      else Some v)"

fun a_run :: "nat \<Rightarrow> string \<Rightarrow> view \<Rightarrow> view option" where
  "a_run cap [] v = Some v"
| "a_run cap (c # cs) v = Option.bind (a_step cap c v) (a_run cap cs)"

definition simulates :: "edenv \<Rightarrow> psh_hist \<Rightarrow> rcres option \<Rightarrow> view \<Rightarrow> bool" where
  "simulates env h r v \<longleftrightarrow>
     (\<exists>s'. r = Some (Cont s') \<and> ed_inv env h s' \<and> ed_esc s' = 0 \<and> ed_view h s' = v)"

lemma handles_simulates:
  "handles env h f g \<Longrightarrow> ed_inv env h s \<Longrightarrow> ed_esc s = 0 \<Longrightarrow> simulates env h (map_option Cont (f s)) (g (ed_view h s))"
  using handlesD [of env h f g s] by (auto simp: simulates_def)

lemma eot_simulates:
  assumes inv: "ed_inv env h s" and esc: "ed_esc s = 0"
    and v: "\<not> (fst (ed_view h s) = [] \<and> fst (snd (ed_view h s)) = [])"
  shows "simulates env h (eot_step env h s) (a_delete (ed_view h s))"
proof -
  obtain l r k where lrk: "ed_view h s = (l, r, k)" by (cases "ed_view h s") auto
  note len = view_lengths [OF inv lrk]
  show ?thesis
  proof (cases "ed_m s > 0")
    case True
    then show ?thesis using handles_simulates [OF delete_ok inv esc] by (simp add: eot_step_def)
  next
    case False
    then have "r = []" "l \<noteq> []" using len lrk v by auto
    then have "0 < ed_n s" using len(1) by (metis length_greater_0_conv)
    with False \<open>r = []\<close> show ?thesis using lrk inv esc by (simp add: eot_step_def simulates_def)
  qed
qed

lemma readcmd_step_simulates:
  assumes inv: "ed_inv env h s" and esc: "ed_esc s = 0" and a: "a_step (e_cmdsz env) c (ed_view h s) = Some v"
  shows "simulates env h (readcmd_step env h s c) v"
proof -
  have s: "s\<lparr>ed_esc := 0\<rparr> = s" using esc by (cases s) simp
  have other: "simulates env h (map_option Cont (esc_step s c)) (ed_view h s)" if "c \<noteq> CHR 0x1B"
    using that inv esc by (simp add: esc_step_def simulates_def) (auto simp: ed_unfold)
  note H = handles_simulates [OF _ inv esc]
  note H' = H [OF home_ok] H [OF left_ok] H [OF end_ok] H [OF right_ok] H [OF backspace_ok] H [OF kill_ok]
    H [OF killstart_ok] H [OF killword_ok] H [OF paste_ok] H [OF insert_ok, of c]
    H [OF clear_ok, unfolded id_apply]
  show ?thesis
  proof (cases "is_control c")
    case False
    then show ?thesis using a H' esc by (simp add: a_step_def readcmd_step_def regular_step_def)
  next
    case ctl: True
    show ?thesis
    proof (cases "c = CHR 0x08 \<or> c = CHR 0x7F")
      case True
      then show ?thesis
        using a ctl H' unfolding a_step_def readcmd_step_def control_step_def Let_def s
        by (elim disjE) simp_all
    next
      case False
      then show ?thesis
        using a ctl H' other eot_simulates [OF inv esc]
        unfolding a_step_def readcmd_step_def control_step_def Let_def s
        by (simp split: if_splits)
    qed
  qed
qed

lemma readcmd_loop_simulates:
  "ed_inv env h s \<Longrightarrow> ed_esc s = 0 \<Longrightarrow> a_run (e_cmdsz env) cs (ed_view h s) = Some v \<Longrightarrow>
     \<exists>s'. ed_inv env h s' \<and> ed_esc s' = 0 \<and> ed_view h s' = v
        \<and> (\<forall>rest. readcmd_loop env h s (cs @ rest) = readcmd_loop env h s' rest)"
proof (induction cs arbitrary: s)
  case (Cons c cs)
  obtain w where w: "a_step (e_cmdsz env) c (ed_view h s) = Some w" "a_run (e_cmdsz env) cs w = Some v"
    using Cons.prems(3) by (auto split: bind_splits)
  obtain s1 where s1: "readcmd_step env h s c = Some (Cont s1)" "ed_inv env h s1" "ed_esc s1 = 0" "ed_view h s1 = w"
    using readcmd_step_simulates [OF Cons.prems(1,2) w(1)] by (auto simp: simulates_def)
  then show ?case using Cons.IH [OF s1(2,3)] w(2) by simp
qed auto

lemma view_line: "ed_view h s = (l, r, k) \<Longrightarrow> ed_line h s = l @ r"
  by (auto simp: ed_view_def)

text \<open>Enter ends the call and returns the line that is shown, also a recalled one.\<close>

lemma readcmd_enter:
  assumes inv: "ed_inv env h s"
    and loop: "readcmd_loop env h s0 input = readcmd_loop env h s (CHR 0x0D # rest)"
  shows "\<exists>s' buf. psh_readcmd True 0 0 env h s0 input
      = Some (Inr (s', (int (length (ed_line h s)), Some buf), rest))
    \<and> take (length (ed_line h s)) buf = ed_line h s \<and> buf ! length (ed_line h s) = NUL
    \<and> length buf = Suc (e_cmdsz env) \<and> length (ed_line h s) \<le> e_cmdsz env"
proof -
  have "ed_inv env h (s\<lparr>ed_esc := 0\<rparr>)" using inv by (simp add: ed_inv_def)
  then obtain s' where s': "ed_enter env h (CHR 0x0D) (s\<lparr>ed_esc := 0\<rparr>) = Some s'" "ed_n s' = ed_n s" "ed_m s' = ed_m s"
      "length (ed_cmd s') = Suc (e_cmdsz env)" "take (ed_n s + ed_m s) (ed_cmd s') = ed_line h (s\<lparr>ed_esc := 0\<rparr>)"
    using enter_ok [of env h "s\<lparr>ed_esc := 0\<rparr>" "CHR 0x0D"] by auto
  moreover have line: "ed_line h (s\<lparr>ed_esc := 0\<rparr>) = ed_line h s" by (simp add: ed_line_def)
  moreover have "readcmd_loop env h s (CHR 0x0D # rest) = Some (Brk s', rest)"
    using s'(1) by (simp add: readcmd_step_def is_control_def code_def control_step_def Let_def)
  moreover have le: "ed_n s + ed_m s \<le> e_cmdsz env" by (rule ed_invD(6) [OF inv])
  moreover have len: "length (ed_line h s) = ed_n s + ed_m s"
    using s'(4,5) le line by (metis length_take le_SucI min.absorb2)
  ultimately show ?thesis
    using loop by (simp add: psh_readcmd_def readcmd_finish_def readcmd_return_def memsafe)
qed

text \<open>
  C2: The line editor refines the abstract editor on the text before the cursor, the text behind it
  and the clipboard. For every sequence of editing keys that is closed by Enter, \<open>psh_readcmd\<close>
  returns the line the abstract editor has, its length as the return code and \<open>NUL\<close> behind it.
\<close>

theorem psh_readcmd_refines:
  assumes "0 < e_wscol env" "hist_ok (e_cmdsz env) h" "length cmd0 = Suc (e_cmdsz env)"
    "length buff0 = 8" "length clip = e_cmdsz env" "cliplen \<le> e_cmdsz env"
    and run: "a_run (e_cmdsz env) keys ([], [], take cliplen clip) = Some (l, r, k)"
  shows "\<exists>s buf. psh_readcmd True 0 0 env h (readcmd_init h cmd0 buff0 clip cliplen False) (keys @ CHR 0x0D # rest)
      = Some (Inr (s, (int (length (l @ r)), Some buf), rest))
    \<and> take (length (l @ r)) buf = l @ r \<and> buf ! length (l @ r) = NUL \<and> length buf = Suc (e_cmdsz env)"
proof -
  let ?s0 = "readcmd_init h cmd0 buff0 clip cliplen False"
  note inv0 = readcmd_init_inv(1) [OF assms(1-6), of False]
  have v0: "ed_view h ?s0 = ([], [], take cliplen clip)" "ed_esc ?s0 = 0"
    by (simp_all add: readcmd_init_def ed_view_def ed_line_def)
  obtain s where s: "ed_inv env h s" "ed_esc s = 0" "ed_view h s = (l, r, k)"
      "readcmd_loop env h ?s0 (keys @ CHR 0x0D # rest) = readcmd_loop env h s (CHR 0x0D # rest)"
    using readcmd_loop_simulates [OF inv0 v0(2), of keys "(l, r, k)"] run v0(1) by auto
  then show ?thesis using readcmd_enter [OF s(1,4)] view_line [OF s(3)] by auto
qed

theorem psh_readcmd_refines_witness:
  "\<exists>s buf. psh_readcmd True 0 0 env80 hist_init
        (readcmd_init hist_init (replicate 129 CHR ''?'') (replicate 8 CHR ''?'') (replicate 128 CHR ''?'') 0 False)
        ([CHR ''s'', CHR 0x01, CHR ''l'', CHR 0x05, CHR ''x'', CHR 0x7F] @ CHR 0x0D # ''rest'')
      = Some (Inr (s, (int (length (''ls'' @ [])), Some buf), ''rest''))
    \<and> take (length (''ls'' @ [])) buf = ''ls'' @ [] \<and> buf ! length (''ls'' @ []) = NUL
    \<and> length buf = Suc (e_cmdsz env80)"
  by (rule psh_readcmd_refines [where k = "[]"])
    (simp_all add: hist_ok_init a_step_def is_control_def code_def)

section \<open>Escape keys\<close>

lemma length_8_cases:
  assumes "length b = 8"
  obtains b0 b1 b2 b3 b4 b5 b6 b7 where "b = [b0, b1, b2, b3, b4, b5, b6, b7]"
  using assms by (auto simp: length_Suc_conv numeral_eq_Suc)

definition after_key :: "ed \<Rightarrow> string \<Rightarrow> ed" where
  "after_key s b = s\<lparr>ed_newline := False, ed_buff := b, ed_esc := 0\<rparr>"

lemma loop_regular:
  assumes "\<not> is_control c" "ed_esc s \<noteq> 0" "ed_esc s < length (ed_buff s)"
  shows "readcmd_loop env h s (c # cs) = (case psh_keyCode ((ed_buff s)[ed_esc s := c]) (Suc (ed_esc s)) of
     None \<Rightarrow> None
   | Some (k, e) \<Rightarrow>
       let s1 = s\<lparr>ed_buff := (ed_buff s)[ed_esc s := c], ed_esc := e\<rparr> in
       (case k of
          KAgain \<Rightarrow> readcmd_loop env h s1 cs
        | KInval \<Rightarrow> Option.bind (recall h s1) (\<lambda>s2. readcmd_loop env h (s2\<lparr>ed_esc := 0\<rparr>) cs)
        | Key key \<Rightarrow> Option.bind (key_action env h key s1) (\<lambda>s2. readcmd_loop env h s2 cs)))"
  using assms
  by (auto simp: readcmd_step_def regular_step_def memsafe map_option_case Let_def
      split: option.splits keyres.splits bind_splits)

lemma loop_esc:
  assumes "ed_buff s = [b0, b1, b2, b3, b4, b5, b6, b7]" "x = CHR ''['' \<or> x = CHR ''O''"
  shows "readcmd_loop env h s (CHR 0x1B # x # cs) = readcmd_loop env h
     (s\<lparr>ed_newline := False, ed_buff := [CHR ''^'', CHR ''['', x, b3, b4, b5, b6, b7], ed_esc := 3\<rparr>) cs"
proof -
  let ?s1 = "s\<lparr>ed_newline := False, ed_buff := [CHR ''^'', CHR ''['', b2, b3, b4, b5, b6, b7], ed_esc := 2\<rparr>"
  have "readcmd_step env h s (CHR 0x1B) = Some (Cont ?s1)"
    using assms(1) by (simp add: readcmd_step_def is_control_def code_def control_step_def esc_step_def poke_def
        numeral_2_eq_2)
  moreover have "psh_keyCode ((ed_buff ?s1)[ed_esc ?s1 := x]) (Suc (ed_esc ?s1)) = Some (KAgain, 3)"
    using assms(2) by (auto simp: psh_keyCode_def peek_def numeral_2_eq_2)
  moreover have "\<not> is_control x" using assms(2) by (auto simp: is_control_def code_def)
  ultimately show ?thesis using loop_regular [of x ?s1] by simp
qed

lemma keyCode_csi:
  assumes "x = CHR ''['' \<or> x = CHR ''O''" "NUL \<notin> set u" "u \<noteq> []"
  shows "psh_keyCode (CHR ''^'' # CHR ''['' # x # u @ w) (length u + 3)
    = (let r = csi_loop u (length u) csiKeys in Some (r, case r of Key _ \<Rightarrow> 0 | _ \<Rightarrow> length u + 3))"
  using assms
  by (cases u) (auto simp: psh_keyCode_def peek_def cslice_def cstr_id Let_def split: keyres.split)

text \<open>Every proper beginning of a key is awaited, and the key itself recognised.\<close>

definition csi_prefix_ok :: "string \<times> keycode \<Rightarrow> bool" where
  "csi_prefix_ok sk = (case sk of (seq, key) \<Rightarrow>
     csi_loop seq (length seq) csiKeys = Key key \<and> seq \<noteq> [] \<and> length seq \<le> 4 \<and>
     list_all (\<lambda>c. \<not> is_control c) seq \<and>
     list_all (\<lambda>i. csi_loop (take i seq) i csiKeys = KAgain) [1 ..< length seq])"

lemma csi_prefixes: "list_all csi_prefix_ok csiKeys"
  by code_simp

lemma csi_feed:
  assumes x: "x = CHR ''['' \<or> x = CHR ''O''" and ok: "csi_prefix_ok (u @ v, key)" and v: "v \<noteq> []"
    and s: "ed_buff s = CHR ''^'' # CHR ''['' # x # u @ w" "ed_esc s = length u + 3" "length u + length w = 5"
  shows "\<exists>b. length b = 8 \<and> readcmd_loop env h s (v @ rest)
     = Option.bind (key_action env h key (s\<lparr>ed_buff := b, ed_esc := 0\<rparr>)) (\<lambda>s'. readcmd_loop env h s' rest)"
  using ok v s
proof (induction v arbitrary: u w s)
  case (Cons c v)
  have "length u < 4" "\<not> is_control c" and ctl: "\<forall>c \<in> set u. \<not> is_control c"
    using Cons.prems(1) by (auto simp: csi_prefix_ok_def list_all_iff)
  obtain y w' where w: "w = y # w'" using Cons.prems(5) \<open>length u < 4\<close> by (cases w) auto
  have "is_control NUL" by (simp add: is_control_def)
  then have nonul: "NUL \<notin> set (u @ [c])" "u @ [c] \<noteq> []" using ctl \<open>\<not> is_control c\<close> by auto
  define r where "r = csi_loop (u @ [c]) (length (u @ [c])) csiKeys"
  define b where "b = CHR ''^'' # CHR ''['' # x # (u @ [c]) @ w'"
  have upd: "(ed_buff s)[ed_esc s := c] = b"
    using Cons.prems(3,4) w by (simp add: b_def list_update_append numeral_3_eq_3)
  have "psh_keyCode b (length (u @ [c]) + 3) = Some (r, case r of Key _ \<Rightarrow> 0 | _ \<Rightarrow> length (u @ [c]) + 3)"
    using keyCode_csi [OF x nonul, of w'] by (simp add: b_def r_def Let_def)
  then have key: "psh_keyCode b (Suc (ed_esc s)) = Some (r, case r of Key _ \<Rightarrow> 0 | _ \<Rightarrow> Suc (ed_esc s))"
    using Cons.prems(4) by (simp split: keyres.split)
  have pre: "ed_esc s \<noteq> 0" "ed_esc s < length (ed_buff s)" using Cons.prems(3,4) w by simp_all
  note loop = loop_regular [OF \<open>\<not> is_control c\<close> pre, of env h "v @ rest", unfolded upd key]
  have len: "length b = 8" using Cons.prems(5) w by (simp add: b_def)
  show ?case
  proof (cases v)
    case Nil
    then have "r = Key key" using Cons.prems(1) by (simp add: r_def csi_prefix_ok_def)
    then show ?thesis using loop Nil len by (intro exI [of _ b]) simp
  next
    case (Cons d v')
    then have "r = KAgain"
      using Cons.prems(1) by (auto simp: r_def csi_prefix_ok_def list_all_iff dest: bspec [of _ _ "Suc (length u)"])
    then have "readcmd_loop env h s (c # v @ rest)
        = readcmd_loop env h (s\<lparr>ed_buff := b, ed_esc := length (u @ [c]) + 3\<rparr>) (v @ rest)"
      using loop Cons.prems(4) by simp
    then show ?thesis
      using Cons.IH [of "u @ [c]" "s\<lparr>ed_buff := b, ed_esc := length (u @ [c]) + 3\<rparr>" w'] Cons Cons.prems(1,5) w
      by (simp add: b_def del: readcmd_loop.simps)
  qed
qed simp

lemma csi_decode:
  assumes inv: "ed_inv env h s" and k: "(seq, key) \<in> set csiKeys" and x: "x = CHR ''['' \<or> x = CHR ''O''"
  shows "\<exists>b. length b = 8 \<and> readcmd_loop env h s (CHR 0x1B # x # seq @ rest)
     = Option.bind (key_action env h key (after_key s b)) (\<lambda>s'. readcmd_loop env h s' rest)"
proof -
  obtain b0 b1 b2 b3 b4 b5 b6 b7 where b: "ed_buff s = [b0, b1, b2, b3, b4, b5, b6, b7]"
    using ed_invD(3) [OF inv] by (rule length_8_cases)
  have ok: "csi_prefix_ok ([] @ seq, key)" using csi_prefixes k by (auto simp: list_all_iff)
  then have "seq \<noteq> []" by (simp add: csi_prefix_ok_def)
  then show ?thesis
    using csi_feed [OF x ok, of "s\<lparr>ed_newline := False, ed_buff := [CHR ''^'', CHR ''['', x, b3, b4, b5, b6, b7],
        ed_esc := 3\<rparr>" "[b3, b4, b5, b6, b7]"] loop_esc [OF b x]
    by (simp add: after_key_def del: readcmd_loop.simps)
qed

text \<open>
  Decoding of the cursor and function keys. After \<open>ESC [\<close> or \<open>ESC O\<close>, the characters of any
  key of \<open>csiKeys\<close> run that key's action exactly once, on the editor state with the key buffer
  reset, and then the rest of the input.
\<close>

lemma psh_keyCode_decodes:
  assumes "ed_inv env h s" "(seq, key) \<in> set csiKeys" "x = CHR ''['' \<or> x = CHR ''O''"
  shows "\<exists>b. length b = 8 \<and> readcmd_loop env h s (CHR 0x1B # x # seq @ rest)
     = Option.bind (key_action env h key (s\<lparr>ed_newline := False, ed_buff := b, ed_esc := 0\<rparr>))
         (\<lambda>s'. readcmd_loop env h s' rest)"
  using csi_decode [OF assms] by (simp add: after_key_def)

definition ed80 :: ed where
  "ed80 = readcmd_init hist_init (replicate 129 CHR ''?'') (replicate 8 CHR ''?'') (replicate 128 CHR ''?'') 0 False"

lemma ed80_inv: "ed_inv env80 hist_init ed80" "ed_esc ed80 = 0"
  unfolding ed80_def by (rule readcmd_init_inv(1)) (simp_all add: hist_ok_init readcmd_init_def)

section \<open>Browsing there and back\<close>

abbreviation UP :: string where "UP \<equiv> CHR 0x1B # ''[A''"
abbreviation DOWN :: string where "DOWN \<equiv> CHR 0x1B # ''[B''"

lemma after_key_inv:
  assumes "ed_inv env h s" "length b = 8"
  shows "ed_inv env h (after_key s b)" "\<not> ed_newline (after_key s b)" "ed_view h (after_key s b) = ed_view h s"
  using assms by (auto simp: after_key_def ed_unfold)

lemma after_key_simps [simp]:
  "ed_hp (after_key s b) = ed_hp s" "ed_ln (after_key s b) = ed_ln s" "ed_cmd (after_key s b) = ed_cmd s"
  "ed_n (after_key s b) = ed_n s" "ed_m (after_key s b) = ed_m s" "ed_clip (after_key s b) = ed_clip s"
  "ed_cliplen (after_key s b) = ed_cliplen s"
  by (simp_all add: after_key_def)

definition browsing :: "edenv \<Rightarrow> psh_hist \<Rightarrow> ed \<Rightarrow> nat \<Rightarrow> ed \<Rightarrow> bool" where
  "browsing env h s p s' \<longleftrightarrow> ed_inv env h s' \<and> ed_hp s' = slot h p \<and> ed_ln s' = ed_n s + ed_m s \<and>
     ed_cmd s' = ed_cmd s \<and> ed_clip s' = ed_clip s \<and> ed_cliplen s' = ed_cliplen s \<and>
     ed_view h s' = (if p = hsize h then take (ed_n s + ed_m s) (ed_cmd s) else map detok (hist_list h ! p),
                     [], take (ed_cliplen s) (ed_clip s))"

lemma loop_up:
  assumes inv: "ed_inv env h s" and p: "ed_hp s = slot h (Suc p)" "Suc p \<le> hsize h"
  shows "\<exists>s'. readcmd_loop env h s (UP @ rest) = readcmd_loop env h s' rest \<and> ed_inv env h s'
    \<and> ed_hp s' = slot h p \<and> ed_view h s' = (map detok (hist_list h ! p), [], take (ed_cliplen s) (ed_clip s))
    \<and> ed_ln s' = (if Suc p = hsize h then ed_n s + ed_m s else ed_ln s) \<and> ed_cmd s' = ed_cmd s
    \<and> ed_clip s' = ed_clip s \<and> ed_cliplen s' = ed_cliplen s"
proof -
  have "(''A'', kUp) \<in> set csiKeys" by (simp add: csiKeys_def)
  then obtain b where b: "length b = 8" "readcmd_loop env h s (CHR 0x1B # CHR ''['' # ''A'' @ rest)
     = Option.bind (key_action env h kUp (after_key s b)) (\<lambda>s'. readcmd_loop env h s' rest)"
    using csi_decode [OF inv, of "''A''" kUp "CHR ''[''" rest] by blast
  note inv' = after_key_inv [OF inv b(1)]
  obtain s' where s': "ed_up env h (after_key s b) = Some s'" "ed_inv env h s'" "ed_hp s' = slot h p"
    "ed_view h s' = (map detok (hist_list h ! p), [], take (ed_cliplen s) (ed_clip s))"
    "ed_ln s' = (if Suc p = hsize h then ed_n s + ed_m s else ed_ln s)" "ed_cmd s' = ed_cmd s"
    "ed_clip s' = ed_clip s" "ed_cliplen s' = ed_cliplen s"
    using up_ok [OF inv'(1,2), of p] p by auto
  then show ?thesis using b(2) by (intro exI [of _ s']) (simp add: key_action_def del: readcmd_loop.simps)
qed

lemma loop_down:
  assumes inv: "ed_inv env h s" and p: "ed_hp s = slot h p" "p < hsize h"
  shows "\<exists>s'. readcmd_loop env h s (DOWN @ rest) = readcmd_loop env h s' rest \<and> ed_inv env h s'
    \<and> ed_hp s' = slot h (Suc p)
    \<and> ed_view h s' = (if Suc p = hsize h then take (ed_ln s) (ed_cmd s) else map detok (hist_list h ! Suc p),
                      [], take (ed_cliplen s) (ed_clip s))
    \<and> ed_ln s' = ed_ln s \<and> ed_cmd s' = ed_cmd s
    \<and> ed_clip s' = ed_clip s \<and> ed_cliplen s' = ed_cliplen s"
proof -
  have "(''B'', kDown) \<in> set csiKeys" by (simp add: csiKeys_def)
  then obtain b where b: "length b = 8" "readcmd_loop env h s (CHR 0x1B # CHR ''['' # ''B'' @ rest)
     = Option.bind (key_action env h kDown (after_key s b)) (\<lambda>s'. readcmd_loop env h s' rest)"
    using csi_decode [OF inv, of "''B''" kDown "CHR ''[''" rest] by blast
  note inv' = after_key_inv [OF inv b(1)]
  obtain s' where s': "ed_down env h (after_key s b) = Some s'" "ed_inv env h s'" "ed_hp s' = slot h (Suc p)"
    "ed_view h s' = (if Suc p = hsize h then take (ed_ln s) (ed_cmd s) else map detok (hist_list h ! Suc p),
                      [], take (ed_cliplen s) (ed_clip s))"
    "ed_ln s' = ed_ln s" "ed_cmd s' = ed_cmd s" "ed_clip s' = ed_clip s" "ed_cliplen s' = ed_cliplen s"
    using down_ok [OF inv'(1,2), of p] p by auto
  then show ?thesis using b(2) by (intro exI [of _ s']) (simp add: key_action_def del: readcmd_loop.simps)
qed

lemma browse_up:
  assumes inv: "ed_inv env h s" and hp: "ed_hp s = he h"
  shows "Suc k \<le> hsize h \<Longrightarrow> \<exists>s'. readcmd_loop env h s (concat (replicate (Suc k) UP) @ rest)
    = readcmd_loop env h s' rest \<and> browsing env h s (hsize h - Suc k) s'"
proof (induction k arbitrary: rest)
  case 0
  have he: "ed_hp s = slot h (Suc (hsize h - 1))" using hp hist_okD(3) [OF ed_invD(10) [OF inv]] 0 by simp
  show ?case using loop_up [OF inv he] 0 by (auto simp: browsing_def simp del: readcmd_loop.simps)
next
  case (Suc k)
  obtain s1 where s1: "readcmd_loop env h s (concat (replicate (Suc k) UP) @ UP @ rest)
      = readcmd_loop env h s1 (UP @ rest)" "browsing env h s (hsize h - Suc k) s1"
    using Suc by fastforce
  obtain q where q: "hsize h = q + Suc (Suc k)" using Suc.prems le_iff_add [of "Suc (Suc k)"] by (metis add.commute)
  have seq: "concat (replicate (Suc (Suc k)) UP) @ rest = concat (replicate (Suc k) UP) @ UP @ rest"
    by (simp only: concat_replicate_Suc [of "Suc k"] append_assoc)
  have b1: "browsing env h s (Suc q) s1" using s1(2) by (simp add: q)
  then obtain s2 where "readcmd_loop env h s1 (UP @ rest) = readcmd_loop env h s2 rest" "browsing env h s q s2"
    using loop_up [of env h s1 q rest] by (auto simp: browsing_def q simp del: readcmd_loop.simps)
  then show ?case unfolding seq using s1(1) q by (metis diff_add_inverse2)
qed

lemma browse_down:
  "browsing env h s p s1 \<Longrightarrow> p + j = hsize h \<Longrightarrow>
     \<exists>s'. readcmd_loop env h s1 (concat (replicate j DOWN) @ rest) = readcmd_loop env h s' rest
       \<and> browsing env h s (hsize h) s'"
proof (induction j arbitrary: p s1)
  case (Suc j)
  obtain s2 where "readcmd_loop env h s1 (DOWN @ concat (replicate j DOWN) @ rest)
      = readcmd_loop env h s2 (concat (replicate j DOWN) @ rest)" "browsing env h s (Suc p) s2"
    using Suc.prems loop_down [of env h s1 p "concat (replicate j DOWN) @ rest"]
    by (auto simp: browsing_def simp del: readcmd_loop.simps)
  then show ?case using Suc.IH [of "Suc p" s2] Suc.prems(2) by auto
qed auto

lemma browsing_line:
  assumes "browsing env h s p s'"
  shows "ed_line h s' = (if p = hsize h then take (ed_n s + ed_m s) (ed_cmd s) else map detok (hist_list h ! p))"
    and "ed_m s' = 0"
proof -
  have v: "ed_view h s' = (if p = hsize h then take (ed_n s + ed_m s) (ed_cmd s) else map detok (hist_list h ! p),
      [], take (ed_cliplen s) (ed_clip s))" and inv: "ed_inv env h s'"
    using assms by (simp_all add: browsing_def)
  show "ed_line h s' = (if p = hsize h then take (ed_n s + ed_m s) (ed_cmd s) else map detok (hist_list h ! p))"
    using view_line [OF v] by simp
  show "ed_m s' = 0" using view_lengths(2) [OF inv v] by simp
qed

text \<open>
  C3: Browsing the history. From a line that is being edited, \<open>k\<close> presses of Up show the \<open>k\<close>-th
  last command with its words separated by spaces and the cursor behind it, and as many presses of
  Down bring back the line that was edited, unchanged.
\<close>

theorem history_browse:
  assumes inv: "ed_inv env h s" and hp: "ed_hp s = he h" and k: "0 < k" "k \<le> length (hist_list h)"
  shows "\<exists>s1. readcmd_loop env h s (concat (replicate k UP)) = Some (Cont s1, [])
      \<and> ed_line h s1 = map detok (hist_list h ! (length (hist_list h) - k)) \<and> ed_m s1 = 0
      \<and> (\<exists>s2. readcmd_loop env h s (concat (replicate k UP) @ concat (replicate k DOWN)) = Some (Cont s2, [])
          \<and> ed_hp s2 = he h \<and> ed_line h s2 = ed_line h s)"
proof -
  obtain j where j: "k = Suc j" using k by (cases k) auto
  have up: "\<exists>s'. readcmd_loop env h s (concat (replicate k UP) @ rest)
      = readcmd_loop env h s' rest \<and> browsing env h s (hsize h - k) s'" for rest
    using browse_up [OF inv hp, of j rest] k j by simp
  obtain s1 where s1: "readcmd_loop env h s (concat (replicate k UP)) = Some (Cont s1, [])"
    "browsing env h s (hsize h - k) s1"
    using up [of "[]"] by auto
  obtain s0 where s0: "readcmd_loop env h s (concat (replicate k UP) @ concat (replicate k DOWN))
      = readcmd_loop env h s0 (concat (replicate k DOWN))" "browsing env h s (hsize h - k) s0"
    using up by blast
  have s2: "\<exists>s2. readcmd_loop env h s0 (concat (replicate k DOWN)) = Some (Cont s2, []) \<and> browsing env h s (hsize h) s2"
    using browse_down [OF s0(2), of k "[]"] k by simp
  have "ed_line h s2 = ed_line h s" "ed_hp s2 = he h" if "browsing env h s (hsize h) s2" for s2
    using browsing_line(1) [OF that] that hp hist_okD(3) [OF ed_invD(10) [OF inv]]
    by (simp_all add: ed_line_def browsing_def)
  with s0(1) s2 have "\<exists>s2. readcmd_loop env h s (concat (replicate k UP) @ concat (replicate k DOWN)) = Some (Cont s2, [])
          \<and> ed_hp s2 = he h \<and> ed_line h s2 = ed_line h s" by metis
  then show ?thesis using s1(1) browsing_line [OF s1(2)] k by auto
qed

section \<open>The key buffer overflow\<close>

lemma wordright_buff: "ed_wordright env h s = Some s' \<Longrightarrow> ed_buff s' = ed_buff s"
  by (auto simp: ed_wordright_def recall_def mv_def Let_def split: if_splits bind_splits)

definition alt_f :: "ed \<Rightarrow> bool" where
  "alt_f s \<longleftrightarrow> ed_buff s ! 0 = CHR ''^'' \<and> ed_buff s ! 1 = CHR ''['' \<and> ed_buff s ! 2 = CHR ''f''"

lemma alt_f_step:
  assumes inv: "ed_inv env h s" and "alt_f (s\<lparr>ed_buff := (ed_buff s)[ed_esc s := c]\<rparr>)" "2 \<le> ed_esc s" "ed_esc s < 8"
    and ctl: "\<not> is_control c"
  shows "\<exists>s'. readcmd_step env h s c = Some (Cont s') \<and> ed_inv env h s' \<and> alt_f s' \<and> ed_esc s' = Suc (ed_esc s)"
proof -
  note D = ed_invD [OF inv]
  define b where "b = (ed_buff s)[ed_esc s := c]"
  have b: "length b = 8" "b ! 0 = CHR ''^''" "b ! 1 = CHR ''[''" "b ! 2 = CHR ''f''"
    using assms(2) D(3) by (simp_all add: alt_f_def b_def)
  let ?s1 = "s\<lparr>ed_buff := b, ed_esc := Suc (ed_esc s)\<rparr>"
  have key: "psh_keyCode b (Suc (ed_esc s)) = Some (Key kAltRight, Suc (ed_esc s))"
  proof -
    have "peek b 0 = Some CHR ''^''" "peek b (Suc 0) = Some CHR ''[''" "peek b 2 = Some CHR ''f''"
      using b by (auto simp: peek_def)
    then show ?thesis using assms(3) by (simp add: psh_keyCode_def escKeys_def)
  qed
  have "ed_inv env h ?s1" using esc_inv [OF inv b(1), of "Suc (ed_esc s)"] assms(3,4) D(9) by simp
  then obtain s' where s': "ed_wordright env h ?s1 = Some s'" "ed_inv env h s'" "ed_esc s' = Suc (ed_esc s)"
    using handles_Ex [OF wordright_ok, of env h ?s1] by auto
  moreover have "readcmd_step env h s c = map_option Cont (ed_wordright env h ?s1)"
    using ctl assms(3,4) D(3) key by (simp add: readcmd_step_def regular_step_def memsafe b_def [symmetric] key_action_def)
  ultimately show ?thesis using wordright_buff [OF s'(1)] b by (simp add: alt_f_def)
qed

lemma alt_f_run:
  "ed_inv env h s \<Longrightarrow> alt_f s \<Longrightarrow> 3 \<le> ed_esc s \<Longrightarrow> ed_esc s + length cs = 9 \<Longrightarrow>
     \<forall>c \<in> set cs. \<not> is_control c \<Longrightarrow> readcmd_loop env h s cs = None"
proof (induction cs arbitrary: s)
  case Nil
  then show ?case using ed_invD(8) [of env h s] by simp
next
  case (Cons c cs)
  show ?case
  proof (cases "ed_esc s = 8")
    case True
    then show ?thesis
      using Cons.prems(5) ed_invD(3) [OF Cons.prems(1)]
      by (simp add: readcmd_step_def regular_step_def poke_def)
  next
    case False
    then have "ed_esc s < 8" using ed_invD(8) [OF Cons.prems(1)] by simp
    moreover have "alt_f (s\<lparr>ed_buff := (ed_buff s)[ed_esc s := c]\<rparr>)" using Cons.prems(2,3) by (simp add: alt_f_def)
    ultimately obtain s' where "readcmd_step env h s c = Some (Cont s')" "ed_inv env h s'" "alt_f s'"
        "ed_esc s' = Suc (ed_esc s)"
      using alt_f_step [OF Cons.prems(1), of c] Cons.prems(3,5) by auto
    then show ?thesis using Cons.IH [of s'] Cons.prems(3-5) by simp
  qed
qed

text \<open>
  A defect. \<open>psh_keyCode\<close> resets the count of received characters for \<open>csiKeys\<close> but not for
  the keys of one letter: after \<open>ESC f\<close> the following regular characters are still collected in
  \<open>buff[8]\<close> and run the key again, none of them reaches the line, and the sixth is written behind
  the end of the buffer.
\<close>

lemma psh_keyCode_alt_overflow:
  assumes "ed_inv env h s" "length cs = 6" "\<forall>c \<in> set cs. \<not> is_control c"
  shows "readcmd_loop env h s (CHR 0x1B # CHR ''f'' # cs) = None"
proof -
  obtain b0 b1 b2 b3 b4 b5 b6 b7 where b: "ed_buff s = [b0, b1, b2, b3, b4, b5, b6, b7]"
    using ed_invD(3) [OF assms(1)] by (rule length_8_cases)
  define s1 where "s1 = s\<lparr>ed_newline := False, ed_buff := [CHR ''^'', CHR ''['', b2, b3, b4, b5, b6, b7], ed_esc := 2\<rparr>"
  have step: "readcmd_step env h s (CHR 0x1B) = Some (Cont s1)"
    by (simp add: readcmd_step_def is_control_def code_def control_step_def esc_step_def b poke_def s1_def numeral_2_eq_2)
  have "ed_inv env h s1" using assms(1) by (auto simp: ed_inv_def s1_def)
  then obtain s2 where "readcmd_step env h s1 (CHR ''f'') = Some (Cont s2)" "ed_inv env h s2" "alt_f s2"
      "ed_esc s2 = Suc (ed_esc s1)"
    using alt_f_step [of env h s1 "CHR ''f''"] by (auto simp: s1_def alt_f_def is_control_def code_def)
  then show ?thesis using step alt_f_run [of env h s2 cs] assms(2,3) by (simp add: s1_def)
qed

definition hist_ls :: psh_hist where
  "hist_ls = hist_init\<lparr>he := 1,
     entries := (entries hist_init)(0 := \<lparr>ent_n = 2, ent_cmd = Buf (''ls'' @ replicate 127 NUL)\<rparr>)\<rparr>"

lemma hist_ls_ok: "hist_ok 128 hist_ls" "hist_list hist_ls = [''ls'']" "he hist_ls = 1"
  by (auto simp: hist_ls_def hist_ok_def hsize_def slot_def hist_init_def ent_owned_def ent_unowned_def
      hist_list_def ent_line_def mod_if)

theorem history_browse_witness:
  "\<exists>s1. readcmd_loop env80 hist_ls (ed80\<lparr>ed_hp := 1\<rparr>) (concat (replicate 1 UP)) = Some (Cont s1, [])
      \<and> ed_line hist_ls s1 = map detok (hist_list hist_ls ! (length (hist_list hist_ls) - 1)) \<and> ed_m s1 = 0
      \<and> (\<exists>s2. readcmd_loop env80 hist_ls (ed80\<lparr>ed_hp := 1\<rparr>) (concat (replicate 1 UP) @ concat (replicate 1 DOWN))
            = Some (Cont s2, [])
          \<and> ed_hp s2 = he hist_ls \<and> ed_line hist_ls s2 = ed_line hist_ls (ed80\<lparr>ed_hp := 1\<rparr>))"
proof (rule history_browse)
  show "ed_inv env80 hist_ls (ed80\<lparr>ed_hp := 1\<rparr>)"
    using ed80_inv(1) by (simp add: ed_inv_def hist_ls_ok ed80_def readcmd_init_def)
qed (simp_all only: hist_ls_ok, simp_all)

end
