(* ===== verification/Parse.thy ===== *)
theory Parse
  imports History
begin

text \<open>
  Splitting a command line into words: \<open>psh_parsecmd\<close> of \<open>src/psh/pshapp/pshapp.c\<close>, with
  \<open>strtok\<close> on the line buffer. The words are pointers into the buffer (offsets), and \<open>strtok\<close>
  overwrites the delimiter behind each word, which is the form in which the history keeps a line.
  The allocations are answered by a parameter, in the order the code makes them.
\<close>

section \<open>strtok\<close>

definition delim :: "char \<Rightarrow> bool" where
  "delim c \<longleftrightarrow> c = CHR 0x09 \<or> c = CHR '' ''"

definition wordchr :: "char \<Rightarrow> bool" where
  "wordchr c \<longleftrightarrow> \<not> delim c \<and> c \<noteq> NUL"

definition tok_skip :: "string \<Rightarrow> nat \<Rightarrow> nat" where
  "tok_skip b p = p + length (takeWhile delim (drop p b))"

definition tok_end :: "string \<Rightarrow> nat \<Rightarrow> nat" where
  "tok_end b q = q + length (takeWhile wordchr (drop q b))"

text \<open>
  One call of \<open>strtok\<close> that goes on at position \<open>p\<close>: the buffer, the word (or \<open>NULL\<close>) and the
  position for the next call. The result is \<open>None\<close> when the scan leaves the buffer.
\<close>

definition strtok :: "string \<Rightarrow> nat \<Rightarrow> (string \<times> nat option \<times> nat) option" where
  "strtok b p = do {
     let q = tok_skip b p;
     c \<leftarrow> peek b q;
     if c = NUL then Some (b, None, q)
     else do {
       let e = tok_end b q;
       d \<leftarrow> peek b e;
       if d = NUL then Some (b, Some q, e) else Some (b[e := NUL], Some q, e + 1)
     }
   }"

lemma tok_skip_ge: "p \<le> tok_skip b p" by (simp add: tok_skip_def)

lemma wordchr_iff: "wordchr c \<longleftrightarrow> \<not> delim c \<and> c \<noteq> NUL"
  by (simp add: wordchr_def)

lemma not_delim_skip: "tok_skip b p < length b \<Longrightarrow> \<not> delim (b ! tok_skip b p)"
proof -
  assume "tok_skip b p < length b"
  then have "length (takeWhile delim (drop p b)) < length (drop p b)"
    by (simp add: tok_skip_def)
  then have "\<not> delim (drop p b ! length (takeWhile delim (drop p b)))" by (rule nth_length_takeWhile)
  then show ?thesis using \<open>tok_skip b p < length b\<close> by (simp add: tok_skip_def)
qed

lemma tok_end_gt: "q < length b \<Longrightarrow> wordchr (b ! q) \<Longrightarrow> q < tok_end b q"
  by (simp add: tok_end_def flip: Cons_nth_drop_Suc)

lemma strtok_progress:
  assumes "strtok b p = Some (b', Some q, p')"
  shows "length b' = length b" "p < p'" "p' \<le> length b"
proof -
  have q: "q = tok_skip b p" "q < length b" "b ! q \<noteq> NUL"
    using assms by (auto simp: strtok_def peek_def Let_def split: if_splits)
  then have "q < tok_end b q" using not_delim_skip [of b p] tok_end_gt by (simp add: wordchr_def)
  then show "length b' = length b" "p < p'" "p' \<le> length b"
    using assms q(1) tok_skip_ge [of p b] by (auto simp: strtok_def peek_def Let_def split: if_splits)
qed

section \<open>The argument vector\<close>

text \<open>The value of the caller's \<open>argv\<close> pointer; a vector is the offsets of its words.\<close>

datatype argvp = ANull | AFreed | Argv "nat list"

function parsecmd_loop ::
  "(nat \<Rightarrow> bool) \<Rightarrow> nat \<Rightarrow> string \<Rightarrow> nat \<Rightarrow> nat list \<Rightarrow> (string \<times> int \<times> argvp) option"
where
  "parsecmd_loop alloc k b p argv =
     (case strtok b p of
        None \<Rightarrow> None
      | Some (b', None, p') \<Rightarrow> Some (b', 0, Argv argv)
      | Some (b', Some q, p') \<Rightarrow>
          if \<not> alloc k then Some (b', - ENOMEM, AFreed)
          else parsecmd_loop alloc (k + 1) b' p' (argv @ [q]))"
  by pat_completeness auto
termination
  apply (relation "measure (\<lambda>(alloc, k, b, p, argv). length b - p)")
   apply simp
  apply auto
  apply (frule strtok_progress(1), frule strtok_progress(2), drule strtok_progress(3))
  apply simp
  done

declare parsecmd_loop.simps [simp del]

definition psh_parsecmd :: "(nat \<Rightarrow> bool) \<Rightarrow> string \<Rightarrow> argvp \<Rightarrow> (string \<times> int \<times> argvp) option" where
  "psh_parsecmd alloc line argv0 =
     (case strtok line 0 of
        None \<Rightarrow> None
      | Some (b, None, _) \<Rightarrow> Some (b, - EINVAL, argv0)
      | Some (b, Some q, p) \<Rightarrow>
          if \<not> alloc 0 then Some (b, - ENOMEM, ANull)
          else parsecmd_loop alloc 1 b p [q])"

text \<open>The strings the words of a vector denote, in the buffer as it is now.\<close>

definition argv_strings :: "string \<Rightarrow> nat list \<Rightarrow> string list" where
  "argv_strings b qs = map (cstr_at b) qs"

section \<open>The words of a line\<close>

function words_of :: "string \<Rightarrow> string list" where
  "words_of s = (case dropWhile delim s of
     [] \<Rightarrow> []
   | c # cs \<Rightarrow> takeWhile (\<lambda>c. \<not> delim c) (c # cs) # words_of (dropWhile (\<lambda>c. \<not> delim c) (c # cs)))"
  by pat_completeness auto
termination
proof (relation "measure length")
  fix s c cs
  assume "dropWhile delim s = c # cs"
  then have "\<not> delim c" "length (c # cs) \<le> length s"
    using hd_dropWhile [of delim s] length_dropWhile_le [of delim s] by auto
  then show "(dropWhile (\<lambda>c. \<not> delim c) (c # cs), s) \<in> measure length"
    using length_dropWhile_le [of "\<lambda>c. \<not> delim c" cs] by simp
qed simp

declare words_of.simps [simp del]

text \<open>The line as \<open>strtok\<close> leaves it: \<open>NUL\<close> for the delimiter behind each word.\<close>

function tokenised :: "string \<Rightarrow> string" where
  "tokenised s = (case dropWhile delim s of
     [] \<Rightarrow> s
   | c # cs \<Rightarrow> takeWhile delim s @ takeWhile (\<lambda>c. \<not> delim c) (c # cs) @
       (case dropWhile (\<lambda>c. \<not> delim c) (c # cs) of [] \<Rightarrow> [] | d # t \<Rightarrow> NUL # tokenised t))"
  by pat_completeness auto
termination
proof (relation "measure length")
  fix s c cs d t
  assume "dropWhile delim s = c # cs" and "dropWhile (\<lambda>c. \<not> delim c) (c # cs) = d # t"
  then have "length (c # cs) \<le> length s" "length (d # t) \<le> length (c # cs)"
    by (metis length_dropWhile_le)+
  then show "(t, s) \<in> measure length" by simp
qed simp

declare tokenised.simps [simp del]

lemma takeWhile_split:
  assumes "\<forall>c \<in> set xs. P c" "ys = [] \<or> \<not> P (hd ys)"
  shows "takeWhile P (xs @ ys) = xs" "dropWhile P (xs @ ys) = ys"
  using assms by (induction xs) (cases ys, auto)+

lemma words_none: "\<forall>c \<in> set s. delim c \<Longrightarrow> words_of s = []"
  by (subst words_of.simps) (simp add: dropWhile_eq_Nil_conv [THEN iffD2])

lemma tokenised_none: "\<forall>c \<in> set s. delim c \<Longrightarrow> tokenised s = s"
  by (subst tokenised.simps) (simp add: dropWhile_eq_Nil_conv [THEN iffD2])

lemma words_step:
  assumes ds: "\<forall>c \<in> set ds. delim c" and w: "\<forall>c \<in> set w. \<not> delim c" "w \<noteq> []" and t: "t = [] \<or> delim (hd t)"
  shows "words_of (ds @ w @ t) = w # words_of t"
    and "tokenised (ds @ w @ t) = ds @ w @ (case t of [] \<Rightarrow> [] | d # t' \<Rightarrow> NUL # tokenised t')"
proof -
  obtain c cs where c: "w = c # cs" using w(2) by (cases w) auto
  have d: "dropWhile delim (ds @ w @ t) = c # (cs @ t)" "takeWhile delim (ds @ w @ t) = ds"
    using takeWhile_split [OF ds, of "w @ t"] w c by auto
  have e: "takeWhile (\<lambda>c. \<not> delim c) (c # (cs @ t)) = w" "dropWhile (\<lambda>c. \<not> delim c) (c # (cs @ t)) = t"
    using takeWhile_split [of w "\<lambda>c. \<not> delim c" t] w(1) t c by auto
  show "words_of (ds @ w @ t) = w # words_of t" by (subst words_of.simps) (simp only: d e list.case)
  show "tokenised (ds @ w @ t) = ds @ w @ (case t of [] \<Rightarrow> [] | d # t' \<Rightarrow> NUL # tokenised t')"
    by (subst tokenised.simps) (simp only: d e list.case)
qed

lemma words_delim: "delim d \<Longrightarrow> words_of (d # s) = words_of s"
  by (subst (1 2) words_of.simps) simp

text \<open>Induction over the words of a line.\<close>

lemma word_cases:
  obtains (none) "\<forall>c \<in> set s. delim c"
  | (word) ds w t where "s = ds @ w @ t" "\<forall>c \<in> set ds. delim c" "\<forall>c \<in> set w. \<not> delim c" "w \<noteq> []"
      "t = [] \<or> delim (hd t)"
proof (cases "dropWhile delim s")
  case Nil
  then show thesis using none by (simp add: dropWhile_eq_Nil_conv)
next
  case (Cons c cs)
  let ?w = "takeWhile (\<lambda>c. \<not> delim c) (c # cs)" and ?t = "dropWhile (\<lambda>c. \<not> delim c) (c # cs)"
  have "\<not> delim c" using hd_dropWhile [of delim s] Cons by simp
  show thesis
  proof (rule word)
    show "s = takeWhile delim s @ ?w @ ?t" using Cons takeWhile_dropWhile_id [of delim s] by simp
    show "\<forall>c \<in> set (takeWhile delim s). delim c" by (auto dest: set_takeWhileD)
    show "\<forall>c \<in> set ?w. \<not> delim c" by (blast dest: set_takeWhileD)
    show "?w \<noteq> []" using \<open>\<not> delim c\<close> by simp
    show "?t = [] \<or> delim (hd ?t)" using hd_dropWhile [of "\<lambda>c. \<not> delim c" "c # cs"] by blast
  qed
qed

lemma word_induct [case_names none last word]:
  assumes none: "\<And>s. \<forall>c \<in> set s. delim c \<Longrightarrow> P s"
    and last: "\<And>ds w. \<forall>c \<in> set ds. delim c \<Longrightarrow> \<forall>c \<in> set w. \<not> delim c \<Longrightarrow> w \<noteq> [] \<Longrightarrow> P (ds @ w)"
    and word: "\<And>ds w d t. \<forall>c \<in> set ds. delim c \<Longrightarrow> \<forall>c \<in> set w. \<not> delim c \<Longrightarrow> w \<noteq> [] \<Longrightarrow> delim d \<Longrightarrow> P t \<Longrightarrow>
      P (ds @ w @ d # t)"
  shows "P s"
proof (induction s rule: length_induct)
  case (1 s)
  show ?case
  proof (cases s rule: word_cases)
    case (word ds w t)
    then show ?thesis using last [of ds w] assms(3) [of ds w] 1 by (cases t) auto
  qed (rule none)
qed

section \<open>What psh_parsecmd computes\<close>

lemma NUL_not_delim [simp]: "\<not> delim NUL"
  by (simp add: delim_def)

lemma strtok_end:
  assumes "drop p b = ds @ NUL # r" "\<forall>c \<in> set ds. delim c"
  shows "strtok b p = Some (b, None, p + length ds)"
proof -
  have "takeWhile delim (drop p b) = ds" using assms takeWhile_split(1) [OF assms(2), of "NUL # r"] by simp
  moreover have "peek b (p + length ds) = Some NUL"
  proof -
    have "p + length ds < length b" using arg_cong [OF assms(1), of length] by simp
    moreover have "b ! (p + length ds) = NUL" using assms(1) calculation nth_drop [of p b "length ds"] by simp
    ultimately show ?thesis by (simp add: peek_def)
  qed
  ultimately show ?thesis by (simp add: strtok_def tok_skip_def)
qed

lemma strtok_word:
  assumes b: "drop p b = ds @ w @ d # r" and ds: "\<forall>c \<in> set ds. delim c"
    and w: "\<forall>c \<in> set w. \<not> delim c \<and> c \<noteq> NUL" "w \<noteq> []" and d: "delim d \<or> d = NUL"
  shows "strtok b p = Some (if d = NUL then (b, Some (p + length ds), p + length ds + length w)
    else (b[p + length ds + length w := NUL], Some (p + length ds), p + length ds + length w + 1))"
proof -
  let ?q = "p + length ds" and ?e = "p + length ds + length w"
  obtain c cs where c: "w = c # cs" using w(2) by (cases w) auto
  have len: "?e < length b" using arg_cong [OF b, of length] by simp
  have nth: "b ! (p + i) = (ds @ w @ d # r) ! i" if "p + i < length b" for i
    using nth_drop [of p b i] that b by simp
  have "takeWhile delim (drop p b) = ds" using takeWhile_split(1) [OF ds, of "w @ d # r"] w c b by simp
  then have skip: "tok_skip b p = ?q" by (simp add: tok_skip_def)
  have "drop ?q b = w @ d # r" using b by (metis append_eq_conv_conj drop_drop add.commute)
  then have "takeWhile wordchr (drop ?q b) = w"
    using takeWhile_split(1) [of w wordchr "d # r"] w(1) d by (auto simp: wordchr_def)
  then have en: "tok_end b ?q = ?e" by (simp add: tok_end_def)
  have "peek b ?q = Some c" "c \<noteq> NUL" using nth [of "length ds"] len w c by (auto simp: peek_def nth_append)
  moreover have "peek b ?e = Some d"
    using nth [of "length ds + length w"] len by (simp add: peek_def nth_append add.assoc)
  ultimately show ?thesis by (simp add: strtok_def skip en Let_def)
qed

lemma cstr_at_append: "NUL \<notin> set w \<Longrightarrow> cstr_at (u @ w @ NUL # r) (length u) = w"
  by (simp add: cstr_at_def)

text \<open>
  The loop on a buffer that holds \<open>s\<close> and its terminator behind the part \<open>u\<close> already split: it
  delivers all words of \<open>s\<close>, or it stops at a failed allocation.
\<close>

lemma parsecmd_loop_ok:
  "NUL \<notin> set s \<Longrightarrow>
     (\<exists>qs. parsecmd_loop alloc k (u @ s @ NUL # r) (length u) argv
         = Some (u @ tokenised s @ NUL # r, 0, Argv (argv @ qs))
       \<and> argv_strings (u @ tokenised s @ NUL # r) qs = words_of s)
     \<or> ((\<exists>k. \<not> alloc k) \<and> (\<exists>b. parsecmd_loop alloc k (u @ s @ NUL # r) (length u) argv = Some (b, - ENOMEM, AFreed)))"
proof (induction s arbitrary: u k argv rule: word_induct)
  case (none s)
  then show ?case
    using strtok_end [of "length u" "u @ s @ NUL # r" s r]
    by (subst parsecmd_loop.simps) (simp add: words_none tokenised_none argv_strings_def)
next
  case (last ds w)
  let ?b = "u @ (ds @ w) @ NUL # r" and ?q = "length u + length ds"
  have w: "\<forall>c \<in> set w. \<not> delim c \<and> c \<noteq> NUL" using last by auto
  have tok: "strtok ?b (length u) = Some (?b, Some ?q, ?q + length w)"
    using strtok_word [of "length u" ?b ds w NUL r] last w by simp
  have tok': "strtok ?b (?q + length w) = Some (?b, None, ?q + length w)"
    using strtok_end [of "?q + length w" ?b "[]" r] by simp
  have eq: "words_of (ds @ w) = [w]" "tokenised (ds @ w) = ds @ w"
    using words_step [OF last(1-3), of "[]"] words_none [of "[]"] by simp_all
  have "cstr_at ?b ?q = w" using cstr_at_append [of w "u @ ds" r] last(4) by simp
  then have strs: "argv_strings (u @ tokenised (ds @ w) @ NUL # r) [?q] = words_of (ds @ w)"
    by (simp add: argv_strings_def eq)
  have loop: "parsecmd_loop alloc k ?b (length u) argv
      = (if \<not> alloc k then Some (?b, - ENOMEM, AFreed) else Some (?b, 0, Argv (argv @ [?q])))"
    by (subst parsecmd_loop.simps, subst parsecmd_loop.simps) (simp add: tok tok' del: append_assoc)
  show ?case
  proof (cases "alloc k")
    case True
    then show ?thesis using loop strs by (intro disjI1 exI [of _ "[?q]"]) (simp add: eq)
  next
    case False
    then show ?thesis using loop by (intro disjI2) auto
  qed
next
  case (word ds w d t)
  let ?b = "u @ (ds @ w @ d # t) @ NUL # r" and ?q = "length u + length ds"
  let ?u = "u @ ds @ w @ [NUL]"
  have d: "d \<noteq> NUL" using word.prems by auto
  have w: "\<forall>c \<in> set w. \<not> delim c \<and> c \<noteq> NUL" using word.hyps(2) word.prems by auto
  have "?b[?q + length w := NUL] = ?u @ t @ NUL # r"
    by (simp add: list_update_append)
  then have tok: "strtok ?b (length u) = Some (?u @ t @ NUL # r, Some ?q, length ?u)"
    using strtok_word [of "length u" ?b ds w d "t @ NUL # r"] word.hyps d w by simp
  have loop: "parsecmd_loop alloc k ?b (length u) argv
      = (if \<not> alloc k then Some (?u @ t @ NUL # r, - ENOMEM, AFreed)
         else parsecmd_loop alloc (k + 1) (?u @ t @ NUL # r) (length ?u) (argv @ [?q]))"
    by (subst parsecmd_loop.simps) (simp add: tok del: append_assoc)
  have eq: "words_of (ds @ w @ d # t) = w # words_of t" "tokenised (ds @ w @ d # t) = ds @ w @ NUL # tokenised t"
    using words_step [OF word.hyps(1-3), of "d # t"] word.hyps(4) by (simp_all add: words_delim)
  have "cstr_at (?u @ tokenised t @ NUL # r) ?q = w"
    using cstr_at_append [of w "u @ ds" "tokenised t @ NUL # r"] word.prems by simp
  then have strs: "argv_strings (?u @ tokenised t @ NUL # r) (?q # qs) = words_of (ds @ w @ d # t)"
    if "argv_strings (?u @ tokenised t @ NUL # r) qs = words_of t" for qs
    using that by (simp add: argv_strings_def eq)
  show ?case
  proof (cases "alloc k")
    case True
    have "NUL \<notin> set t" using word.prems by simp
    from word.IH [OF this, of "k + 1" ?u "argv @ [?q]"] True loop strs show ?thesis
      by (elim disjE exE conjE) (auto simp: eq)
  next
    case False
    then show ?thesis using loop by (intro disjI2) auto
  qed
qed

lemma parsecmd_as_loop:
  "strtok line 0 = Some (b, Some q, p) \<Longrightarrow> alloc 0 \<Longrightarrow> psh_parsecmd alloc line a0 = parsecmd_loop alloc 0 line 0 []"
  by (subst parsecmd_loop.simps) (simp add: psh_parsecmd_def)

lemma strtok_first:
  assumes "NUL \<notin> set s"
  shows "if words_of s = [] then strtok (u @ s @ NUL # r) (length u) = Some (u @ s @ NUL # r, None, length u + length s)
    else \<exists>b q p. strtok (u @ s @ NUL # r) (length u) = Some (b, Some q, p)"
proof (cases s rule: word_cases)
  case none
  then show ?thesis using strtok_end [of "length u" "u @ s @ NUL # r" s r] by (simp add: words_none)
next
  case (word ds w t)
  obtain d t' where t: "t @ NUL # r = d # t'" "delim d \<or> d = NUL" using word(5) by (cases t) auto
  have "\<forall>c \<in> set w. \<not> delim c \<and> c \<noteq> NUL" using word assms by auto
  moreover have "drop (length u) (u @ s @ NUL # r) = ds @ w @ d # t'" using word(1) t(1) by simp
  ultimately have "\<exists>b q p. strtok (u @ s @ NUL # r) (length u) = Some (b, Some q, p)"
    using strtok_word [of "length u" "u @ s @ NUL # r" ds w d t'] word(2,4) t(2) by auto
  moreover have "words_of s \<noteq> []" using words_step(1) [OF word(2-5)] word(1) by simp
  ultimately show ?thesis by simp
qed

lemmas parsecmd_first = strtok_first [of _ "[]", simplified]

text \<open>When the vector cannot be enlarged for the second word, it is freed.\<close>

lemma parsecmd_second_fails:
  assumes s: "NUL \<notin> set s" "2 \<le> length (words_of s)" and al: "alloc 0" "\<not> alloc 1"
  shows "\<exists>b. psh_parsecmd alloc (s @ NUL # r) a0 = Some (b, - ENOMEM, AFreed)"
proof (cases s rule: word_cases)
  case none
  then show ?thesis using s(2) by (simp add: words_none)
next
  case (word ds w t)
  have "words_of s = w # words_of t" using words_step(1) [OF word(2-5)] word(1) by simp
  then have "words_of t \<noteq> []" using s(2) by auto
  then obtain d t' where t: "t = d # t'" using words_none [of "[]"] by (cases t) auto
  then have d: "delim d" "words_of t' \<noteq> []" using word(5) \<open>words_of t \<noteq> []\<close> words_delim by auto
  have w: "\<forall>c \<in> set w. \<not> delim c \<and> c \<noteq> NUL" "NUL \<notin> set t'" "d \<noteq> NUL" using word(1,3) t s(1) by auto
  let ?u = "ds @ w @ [NUL]"
  have "(s @ NUL # r)[length ds + length w := NUL] = ?u @ t' @ NUL # r"
    using word(1) t by (simp add: list_update_append)
  then have "strtok (s @ NUL # r) 0 = Some (?u @ t' @ NUL # r, Some (length ds), length ?u)"
    using strtok_word [of 0 "s @ NUL # r" ds w d "t' @ NUL # r"] word(1,2,4) t d(1) w by simp
  moreover obtain b q p where "strtok (?u @ t' @ NUL # r) (length ?u) = Some (b, Some q, p)"
    using strtok_first [OF w(2), of ?u r] d(2) by auto
  ultimately show ?thesis
    using al by (simp add: psh_parsecmd_def) (subst parsecmd_loop.simps, simp)
qed

lemma parsecmd_result:
  assumes s: "NUL \<notin> set s" "words_of s \<noteq> []"
  shows "(\<exists>qs. psh_parsecmd alloc (s @ NUL # r) a0 = Some (tokenised s @ NUL # r, 0, Argv qs)
        \<and> argv_strings (tokenised s @ NUL # r) qs = words_of s)
    \<or> (\<exists>k. \<not> alloc k) \<and> (\<exists>b a. psh_parsecmd alloc (s @ NUL # r) a0 = Some (b, - ENOMEM, a) \<and> a \<in> {ANull, AFreed})"
proof (cases "alloc 0")
  case True
  obtain b q p where "strtok (s @ NUL # r) 0 = Some (b, Some q, p)"
    using parsecmd_first [OF s(1), of r] s(2) by auto
  then have "psh_parsecmd alloc (s @ NUL # r) a0 = parsecmd_loop alloc 0 (s @ NUL # r) 0 []"
    using True by (rule parsecmd_as_loop)
  then show ?thesis using parsecmd_loop_ok [OF s(1), of alloc 0 "[]" r "[]"] by auto
next
  case False
  then show ?thesis using parsecmd_first [OF s(1), of r] s(2) by (auto simp: psh_parsecmd_def)
qed

lemma length_tokenised: "length (tokenised s) = length s"
proof (induction s rule: word_induct)
  case (last ds w)
  then show ?case using words_step(2) [of ds w "[]"] by simp
next
  case (word ds w d t)
  then show ?case using words_step(2) [of ds w "d # t"] by simp
qed (simp add: tokenised_none)

lemma parsecmd_cases:
  assumes "NUL \<notin> set s"
  shows "if words_of s = [] then psh_parsecmd alloc (s @ NUL # r) a0 = Some (s @ NUL # r, - EINVAL, a0)
    else (\<exists>qs. psh_parsecmd alloc (s @ NUL # r) a0 = Some (tokenised s @ NUL # r, 0, Argv qs)
           \<and> argv_strings (tokenised s @ NUL # r) qs = words_of s)
      \<or> (\<exists>k. \<not> alloc k) \<and> (\<exists>b a. psh_parsecmd alloc (s @ NUL # r) a0 = Some (b, - ENOMEM, a) \<and> a \<in> {ANull, AFreed})"
proof (cases "words_of s = []")
  case True
  then show ?thesis using parsecmd_first [OF assms, of r] by (simp add: psh_parsecmd_def)
next
  case False
  then show ?thesis unfolding if_not_P [OF False] by (rule parsecmd_result [OF assms])
qed

lemma parsecmd_total:
  assumes "n < length cmd" "cmd ! n = NUL"
  shows "\<exists>b err a. psh_parsecmd alloc cmd a0 = Some (b, err, a) \<and>
    (err < 0 \<or> err = 0 \<and> length b = length cmd \<and> (\<exists>qs. a = Argv qs))"
proof -
  have "NUL \<in> set cmd" using assms nth_mem by metis
  then obtain s r where cmd: "cmd = s @ NUL # r" "NUL \<notin> set s" using split_list_first by metis
  then show ?thesis
    using parsecmd_cases [OF cmd(2), of alloc r a0] length_tokenised [of s] by (auto split: if_splits)
qed

text \<open>
  C14: Splitting a command line. On any terminated line \<open>psh_parsecmd\<close> stays in the buffer and
  returns: a line of blanks gives \<open>-EINVAL\<close> and changes nothing; otherwise, when the allocations
  succeed, the vector denotes exactly the words of the line (the maximal runs without blank and
  tab), and only the delimiter behind each word is overwritten; the only other result is \<open>-ENOMEM\<close>,
  after a failed allocation.
\<close>

theorem psh_parsecmd_correct:
  assumes "NUL \<notin> set s"
  shows "if words_of s = [] then psh_parsecmd alloc (s @ NUL # r) a0 = Some (s @ NUL # r, - EINVAL, a0)
    else (\<exists>qs. psh_parsecmd alloc (s @ NUL # r) a0 = Some (tokenised s @ NUL # r, 0, Argv qs)
           \<and> argv_strings (tokenised s @ NUL # r) qs = words_of s)
      \<or> (\<exists>k. \<not> alloc k) \<and> (\<exists>b a. psh_parsecmd alloc (s @ NUL # r) a0 = Some (b, - ENOMEM, a) \<and> a \<in> {ANull, AFreed})"
  using assms by (rule parsecmd_cases)

lemma words_example: "words_of ''ls  -l'' = [''ls'', ''-l'']" "tokenised ''ls  -l'' = [CHR ''l'', CHR ''s'', NUL, CHR '' '', CHR ''-'', CHR ''l'']"
  by (simp_all add: words_of.simps tokenised.simps delim_def)

theorem psh_parsecmd_correct_witness:
  "\<exists>qs. psh_parsecmd (\<lambda>_. True) (''ls  -l'' @ NUL # ''??'') ANull
      = Some (tokenised ''ls  -l'' @ NUL # ''??'', 0, Argv qs)
    \<and> argv_strings (tokenised ''ls  -l'' @ NUL # ''??'') qs = [''ls'', ''-l'']"
  using psh_parsecmd_correct [of "''ls  -l''" "\<lambda>_. True" "''??''" ANull] by (simp add: words_example)

section \<open>Lines kept in the history\<close>

lemma detok_delim [simp]: "delim c \<Longrightarrow> detok c = c" "c \<noteq> NUL \<Longrightarrow> detok c = c" "detok NUL = CHR '' ''"
  by (auto simp: detok_def delim_def)

lemma map_detok_id: "NUL \<notin> set s \<Longrightarrow> map detok s = s"
  by (induction s) auto

lemma detok_words:
  "NUL \<notin> set s \<Longrightarrow> words_of (map detok (tokenised s)) = words_of s \<and> NUL \<notin> set (map detok (tokenised s))"
proof (induction s rule: word_induct)
  case (none s)
  then show ?case by (simp add: tokenised_none map_detok_id)
next
  case (last ds w)
  then show ?case using words_step(2) [of ds w "[]"] by (simp add: map_detok_id)
next
  case (word ds w d t)
  have nn: "NUL \<notin> set ds" "NUL \<notin> set w" "NUL \<notin> set t" using word.prems by auto
  have sp: "delim (CHR '' '')" by (simp add: delim_def)
  have "map detok (tokenised (ds @ w @ d # t)) = ds @ w @ CHR '' '' # map detok (tokenised t)"
    using words_step(2) [OF word.hyps(1-3), of "d # t"] word.hyps(4) nn by (simp add: map_detok_id)
  then show ?case
    using words_step(1) [OF word.hyps(1-3), of "CHR '' '' # map detok (tokenised t)"]
      words_step(1) [OF word.hyps(1-3), of "d # t"] word.IH nn word.hyps(4) sp
    by (simp add: words_delim)
qed

end
