(* ===== verification/Redirect.thy ===== *)
theory Redirect
  imports Parse
begin

text \<open>
  Stream redirections: \<open>struct psh_redir\<close>, \<open>psh_redirCleanup\<close>, \<open>psh_parseRedirections\<close>,
  \<open>psh_streamRedirect\<close> and \<open>psh_streamRestore\<close> of \<open>src/psh/pshapp/pshapp.c\<close>, on a table of file
  descriptors with the POSIX behaviour of \<open>open\<close>, \<open>close\<close>, \<open>dup\<close> and \<open>dup2\<close> (the lowest free
  descriptor below a limit). Parameters: the limit and \<open>opn\<close>, the open file description a path
  gives, if it can be opened. The streams have their descriptors 0, 1 and 2.
\<close>

section \<open>File descriptors\<close>

type_synonym 'f fdtab = "nat \<Rightarrow> 'f option"

definition fd_lowest :: "nat \<Rightarrow> 'f fdtab \<Rightarrow> nat option" where
  "fd_lowest nfd t = find (\<lambda>i. t i = None) [0 ..< nfd]"

definition sys_close :: "'f fdtab \<Rightarrow> int \<Rightarrow> 'f fdtab" where
  "sys_close t fd = (if fd < 0 then t else t(nat fd := None))"

definition fd_alloc :: "nat \<Rightarrow> 'f fdtab \<Rightarrow> 'f option \<Rightarrow> 'f fdtab \<times> int" where
  "fd_alloc nfd t d = (case (d, fd_lowest nfd t) of
     (Some f, Some fd) \<Rightarrow> (t(fd \<mapsto> f), int fd) | _ \<Rightarrow> (t, -1))"

definition sys_open :: "(string \<Rightarrow> nat \<Rightarrow> 'f option) \<Rightarrow> nat \<Rightarrow> 'f fdtab \<Rightarrow> string \<Rightarrow> nat \<Rightarrow> 'f fdtab \<times> int" where
  "sys_open opn nfd t path flags = fd_alloc nfd t (opn path flags)"

definition sys_dup :: "nat \<Rightarrow> 'f fdtab \<Rightarrow> int \<Rightarrow> 'f fdtab \<times> int" where
  "sys_dup nfd t fd = (if fd < 0 then (t, -1) else fd_alloc nfd t (t (nat fd)))"

definition sys_dup2 :: "'f fdtab \<Rightarrow> int \<Rightarrow> nat \<Rightarrow> 'f fdtab \<times> int" where
  "sys_dup2 t fd to = (if fd < 0 \<or> t (nat fd) = None then (t, -1) else (t(to := t (nat fd)), int to))"

abbreviation (input) O_RDONLY :: nat where "O_RDONLY \<equiv> 1"
abbreviation (input) O_WRONLY :: nat where "O_WRONLY \<equiv> 2"
abbreviation (input) O_APPEND :: nat where "O_APPEND \<equiv> 8"
abbreviation (input) O_CREAT :: nat where "O_CREAT \<equiv> 256"
abbreviation (input) O_TRUNC :: nat where "O_TRUNC \<equiv> 512"

section \<open>struct psh_redir\<close>

record psh_redir =
  save :: "nat \<Rightarrow> int"
  red :: "nat \<Rightarrow> int"

definition PSH_REDIRSZ :: nat where
  "PSH_REDIRSZ = 3"

definition redir_none :: psh_redir where
  "redir_none = \<lparr>save = \<lambda>_. -1, red = \<lambda>_. -1\<rparr>"

definition cleanup_one :: "nat \<Rightarrow> 'f fdtab \<times> psh_redir \<Rightarrow> 'f fdtab \<times> psh_redir" where
  "cleanup_one i st = (case st of (t, r) \<Rightarrow>
     let (t1, r1) = (if red r i \<ge> 0 then (sys_close t (red r i), r\<lparr>red := (red r)(i := -1)\<rparr>) else (t, r))
     in if save r1 i \<ge> 0 then (sys_close t1 (save r1 i), r1\<lparr>save := (save r1)(i := -1)\<rparr>) else (t1, r1))"

definition psh_redirCleanup :: "'f fdtab \<Rightarrow> psh_redir \<Rightarrow> 'f fdtab \<times> psh_redir" where
  "psh_redirCleanup t r = fold cleanup_one [0 ..< PSH_REDIRSZ] (t, r)"

section \<open>Parsing redirections\<close>

text \<open>The character of an argument at an index up to its terminator.\<close>

definition argchr :: "string \<Rightarrow> nat \<Rightarrow> char" where
  "argchr w i = (if i < length w then w ! i else NUL)"

datatype marker = M_IN | M_OUT | M_ERR | M_BOTH

definition redir_marker :: "string \<Rightarrow> marker option \<times> nat" where
  "redir_marker w =
     (if argchr w 0 = CHR ''1'' then (Some M_OUT, 1)
      else if argchr w 0 = CHR ''2'' then (Some M_ERR, 1)
      else if argchr w 0 = CHR ''&'' then (Some M_BOTH, 1)
      else (None, 0))"

text \<open>A redirection: its marker, the flags and the rest of the argument behind the operator.\<close>

definition redir_classify :: "string \<Rightarrow> (marker \<times> nat \<times> string) option" where
  "redir_classify w = (case redir_marker w of (mk, c) \<Rightarrow>
     if argchr w c = CHR ''>'' then
       (let mk' = (case mk of None \<Rightarrow> M_OUT | Some m \<Rightarrow> m) in
        if argchr w (c + 1) = CHR ''>''
        then Some (mk', O_WRONLY + O_CREAT + O_APPEND, drop (c + 2) w)
        else Some (mk', O_WRONLY + O_CREAT + O_TRUNC, drop (c + 1) w))
     else if mk = None \<and> argchr w 0 = CHR ''<'' then Some (M_IN, O_RDONLY, drop (c + 1) w)
     else None)"

definition set_red :: "nat \<Rightarrow> int \<Rightarrow> 'f fdtab \<Rightarrow> psh_redir \<Rightarrow> 'f fdtab \<times> psh_redir" where
  "set_red i fd t r =
     (if red r i \<ge> 0 then sys_close t (red r i) else t, r\<lparr>red := (red r)(i := fd)\<rparr>)"

text \<open>Recording the opened descriptor; the last component tells whether \<open>dup\<close> succeeded.\<close>

definition apply_marker :: "nat \<Rightarrow> marker \<Rightarrow> int \<Rightarrow> 'f fdtab \<Rightarrow> psh_redir \<Rightarrow> ('f fdtab \<times> psh_redir) \<times> bool" where
  "apply_marker nfd mk fd t r = (case mk of
     M_IN \<Rightarrow> (set_red 0 fd t r, True)
   | M_OUT \<Rightarrow> (set_red 1 fd t r, True)
   | M_ERR \<Rightarrow> (set_red 2 fd t r, True)
   | M_BOTH \<Rightarrow>
       (let (t1, r1) = set_red 1 fd t r;
            t2 = (if red r1 2 \<ge> 0 then sys_close t1 (red r1 2) else t1);
            (t3, d) = sys_dup nfd t2 fd
        in ((t3, r1\<lparr>red := (red r1)(2 := d)\<rparr>), d \<ge> 0)))"

type_synonym 'f parsed = "'f fdtab \<times> psh_redir \<times> string list \<times> int"

text \<open>
  The loop: \<open>acc\<close> are the arguments before index \<open>i\<close>, the list argument those from it on. An eaten
  redirection leaves the arguments behind it at index \<open>i\<close>. The last component is the return code.
\<close>

fun parseRedirections_loop ::
  "(string \<Rightarrow> nat \<Rightarrow> 'f option) \<Rightarrow> nat \<Rightarrow> 'f fdtab \<Rightarrow> psh_redir \<Rightarrow> string list \<Rightarrow> string list \<Rightarrow> 'f parsed"
where
  "parseRedirections_loop opn nfd t r acc [] = (t, r, acc, 0)"
| "parseRedirections_loop opn nfd t r acc (w # ws) = (case redir_classify w of
     None \<Rightarrow> parseRedirections_loop opn nfd t r (acc @ [w]) ws
   | Some (mk, flags, rest) \<Rightarrow>
       if rest = [] \<and> ws = [] then
         (let (t', r') = psh_redirCleanup t r in (t', r', acc @ w # ws, - EINVAL))
       else
         let path = (if rest = [] then hd ws else rest);
             ws' = (if rest = [] then tl ws else ws);
             (t1, fd) = sys_open opn nfd t path flags
         in if fd < 0 then
              (let (t', r') = psh_redirCleanup t1 r in (t', r', acc @ w # ws, - ENOENT))
            else
              let ((t2, r2), ok) = apply_marker nfd mk fd t1 r
              in if \<not> ok then (let (t', r') = psh_redirCleanup t2 r2 in (t', r', acc @ ws', - EMFILE))
                 else if rest = [] then parseRedirections_loop opn nfd t2 r2 acc (tl ws)
                 else parseRedirections_loop opn nfd t2 r2 acc ws)"

definition psh_parseRedirections ::
  "(string \<Rightarrow> nat \<Rightarrow> 'f option) \<Rightarrow> nat \<Rightarrow> 'f fdtab \<Rightarrow> string list \<Rightarrow> 'f parsed" where
  "psh_parseRedirections opn nfd t argv = parseRedirections_loop opn nfd t redir_none [] argv"

section \<open>Redirecting and restoring the streams\<close>

text \<open>One stream; the last component is set when the code breaks out of its loop.\<close>

definition redirect_one :: "nat \<Rightarrow> nat \<Rightarrow> 'f fdtab \<times> psh_redir \<times> int \<Rightarrow> ('f fdtab \<times> psh_redir \<times> int) \<times> bool" where
  "redirect_one nfd i st = (case st of (t, r, err) \<Rightarrow>
     if red r i \<ge> 0 then
       (let (t1, s) = sys_dup nfd t (int i) in
        if s < 0 then
          ((sys_close t1 (red r i), r\<lparr>save := (save r)(i := s), red := (red r)(i := -1)\<rparr>, -1), True)
        else
          let (t2, d) = sys_dup2 t1 (red r i) i;
              (t3, sv, e) = (if d < 0 then (sys_close t2 s, -1, -1) else (t2, s, err))
          in ((sys_close t3 (red r i), r\<lparr>save := (save r)(i := sv), red := (red r)(i := -1)\<rparr>, e), False))
     else (st, False))"

fun redirect_loop :: "nat \<Rightarrow> nat list \<Rightarrow> 'f fdtab \<times> psh_redir \<times> int \<Rightarrow> 'f fdtab \<times> psh_redir \<times> int" where
  "redirect_loop nfd [] st = st"
| "redirect_loop nfd (i # is) st = (case redirect_one nfd i st of (st', brk) \<Rightarrow>
     if brk then st' else redirect_loop nfd is st')"

definition psh_streamRedirect :: "nat \<Rightarrow> 'f fdtab \<Rightarrow> psh_redir \<Rightarrow> 'f fdtab \<times> psh_redir \<times> int" where
  "psh_streamRedirect nfd t r =
     (case redirect_loop nfd [0 ..< PSH_REDIRSZ] (t, r\<lparr>save := \<lambda>_. -1\<rparr>, 0) of
        (t', r', err) \<Rightarrow> (t', r', if err = 0 then 0 else PSH_UNKNOWN_CMD))"

definition restore_one :: "nat \<Rightarrow> 'f fdtab \<times> psh_redir \<times> int \<Rightarrow> 'f fdtab \<times> psh_redir \<times> int" where
  "restore_one i st = (case st of (t, r, err) \<Rightarrow>
     if save r i \<ge> 0 then
       (let (t1, d) = sys_dup2 t (save r i) i
        in (sys_close t1 (save r i), r\<lparr>save := (save r)(i := -1)\<rparr>, if d < 0 then -1 else err))
     else (t, r, err))"

definition psh_streamRestore :: "'f fdtab \<Rightarrow> psh_redir \<Rightarrow> 'f fdtab \<times> psh_redir \<times> int" where
  "psh_streamRestore t r =
     (case fold restore_one [0 ..< PSH_REDIRSZ] (t, r, 0) of
        (t1, r1, err) \<Rightarrow> (case psh_redirCleanup t1 r1 of (t2, r2) \<Rightarrow> (t2, r2, err)))"

section \<open>Descriptors held by a redirection\<close>

text \<open>The six descriptors of a \<open>psh_redir\<close>: \<open>red\<close> at 0 to 2, \<open>save\<close> at 3 to 5.\<close>

definition slots :: "psh_redir \<Rightarrow> nat \<Rightarrow> int" where
  "slots r k = (if k < 3 then red r k else save r (k - 3))"

text \<open>
  The table \<open>t\<close> is the table \<open>t0\<close> with the held descriptors added: each is free in \<open>t0\<close>, no two
  slots share one, and above the standard streams nothing else differs.
\<close>

definition holds :: "'f fdtab \<Rightarrow> 'f fdtab \<Rightarrow> (nat \<Rightarrow> int) \<Rightarrow> bool" where
  "holds t0 t h \<longleftrightarrow>
     (\<forall>k < 6. h k = -1 \<or> (3 \<le> h k \<and> t0 (nat (h k)) = None \<and> t (nat (h k)) \<noteq> None)) \<and>
     (\<forall>k < 6. \<forall>l < 6. k \<noteq> l \<longrightarrow> h k = h l \<longrightarrow> h k = -1) \<and>
     (\<forall>fd \<ge> 3. (\<forall>k < 6. h k \<noteq> int fd) \<longrightarrow> t fd = t0 fd)"

lemma slots_upd [simp]:
  "i < 3 \<Longrightarrow> slots (r\<lparr>red := (red r)(i := v)\<rparr>) = (slots r)(i := v)"
  "i < 3 \<Longrightarrow> slots (r\<lparr>save := (save r)(i := v)\<rparr>) = (slots r)(3 + i := v)"
  by (auto simp: slots_def fun_eq_iff)

lemma slots_at: "i < 3 \<Longrightarrow> slots r i = red r i" "i < 3 \<Longrightarrow> slots r (3 + i) = save r i"
  by (simp_all add: slots_def)

lemma holdsD:
  assumes "holds t0 t h"
  shows "k < 6 \<Longrightarrow> h k = -1 \<or> 3 \<le> h k \<and> t0 (nat (h k)) = None \<and> t (nat (h k)) \<noteq> None"
    and "k < 6 \<Longrightarrow> l < 6 \<Longrightarrow> k \<noteq> l \<Longrightarrow> h k = h l \<Longrightarrow> h k = -1"
    and "3 \<le> fd \<Longrightarrow> \<forall>k < 6. h k \<noteq> int fd \<Longrightarrow> t fd = t0 fd"
  using assms by (auto simp: holds_def)

lemma holds_cong:
  assumes "\<And>k. k < 6 \<Longrightarrow> h k = h' k" "holds t0 t h"
  shows "holds t0 t h'"
  unfolding holds_def
proof (intro conjI allI impI)
  fix k :: nat assume "k < 6"
  then show "h' k = -1 \<or> 3 \<le> h' k \<and> t0 (nat (h' k)) = None \<and> t (nat (h' k)) \<noteq> None"
    using holdsD(1) [OF assms(2), of k] assms(1) [of k] by simp
next
  fix k l :: nat assume "k < 6" "l < 6" "k \<noteq> l" "h' k = h' l"
  then show "h' k = -1" using holdsD(2) [OF assms(2), of k l] assms(1) by metis
next
  fix fd :: nat assume "3 \<le> fd" "\<forall>k < 6. h' k \<noteq> int fd"
  then show "t fd = t0 fd" using holdsD(3) [OF assms(2), of fd] assms(1) by simp
qed

lemma holds_none: "holds t0 t0 (\<lambda>_. -1)"
  by (simp add: holds_def)

lemma fresh_fd:
  assumes "holds t0 t h" "t fd = None" "3 \<le> fd"
  shows "\<forall>k < 6. h k \<noteq> int fd" "t0 fd = None"
proof -
  show *: "\<forall>k < 6. h k \<noteq> int fd"
  proof (intro allI impI notI)
    fix k :: nat assume "k < 6" "h k = int fd"
    then show False using holdsD(1) [OF assms(1), of k] assms(2) by auto
  qed
  show "t0 fd = None" using holdsD(3) [OF assms(1,3) *] assms(2) by simp
qed

lemma hold_new:
  assumes h: "holds t0 t h" and k: "k < 6" and fd: "t fd = None" "3 \<le> fd" and hk: "h k = -1"
  shows "holds t0 (t(fd \<mapsto> f)) (h(k := int fd))"
proof -
  note F = fresh_fd [OF h fd]
  show ?thesis
    unfolding holds_def
  proof (intro conjI allI impI)
    fix l :: nat assume "l < 6"
    then show "(h(k := int fd)) l = -1 \<or> 3 \<le> (h(k := int fd)) l \<and> t0 (nat ((h(k := int fd)) l)) = None
        \<and> (t(fd \<mapsto> f)) (nat ((h(k := int fd)) l)) \<noteq> None"
      using holdsD(1) [OF h, of l] F fd(2) by auto
  next
    fix l m :: nat assume "l < 6" "m < 6" "l \<noteq> m" "(h(k := int fd)) l = (h(k := int fd)) m"
    then show "(h(k := int fd)) l = -1"
      using holdsD(2) [OF h, of l m] F(1) by (auto split: if_splits)
  next
    fix d :: nat assume d: "3 \<le> d" "\<forall>l < 6. (h(k := int fd)) l \<noteq> int d"
    then have "d \<noteq> fd" using k by auto
    moreover have "h l \<noteq> int d" if "l < 6" for l
      using d(2) [rule_format, OF that] hk by (cases "l = k") auto
    ultimately show "(t(fd \<mapsto> f)) d = t0 d" using holdsD(3) [OF h d(1)] by simp
  qed
qed

lemma hold_close:
  assumes h: "holds t0 t h" and k: "k < 6"
  shows "holds t0 (sys_close t (h k)) (h(k := -1))"
proof (cases "h k = -1")
  case True
  then have "h(k := -1) = h" by (simp add: fun_eq_iff)
  then show ?thesis using h True by (simp add: sys_close_def)
next
  case False
  then have k3: "3 \<le> h k" "t0 (nat (h k)) = None" using holdsD(1) [OF h k] by auto
  have cl: "sys_close t (h k) = t(nat (h k) := None)" using k3 by (simp add: sys_close_def)
  show ?thesis
    unfolding holds_def cl
  proof (intro conjI allI impI)
    fix l :: nat assume l: "l < 6"
    have "l \<noteq> k \<Longrightarrow> h l \<noteq> -1 \<Longrightarrow> nat (h l) \<noteq> nat (h k)"
      using holdsD(1) [OF h l] holdsD(2) [OF h k l] k3(1) False by force
    then show "(h(k := -1)) l = -1 \<or> 3 \<le> (h(k := -1)) l \<and> t0 (nat ((h(k := -1)) l)) = None
        \<and> (t(nat (h k) := None)) (nat ((h(k := -1)) l)) \<noteq> None"
      using holdsD(1) [OF h l] by auto
  next
    fix l m :: nat assume "l < 6" "m < 6" "l \<noteq> m" "(h(k := -1)) l = (h(k := -1)) m"
    then show "(h(k := -1)) l = -1" using holdsD(2) [OF h, of l m] by (auto split: if_splits)
  next
    fix d :: nat assume d: "3 \<le> d" "\<forall>l < 6. (h(k := -1)) l \<noteq> int d"
    show "(t(nat (h k) := None)) d = t0 d"
    proof (cases "int d = h k")
      case True
      then show ?thesis using k3 by (metis fun_upd_same nat_int)
    next
      case False
      then have "\<forall>l < 6. h l \<noteq> int d" using d(2) by (metis fun_upd_apply)
      then show ?thesis using False k3(1) holdsD(3) [OF h d(1)] by auto
    qed
  qed
qed

lemma hold_std: "holds t0 t h \<Longrightarrow> j < 3 \<Longrightarrow> holds t0 (t(j := x)) h"
  by (force simp: holds_def)

section \<open>Cleaning up\<close>

lemma redir_upd_idem [simp]:
  "red r i = v \<Longrightarrow> r\<lparr>red := (red r)(i := v)\<rparr> = r" "save r i = v \<Longrightarrow> r\<lparr>save := (save r)(i := v)\<rparr> = r"
  "red r i = v \<Longrightarrow> r\<lparr>red := (red r)(i := v), save := s\<rparr> = r\<lparr>save := s\<rparr>"
  "save r i = v \<Longrightarrow> r\<lparr>red := d, save := (save r)(i := v)\<rparr> = r\<lparr>red := d\<rparr>"
  by (cases r; auto simp: fun_upd_idem)+

lemma cleanup_one_ok:
  assumes "holds t0 t (slots r)" "i < 3"
  shows "case cleanup_one i (t, r) of (t', r') \<Rightarrow>
    holds t0 t' (slots r') \<and> slots r' = (slots r)(i := -1, 3 + i := -1) \<and> (\<forall>j < 3. t' j = t j)"
proof -
  let ?h = "slots r"
  have i: "i < 6" "3 + i < 6" "i \<noteq> 3 + i" using assms(2) by auto
  note at = slots_at [OF assms(2), of r]
  have c1: "holds t0 (sys_close t (?h i)) (?h(i := -1))" by (rule hold_close [OF assms(1) i(1)])
  have c2: "holds t0 (sys_close (sys_close t (?h i)) (?h (3 + i))) (?h(i := -1, 3 + i := -1))"
    using hold_close [OF c1 i(2)] by simp
  have neg: "sys_close t v = t" if "v < 0" for t :: "'a fdtab" and v using that by (simp add: sys_close_def)
  have no: "\<not> 0 \<le> ?h k \<Longrightarrow> ?h(k := -1) = ?h" if "k < 6" for k
    using holdsD(1) [OF assms(1) that] by (auto simp: fun_eq_iff)
  have std: "j < 3 \<Longrightarrow> sys_close u (?h k) j = u j" if "k < 6" for j k and u :: "'a fdtab"
    using holdsD(1) [OF assms(1) that] by (auto simp: sys_close_def)
  have "cleanup_one i (t, r) = (sys_close (sys_close t (?h i)) (?h (3 + i)),
      r\<lparr>red := (red r)(i := -1), save := (save r)(i := -1)\<rparr>)"
    using no [OF i(1)] no [OF i(2)] holdsD(1) [OF assms(1) i(1)] holdsD(1) [OF assms(1) i(2)]
    by (auto simp: cleanup_one_def at neg sys_close_def)
  moreover have "slots (r\<lparr>red := (red r)(i := -1), save := (save r)(i := -1)\<rparr>) = ?h(i := -1, 3 + i := -1)"
    using assms(2) by (auto simp: slots_def fun_eq_iff)
  ultimately show ?thesis using c2 std i by simp
qed

lemma upto_REDIRSZ: "[0 ..< PSH_REDIRSZ] = [0, 1, 2]"
  by (simp add: PSH_REDIRSZ_def upt_rec)

lemma cleanup_ok:
  assumes h: "holds t0 t (slots r)"
  obtains r' where "psh_redirCleanup t r = (\<lambda>fd. if fd < 3 then t fd else t0 fd, r')" "\<forall>k < 6. slots r' k = -1"
proof -
  obtain t1 r1 where 1: "cleanup_one 0 (t, r) = (t1, r1)" by (cases "cleanup_one 0 (t, r)") auto
  obtain t2 r2 where 2: "cleanup_one 1 (t1, r1) = (t2, r2)" by (cases "cleanup_one 1 (t1, r1)") auto
  obtain t3 r3 where 3: "cleanup_one 2 (t2, r2) = (t3, r3)" by (cases "cleanup_one 2 (t2, r2)") auto
  have a: "holds t0 t1 (slots r1)" "slots r1 = (slots r)(0 := -1, 3 := -1)" "\<forall>j < 3. t1 j = t j"
    using cleanup_one_ok [OF h, of 0] 1 by (simp_all add: fun_eq_iff)
  have b: "holds t0 t2 (slots r2)" "slots r2 = (slots r1)(1 := -1, 4 := -1)" "\<forall>j < 3. t2 j = t1 j"
    using cleanup_one_ok [OF a(1), of 1] 2 by (simp_all add: fun_eq_iff)
  have c: "holds t0 t3 (slots r3)" "slots r3 = (slots r2)(2 := -1, 5 := -1)" "\<forall>j < 3. t3 j = t2 j"
    using cleanup_one_ok [OF b(1), of 2] 3 by (simp_all add: fun_eq_iff)
  have slots: "slots r3 k = -1" if "k < 6" for k
  proof -
    have "k = 0 \<or> k = 1 \<or> k = 2 \<or> k = 3 \<or> k = 4 \<or> k = 5" using that by arith
    then show ?thesis by (auto simp: a(2) b(2) c(2))
  qed
  have "t3 fd = t0 fd" if "3 \<le> fd" for fd using holdsD(3) [OF c(1) that] slots by simp
  then have "t3 = (\<lambda>fd. if fd < 3 then t fd else t0 fd)" using a(3) b(3) c(3) by (auto simp: fun_eq_iff)
  moreover have "psh_redirCleanup t r = (t3, r3)" by (simp add: psh_redirCleanup_def upto_REDIRSZ 1 2 [simplified] 3)
  ultimately show thesis using slots that by simp
qed

section \<open>Parsing keeps the table\<close>

lemma fd_lowest_free: "fd_lowest nfd t = Some fd \<Longrightarrow> t fd = None \<and> fd < nfd"
  by (auto simp: fd_lowest_def find_Some_iff)

lemma fd_alloc_cases:
  obtains (fail) "fd_alloc nfd t d = (t, -1)"
  | (ok) f fd where "d = Some f" "fd_alloc nfd t d = (t(fd \<mapsto> f), int fd)" "t fd = None" "fd < nfd"
  using fd_lowest_free [of nfd t]
  by (cases d; cases "fd_lowest nfd t") (auto simp: fd_alloc_def)

text \<open>The standard streams are open, so a free descriptor is above them.\<close>

abbreviation std_open :: "'f fdtab \<Rightarrow> bool" where "std_open t \<equiv> \<forall>j < 3. t j \<noteq> None"

lemma std_free: "std_open t \<Longrightarrow> t fd = None \<Longrightarrow> 3 \<le> fd"
  by (meson not_less)

lemma set_red_ok:
  assumes h: "holds t0 t (slots r)" and i: "i < 3" and fd: "t fd = None" "3 \<le> fd"
    and st: "set_red i (int fd) (t(fd \<mapsto> f)) r = (t', r')"
  shows "holds t0 t' (slots r')" "\<forall>j < 3. t' j = t j" "r' = r\<lparr>red := (red r)(i := int fd)\<rparr>" "t' fd = Some f"
    "\<And>k. k < 6 \<Longrightarrow> k \<noteq> i \<Longrightarrow> 0 \<le> slots r k \<Longrightarrow> t' (nat (slots r k)) = t (nat (slots r k))"
proof -
  let ?o = "slots r i"
  have i6: "i < 6" using i by simp
  have ne: "?o \<noteq> int fd" using fresh_fd(1) [OF h fd] i6 by auto
  have old: "?o = -1 \<or> 3 \<le> ?o" using holdsD(1) [OF h i6] by auto
  have eq: "(if red r i \<ge> 0 then sys_close (t(fd \<mapsto> f)) (red r i) else t(fd \<mapsto> f)) = (sys_close t ?o)(fd \<mapsto> f)"
    using ne old slots_at(1) [OF i, of r] by (auto simp: sys_close_def fun_upd_twist)
  then have t': "t' = (sys_close t ?o)(fd \<mapsto> f)" and r': "r' = r\<lparr>red := (red r)(i := int fd)\<rparr>"
    using st by (simp_all add: set_red_def)
  have "sys_close t ?o fd = None" using fd(1) by (simp add: sys_close_def)
  then have "holds t0 t' ((slots r)(i := -1, i := int fd))"
    unfolding t' by (intro hold_new hold_close h i6 fd(2)) simp_all
  then show "holds t0 t' (slots r')" using i by (simp add: r')
  show "r' = r\<lparr>red := (red r)(i := int fd)\<rparr>" by (rule r')
  show "\<forall>j < 3. t' j = t j" using old fd(2) by (auto simp: t' sys_close_def)
  show "t' fd = Some f" by (simp add: t')
  fix k :: nat assume k: "k < 6" "k \<noteq> i" "0 \<le> slots r k"
  then have "slots r k \<noteq> ?o" "slots r k \<noteq> int fd"
    using holdsD(2) [OF h k(1) i6] fresh_fd(1) [OF h fd] by auto
  then show "t' (nat (slots r k)) = t (nat (slots r k))"
    using k(3) old by (auto simp: t' sys_close_def eq_nat_nat_iff)
qed

text \<open>The streams a marker redirects, and the descriptions that the slots stand for.\<close>

definition marks :: "marker \<Rightarrow> nat \<Rightarrow> bool" where
  "marks mk i = (case mk of M_IN \<Rightarrow> i = 0 | M_OUT \<Rightarrow> i = 1 | M_ERR \<Rightarrow> i = 2 | M_BOTH \<Rightarrow> i = 1 \<or> i = 2)"

definition targets :: "'f fdtab \<Rightarrow> psh_redir \<Rightarrow> nat \<Rightarrow> 'f option" where
  "targets t r i = (if i < 3 \<and> red r i \<ge> 0 then t (nat (red r i)) else None)"

definition retarget :: "marker \<Rightarrow> 'f \<Rightarrow> (nat \<Rightarrow> 'f option) \<Rightarrow> nat \<Rightarrow> 'f option" where
  "retarget mk f g i = (if marks mk i then Some f else g i)"

abbreviation agree3 :: "(nat \<Rightarrow> 'a) \<Rightarrow> (nat \<Rightarrow> 'a) \<Rightarrow> bool" where
  "agree3 f g \<equiv> \<forall>i < 3. f i = g i"

lemma set_red_targets:
  assumes h: "holds t0 t (slots r)" and i: "i < 3" and fd: "t fd = None" "3 \<le> fd"
    and st: "set_red i (int fd) (t(fd \<mapsto> f)) r = (t', r')"
  shows "agree3 (targets t' r') ((targets t r)(i := Some f))"
proof (intro allI impI)
  fix j :: nat assume j: "j < 3"
  note S = set_red_ok [OF h i fd st]
  show "targets t' r' j = ((targets t r)(i := Some f)) j"
  proof (cases "j = i")
    case True
    then show ?thesis using S(3,4) i by (simp add: targets_def)
  next
    case False
    then show ?thesis using S(5) [of j] j S(3) by (simp add: targets_def slots_at(1))
  qed
qed

lemma apply_marker_ok:
  assumes h: "holds t0 t (slots r)" and fd: "t fd = None" "3 \<le> fd"
    and st: "apply_marker nfd mk (int fd) (t(fd \<mapsto> f)) r = ((t', r'), ok)" and std: "std_open t"
    and sv: "\<forall>i < 3. save r i = -1"
  shows "holds t0 t' (slots r')" "\<forall>j < 3. t' j = t j" "\<forall>i < 3. save r' i = -1"
    "ok \<Longrightarrow> agree3 (targets t' r') (retarget mk f (targets t r))"
proof -
  have single: "holds t0 t' (slots r') \<and> (\<forall>j < 3. t' j = t j) \<and> (\<forall>i < 3. save r' i = -1)
      \<and> agree3 (targets t' r') ((targets t r)(i := Some f))"
    if "set_red i (int fd) (t(fd \<mapsto> f)) r = (t', r')" "i < 3" for i
    using set_red_ok [OF h that(2) fd that(1)] set_red_targets [OF h that(2) fd that(1)] sv by simp
  have "holds t0 t' (slots r') \<and> (\<forall>j < 3. t' j = t j) \<and> (\<forall>i < 3. save r' i = -1) \<and>
    (ok \<longrightarrow> agree3 (targets t' r') (retarget mk f (targets t r)))"
  proof (cases "mk = M_BOTH")
    case False
    then show ?thesis
      using single [of 0] single [of 1] single [of 2] st
      by (cases mk) (auto simp: apply_marker_def retarget_def marks_def)
  next
    case True
    obtain t1 r1 where 1: "set_red 1 (int fd) (t(fd \<mapsto> f)) r = (t1, r1)"
      by (cases "set_red 1 (int fd) (t(fd \<mapsto> f)) r") auto
    note S = set_red_ok [OF h _ fd 1, simplified] and T = set_red_targets [OF h _ fd 1, simplified]
    have s2: "slots r1 2 = red r1 2" by (simp add: slots_def)
    define t2 where "t2 = sys_close t1 (red r1 2)"
    have t2: "(if red r1 2 \<ge> 0 then sys_close t1 (red r1 2) else t1) = t2"
      by (simp add: t2_def sys_close_def)
    have old: "red r1 2 = -1 \<or> 3 \<le> red r1 2" using holdsD(1) [OF S(1), of 2] s2 by auto
    have H2: "holds t0 t2 ((slots r1)(2 := -1))" using hold_close [OF S(1), of 2] s2 by (simp add: t2_def)
    have std2: "\<forall>j < 3. t2 j = t j" using S(2) old by (auto simp: t2_def sys_close_def)
    have ne: "red r1 2 \<noteq> int fd" using fresh_fd(1) [OF h fd, rule_format, of 2] S(3) by (simp add: slots_def)
    then have fd2: "t2 fd = Some f" using S(4) old by (auto simp: t2_def sys_close_def)
    have keep: "i < 3 \<Longrightarrow> i \<noteq> 2 \<Longrightarrow> 0 \<le> red r1 i \<Longrightarrow> t2 (nat (red r1 i)) = t1 (nat (red r1 i))" for i
      using holdsD(2) [OF S(1), of i 2] s2 old by (auto simp: t2_def sys_close_def slots_at(1) eq_nat_nat_iff)
    obtain t3 d where dup: "sys_dup nfd t2 (int fd) = (t3, d)" by (cases "sys_dup nfd t2 (int fd)") auto
    have res: "t' = t3" "r' = r1\<lparr>red := (red r1)(2 := d)\<rparr>" "ok = (d \<ge> 0)"
      using st True by (simp_all add: apply_marker_def 1 [simplified] t2 dup)
    have sl: "slots r' = (slots r1)(2 := -1, 2 := d)" by (simp add: res(2))
    show ?thesis
      using fd_alloc_cases [of nfd t2 "t2 fd"]
    proof cases
      case fail
      then have d: "t3 = t2" "d = -1" using dup by (simp_all add: sys_dup_def)
      have "holds t0 t3 (slots r')" unfolding sl d using H2 by simp
      then show ?thesis using std2 S(3) sv d by (simp add: res(1,3)) (simp add: res(2))
    next
      case (ok f' e)
      then have d: "t3 = t2(e \<mapsto> f)" "d = int e" "t2 e = None" using dup fd2 by (simp_all add: sys_dup_def)
      have e3: "3 \<le> e" using std std2 d(3) by (metis not_less)
      have "holds t0 t3 (slots r')" unfolding d(1) sl d(2) by (rule hold_new [OF H2 _ d(3) e3]) simp_all
      moreover have "e \<noteq> fd" using d(3) fd2 by auto
      moreover have "agree3 (targets t3 r') (retarget M_BOTH f (targets t r))"
      proof (intro allI impI)
        fix i :: nat assume i: "i < 3"
        have "i \<noteq> 2 \<Longrightarrow> 0 \<le> red r1 i \<Longrightarrow> t3 (nat (red r1 i)) = t1 (nat (red r1 i))"
          using keep [OF i] fresh_fd(1) [OF H2 d(3) e3, rule_format, of i] i by (auto simp: d(1) slots_at(1))
        then show "targets t3 r' i = retarget M_BOTH f (targets t r) i"
          using T [rule_format, OF i] i
          by (cases "i = 2") (auto simp: targets_def retarget_def marks_def res(2) d split: if_splits)
      qed
      ultimately show ?thesis using std2 e3 S(3) sv True by (simp add: res d)
    qed
  qed
  then show "holds t0 t' (slots r')" "\<forall>j < 3. t' j = t j" "\<forall>i < 3. save r' i = -1"
    "ok \<Longrightarrow> agree3 (targets t' r') (retarget mk f (targets t r))" by auto
qed

section \<open>What parsing computes\<close>

text \<open>
  The abstract meaning of an argument vector: the arguments without the redirections and, for each
  stream, the description of its last redirection; an error when a path is missing or cannot be
  opened.
\<close>

fun redir_spec ::
  "(string \<Rightarrow> nat \<Rightarrow> 'f option) \<Rightarrow> string list \<Rightarrow> (nat \<Rightarrow> 'f option) \<Rightarrow> int + string list \<times> (nat \<Rightarrow> 'f option)"
where
  "redir_spec opn [] g = Inr ([], g)"
| "redir_spec opn (w # ws) g = (case redir_classify w of
     None \<Rightarrow> (case redir_spec opn ws g of Inl e \<Rightarrow> Inl e | Inr (args, g') \<Rightarrow> Inr (w # args, g'))
   | Some (mk, flags, rest) \<Rightarrow>
       if rest = [] then
         (case ws of
            [] \<Rightarrow> Inl (- EINVAL)
          | p # ws' \<Rightarrow> (case opn p flags of None \<Rightarrow> Inl (- ENOENT)
              | Some f \<Rightarrow> redir_spec opn ws' (retarget mk f g)))
       else (case opn rest flags of None \<Rightarrow> Inl (- ENOENT) | Some f \<Rightarrow> redir_spec opn ws (retarget mk f g)))"

lemma targets_eqI: "agree3 (targets t' r') (retarget mk f (targets t r)) \<Longrightarrow> targets t' r' = retarget mk f (targets t r)"
proof
  fix i assume a: "agree3 (targets t' r') (retarget mk f (targets t r))"
  show "targets t' r' i = retarget mk f (targets t r) i"
  proof (cases "i < 3")
    case False
    then have "\<not> marks mk i" by (cases mk) (auto simp: marks_def)
    then show ?thesis using False by (simp add: targets_def retarget_def)
  qed (use a in simp)
qed

text \<open>The invariant of the parsing loop.\<close>

definition parsing :: "'f fdtab \<Rightarrow> 'f fdtab \<Rightarrow> psh_redir \<Rightarrow> bool" where
  "parsing t0 t r \<longleftrightarrow> holds t0 t (slots r) \<and> (\<forall>j < 3. t j = t0 j) \<and> (\<forall>i < 3. save r i = -1)"

lemma parsing_cleanup:
  assumes "parsing t0 t r"
  obtains r' where "psh_redirCleanup t r = (t0, r')" "\<forall>k < 6. slots r' k = -1"
proof -
  obtain r' where r': "psh_redirCleanup t r = (\<lambda>fd. if fd < 3 then t fd else t0 fd, r')" "\<forall>k < 6. slots r' k = -1"
    using assms cleanup_ok [of t0 t r] by (auto simp: parsing_def)
  moreover have "(\<lambda>fd. if fd < 3 then t fd else t0 fd) = t0" using assms by (auto simp: parsing_def)
  ultimately show thesis using that by simp
qed

lemma parsing_open:
  assumes p: "parsing t0 t r" and std: "std_open t0" and o: "sys_open opn nfd t path flags = (t1, fd)"
  shows "fd < 0 \<and> t1 = t \<or> (\<exists>f. opn path flags = Some f \<and> \<not> fd < 0 \<and>
    (\<forall>t2 r2 ok. apply_marker nfd mk fd t1 r = ((t2, r2), ok) \<longrightarrow>
       parsing t0 t2 r2 \<and> (ok \<longrightarrow> targets t2 r2 = retarget mk f (targets t r))))"
  using fd_alloc_cases [of nfd t "opn path flags"]
proof cases
  case fail
  then show ?thesis using o by (simp add: sys_open_def)
next
  case (ok f d)
  have h: "holds t0 t (slots r)" "std_open t" "\<forall>i < 3. save r i = -1" using p std by (auto simp: parsing_def)
  have d3: "3 \<le> d" using std_free [OF h(2) ok(3)] .
  have t1: "t1 = t(d \<mapsto> f)" "fd = int d" using o ok(2) by (simp_all add: sys_open_def)
  have "parsing t0 t2 r2 \<and> (b \<longrightarrow> targets t2 r2 = retarget mk f (targets t r))"
    if "apply_marker nfd mk fd t1 r = ((t2, r2), b)" for t2 r2 b
  proof -
    note A = apply_marker_ok [OF h(1) ok(3) d3 that [unfolded t1] h(2,3)]
    show ?thesis using A(1-3) targets_eqI [OF A(4)] p by (auto simp: parsing_def)
  qed
  then show ?thesis using ok(1) by (simp add: t1)
qed

lemma parse_loop_ok:
  assumes std: "std_open t0"
  shows "parsing t0 t r \<Longrightarrow> parseRedirections_loop opn nfd t r acc ws = (t', r', argv, err) \<Longrightarrow>
    (err < 0 \<and> t' = t0 \<and> (\<forall>k < 6. slots r' k = -1)) \<or>
    (err = 0 \<and> parsing t0 t' r' \<and> (\<exists>args. redir_spec opn ws (targets t r) = Inr (args, targets t' r') \<and> argv = acc @ args))"
proof (induction ws arbitrary: t r acc rule: length_induct)
  case (1 ws)
  note p = 1(2) and loop = 1(3)
  show ?case
  proof (cases ws)
    case Nil
    then show ?thesis using p loop by simp
  next
    case (Cons w us)
    show ?thesis
    proof (cases "redir_classify w")
      case None
      then show ?thesis
        using 1(1) [rule_format, of us t r "acc @ [w]"] p loop Cons by auto
    next
      case (Some x)
      obtain mk flags rest where x: "x = (mk, flags, rest)" by (cases x) auto
      obtain rc where clean: "psh_redirCleanup t r = (t0, rc)" "\<forall>k < 6. slots rc k = -1"
        by (rule parsing_cleanup [OF p])
      define path where "path = (if rest = [] then hd us else rest)"
      define vs where "vs = (if rest = [] then tl us else us)"
      obtain t1 fd where o: "sys_open opn nfd t path flags = (t1, fd)" by (cases "sys_open opn nfd t path flags") auto
      obtain t2 r2 ok where a: "apply_marker nfd mk fd t1 r = ((t2, r2), ok)"
        by (cases "apply_marker nfd mk fd t1 r") auto
      have eq: "parseRedirections_loop opn nfd t r acc ws =
         (if rest = [] \<and> us = [] then (t0, rc, acc @ w # us, - EINVAL)
          else if fd < 0 then (let (t', r') = psh_redirCleanup t1 r in (t', r', acc @ w # us, - ENOENT))
          else if \<not> ok then (let (t', r') = psh_redirCleanup t2 r2 in (t', r', acc @ vs, - EMFILE))
          else parseRedirections_loop opn nfd t2 r2 acc vs)"
        using Some x o a clean by (simp add: Cons path_def [symmetric] vs_def)
      have spec: "redir_spec opn ws g = (if rest = [] \<and> us = [] then Inl (- EINVAL)
          else case opn path flags of None \<Rightarrow> Inl (- ENOENT) | Some f \<Rightarrow> redir_spec opn vs (retarget mk f g))" for g
        using Some x by (cases us) (simp_all add: Cons path_def vs_def split: option.split)
      note op = parsing_open [OF p std o, of mk]
      show ?thesis
      proof (cases "rest = [] \<and> us = []")
        case True
        then show ?thesis using eq loop clean by simp
      next
        case nonempty: False
        note loop' = loop [unfolded eq if_not_P [OF nonempty]] and spec' = spec [unfolded if_not_P [OF nonempty]]
        show ?thesis
        proof (cases "fd < 0")
          case True
          then have "t1 = t" using op by auto
          then show ?thesis using True loop' clean by simp
        next
          case fd: False
          obtain f where f: "opn path flags = Some f" "parsing t0 t2 r2"
              "ok \<Longrightarrow> targets t2 r2 = retarget mk f (targets t r)"
            using op fd a by auto
          obtain rc2 where clean2: "psh_redirCleanup t2 r2 = (t0, rc2)" "\<forall>k < 6. slots rc2 k = -1"
            by (rule parsing_cleanup [OF f(2)])
          have "length vs < length ws" by (cases us) (simp_all add: Cons vs_def)
          then show ?thesis
            using 1(1) [rule_format, of vs t2 r2 acc] f fd loop' clean2 spec'
            by (cases ok) simp_all
        qed
      qed
    qed
  qed
qed

section \<open>Redirecting and restoring\<close>

text \<open>A stream is either as it was or its description is kept in its save slot.\<close>

definition streams :: "'f fdtab \<Rightarrow> 'f fdtab \<Rightarrow> psh_redir \<Rightarrow> bool" where
  "streams t0 t r \<longleftrightarrow> holds t0 t (slots r) \<and> std_open t \<and>
     (\<forall>i < 3. if save r i = -1 then t i = t0 i else t (nat (save r i)) = t0 i)"

lemma slot_cases:
  assumes "holds t0 t (slots r)" "i < 3"
  shows "red r i = -1 \<or> 3 \<le> red r i \<and> t (nat (red r i)) \<noteq> None"
    "save r i = -1 \<or> 3 \<le> save r i \<and> t (nat (save r i)) \<noteq> None"
  using holdsD(1) [OF assms(1), of i] holdsD(1) [OF assms(1), of "3 + i"] assms(2) slots_at [OF assms(2), of r] by auto

lemma slot_distinct:
  assumes h: "holds t0 t (slots r)" and i: "i < 3" and j: "j < 3"
  shows "red r i = save r j \<Longrightarrow> red r i = -1" "i \<noteq> j \<Longrightarrow> save r i = save r j \<Longrightarrow> save r i = -1"
    "i \<noteq> j \<Longrightarrow> red r i = red r j \<Longrightarrow> red r i = -1"
proof -
  have b: "i < 6" "j < 6" "3 + i < 6" "3 + j < 6" using i j by simp_all
  note at = slots_at [OF i, of r] slots_at [OF j, of r]
  show "red r i = save r j \<Longrightarrow> red r i = -1"
    using holdsD(2) [OF h b(1) b(4)] i unfolding at by simp
  show "i \<noteq> j \<Longrightarrow> save r i = save r j \<Longrightarrow> save r i = -1"
    using holdsD(2) [OF h b(3) b(4)] unfolding at by simp
  show "i \<noteq> j \<Longrightarrow> red r i = red r j \<Longrightarrow> red r i = -1"
    using holdsD(2) [OF h b(1) b(2)] unfolding at by simp
qed

lemma redirect_one_ok:
  assumes s: "streams t0 t r" and std: "std_open t0" and i: "i < 3" and sv: "save r i = -1"
    and one: "redirect_one nfd i (t, r, err) = ((t', r', err'), brk)"
  shows "streams t0 t' r' \<and> (\<forall>j < 3. j \<noteq> i \<longrightarrow> t' j = t j \<and> red r' j = red r j \<and> save r' j = save r j
      \<and> (0 \<le> red r j \<longrightarrow> t' (nat (red r j)) = t (nat (red r j))))
    \<and> (if brk then err' = -1 else err' = err \<and> t' i = (if red r i \<ge> 0 then t (nat (red r i)) else t i)
      \<and> (save r' i = -1 \<longleftrightarrow> red r i < 0))"
proof (cases "red r i \<ge> 0")
  case False
  then show ?thesis using one s sv by (auto simp: redirect_one_def)
next
  case True
  have h: "holds t0 t (slots r)" and ti: "t i = t0 i" and std': "std_open t"
    using s i sv by (auto simp: streams_def)
  obtain x where x: "t i = Some x" using std i ti by auto
  have red: "3 \<le> red r i" "t (nat (red r i)) \<noteq> None" using slot_cases(1) [OF h i] True by auto
  have i6: "i < 6" "3 + i < 6" using i by auto
  have sne: "save r j \<noteq> -1 \<Longrightarrow> 3 \<le> save r j \<and> nat (save r j) \<noteq> nat (red r i) \<and> t (nat (save r j)) \<noteq> None"
    if "j < 3" for j
    using slot_distinct(1) [OF h i that] slot_cases(2) [OF h that] red(1) by (auto simp: eq_nat_nat_iff)
  have rne: "0 \<le> red r j \<Longrightarrow> 3 \<le> red r j \<and> nat (red r j) \<noteq> nat (red r i) \<and> t (nat (red r j)) \<noteq> None"
    if "j < 3" "j \<noteq> i" for j
    using slot_distinct(3) [OF h that(1) i that(2)] slot_cases(1) [OF h that(1)] red(1) by (auto simp: eq_nat_nat_iff)
  show ?thesis
    using fd_alloc_cases [of nfd t "t i"]
  proof cases
    case fail
    then have eq: "t' = t(nat (red r i) := None)" "r' = r\<lparr>red := (red r)(i := -1)\<rparr>" "err' = -1" "brk"
      using one True sv by (auto simp: redirect_one_def sys_dup_def sys_close_def)
    have "holds t0 t' (slots r')"
      using hold_close [OF h i6(1)] i slots_at(1) [OF i, of r] True by (simp add: eq sys_close_def)
    moreover have "t' j = t j" if "j < 3" for j using that red(1) by (auto simp: eq)
    ultimately show ?thesis using s sne rne std' by (auto simp: streams_def eq)
  next
    case (ok y e)
    have e3: "3 \<le> e" using std_free [OF std' ok(3)] .
    have ne: "red r i \<noteq> int e" "nat (red r i) \<noteq> e" using red(2) ok(3) True by auto
    have eq: "t' = ((t(e \<mapsto> x))(i := t (nat (red r i))))(nat (red r i) := None)"
      "r' = r\<lparr>save := (save r)(i := int e), red := (red r)(i := -1)\<rparr>" "err' = err" "\<not> brk"
      using one True sv ok x red ne i by (auto simp: redirect_one_def sys_dup_def sys_dup2_def sys_close_def)
    have "holds t0 (t(e \<mapsto> x)) ((slots r)(3 + i := int e))"
      using hold_new [OF h i6(2) ok(3) e3] sv slots_at(2) [OF i, of r] by simp
    then have "holds t0 ((t(e \<mapsto> x))(i := t (nat (red r i)))) ((slots r)(3 + i := int e))" by (rule hold_std [OF _ i])
    moreover have sl: "slots r' = (slots r)(3 + i := int e, i := -1)" using i by (auto simp: eq(2) slots_def fun_eq_iff)
    ultimately have H: "holds t0 t' (slots r')"
      using hold_close [OF _ i6(1), of t0 _ "(slots r)(3 + i := int e)"] slots_at(1) [OF i, of r] True
      by (simp add: eq(1) sl sys_close_def)
    have std3: "t' j = t j" if "j < 3" "j \<noteq> i" for j using that red(1) e3 by (auto simp: eq)
    have ti': "t' i = t (nat (red r i))" using red(1) i by (auto simp: eq)
    have sve: "t' e = t0 i" using ne e3 i x ti by (auto simp: eq)
    have svj: "t' (nat (save r j)) = t (nat (save r j))" if "j < 3" "j \<noteq> i" "save r j \<noteq> -1" for j
      using sne [OF that(1,3)] ok(3) i by (auto simp: eq)
    have rdj: "t' (nat (red r j)) = t (nat (red r j))" if "j < 3" "j \<noteq> i" "0 \<le> red r j" for j
      using rne [OF that] ok(3) i by (auto simp: eq)
    have "t' j \<noteq> None" if "j < 3" for j using std3 [OF that] std' that ti' red(2) by (cases "j = i") auto
    then have "streams t0 t' r'"
      using H s std3 sve svj i unfolding streams_def by (auto simp: eq(2))
    then show ?thesis using std3 rdj ti' True eq(2-4) by simp
  qed
qed

lemma redirect_all:
  assumes s: "streams t0 t r" and std: "std_open t0" and sv: "\<forall>i < 3. save r i = -1"
    and loop: "redirect_loop nfd [0, 1, 2] (t, r, 0) = (t', r', err)"
  shows "streams t0 t' r'" "err = 0 \<Longrightarrow> \<forall>i < 3. t' i = (if red r i \<ge> 0 then t (nat (red r i)) else t i)"
    "err = 0 \<Longrightarrow> \<forall>i < 3. save r' i = -1 \<longleftrightarrow> red r i < 0"
proof -
  obtain t1 r1 e1 b1 where 1: "redirect_one nfd 0 (t, r, 0) = ((t1, r1, e1), b1)"
    by (metis prod_cases3 surj_pair)
  obtain t2 r2 e2 b2 where 2: "redirect_one nfd 1 (t1, r1, e1) = ((t2, r2, e2), b2)"
    by (metis prod_cases3 surj_pair)
  obtain t3 r3 e3 b3 where 3: "redirect_one nfd 2 (t2, r2, e2) = ((t3, r3, e3), b3)"
    by (metis prod_cases3 surj_pair)
  note A = redirect_one_ok [OF s std _ _ 1]
  have sv1: "save r1 1 = -1" "save r1 2 = -1" using A sv by auto
  note B = redirect_one_ok [OF _ std _ _ 2]
  have sv2: "save r2 2 = -1" using A B sv sv1 by auto
  note C = redirect_one_ok [OF _ std _ _ 3]
  have res: "(t', r', err) = (if b1 then (t1, r1, e1) else if b2 then (t2, r2, e2) else (t3, r3, e3))"
    using loop 1 2 [simplified] 3 by (simp split: if_splits)
  have sA: "streams t0 t1 r1" using A sv by simp
  have sB: "streams t0 t2 r2" using B sA sv1 by simp
  have sC: "streams t0 t3 r3" using C sB sv2 by simp
  show "streams t0 t' r'" using res sA sB sC by (auto split: if_splits)
  assume "err = 0"
  then have "\<not> b1" "\<not> b2" "\<not> b3" "t' = t3" "r' = r3"
    using res A B C sv sv1 sv2 sA sB by (auto split: if_splits)
  then show "\<forall>i < 3. t' i = (if red r i \<ge> 0 then t (nat (red r i)) else t i)"
    "\<forall>i < 3. save r' i = -1 \<longleftrightarrow> red r i < 0"
    using A B C sv sv1 sv2 sA sB by (auto simp: numeral_3_eq_3 less_Suc_eq numeral_2_eq_2)
qed

lemma restore_one_ok:
  assumes s: "streams t0 t r" and std: "std_open t0" and i: "i < 3"
  shows "case restore_one i (t, r, err) of (t', r', err') \<Rightarrow>
    streams t0 t' r' \<and> err' = err \<and> save r' = (save r)(i := -1)"
proof (cases "save r i \<ge> 0")
  case False
  then have "save r i = -1" using s i slot_cases(2) [of t0 t r i] by (auto simp: streams_def)
  then show ?thesis using False s by (simp add: restore_one_def fun_upd_idem)
next
  case True
  have h: "holds t0 t (slots r)" and std': "std_open t" and t: "t (nat (save r i)) = t0 i"
    using s i True by (auto simp: streams_def)
  have sv: "3 \<le> save r i" "t (nat (save r i)) \<noteq> None" using slot_cases(2) [OF h i] True by auto
  have i6: "3 + i < 6" using i by simp
  define t' where "t' = (t(i := t0 i))(nat (save r i) := None)"
  have eq: "restore_one i (t, r, err) = (t', r\<lparr>save := (save r)(i := -1)\<rparr>, err)"
    using True sv t by (auto simp: restore_one_def sys_dup2_def sys_close_def t'_def)
  have "holds t0 t' (slots (r\<lparr>save := (save r)(i := -1)\<rparr>))"
    using hold_close [OF hold_std [OF h i] i6, of "t0 i"] i slots_at(2) [OF i, of r] True
    by (simp add: t'_def sys_close_def)
  moreover have "t' j = (if j = i then t0 i else t j)" if "j < 3" for j using that sv(1) by (auto simp: t'_def)
  moreover have "t' (nat (save r j)) = t (nat (save r j))" if "j < 3" "j \<noteq> i" "save r j \<noteq> -1" for j
    using slot_distinct(2) [OF h that(1) i that(2)] slot_cases(2) [OF h that(1)] that(3) sv(1) i
    by (auto simp: t'_def eq_nat_nat_iff)
  ultimately show ?thesis using s std std' i by (auto simp: eq streams_def)
qed

lemma restore_ok:
  assumes s: "streams t0 t r" and std: "std_open t0"
  obtains r' where "psh_streamRestore t r = (t0, r', 0)" "\<forall>k < 6. slots r' k = -1"
proof -
  obtain t1 r1 e1 where 1: "restore_one 0 (t, r, 0) = (t1, r1, e1)" by (metis prod_cases3)
  obtain t2 r2 e2 where 2: "restore_one 1 (t1, r1, e1) = (t2, r2, e2)" by (metis prod_cases3)
  obtain t3 r3 e3 where 3: "restore_one 2 (t2, r2, e2) = (t3, r3, e3)" by (metis prod_cases3)
  have A: "streams t0 t1 r1" "e1 = 0" "save r1 = (save r)(0 := -1)" using restore_one_ok [OF s std, of 0 0] 1 by simp_all
  have B: "streams t0 t2 r2" "e2 = 0" "save r2 = (save r1)(1 := -1)"
    using restore_one_ok [OF A(1) std, of 1 e1] 2 A(2) by simp_all
  have C: "streams t0 t3 r3" "e3 = 0" "save r3 = (save r2)(2 := -1)"
    using restore_one_ok [OF B(1) std, of 2 e2] 3 B(2) by simp_all
  have "save r3 i = -1" if "i < 3" for i
    using that C(3) B(3) A(3) by (auto simp: numeral_3_eq_3 less_Suc_eq numeral_2_eq_2)
  then have "\<forall>j < 3. t3 j = t0 j" using C(1) by (auto simp: streams_def)
  then have eq: "(\<lambda>fd. if fd < 3 then t3 fd else t0 fd) = t0" by auto
  obtain r' where "psh_redirCleanup t3 r3 = (t0, r')" "\<forall>k < 6. slots r' k = -1"
    using cleanup_ok [of t0 t3 r3] C(1) unfolding eq by (auto simp: streams_def)
  then show thesis using that 1 2 [simplified] 3 C(2) by (simp add: psh_streamRestore_def upto_REDIRSZ)
qed

lemma parsing_streams:
  assumes "parsing t0 t r" "std_open t0"
  shows "streams t0 t r"
  using assms by (auto simp: parsing_def streams_def)

lemma redir_none_parsing: "parsing t t redir_none" "targets t redir_none = (\<lambda>_. None)"
proof -
  have "slots redir_none = (\<lambda>_. -1)" by (auto simp: slots_def redir_none_def fun_eq_iff)
  then show "parsing t t redir_none" using holds_none [of t] by (simp add: parsing_def) (simp add: redir_none_def)
  show "targets t redir_none = (\<lambda>_. None)" by (simp add: targets_def redir_none_def fun_eq_iff)
qed

text \<open>
  From the arguments to the redirected streams: what the table and the \<open>psh_redir\<close> are when the applet starts.
\<close>

lemma redirections_start:
  assumes std: "std_open t" and p: "psh_parseRedirections opn nfd t argv = (t1, r1, argv', err)" and err: "\<not> err < 0"
    and d: "psh_streamRedirect nfd t1 r1 = (t2, r2, rc)"
  shows "parsing t t1 r1" "redir_spec opn argv (\<lambda>_. None) = Inr (argv', targets t1 r1)" "streams t t2 r2"
    "rc = 0 \<Longrightarrow> \<forall>i < 3. t2 i = (case targets t1 r1 i of Some f \<Rightarrow> Some f | None \<Rightarrow> t i)"
    "rc = 0 \<Longrightarrow> \<forall>i < 3. save r2 i = -1 \<longleftrightarrow> targets t1 r1 i = None"
proof -
  show ps: "parsing t t1 r1" and "redir_spec opn argv (\<lambda>_. None) = Inr (argv', targets t1 r1)"
    using parse_loop_ok [OF std redir_none_parsing(1) p [unfolded psh_parseRedirections_def]] err
    by (auto simp: redir_none_parsing(2))
  have s: "streams t t1 r1" by (rule parsing_streams [OF ps std])
  have sv: "\<forall>i < 3. save r1 i = -1" "\<forall>j < 3. t1 j = t j" using ps by (auto simp: parsing_def)
  obtain e where loop: "redirect_loop nfd [0, 1, 2] (t1, r1\<lparr>save := \<lambda>_. -1\<rparr>, 0) = (t2, r2, e)" "rc = 0 \<Longrightarrow> e = 0"
    using d by (auto simp: psh_streamRedirect_def upto_REDIRSZ split: prod.splits if_splits)
  have "slots r1 k = slots (r1\<lparr>save := \<lambda>_. -1\<rparr>) k" if "k < 6" for k using sv(1) that by (auto simp: slots_def)
  then have "holds t t1 (slots (r1\<lparr>save := \<lambda>_. -1\<rparr>))" using s holds_cong [of "slots r1"] by (auto simp: streams_def)
  then have "streams t t1 (r1\<lparr>save := \<lambda>_. -1\<rparr>)" using s sv(1) std by (simp add: streams_def)
  note R = redirect_all [OF this std _ loop(1), simplified]
  show "streams t t2 r2" by (rule R(1))
  have red: "red r1 i < 0 \<longleftrightarrow> targets t1 r1 i = None" if "i < 3" for i
    using slot_cases(1) [of t t1 r1 i] s that by (auto simp: targets_def streams_def)
  assume "rc = 0"
  note e = loop(2) [OF this]
  have "t2 i = (case targets t1 r1 i of Some f \<Rightarrow> Some f | None \<Rightarrow> t i)" if "i < 3" for i
    using R(2) [OF e] sv(2) red [OF that] that by (auto simp: targets_def split: option.split)
  then show "\<forall>i < 3. t2 i = (case targets t1 r1 i of Some f \<Rightarrow> Some f | None \<Rightarrow> t i)" by blast
  show "\<forall>i < 3. save r2 i = -1 \<longleftrightarrow> targets t1 r1 i = None" using R(3) [OF e] red by simp
qed

lemma redirections_ok:
  assumes std: "\<forall>j < 3. t j \<noteq> None"
  shows "case psh_parseRedirections opn nfd t argv of (t1, r1, argv', err) \<Rightarrow>
    (err < 0 \<and> t1 = t) \<or>
    (err = 0 \<and> (\<exists>g. redir_spec opn argv (\<lambda>_. None) = Inr (argv', g) \<and>
      (case psh_streamRedirect nfd t1 r1 of (t2, r2, rc) \<Rightarrow>
         (rc = 0 \<longrightarrow> (\<forall>i < 3. t2 i = (case g i of Some f \<Rightarrow> Some f | None \<Rightarrow> t i))) \<and>
         (\<exists>r3. psh_streamRestore t2 r2 = (t, r3, 0)))))"
proof -
  obtain t1 r1 argv' err where p: "psh_parseRedirections opn nfd t argv = (t1, r1, argv', err)" by (metis prod_cases4)
  obtain t2 r2 rc where d: "psh_streamRedirect nfd t1 r1 = (t2, r2, rc)" by (metis prod_cases3)
  have cases: "err < 0 \<and> t1 = t \<or> err = 0"
    using parse_loop_ok [OF std redir_none_parsing(1) p [unfolded psh_parseRedirections_def]] by auto
  show ?thesis
  proof (cases "err < 0")
    case False
    note S = redirections_start [OF std p False d]
    obtain r3 where "psh_streamRestore t2 r2 = (t, r3, 0)" using restore_ok [OF S(3) std] by blast
    then show ?thesis using S(2,4) False cases p d by auto
  qed (use p cases in simp)
qed

lemma redirections_fds:
  assumes std: "\<forall>j < 3. t j \<noteq> None" and p: "psh_parseRedirections opn nfd t argv = (t1, r1, argv', err)"
  shows "\<forall>j < 3. t1 j = t j" and "err < 0 \<Longrightarrow> t1 = t" and "err \<le> 0"
  using parse_loop_ok [OF std redir_none_parsing(1) p [unfolded psh_parseRedirections_def]] by (auto simp: parsing_def)

section \<open>Applets that change the table\<close>

text \<open>
  An applet runs between \<open>psh_streamRedirect\<close> and \<open>psh_streamRestore\<close>. When it leaves the descriptors above
  the standard streams alone and the streams open, the streams that were redirected are given back, and one
  that was not stays as the applet left it.
\<close>

lemma restore_after:
  assumes s: "streams t0 t r" and std: "std_open t0" and a: "\<forall>fd \<ge> 3. ta fd = t fd" "std_open ta"
  shows "\<exists>r'. psh_streamRestore ta r = (\<lambda>fd. if fd < 3 \<and> save r fd = -1 then ta fd else t0 fd, r', 0)"
proof -
  let ?t0 = "\<lambda>fd. if fd < 3 \<and> save r fd = -1 then ta fd else t0 fd"
  have h: "holds t0 t (slots r)" using s by (simp add: streams_def)
  have above: "?t0 fd = t0 fd" if "3 \<le> fd" for fd using that by simp
  have "holds ?t0 ta (slots r)"
    unfolding holds_def
  proof (intro conjI allI impI)
    fix k :: nat assume "k < 6"
    then show "slots r k = -1 \<or> 3 \<le> slots r k \<and> ?t0 (nat (slots r k)) = None \<and> ta (nat (slots r k)) \<noteq> None"
      using holdsD(1) [OF h, of k] a(1) by auto
  next
    fix k l :: nat assume "k < 6" "l < 6" "k \<noteq> l" "slots r k = slots r l"
    then show "slots r k = -1" by (rule holdsD(2) [OF h])
  next
    fix fd :: nat assume fd: "3 \<le> fd" "\<forall>k < 6. slots r k \<noteq> int fd"
    then show "ta fd = ?t0 fd" using holdsD(3) [OF h fd] a(1) by simp
  qed
  moreover have "ta (nat (save r i)) = t0 i" if "i < 3" "save r i \<noteq> -1" for i
    using s that slot_cases(2) [OF h that(1)] a(1) by (auto simp: streams_def)
  ultimately have "streams ?t0 ta r" using a(2) by (simp add: streams_def)
  moreover have "std_open ?t0" using std a(2) by simp
  ultimately show ?thesis using restore_ok [of ?t0 ta r] by metis
qed

section \<open>Enough descriptors\<close>

text \<open>
  A redirection holds at most six descriptors; with more than six free ones below the limit none of its calls
  of \<open>open\<close> and \<open>dup\<close> fails for the lack of one.
\<close>

definition fd_room :: "nat \<Rightarrow> 'f fdtab \<Rightarrow> bool" where
  "fd_room nfd t \<longleftrightarrow> 6 < length (filter (\<lambda>fd. t fd = None) [0 ..< nfd])"

lemma room_free:
  assumes room: "fd_room nfd t0" and h: "holds t0 t h" and std: "std_open t0"
  obtains fd where "fd_lowest nfd t = Some fd"
proof (cases "fd_lowest nfd t")
  case None
  then have full: "t fd \<noteq> None" if "fd < nfd" for fd using that by (auto simp: fd_lowest_def find_None_iff)
  let ?F = "set (filter (\<lambda>fd. t0 fd = None) [0 ..< nfd])"
  have "?F \<subseteq> (\<lambda>k. nat (h k)) ` {..< 6}"
  proof
    fix fd assume "fd \<in> ?F"
    then have fd: "fd < nfd" "t0 fd = None" by auto
    then have "\<not> (\<forall>k < 6. h k \<noteq> int fd)" using holdsD(3) [OF h std_free [OF std fd(2)]] full [OF fd(1)] by auto
    then show "fd \<in> (\<lambda>k. nat (h k)) ` {..< 6}" by (metis image_eqI lessThan_iff nat_int)
  qed
  then have "card ?F \<le> card {..< 6 :: nat}" by (meson card_image_le card_mono finite_imageI finite_lessThan le_trans)
  moreover have "card ?F = length (filter (\<lambda>fd. t0 fd = None) [0 ..< nfd])" by (rule distinct_card) simp
  ultimately show thesis using room by (simp add: fd_room_def)
qed (rule that)

lemma room_marker:
  assumes p: "parsing t0 t r" and std: "std_open t0" and room: "fd_room nfd t0"
    and o: "sys_open opn nfd t path flags = (t1, fd)" "opn path flags = Some f"
    and m: "apply_marker nfd mk fd t1 r = ((t2, r2), ok)"
  shows "\<not> fd < 0 \<and> ok"
proof -
  have h: "holds t0 t (slots r)" "std_open t" "\<forall>i < 3. save r i = -1" using p std by (auto simp: parsing_def)
  obtain d where d: "fd_lowest nfd t = Some d" using room_free [OF room h(1) std] by blast
  note free = fd_lowest_free [OF d, THEN conjunct1]
  have t1: "t1 = t(d \<mapsto> f)" "fd = int d" using o d by (simp_all add: sys_open_def fd_alloc_def)
  have d3: "3 \<le> d" by (rule std_free [OF h(2) free])
  have "ok"
  proof (rule ccontr)
    assume no: "\<not> ok"
    then have both: "mk = M_BOTH" using m by (cases mk) (simp_all add: apply_marker_def)
    obtain ta ra where s: "set_red 1 (int d) (t(d \<mapsto> f)) r = (ta, ra)" by (cases "set_red 1 (int d) (t(d \<mapsto> f)) r") auto
    note S = set_red_ok [OF h(1) _ free d3 s, simplified]
    have ne: "red ra 2 \<noteq> int d" using fresh_fd(1) [OF h(1) free d3, rule_format, of 2] S(3) by (simp add: slots_def)
    define tb where "tb = (if red ra 2 \<ge> 0 then sys_close ta (red ra 2) else ta)"
    have "tb d = Some f" using S(4) ne by (auto simp: tb_def sys_close_def)
    moreover obtain tc e where dup: "sys_dup nfd tb (int d) = (tc, e)" by (cases "sys_dup nfd tb (int d)") auto
    moreover have "e < 0" "t2 = tc" using m no both s dup by (simp_all add: apply_marker_def t1 tb_def [symmetric])
    ultimately have "fd_lowest nfd tb = None" "t2 = tb" by (auto simp: sys_dup_def fd_alloc_def split: option.splits)
    moreover have "holds t0 t2 (slots r2)" using apply_marker_ok(1) [OF h(1) free d3 m [unfolded t1] h(2,3)] .
    ultimately show False using room_free [OF room _ std] by (metis option.distinct(1))
  qed
  then show ?thesis using t1 by simp
qed

lemma room_parse:
  assumes std: "std_open t0" and room: "fd_room nfd t0"
  shows "parsing t0 t r \<Longrightarrow> redir_spec opn ws g = Inr x \<Longrightarrow>
    parseRedirections_loop opn nfd t r acc ws = (t', r', argv, err) \<Longrightarrow> err = 0"
proof (induction ws arbitrary: t r acc g x rule: length_induct)
  case (1 ws)
  note p = 1(2) and spec = 1(3) and loop = 1(4)
  show ?case
  proof (cases ws)
    case Nil
    then show ?thesis using loop by simp
  next
    case (Cons w us)
    show ?thesis
    proof (cases "redir_classify w")
      case None
      then show ?thesis
        using 1(1) [rule_format, of us t r _ _ "acc @ [w]"] p spec loop Cons by (auto split: sum.splits prod.splits)
    next
      case (Some y)
      obtain mk flags rest where y: "y = (mk, flags, rest)" by (cases y) auto
      define path where "path = (if rest = [] then hd us else rest)"
      define vs where "vs = (if rest = [] then tl us else us)"
      obtain f where f: "\<not> (rest = [] \<and> us = [])" "opn path flags = Some f" "redir_spec opn vs (retarget mk f g) = Inr x"
        using spec Some y by (cases us) (auto simp: Cons path_def vs_def split: option.splits if_splits)
      obtain t1 fd where o: "sys_open opn nfd t path flags = (t1, fd)" by (cases "sys_open opn nfd t path flags") auto
      obtain t2 r2 ok where a: "apply_marker nfd mk fd t1 r = ((t2, r2), ok)"
        by (cases "apply_marker nfd mk fd t1 r") auto
      have ok: "\<not> fd < 0" "ok" using room_marker [OF p std room o f(2) a] by simp_all
      then have "parsing t0 t2 r2" using parsing_open [OF p std o, of mk] a by auto
      moreover have "parseRedirections_loop opn nfd t2 r2 acc vs = (t', r', argv, err)"
        using loop Some y f(1) o ok a by (simp add: Cons path_def [symmetric] vs_def split: if_splits)
      moreover have "length vs < length ws" by (cases us) (simp_all add: Cons vs_def)
      ultimately show ?thesis using 1(1) [rule_format, of vs t2 r2 _ _ acc] f(3) by blast
    qed
  qed
qed

lemma room_redirect_one:
  assumes s: "streams t0 t r" and std: "std_open t0" and room: "fd_room nfd t0"
    and one: "redirect_one nfd i (t, r, err) = (st, brk)" and i: "i < 3"
  shows "\<not> brk"
proof -
  have h: "holds t0 t (slots r)" "t i \<noteq> None" using s i by (auto simp: streams_def)
  obtain fd where "fd_lowest nfd t = Some fd" using room_free [OF room h(1) std] by blast
  then show ?thesis using one h(2) by (auto simp: redirect_one_def sys_dup_def fd_alloc_def split: if_splits prod.splits)
qed

lemma room_redirect_all:
  assumes s: "streams t0 t r" and std: "std_open t0" and sv: "\<forall>i < 3. save r i = -1" and room: "fd_room nfd t0"
    and loop: "redirect_loop nfd [0, 1, 2] (t, r, 0) = (t', r', err)"
  shows "err = 0"
proof -
  obtain t1 r1 e1 b1 where 1: "redirect_one nfd 0 (t, r, 0) = ((t1, r1, e1), b1)"
    by (metis prod_cases3 surj_pair)
  obtain t2 r2 e2 b2 where 2: "redirect_one nfd 1 (t1, r1, e1) = ((t2, r2, e2), b2)"
    by (metis prod_cases3 surj_pair)
  obtain t3 r3 e3 b3 where 3: "redirect_one nfd 2 (t2, r2, e2) = ((t3, r3, e3), b3)"
    by (metis prod_cases3 surj_pair)
  have A: "\<not> b1" "e1 = 0" "streams t0 t1 r1" "save r1 1 = -1" "save r1 2 = -1"
    using redirect_one_ok [OF s std _ _ 1] sv room_redirect_one [OF s std room 1] by auto
  have B: "\<not> b2" "e2 = 0" "streams t0 t2 r2" "save r2 2 = -1"
    using redirect_one_ok [OF A(3) std _ _ 2] A room_redirect_one [OF A(3) std room 2] by auto
  have C: "\<not> b3" "e3 = 0"
    using redirect_one_ok [OF B(3) std _ _ 3] B room_redirect_one [OF B(3) std room 3] by auto
  show ?thesis using loop 1 2 [simplified] 3 A(1) B(1) C by simp
qed

lemma redirections_room:
  assumes std: "std_open t" and room: "fd_room nfd t" and spec: "redir_spec opn argv (\<lambda>_. None) = Inr x"
    and p: "psh_parseRedirections opn nfd t argv = (t1, r1, argv', err)" and d: "psh_streamRedirect nfd t1 r1 = (t2, r2, rc)"
  shows "err = 0" "rc = 0"
proof -
  show e: "err = 0" using room_parse [OF std room redir_none_parsing(1) spec p [unfolded psh_parseRedirections_def]] .
  have ps: "parsing t t1 r1" using redirections_start(1) [OF std p _ d] e by simp
  have "save r1 i = -1" if "i < 3" for i using ps that by (simp add: parsing_def)
  then have "slots r1 k = slots (r1\<lparr>save := \<lambda>_. -1\<rparr>) k" if "k < 6" for k using that by (auto simp: slots_def)
  then have s: "streams t t1 (r1\<lparr>save := \<lambda>_. -1\<rparr>)"
    using ps std holds_cong [of "slots r1" "slots (r1\<lparr>save := \<lambda>_. -1\<rparr>)" t t1] by (auto simp: parsing_def streams_def)
  then show "rc = 0"
    using room_redirect_all [OF s std _ room] d
    by (auto simp: psh_streamRedirect_def upto_REDIRSZ split: prod.splits if_splits)
qed

text \<open>
  C13: Redirections, from the arguments to the running applet and back. With the standard streams
  open, \<open>psh_parseRedirections\<close> either fails and leaves the descriptor table as it was, or returns
  the arguments without the redirections; then \<open>psh_streamRedirect\<close> connects each stream to the
  file of its last redirection (or leaves it), and \<open>psh_streamRestore\<close> gives the descriptor table
  back exactly as it was before the command, no descriptor lost or leaked, also when redirecting
  fails half way.
\<close>

theorem redirections_roundtrip:
  assumes std: "\<forall>j < 3. t j \<noteq> None"
  shows "case psh_parseRedirections opn nfd t argv of (t1, r1, argv', err) \<Rightarrow>
    (err < 0 \<and> t1 = t) \<or>
    (err = 0 \<and> (\<exists>g. redir_spec opn argv (\<lambda>_. None) = Inr (argv', g) \<and>
      (case psh_streamRedirect nfd t1 r1 of (t2, r2, rc) \<Rightarrow>
         (rc = 0 \<longrightarrow> (\<forall>i < 3. t2 i = (case g i of Some f \<Rightarrow> Some f | None \<Rightarrow> t i))) \<and>
         (\<exists>r3. psh_streamRestore t2 r2 = (t, r3, 0)))))"
  using std by (rule redirections_ok)

definition tty_fds :: "string fdtab" where
  "tty_fds = (\<lambda>j. if j < 3 then Some ''console'' else None)"

theorem redirections_roundtrip_witness:
  "case psh_parseRedirections (\<lambda>p _. Some p) 16 tty_fds [''ls'', ''-l'', ''&>'', ''/tmp/o''] of (t1, r1, argv', err) \<Rightarrow>
    (err < 0 \<and> t1 = tty_fds) \<or>
    (err = 0 \<and> (\<exists>g. redir_spec (\<lambda>p _. Some p) [''ls'', ''-l'', ''&>'', ''/tmp/o''] (\<lambda>_. None) = Inr (argv', g) \<and>
      (case psh_streamRedirect 16 t1 r1 of (t2, r2, rc) \<Rightarrow>
         (rc = 0 \<longrightarrow> (\<forall>i < 3. t2 i = (case g i of Some f \<Rightarrow> Some f | None \<Rightarrow> tty_fds i))) \<and>
         (\<exists>r3. psh_streamRestore t2 r2 = (tty_fds, r3, 0)))))"
  by (rule redirections_roundtrip) (simp add: tty_fds_def)

end
