(* ===== verification/Apps.thy ===== *)
theory Apps
  imports Prelude
begin

text \<open>
  The applet registry and the retrying I/O helpers of \<open>src/psh/psh.c\<close>.

  The registry is a singly linked list that \<open>psh_registerapp\<close> keeps sorted by \<open>strcmp\<close> of the
  names; here the list of entries in link order. \<open>psh_findapp\<close> is the linear search the shell
  uses to dispatch a command, \<open>psh_applist_first\<close> and \<open>psh_applist_next\<close> the walk that
  \<open>help\<close> makes.
\<close>

section \<open>The registry\<close>

record 'f psh_appentry =
  app_name :: string
  app_run :: 'f

definition psh_applist_first :: "'f psh_appentry list \<Rightarrow> 'f psh_appentry option" where
  "psh_applist_first l = (case l of [] \<Rightarrow> None | a # _ \<Rightarrow> Some a)"

text \<open>The \<open>next\<close> link of the entry at a position of the list; a \<open>NULL\<close> current gives \<open>NULL\<close>.\<close>

definition psh_applist_next :: "'f psh_appentry list \<Rightarrow> nat option \<Rightarrow> nat option" where
  "psh_applist_next l cur =
     (case cur of None \<Rightarrow> None | Some i \<Rightarrow> if Suc i < length l then Some (Suc i) else None)"

text \<open>
  The insertion walk: the cursor passes every entry whose name compares less than the new one,
  and the new entry is linked before the first that does not.
\<close>

fun psh_registerapp :: "'f psh_appentry \<Rightarrow> 'f psh_appentry list \<Rightarrow> 'f psh_appentry list" where
  "psh_registerapp newapp [] = [newapp]"
| "psh_registerapp newapp (a # l) =
     (if strcmp (app_name a) (app_name newapp) < 0 then a # psh_registerapp newapp l
      else newapp # a # l)"

fun psh_findapp :: "string \<Rightarrow> 'f psh_appentry list \<Rightarrow> 'f psh_appentry option" where
  "psh_findapp nm [] = None"
| "psh_findapp nm (a # l) = (if strcmp nm (app_name a) = 0 then Some a else psh_findapp nm l)"

definition apps_sorted :: "'f psh_appentry list \<Rightarrow> bool" where
  "apps_sorted l = sorted_wrt (\<lambda>a b. strcmp (app_name a) (app_name b) \<le> 0) l"

lemma set_registerapp [simp]: "set (psh_registerapp a l) = insert a (set l)"
  by (induction l) auto

lemma sorted_registerapp: "apps_sorted l \<Longrightarrow> apps_sorted (psh_registerapp a l)"
proof (induction l)
  case (Cons b l)
  have "strcmp (app_name a) (app_name b) \<le> 0" if "\<not> strcmp (app_name b) (app_name a) < 0"
    using that strcmp_antisym [of "app_name a" "app_name b"] by linarith
  then show ?case
    using Cons strcmp_le_trans by (fastforce simp: apps_sorted_def)
qed (simp add: apps_sorted_def)

lemma findapp_register:
  "apps_sorted l \<Longrightarrow>
     psh_findapp nm (psh_registerapp a l) = (if nm = app_name a then Some a else psh_findapp nm l)"
proof (induction l)
  case (Cons b l)
  then show ?case by (auto simp: apps_sorted_def)
qed simp

lemma findapp_iff: "psh_findapp nm l = None \<longleftrightarrow> nm \<notin> app_name ` set l"
  by (induction l) auto

lemma findapp_Some: "psh_findapp nm l = Some a \<Longrightarrow> a \<in> set l \<and> app_name a = nm"
  by (induction l) (auto split: if_splits)

text \<open>
  The interface the shell relies on: a table of commands with an insertion and a lookup. The
  dispatcher is proved against it, the linked list provides it.
\<close>

locale command_table =
  fixes empty_table :: "'t"
    and register :: "'e \<Rightarrow> 't \<Rightarrow> 't"
    and find_entry :: "string \<Rightarrow> 't \<Rightarrow> 'e option"
    and name_of :: "'e \<Rightarrow> string"
    and table_ok :: "'t \<Rightarrow> bool"
  assumes ok_empty: "table_ok empty_table"
    and ok_register: "table_ok t \<Longrightarrow> table_ok (register e t)"
    and find_empty: "find_entry nm empty_table = None"
    and find_register:
      "table_ok t \<Longrightarrow>
         find_entry nm (register e t) = (if nm = name_of e then Some e else find_entry nm t)"
begin

lemma ok_fold: "table_ok t \<Longrightarrow> table_ok (fold register es t)"
  by (induction es arbitrary: t) (auto simp: ok_register)

lemma find_fold:
  "table_ok t \<Longrightarrow>
     find_entry nm (fold register es t) =
       (case find (\<lambda>e. name_of e = nm) (rev es) of Some e \<Rightarrow> Some e | None \<Rightarrow> find_entry nm t)"
proof (induction es arbitrary: t)
  case (Cons e es)
  then show ?case
    by (auto simp: ok_register find_register find_append split: option.splits)
qed simp

lemma find_fold_empty:
  "find_entry nm (fold register es empty_table) = find (\<lambda>e. name_of e = nm) (rev es)"
  by (simp add: find_fold ok_empty find_empty split: option.splits)

end

interpretation applist: command_table
  "[] :: 'f psh_appentry list" psh_registerapp psh_findapp app_name apps_sorted
proof unfold_locales
  show "apps_sorted ([] :: 'f psh_appentry list)"
    by (simp add: apps_sorted_def)
qed (auto simp: sorted_registerapp findapp_register)

end
