(* ===== verification/Script.thy ===== *)
theory Script
  imports Parse Apps
begin

text \<open>
  Shell scripts: \<open>psh_runscript\<close> of \<open>src/psh/pshapp/pshapp.c\<close>. The script is the list of the lines
  \<open>getline\<close> gives (each with its newline, if it has one). Parameters (\<open>scriptenv\<close>): whether the
  \<open>k\<close>-th attempt to open the file succeeds, the outcome of the allocations and of \<open>vfork\<close>,
  \<open>waitpid\<close> and \<open>psh_ttyopen\<close> per line, and the applets. The result lists what the script made
  the shell do. \<open>None\<close> is a fault: an access outside a buffer or a double \<open>free\<close>.
\<close>

section \<open>Running a script\<close>

datatype action =
    Exec "string list" | ExecWait "string list" | TtyOpen string
  | RunApp string "string list" | NotFound string
  | ParseFailed nat | VforkFailed nat | WaitFailed nat | NotScript

record 'f scriptenv =
  se_open :: "nat \<Rightarrow> bool"
  se_alloc :: "nat \<Rightarrow> nat \<Rightarrow> bool"
  se_vfork :: "nat \<Rightarrow> int"
  se_wait :: "nat \<Rightarrow> int"
  se_tty :: "nat \<Rightarrow> string \<Rightarrow> int"
  se_apps :: "'f psh_appentry list"

definition SCRIPT_MAGIC :: string where
  "SCRIPT_MAGIC = '':{}:''"

definition PSH_RUNSCRIPT_RETRIES :: nat where
  "PSH_RUNSCRIPT_RETRIES = 300"

definition PSH_SCRIPT_NOTOPENED :: int where
  "PSH_SCRIPT_NOTOPENED = - 65536"

definition scriptCmds :: "string list" where
  "scriptCmds = [''export'', ''unset'']"

fun script_open :: "(nat \<Rightarrow> bool) \<Rightarrow> nat \<Rightarrow> nat \<Rightarrow> bool" where
  "script_open opn i 0 = opn i"
| "script_open opn i (Suc k) = (opn i \<or> script_open opn (Suc i) k)"

text \<open>The line without its newline, and the buffer that holds it.\<close>

definition chomp :: "string \<Rightarrow> string" where
  "chomp l = (if l \<noteq> [] \<and> last l = CHR 0x0A then butlast l else l)"

definition line_buffer :: "string \<Rightarrow> string" where
  "line_buffer l = chomp l @ (if chomp l = l then [NUL] else [NUL, NUL])"

definition free_argv :: "argvp \<Rightarrow> argvp option" where
  "free_argv a = (if a = AFreed then None else Some ANull)"

text \<open>A line of an \<open>X\<close>, \<open>W\<close> or \<open>T\<close> command: the actions, \<open>err\<close> and the \<open>argv\<close> pointer.\<close>

definition run_xwt ::
  "'f scriptenv \<Rightarrow> nat \<Rightarrow> string \<Rightarrow> argvp \<Rightarrow> (action list \<times> int \<times> argvp) option" where
  "run_xwt env i buf argv = do {
     (b, err, a) \<leftarrow> psh_parsecmd (se_alloc env i) (tl buf) argv;
     (acts, err') \<leftarrow>
       (if err < 0 then Some ([ParseFailed i], err)
        else (case a of
            Argv qs \<Rightarrow>
              let strs = argv_strings b qs; k = hd buf in
              if k = CHR ''T'' then Some ([TtyOpen (hd strs)], se_tty env i (hd strs))
              else if se_vfork env i < 0 then Some ([VforkFailed i], se_vfork env i)
              else if k = CHR ''W'' then
                Some (ExecWait strs # (if se_wait env i < 0 then [WaitFailed i] else []), se_wait env i)
              else Some ([Exec strs], err)
          | _ \<Rightarrow> None));
     a' \<leftarrow> free_argv a;
     Some (acts, err', a')
   }"

text \<open>Whether the loop over \<open>scriptCmds\<close> stops at a command for this line.\<close>

definition cmd_hit :: "string \<Rightarrow> nat \<Rightarrow> string \<Rightarrow> bool option" where
  "cmd_hit buf len c =
     (if length c > len then Some False
      else do {
        x \<leftarrow> peek buf (length c);
        Some (\<not> (x \<noteq> NUL \<and> \<not> isspace x \<and> take (length c) (cstr buf) \<noteq> c))
      })"

fun run_cmds ::
  "'f scriptenv \<Rightarrow> nat \<Rightarrow> string \<Rightarrow> nat \<Rightarrow> string list \<Rightarrow> int \<Rightarrow> argvp \<Rightarrow> (action list \<times> int \<times> argvp) option"
where
  "run_cmds env i buf len [] err argv = Some ([], err, argv)"
| "run_cmds env i buf len (c # cs) err argv = do {
     hit \<leftarrow> cmd_hit buf len c;
     if \<not> hit then run_cmds env i buf len cs err argv
     else do {
       (b, e, a) \<leftarrow> psh_parsecmd (se_alloc env i) buf argv;
       if e < 0 then Some ([ParseFailed i], e, a)
       else (case a of
           Argv qs \<Rightarrow>
             let strs = argv_strings b qs in
             Some ([case psh_findapp (hd strs) (se_apps env) of
                      Some app \<Rightarrow> RunApp (hd strs) strs | None \<Rightarrow> NotFound (hd strs)], e, ANull)
         | _ \<Rightarrow> None)
     }
   }"

definition run_line ::
  "'f scriptenv \<Rightarrow> nat \<Rightarrow> string \<Rightarrow> int \<Rightarrow> argvp \<Rightarrow> (action list \<times> int \<times> argvp) option" where
  "run_line env i l err argv =
     (let buf = line_buffer l; len = length (chomp l) in
      if i = 1 \<and> cstr buf \<noteq> SCRIPT_MAGIC then Some ([NotScript], - EINVAL, argv)
      else if len = 0 then Some ([], err, argv)
      else if hd buf = CHR ''#'' then Some ([], err, argv)
      else if hd buf = CHR ''X'' \<or> hd buf = CHR ''W'' \<or> hd buf = CHR ''T'' then run_xwt env i buf argv
      else run_cmds env i buf len scriptCmds err argv)"

fun run_lines ::
  "'f scriptenv \<Rightarrow> nat \<Rightarrow> string list \<Rightarrow> int \<Rightarrow> argvp \<Rightarrow> (action list \<times> int) option"
where
  "run_lines env i [] err argv = Some ([], err)"
| "run_lines env i (l # ls) err argv = do {
     (acts, err', argv') \<leftarrow> run_line env i l err argv;
     if err' < 0 then Some (acts, err')
     else do { (acts', err'') \<leftarrow> run_lines env (i + 1) ls err' argv'; Some (acts @ acts', err'') }
   }"

definition psh_runscript :: "'f scriptenv \<Rightarrow> string list \<Rightarrow> (action list \<times> int) option" where
  "psh_runscript env ls =
     (if \<not> script_open (se_open env) 0 PSH_RUNSCRIPT_RETRIES then Some ([], PSH_SCRIPT_NOTOPENED)
      else run_lines env 1 ls 0 ANull)"

section \<open>What a line does\<close>

definition script_hit :: "string \<Rightarrow> bool" where
  "script_hit s \<longleftrightarrow> (\<exists>c \<in> set scriptCmds. length c \<le> length s \<and>
     (length s = length c \<or> isspace (s ! length c) \<or> take (length c) s = c))"

definition line_acts :: "'f scriptenv \<Rightarrow> string \<Rightarrow> action list" where
  "line_acts env s =
     (if s = [] \<or> hd s = CHR ''#'' then []
      else if hd s = CHR ''X'' then [Exec (words_of (tl s))]
      else if hd s = CHR ''W'' then [ExecWait (words_of (tl s))]
      else if hd s = CHR ''T'' then [TtyOpen (hd (words_of (tl s)))]
      else if script_hit s then
        [case psh_findapp (hd (words_of s)) (se_apps env) of
           Some app \<Rightarrow> RunApp (hd (words_of s)) (words_of s) | None \<Rightarrow> NotFound (hd (words_of s))]
      else [])"

definition is_xwt :: "string \<Rightarrow> bool" where
  "is_xwt s \<longleftrightarrow> s \<noteq> [] \<and> hd s \<in> {CHR ''X'', CHR ''W'', CHR ''T''}"

definition line_fine :: "string \<Rightarrow> bool" where
  "line_fine s \<longleftrightarrow> NUL \<notin> set s \<and> (is_xwt s \<longrightarrow> words_of (tl s) \<noteq> []) \<and> (script_hit s \<longrightarrow> words_of s \<noteq> [])"

definition env_fine :: "'f scriptenv \<Rightarrow> bool" where
  "env_fine env \<longleftrightarrow> (\<forall>i k. se_alloc env i k) \<and> (\<forall>i. 0 \<le> se_vfork env i \<and> 0 \<le> se_wait env i) \<and>
     (\<forall>i p. 0 \<le> se_tty env i p)"

lemma line_buffer_eq: "\<exists>r. line_buffer l = chomp l @ NUL # r"
  by (auto simp: line_buffer_def)

lemma parse_words:
  assumes "NUL \<notin> set s" "words_of s \<noteq> []" "\<forall>k. alloc k"
  obtains b qs where "psh_parsecmd alloc (s @ NUL # r) a0 = Some (b, 0, Argv qs)" "argv_strings b qs = words_of s"
  using parsecmd_result [OF assms(1,2), of alloc r a0] assms(3) by auto

lemma run_xwt_ok:
  assumes env: "env_fine env" and s: "NUL \<notin> set s" "words_of s \<noteq> []" and k: "k \<in> {CHR ''X'', CHR ''W'', CHR ''T''}"
  shows "\<exists>err. 0 \<le> err \<and> run_xwt env i (k # s @ NUL # r) argv = Some (line_acts env (k # s), err, ANull)"
proof -
  have al: "\<forall>k. se_alloc env i k" using env by (simp add: env_fine_def)
  obtain b qs where b: "psh_parsecmd (se_alloc env i) (s @ NUL # r) argv = Some (b, 0, Argv qs)"
      "argv_strings b qs = words_of s"
    by (rule parse_words [OF s al])
  have "\<not> se_vfork env i < 0" "\<not> se_wait env i < 0" "0 \<le> se_tty env i p" for p
    using env by (auto simp: env_fine_def not_less)
  with b k show ?thesis
    by (elim insertE emptyE) (simp_all add: run_xwt_def line_acts_def free_argv_def Let_def)
qed

lemma cmd_hit_eq:
  assumes "NUL \<notin> set s"
  shows "cmd_hit (s @ NUL # r) (length s) c = Some (length c \<le> length s \<and>
     (length s = length c \<or> isspace (s ! length c) \<or> take (length c) s = c))"
proof (cases "length c < length s")
  case True
  then have "s ! length c \<noteq> NUL" using assms by (metis nth_mem)
  with True assms show ?thesis by (auto simp: cmd_hit_def peek_def nth_append)
next
  case False
  with assms show ?thesis by (auto simp: cmd_hit_def peek_def nth_append)
qed

lemma run_cmds_ok:
  assumes env: "env_fine env" and s: "NUL \<notin> set s"
    and fine: "\<exists>c \<in> set cs. length c \<le> length s \<and>
     (length s = length c \<or> isspace (s ! length c) \<or> take (length c) s = c) \<Longrightarrow> words_of s \<noteq> []"
  shows "run_cmds env i (s @ NUL # r) (length s) cs err argv = Some (
     if \<exists>c \<in> set cs. length c \<le> length s \<and>
       (length s = length c \<or> isspace (s ! length c) \<or> take (length c) s = c)
     then ([case psh_findapp (hd (words_of s)) (se_apps env) of
           Some app \<Rightarrow> RunApp (hd (words_of s)) (words_of s) | None \<Rightarrow> NotFound (hd (words_of s))], 0, ANull)
     else ([], err, argv))"
  using fine
proof (induction cs)
  case (Cons c cs)
  show ?case
  proof (cases "length c \<le> length s \<and> (length s = length c \<or> isspace (s ! length c) \<or> take (length c) s = c)")
    case True
    then have w: "words_of s \<noteq> []" using Cons.prems by auto
    have al: "\<forall>k. se_alloc env i k" using env by (simp add: env_fine_def)
    obtain b qs where "psh_parsecmd (se_alloc env i) (s @ NUL # r) argv = Some (b, 0, Argv qs)"
        "argv_strings b qs = words_of s"
      by (rule parse_words [OF s w al])
    then show ?thesis using True by (simp add: cmd_hit_eq [OF s] Let_def)
  next
    case False
    then show ?thesis using Cons by (auto simp: cmd_hit_eq [OF s])
  qed
qed simp

lemma run_line_ok:
  assumes env: "env_fine env" and fine: "line_fine (chomp l)" and magic: "i = 1 \<Longrightarrow> chomp l = SCRIPT_MAGIC"
    and err: "0 \<le> err"
  shows "\<exists>err' a. 0 \<le> err' \<and> run_line env i l err argv = Some (line_acts env (chomp l), err', a)"
proof -
  define s where "s = chomp l"
  obtain r where r: "line_buffer l = s @ NUL # r" using line_buffer_eq s_def by metis
  have nn: "NUL \<notin> set s" using fine by (simp add: line_fine_def s_def)
  have "\<not> (i = 1 \<and> cstr (s @ NUL # r) \<noteq> SCRIPT_MAGIC)" using magic nn by (auto simp: s_def)
  note eq = run_line_def [of env i l err argv, folded s_def, unfolded r Let_def if_not_P [OF this]]
  show ?thesis
  proof (cases s)
    case Nil
    then show ?thesis using eq err by (simp add: s_def [symmetric] line_acts_def)
  next
    case (Cons k t)
    have t: "NUL \<notin> set t" using nn Cons by simp
    consider "k = CHR ''#''" | "k \<in> {CHR ''X'', CHR ''W'', CHR ''T''}" | "k \<notin> {CHR ''#'', CHR ''X'', CHR ''W'', CHR ''T''}"
      by auto
    then show ?thesis
    proof cases
      case 1
      then show ?thesis using eq err Cons by (simp add: s_def [symmetric] line_acts_def)
    next
      case 2
      then have w: "words_of t \<noteq> []" using fine Cons by (simp add: s_def [symmetric] line_fine_def is_xwt_def)
      obtain e where e: "0 \<le> e" "run_xwt env i (k # t @ NUL # r) argv = Some (line_acts env (k # t), e, ANull)"
        using run_xwt_ok [OF env t w 2] by blast
      have "run_line env i l err argv = run_xwt env i (k # t @ NUL # r) argv" using eq Cons 2 by auto
      with e show ?thesis unfolding s_def [symmetric] Cons by auto
    next
      case 3
      then have "run_line env i l err argv = run_cmds env i (s @ NUL # r) (length s) scriptCmds err argv"
        using eq Cons by simp
      moreover have "line_acts env s = (if script_hit s then [case psh_findapp (hd (words_of s)) (se_apps env) of
           Some app \<Rightarrow> RunApp (hd (words_of s)) (words_of s) | None \<Rightarrow> NotFound (hd (words_of s))] else [])"
        using 3 by (simp add: line_acts_def Cons split: option.split)
      ultimately show ?thesis
        using run_cmds_ok [OF env nn, of scriptCmds i r err argv] fine err
        unfolding s_def [symmetric] line_fine_def script_hit_def by (auto split: if_splits)
    qed
  qed
qed

lemma run_lines_ok:
  assumes "env_fine env"
  shows "\<forall>l \<in> set ls. line_fine (chomp l) \<Longrightarrow> 1 < i \<Longrightarrow> 0 \<le> err \<Longrightarrow>
    \<exists>err'. 0 \<le> err' \<and> run_lines env i ls err argv = Some (concat (map (\<lambda>l. line_acts env (chomp l)) ls), err')"
proof (induction ls arbitrary: i err argv)
  case (Cons l ls)
  obtain e a where e: "0 \<le> e" "run_line env i l err argv = Some (line_acts env (chomp l), e, a)"
    using run_line_ok [OF assms, of l i err argv] Cons.prems by auto
  then show ?case using Cons.IH [of "i + 1" e a] Cons.prems by auto
qed simp

lemma script_open_first: "opn i \<Longrightarrow> script_open opn i k"
  by (cases k) simp_all

lemma script_open_iff: "script_open opn i k \<longleftrightarrow> (\<exists>j. i \<le> j \<and> j \<le> i + k \<and> opn j)"
proof (induction k arbitrary: i)
  case 0
  then show ?case by (metis add.right_neutral le_antisym order_refl script_open.simps(1))
next
  case (Suc k)
  show ?case
  proof
    assume "script_open opn i (Suc k)"
    then show "\<exists>j. i \<le> j \<and> j \<le> i + Suc k \<and> opn j"
      using Suc [of "Suc i"] by auto (metis Suc_leD add_Suc_right add_Suc)
  next
    assume "\<exists>j. i \<le> j \<and> j \<le> i + Suc k \<and> opn j"
    then obtain j where "i \<le> j" "j \<le> i + Suc k" "opn j" by auto
    then show "script_open opn i (Suc k)" using Suc [of "Suc i"] by (cases "j = i") auto
  qed
qed

lemma magic_line: "line_acts env SCRIPT_MAGIC = []" "line_fine SCRIPT_MAGIC"
  by (simp_all add: line_acts_def SCRIPT_MAGIC_def script_hit_def scriptCmds_def line_fine_def is_xwt_def)

text \<open>
  C15: Running a script. When the script opens with the magic line, every \<open>X\<close>, \<open>W\<close> and \<open>T\<close> line
  has a word, and no system call fails, \<open>psh_runscript\<close> returns a code that is not negative and has
  done, line by line and in order, what each line asks for: nothing for empty lines and comments,
  the program of an \<open>X\<close> or \<open>W\<close> line with the line's words as its arguments, the terminal of a
  \<open>T\<close> line, and the applet of a line that the test for \<open>export\<close> and \<open>unset\<close> selects.
\<close>

theorem psh_runscript_correct:
  assumes "se_open env 0" "env_fine env" "chomp l = SCRIPT_MAGIC" "\<forall>l \<in> set ls. line_fine (chomp l)"
  shows "\<exists>err. 0 \<le> err \<and> psh_runscript env (l # ls) = Some (concat (map (\<lambda>l. line_acts env (chomp l)) ls), err)"
proof -
  have "line_fine (chomp l)" using assms(3) magic_line(2) by simp
  then obtain e a where e: "0 \<le> e" "run_line env 1 l 0 ANull = Some (line_acts env (chomp l), e, a)"
    using run_line_ok [OF assms(2), of l 1 0 ANull] assms(3) by auto
  obtain e' where e': "0 \<le> e'" "run_lines env 2 ls e a = Some (concat (map (\<lambda>l. line_acts env (chomp l)) ls), e')"
    using run_lines_ok [OF assms(2,4) _ e(1), of 2 a] by auto
  have "run_lines env 1 (l # ls) 0 ANull = Some (concat (map (\<lambda>l. line_acts env (chomp l)) ls), e')"
    using e e'(2) assms(3) by (simp add: magic_line(1) numeral_2_eq_2)
  moreover have "script_open (se_open env) 0 PSH_RUNSCRIPT_RETRIES" by (rule script_open_first) (rule assms(1))
  ultimately show ?thesis using e'(1) by (simp add: psh_runscript_def)
qed

definition script_demo :: "unit scriptenv" where
  "script_demo = \<lparr>se_open = \<lambda>_. True, se_alloc = \<lambda>_ _. True, se_vfork = \<lambda>_. 7, se_wait = \<lambda>_. 7,
     se_tty = \<lambda>_ _. 0, se_apps = [\<lparr>app_name = ''export'', app_run = ()\<rparr>, \<lparr>app_name = ''reboot'', app_run = ()\<rparr>]\<rparr>"

lemma script_demo_fine: "se_open script_demo 0" "env_fine script_demo"
  by (simp_all add: script_demo_def env_fine_def)

theorem psh_runscript_correct_witness:
  "\<exists>err. 0 \<le> err \<and> psh_runscript script_demo ['':{}:'' @ [CHR 0x0A], ''W /bin/ls -l'' @ [CHR 0x0A]]
     = Some ([ExecWait [''/bin/ls'', ''-l'']], err)"
proof -
  have w: "words_of '' /bin/ls -l'' = [''/bin/ls'', ''-l'']"
    by (simp add: words_of.simps delim_def)
  have "line_acts script_demo ''W /bin/ls -l'' = [ExecWait [''/bin/ls'', ''-l'']]"
    by (simp add: line_acts_def w)
  moreover have "line_fine ''W /bin/ls -l''"
    by (simp add: line_fine_def w is_xwt_def script_hit_def scriptCmds_def isspace_def code_def)
  ultimately show ?thesis
    using psh_runscript_correct [OF script_demo_fine, of "'':{}:'' @ [CHR 0x0A]" "[''W /bin/ls -l'' @ [CHR 0x0A]]"]
    by (simp add: chomp_def SCRIPT_MAGIC_def)
qed

text \<open>
  A file that does not begin with the magic line is refused: nothing is executed and the result
  is \<open>-EINVAL\<close>; a file that cannot be opened in 301 attempts gives the code on which alone the
  caller falls back to an interactive shell.
\<close>

lemma psh_runscript_refuses:
  "(script_open (se_open env) 0 PSH_RUNSCRIPT_RETRIES \<and> NUL \<notin> set (chomp l) \<and> chomp l \<noteq> SCRIPT_MAGIC \<longrightarrow>
      psh_runscript env (l # ls) = Some ([NotScript], - EINVAL)) \<and>
   ((\<forall>k \<le> 300. \<not> se_open env k) \<longrightarrow> psh_runscript env (l # ls) = Some ([], PSH_SCRIPT_NOTOPENED))"
proof (intro conjI impI)
  assume a: "script_open (se_open env) 0 PSH_RUNSCRIPT_RETRIES \<and> NUL \<notin> set (chomp l) \<and> chomp l \<noteq> SCRIPT_MAGIC"
  obtain r where "line_buffer l = chomp l @ NUL # r" using line_buffer_eq by blast
  then have "cstr (line_buffer l) \<noteq> SCRIPT_MAGIC" using a by simp
  then have "run_line env 1 l 0 ANull = Some ([NotScript], - EINVAL, ANull)"
    by (simp add: run_line_def Let_def)
  then show "psh_runscript env (l # ls) = Some ([NotScript], - EINVAL)"
    using a by (simp add: psh_runscript_def)
next
  assume "\<forall>k \<le> 300. \<not> se_open env k"
  then have "\<not> script_open (se_open env) 0 PSH_RUNSCRIPT_RETRIES"
    using script_open_iff [of "se_open env" 0] by (simp add: PSH_RUNSCRIPT_RETRIES_def)
  then show "psh_runscript env (l # ls) = Some ([], PSH_SCRIPT_NOTOPENED)"
    by (simp add: psh_runscript_def)
qed

text \<open>
  A defect of the test for \<open>export\<close> and \<open>unset\<close>: its three conditions are joined by \<open>&&\<close>, so a
  line is taken for a script command as soon as the character at index 5 or 6 is a blank. The
  applet its first word names is run, whatever the word is.
\<close>

lemma psh_runscript_runs_any_applet:
  assumes "env_fine env" "chomp l = s" "NUL \<notin> set s" "s \<noteq> []" "hd s \<notin> {CHR ''#'', CHR ''X'', CHR ''W'', CHR ''T''}"
    and "words_of s \<noteq> []" "6 < length s" "isspace (s ! 6)"
    and "psh_findapp (hd (words_of s)) (se_apps env) = Some app" "1 < i" "0 \<le> err"
  shows "\<exists>err' a. run_line env i l err argv = Some ([RunApp (hd (words_of s)) (words_of s)], err', a)"
proof -
  have "length ''export'' = 6" by simp
  then have hit: "script_hit s" using assms(7,8) unfolding script_hit_def scriptCmds_def
    by (metis less_imp_le list.set_intros(1))
  then have "line_fine s" using assms(3,5,6) by (auto simp: line_fine_def is_xwt_def)
  moreover have "line_acts env s = [RunApp (hd (words_of s)) (words_of s)]"
    using hit assms(4,5,9) by (simp add: line_acts_def)
  ultimately show ?thesis using run_line_ok [OF assms(1), of l i err argv] assms(2,10,11) by auto
qed

text \<open>
  A defect in the error path. When the vector cannot be enlarged for the second word of an \<open>X\<close>,
  \<open>W\<close> or \<open>T\<close> line, \<open>psh_parsecmd\<close> frees it and leaves the caller's pointer as it was, and
  \<open>psh_runscript\<close> frees it again.
\<close>

lemma psh_runscript_double_free:
  assumes "NUL \<notin> set s" "length (words_of s) \<ge> 2" "se_alloc env i 0" "\<not> se_alloc env i 1"
  shows "run_xwt env i (k # s @ NUL # r) ANull = None"
  using parsecmd_second_fails [OF assms(1,2), of "se_alloc env i" r ANull] assms(3,4)
  by (auto simp: run_xwt_def free_argv_def)

end
