(* ===== verification/Tty.thy ===== *)
theory Tty
  imports Redirect Apps
begin

text \<open>
  The parts of \<open>src/psh/psh.c\<close> around the applet registry: the retrying \<open>psh_write\<close> and
  \<open>psh_read\<close>, opening a terminal (\<open>psh_ttyopen\<close>, \<open>psh_ttyinstall\<close>) on the descriptor table, and
  the login loop of \<open>main\<close>.
\<close>

section \<open>Retrying I/O\<close>

text \<open>
  The answers of the system to successive calls: a result and \<open>errno\<close>. \<open>None\<close> means that the loop
  is not finished when the answers are used up.
\<close>

fun io_loop :: "nat \<Rightarrow> nat \<Rightarrow> (int \<times> int) list \<Rightarrow> nat option" where
  "io_loop len count [] = (if len = count then Some len else None)"
| "io_loop len count ((res, errno) # others) =
     (if len = count then Some len
      else if res \<le> 0 then
        (if errno = EINTR \<or> errno = EAGAIN then io_loop len count others else Some len)
      else io_loop (len + nat res) count others)"

definition psh_write :: "nat \<Rightarrow> (int \<times> int) list \<Rightarrow> nat option" where
  "psh_write count answers = io_loop 0 count answers"

definition psh_read :: "nat \<Rightarrow> (int \<times> int) list \<Rightarrow> nat option" where
  "psh_read count answers = io_loop 0 count answers"

text \<open>An answer is legal when no more is transferred than was asked for.\<close>

fun legal :: "nat \<Rightarrow> (int \<times> int) list \<Rightarrow> bool" where
  "legal left [] = True"
| "legal left ((res, e) # others) =
     (if res \<le> 0 then legal left others else nat res \<le> left \<and> legal (left - nat res) others)"

fun transferred :: "(int \<times> int) list \<Rightarrow> nat" where
  "transferred [] = 0"
| "transferred ((res, e) # others) = nat res + transferred others"

definition hard_error :: "int \<times> int \<Rightarrow> bool" where
  "hard_error a \<longleftrightarrow> fst a \<le> 0 \<and> snd a \<noteq> EINTR \<and> snd a \<noteq> EAGAIN"

lemma io_loop_complete:
  "legal left answers \<Longrightarrow> \<forall>a \<in> set answers. \<not> hard_error a \<Longrightarrow> left \<le> transferred answers \<Longrightarrow>
     io_loop len (len + left) answers = Some (len + left)"
proof (induction left answers arbitrary: len rule: legal.induct)
  case (2 left res e others)
  show ?case
  proof (cases "res \<le> 0")
    case True
    then have "e = EINTR \<or> e = EAGAIN" using 2(4) by (auto simp: hard_error_def)
    then show ?thesis using True 2 by simp
  next
    case False
    then have "nat res \<le> left" "legal (left - nat res) others" using 2(3) by simp_all
    then show ?thesis using False 2(2) [of "len + nat res"] 2(4,5) by (simp add: add.assoc)
  qed
qed simp

lemma io_loop_bounded: "io_loop len count answers = Some r \<Longrightarrow> r = count \<or> (\<exists>a \<in> set answers. hard_error a)"
  by (induction len count answers rule: io_loop.induct) (auto simp: hard_error_def split: if_splits)

text \<open>
  The retrying write. When the system transfers at most what it is asked for, interruptions are
  the only failures and the answers add up to the count, \<open>psh_write\<close> returns and has written
  everything; and it never returns less than the count without a hard error.
\<close>

lemma psh_write_complete:
  "(legal count answers \<and> (\<forall>a \<in> set answers. \<not> hard_error a) \<and> count \<le> transferred answers
      \<longrightarrow> psh_write count answers = Some count)
   \<and> (\<forall>r. psh_write count answers = Some r \<longrightarrow> r = count \<or> (\<exists>a \<in> set answers. hard_error a))"
  using io_loop_complete [of count answers 0] io_loop_bounded [of 0 count answers]
  by (auto simp: psh_write_def)

section \<open>Opening a terminal\<close>

definition psh_ttyinstall :: "'f fdtab \<Rightarrow> int \<Rightarrow> 'f fdtab" where
  "psh_ttyinstall t fd =
     (let t0 = fst (sys_dup2 t fd 0); t1 = fst (sys_dup2 t0 fd 1); t2 = fst (sys_dup2 t1 fd 2)
      in sys_close t2 fd)"

text \<open>
  \<open>isatty\<close> of a description and the outcome of \<open>strdup\<close> are parameters; the failure of \<open>open\<close> is
  the given \<open>errno\<close>.
\<close>

definition psh_ttyopen ::
  "(string \<Rightarrow> nat \<Rightarrow> 'f option) \<Rightarrow> ('f \<Rightarrow> bool) \<Rightarrow> bool \<Rightarrow> int \<Rightarrow> nat \<Rightarrow> 'f fdtab \<Rightarrow> string \<Rightarrow> 'f fdtab \<times> int" where
  "psh_ttyopen opn isatty dupok errno nfd t ttydev =
     (case sys_open opn nfd t ttydev 3 of (t1, fd) \<Rightarrow>
        if fd < 0 then (t1, - errno)
        else if \<not> (case t1 (nat fd) of Some f \<Rightarrow> isatty f | None \<Rightarrow> False) then (sys_close t1 fd, - ENOTTY)
        else if \<not> dupok then (sys_close t1 fd, - ENOMEM)
        else (psh_ttyinstall t1 fd, EOK))"

text \<open>
  Opening a terminal, with the standard streams open: on success the three streams are the
  terminal and every other descriptor is as before (the temporary one is closed); on an error the
  table is unchanged.
\<close>

lemma psh_ttyopen_correct:
  assumes std: "\<forall>j < 3. t j \<noteq> None" and "0 < errno"
  shows "case psh_ttyopen opn isatty dupok errno nfd t dev of (t', rc) \<Rightarrow>
    (rc < 0 \<and> t' = t) \<or>
    (rc = 0 \<and> (\<exists>f. opn dev 3 = Some f \<and> isatty f \<and> t' = t(0 \<mapsto> f, 1 \<mapsto> f, 2 \<mapsto> f)))"
  using fd_alloc_cases [of nfd t "opn dev 3"]
proof cases
  case fail
  then show ?thesis using assms(2) by (simp add: psh_ttyopen_def sys_open_def)
next
  case (ok f fd)
  have fd: "3 \<le> fd" using std_free [OF std ok(3)] .
  have close: "sys_close (t(fd \<mapsto> f)) (int fd) = t" using ok(3) by (simp add: sys_close_def fun_upd_idem)
  have inst: "psh_ttyinstall (t(fd \<mapsto> f)) (int fd) = t(0 \<mapsto> f, 1 \<mapsto> f, 2 \<mapsto> f)"
    using fd ok(3) by (auto simp: psh_ttyinstall_def sys_dup2_def sys_close_def fun_eq_iff Let_def)
  show ?thesis
    using ok close inst by (auto simp: psh_ttyopen_def sys_open_def)
qed

text \<open>
  A defect when the standard input is closed: \<open>open\<close> then returns descriptor 0, and the final
  \<open>close\<close> of \<open>psh_ttyinstall\<close> closes the standard input it has just installed, although
  \<open>psh_ttyopen\<close> reports success.
\<close>

lemma psh_ttyopen_closes_stdin:
  assumes "t 0 = None" "0 < nfd" "opn dev 3 = Some f" "isatty f"
  shows "psh_ttyopen opn isatty True errno nfd t dev = (t(1 \<mapsto> f, 2 \<mapsto> f), EOK)"
proof -
  have "fd_lowest nfd t = Some 0" using assms(1,2) by (simp add: fd_lowest_def upt_conv_Cons)
  then have "fd_alloc nfd t (Some f) = (t(0 \<mapsto> f), 0)" by (simp add: fd_alloc_def)
  then show ?thesis
    using assms by (auto simp: psh_ttyopen_def sys_open_def psh_ttyinstall_def sys_dup2_def sys_close_def Let_def fun_eq_iff)
qed

section \<open>The tty applet\<close>

text \<open>
  \<open>psh_ttyMain\<close> of \<open>src/psh/tty/tty.c\<close>: the table, \<open>psh_common.ttydev\<close> and the exit status. The results of
  the calls are parameters; an \<open>errno\<close> is given for a call that fails.
\<close>

record 'f ttyenv =
  tm_getpgrp :: bool
  tm_leader :: bool
  tm_open :: "string \<Rightarrow> nat \<Rightarrow> 'f option"
  tm_errno :: int
  tm_isatty :: "'f \<Rightarrow> bool"
  tm_strdup :: bool
  tm_notty :: "int option"
  tm_sctty :: "int option"
  tm_setpgrp :: "int option"
  tm_nfd :: nat

definition psh_ttyMain :: "'f ttyenv \<Rightarrow> string option \<Rightarrow> string list \<Rightarrow> 'f fdtab \<Rightarrow> 'f fdtab \<times> string option \<times> int" where
  "psh_ttyMain e ttydev argv t =
     (if ttydev = None then (t, ttydev, - EINVAL)
      else if length argv < 2 then (t, ttydev, EOK)
      else if argchr (argv ! 1) 0 = CHR ''-'' \<and> argchr (argv ! 1) 1 = CHR ''h'' then (t, ttydev, EOK)
      else if \<not> tm_getpgrp e then (t, ttydev, - EINVAL)
      else if \<not> tm_leader e then (t, ttydev, - EPERM)
      else (case sys_open (tm_open e) (tm_nfd e) t (argv ! 1) 3 of (t1, newfd) \<Rightarrow>
        if newfd < 0 then (t1, ttydev, - tm_errno e)
        else if \<not> (case t1 (nat newfd) of Some f \<Rightarrow> tm_isatty e f | None \<Rightarrow> False)
          then (sys_close t1 newfd, ttydev, - ENOTTY)
        else if \<not> tm_strdup e then (sys_close t1 newfd, ttydev, - ENOMEM)
        else if tm_notty e \<noteq> None \<and> tm_notty e \<noteq> Some ENOTTY then (sys_close t1 newfd, ttydev, - the (tm_notty e))
        else if tm_sctty e \<noteq> None then (sys_close t1 newfd, ttydev, - the (tm_sctty e))
        else (psh_ttyinstall t1 newfd, Some (argv ! 1), case tm_setpgrp e of None \<Rightarrow> EOK | Some n \<Rightarrow> - n)))"

lemma ttyinstall_result:
  assumes "t d = None"
  shows "psh_ttyinstall (t(d \<mapsto> f)) (int d) = (\<lambda>j. if j = d then None else if j < 3 then Some f else t j)"
  using assms by (auto simp: psh_ttyinstall_def sys_dup2_def sys_close_def fun_eq_iff Let_def)

text \<open>
  The applet changes no descriptor but the standard streams, and those only to the terminal it was given; on every
  error the table and the name of the terminal are as before.
\<close>

lemma psh_ttyMain_table:
  assumes "psh_ttyMain e ttydev argv t = (t', dev', rc)"
  shows "(t' = t \<and> dev' = ttydev) \<or> (\<exists>f fd. tm_open e (argv ! 1) 3 = Some f \<and> tm_isatty e f \<and> t fd = None
    \<and> t' = (\<lambda>j. if j = fd then None else if j < 3 then Some f else t j) \<and> dev' = Some (argv ! 1))"
  using fd_alloc_cases [of "tm_nfd e" t "tm_open e (argv ! 1) 3"]
proof cases
  case fail
  then show ?thesis using assms by (auto simp: psh_ttyMain_def sys_open_def split: if_splits)
next
  case (ok f fd)
  have "sys_close (t(fd \<mapsto> f)) (int fd) = t" using ok(3) by (simp add: sys_close_def fun_upd_idem)
  then have "(t' = t \<and> dev' = ttydev) \<or> (tm_isatty e f
    \<and> t' = (\<lambda>j. if j = fd then None else if j < 3 then Some f else t j) \<and> dev' = Some (argv ! 1))"
    using assms ok ttyinstall_result [of t fd f, OF ok(3)]
    by (auto simp: psh_ttyMain_def sys_open_def split: if_splits)
  then show ?thesis using ok by auto
qed

section \<open>The login loop of main\<close>

datatype mainev = RanAuth int | RanApp string int | UnknownCommand | EmptyAppList

text \<open>
  \<open>main\<close> behind the start-up: \<open>first\<close> is \<open>psh_common.tcpid == -1\<close>, \<open>base\<close> the name it was called
  by. The results of the successive runs of \<open>auth\<close> and of the applet are parameters. The first shell of a
  login goes round for ever, so the result is what has happened until the results are used up, with the
  status \<open>main\<close> returned, or \<open>None\<close> when it is still running then. Likewise \<open>auth_loop\<close> gives the runs so
  far and, when the loop has ended, the results that are left.
\<close>

fun auth_loop :: "int list \<Rightarrow> mainev list \<times> int list option" where
  "auth_loop [] = ([], None)"
| "auth_loop (r # rs) =
     (if r \<noteq> 0 then (case auth_loop rs of (evs, rs') \<Rightarrow> (RanAuth r # evs, rs'))
      else ([RanAuth r], Some rs))"

fun psh_main ::
  "'f psh_appentry list \<Rightarrow> bool \<Rightarrow> string \<Rightarrow> int list \<Rightarrow> int list \<Rightarrow> mainev list \<times> int option" where
  "psh_main apps first base auths runs =
     (let login = (base = ''pshlogin'') in
      (case (if login \<and> psh_findapp ''auth'' apps \<noteq> None then auth_loop auths else ([], Some auths)) of
         (evs, None) \<Rightarrow> (evs, None)
       | (evs, Some auths') \<Rightarrow>
           (case psh_findapp base apps of
              None \<Rightarrow> (evs @ UnknownCommand # (if apps = [] then [EmptyAppList] else []), Some PSH_UNKNOWN_CMD)
            | Some app \<Rightarrow>
                (case runs of
                   [] \<Rightarrow> (evs, None)
                 | r # rs \<Rightarrow>
                     if first \<and> login
                     then (case psh_main apps first base auths' rs of (evs', err) \<Rightarrow> (evs @ RanApp base r # evs', err))
                     else (evs @ [RanApp base r], Some (if r < 0 then 1 else r))))))"

declare psh_main.simps [simp del]

text \<open>Whether every run of an applet is immediately preceded by a successful login.\<close>

fun guarded :: "bool \<Rightarrow> mainev list \<Rightarrow> bool" where
  "guarded ok [] = True"
| "guarded ok (RanAuth r # evs) = guarded (r = 0) evs"
| "guarded ok (RanApp a r # evs) = (ok \<and> guarded False evs)"
| "guarded ok (e # evs) = guarded False evs"

lemma auth_loop_guards:
  "auth_loop rs = (evs, Some rs') \<Longrightarrow> guarded b (evs @ es) = guarded True es"
  "auth_loop rs = (evs, None) \<Longrightarrow> guarded b evs"
  by (induction rs arbitrary: evs b) (auto split: if_splits prod.splits)

text \<open>The results of the applets that were run.\<close>

fun app_runs :: "mainev list \<Rightarrow> int list" where
  "app_runs [] = []"
| "app_runs (RanApp a r # evs) = r # app_runs evs"
| "app_runs (e # evs) = app_runs evs"

lemma app_runs_append [simp]: "app_runs (xs @ ys) = app_runs xs @ app_runs ys"
  by (induction xs rule: app_runs.induct) simp_all

lemma auth_loop_count:
  "auth_loop rs = (evs, Some rs') \<Longrightarrow> count_list rs 0 = Suc (count_list rs' 0) \<and> app_runs evs = []"
  "auth_loop rs = (evs, None) \<Longrightarrow> count_list rs 0 = 0 \<and> app_runs evs = []"
  by (induction rs arbitrary: evs) (auto split: if_splits prod.splits)

text \<open>One round of the loop for a login.\<close>

lemma login_round:
  assumes "psh_findapp ''auth'' apps \<noteq> None"
  shows "auth_loop auths = (evs, None) \<Longrightarrow> psh_main apps first ''pshlogin'' auths runs = (evs, None)"
    and "auth_loop auths = (evs, Some auths') \<Longrightarrow> psh_findapp ''pshlogin'' apps = None \<Longrightarrow>
      psh_main apps first ''pshlogin'' auths runs
        = (evs @ UnknownCommand # (if apps = [] then [EmptyAppList] else []), Some PSH_UNKNOWN_CMD)"
    and "auth_loop auths = (evs, Some auths') \<Longrightarrow> psh_findapp ''pshlogin'' apps = Some app \<Longrightarrow>
      psh_main apps first ''pshlogin'' auths [] = (evs, None)"
    and "auth_loop auths = (evs, Some auths') \<Longrightarrow> psh_findapp ''pshlogin'' apps = Some app \<Longrightarrow>
      psh_main apps first ''pshlogin'' auths (r # rs) = (if first
        then (evs @ RanApp ''pshlogin'' r # fst (psh_main apps first ''pshlogin'' auths' rs), snd (psh_main apps first ''pshlogin'' auths' rs))
        else (evs @ [RanApp ''pshlogin'' r], Some (if r < 0 then 1 else r)))"
  using assms by (simp_all add: psh_main.simps [of _ _ _ auths] Let_def split: prod.split)

text \<open>
  C16: Logging in, when the program is started as \<open>pshlogin\<close> and the applet \<open>auth\<close> is registered. At every
  moment, however often the loop goes round and whether or not it has ended, no applet has been run unless
  the run of \<open>auth\<close> directly before it returned 0. In the first shell, when \<open>pshlogin\<close> is registered too,
  the loop never ends, and it has run the applet once for every successful login. (Without \<open>auth\<close> the
  applet is run with no login.)
\<close>

theorem psh_main_login_guards:
  assumes auth: "psh_findapp ''auth'' apps \<noteq> None"
  shows "case psh_main apps first ''pshlogin'' auths rs of (evs, status) \<Rightarrow>
    guarded False evs
    \<and> (first \<and> psh_findapp ''pshlogin'' apps \<noteq> None \<longrightarrow> status = None \<and> app_runs evs = take (count_list auths 0) rs)"
proof (induction rs arbitrary: auths)
  case Nil
  note R = login_round(1-3) [OF auth, of auths]
  show ?case
    by (cases "auth_loop auths"; cases "snd (auth_loop auths)"; cases "psh_findapp ''pshlogin'' apps")
      (simp_all add: R auth_loop_guards auth_loop_count auth_loop_guards(1) [of _ _ _ False "[]", simplified])
next
  case (Cons r rs)
  note R = login_round(1,2,4) [OF auth, of auths]
  show ?case
  proof (cases "auth_loop auths")
    case (Pair evs o')
    show ?thesis
      using Cons.IH [of "the o'"] Pair
      by (cases o'; cases "psh_findapp ''pshlogin'' apps")
        (auto simp: R auth_loop_guards auth_loop_count split: prod.splits)
  qed
qed

definition login_apps :: "unit psh_appentry list" where
  "login_apps = [\<lparr>app_name = ''auth'', app_run = ()\<rparr>, \<lparr>app_name = ''pshlogin'', app_run = ()\<rparr>]"

text \<open>Two rounds of the endless loop and a failed third login.\<close>

theorem psh_main_login_guards_witness:
  "psh_main login_apps True ''pshlogin'' [-13, 0, 0, -13] [0, 0]
     = ([RanAuth (-13), RanAuth 0, RanApp ''pshlogin'' 0, RanAuth 0, RanApp ''pshlogin'' 0, RanAuth (-13)], None)
   \<and> guarded False [RanAuth (-13), RanAuth 0, RanApp ''pshlogin'' 0, RanAuth 0, RanApp ''pshlogin'' 0, RanAuth (-13)]"
proof -
  have a: "psh_findapp ''auth'' login_apps \<noteq> None" by (simp add: login_apps_def)
  have run: "psh_main login_apps True ''pshlogin'' [-13, 0, 0, -13] [0, 0]
     = ([RanAuth (-13), RanAuth 0, RanApp ''pshlogin'' 0, RanAuth 0, RanApp ''pshlogin'' 0, RanAuth (-13)], None)"
    by (simp add: psh_main.simps login_apps_def)
  show ?thesis using psh_main_login_guards [OF a, of True "[-13, 0, 0, -13]" "[0, 0]"] unfolding run by simp
qed

end
