(* ===== verification/Env.thy ===== *)
theory Env
  imports Prelude
begin

text \<open>
  The \<open>export\<close> and \<open>unset\<close> applets, \<open>src/psh/pshapp/env.c\<close>. The environment is a map from names
  to values (\<open>setenv\<close> with overwriting and \<open>unsetenv\<close> of the C library); \<open>environ\<close>, the printed
  form, is a parameter. Whether \<open>strndup\<close> and \<open>setenv\<close> succeed for the \<open>k\<close>-th argument are
  parameters too. Arguments are C strings without their terminator.
\<close>

type_synonym environment = "string \<rightharpoonup> string"

datatype envmsg = Export string | UnknownOption string | NotIdentifier string | Failed

abbreviation (input) EXIT_SUCCESS :: int where "EXIT_SUCCESS \<equiv> 0"
abbreviation (input) EXIT_FAILURE :: int where "EXIT_FAILURE \<equiv> 1"

fun validate_loop :: "string \<Rightarrow> int \<Rightarrow> int" where
  "validate_loop [] len = 0"
| "validate_loop (c # cs) len =
     (if len = 0 then 0
      else if \<not> isalnum c \<and> c \<noteq> CHR ''_'' then - EINVAL
      else validate_loop cs (len - 1))"

definition psh_validateVarName :: "string \<Rightarrow> int \<Rightarrow> int" where
  "psh_validateVarName name len =
     (if len = 0 then - EINVAL
      else case name of
        [] \<Rightarrow> - EINVAL
      | c # cs \<Rightarrow> if isdigit c then - EINVAL else validate_loop name len)"

text \<open>\<open>strchr\<close>: the position of the first occurrence.\<close>

fun strchr :: "string \<Rightarrow> char \<Rightarrow> nat option" where
  "strchr [] x = None"
| "strchr (c # cs) x = (if c = x then Some 0 else map_option Suc (strchr cs x))"

text \<open>One argument: the environment, the messages and \<open>err\<close>; the flag is set on the early return.\<close>

definition export_one :: "bool \<Rightarrow> bool \<Rightarrow> string \<Rightarrow> environment \<times> envmsg list \<times> bool \<Rightarrow> (environment \<times> envmsg list \<times> bool) \<times> bool"
where
  "export_one dupok setok arg st = (case st of (env, out, err) \<Rightarrow>
     let value = strchr arg (CHR ''='');
         len = (case value of None \<Rightarrow> -1 | Some p \<Rightarrow> int p)
     in if psh_validateVarName arg len \<noteq> 0 then
          ((env, out @ [NotIdentifier (if len > 0 then take (nat len) arg else arg)], err), False)
        else case value of
          None \<Rightarrow> (st, False)
        | Some p \<Rightarrow>
            if \<not> dupok then ((env, out @ [Failed], err), True)
            else if \<not> setok then ((env, out @ [Failed], True), False)
            else ((env(take p arg \<mapsto> drop (p + 1) arg), out, err), False))"

fun export_loop ::
  "(nat \<Rightarrow> bool) \<Rightarrow> (nat \<Rightarrow> bool) \<Rightarrow> nat \<Rightarrow> string list \<Rightarrow> environment \<times> envmsg list \<times> bool \<Rightarrow> (environment \<times> envmsg list) \<times> int"
where
  "export_loop dupok setok k [] st = (case st of (env, out, err) \<Rightarrow>
     ((env, out), if err then EXIT_FAILURE else EXIT_SUCCESS))"
| "export_loop dupok setok k (a # as) st = (case export_one (dupok k) (setok k) a st of
     ((env, out, err), stop) \<Rightarrow>
       if stop then ((env, out), EXIT_FAILURE) else export_loop dupok setok (k + 1) as (env, out, err))"

definition psh_exportEnv ::
  "(nat \<Rightarrow> bool) \<Rightarrow> (nat \<Rightarrow> bool) \<Rightarrow> string list \<Rightarrow> environment \<Rightarrow> string list \<Rightarrow> (environment \<times> envmsg list) \<times> int" where
  "psh_exportEnv dupok setok environ env argv = (case tl argv of
     [] \<Rightarrow> ((env, map Export environ), EXIT_SUCCESS)
   | a # as \<Rightarrow>
       if a \<noteq> [] \<and> hd a = CHR ''-'' then ((env, [UnknownOption a]), EXIT_FAILURE)
       else export_loop dupok setok 0 (a # as) (env, [], False))"

definition psh_unsetEnv :: "environment \<Rightarrow> string list \<Rightarrow> (environment \<times> envmsg list) \<times> int" where
  "psh_unsetEnv env argv = (case tl argv of
     [] \<Rightarrow> ((env, []), EXIT_SUCCESS)
   | a # as \<Rightarrow>
       if a \<noteq> [] \<and> hd a = CHR ''-'' then ((env, [UnknownOption a]), EXIT_FAILURE)
       else ((fold (\<lambda>x e. e(x := None)) (a # as) env, []), EXIT_SUCCESS))"

section \<open>Names\<close>

definition is_identifier :: "string \<Rightarrow> bool" where
  "is_identifier s \<longleftrightarrow> s \<noteq> [] \<and> \<not> isdigit (hd s) \<and> (\<forall>c \<in> set s. isalnum c \<or> c = CHR ''_'')"

lemma validate_loop_neg: "len < 0 \<Longrightarrow> validate_loop s len = 0 \<longleftrightarrow> (\<forall>c \<in> set s. isalnum c \<or> c = CHR ''_'')"
  by (induction s len rule: validate_loop.induct) auto

lemma validate_loop_pos:
  "validate_loop s (int k) = 0 \<longleftrightarrow> (\<forall>c \<in> set (take k s). isalnum c \<or> c = CHR ''_'')"
proof (induction s arbitrary: k)
  case (Cons c cs)
  then show ?case by (cases k) auto
qed simp

lemma validate_ok:
  "psh_validateVarName s (-1) = 0 \<longleftrightarrow> is_identifier s"
  "psh_validateVarName s (int k) = 0 \<longleftrightarrow> is_identifier (take k s)"
  by (cases s; auto simp: psh_validateVarName_def is_identifier_def validate_loop_neg)
    (cases s; cases k; auto simp: psh_validateVarName_def is_identifier_def validate_loop_pos
      simp del: validate_loop.simps of_nat_Suc)

section \<open>What export does\<close>

text \<open>The assignment an argument makes: the part before the first \<open>=\<close> is an identifier.\<close>

definition assignment :: "string \<Rightarrow> (string \<times> string) option" where
  "assignment a = (case strchr a (CHR ''='') of
     None \<Rightarrow> None | Some p \<Rightarrow> if is_identifier (take p a) then Some (take p a, drop (p + 1) a) else None)"

definition assign :: "environment \<Rightarrow> string \<Rightarrow> environment" where
  "assign env a = (case assignment a of None \<Rightarrow> env | Some (n, v) \<Rightarrow> env(n \<mapsto> v))"

lemma export_one_ok:
  "\<exists>out'. export_one True True a (env, out, err) = ((assign env a, out', err), False)"
proof (cases "strchr a (CHR ''='')")
  case None
  then show ?thesis by (auto simp: export_one_def assign_def assignment_def Let_def)
next
  case (Some p)
  then show ?thesis
    using validate_ok(2) [of a p] by (auto simp: export_one_def assign_def assignment_def Let_def)
qed

lemma export_loop_ok:
  "\<forall>k. dupok k \<Longrightarrow> \<forall>k. setok k \<Longrightarrow>
     \<exists>out'. export_loop dupok setok k as (env, out, False) = ((foldl assign env as, out'), EXIT_SUCCESS)"
proof (induction as arbitrary: k env out)
  case (Cons a as)
  obtain out' where "export_one True True a (env, out, False) = ((assign env a, out', False), False)"
    using export_one_ok by blast
  then show ?case using Cons.IH [OF Cons.prems, of "k + 1" "assign env a" out'] Cons.prems by simp
qed simp

text \<open>
  \<open>export\<close>. With arguments (the first not an option) and no failure of the C library, every
  argument \<open>NAME=value\<close> whose name is an identifier is assigned in order, the value being all that
  follows the first \<open>=\<close>; every other argument changes nothing, and the result is success.
\<close>

lemma psh_exportEnv_correct:
  assumes "\<forall>k. dupok k" "\<forall>k. setok k" and "as \<noteq> []" "hd as = [] \<or> hd (hd as) \<noteq> CHR ''-''"
  shows "\<exists>out. psh_exportEnv dupok setok environ env (cmd # as) = ((foldl assign env as, out), EXIT_SUCCESS)"
  using export_loop_ok [OF assms(1,2), of 0 as env "[]"] assms(3,4)
  by (cases as) (auto simp: psh_exportEnv_def simp del: export_loop.simps)

lemma unset_fold: "fold (\<lambda>x e. e(x := None)) xs env = (\<lambda>n. if n \<in> set xs then None else env n)"
  by (induction xs arbitrary: env) auto

text \<open>
  \<open>unset\<close> after \<open>export\<close>. Unsetting a list of names removes exactly these variables, whatever
  was exported before.
\<close>

lemma psh_unsetEnv_correct:
  assumes "xs \<noteq> []" "hd xs = [] \<or> hd (hd xs) \<noteq> CHR ''-''"
  shows "psh_unsetEnv env (cmd # xs) = ((\<lambda>n. if n \<in> set xs then None else env n, []), EXIT_SUCCESS)"
  using assms unset_fold [of xs env]
  by (cases xs) (auto simp: psh_unsetEnv_def simp del: fold_simps)

end
