(* ===== verification/Shell.thy ===== *)
theory Shell
  imports EditLoop Redirect Script Tty Env Getopt "HOL-Library.Word"
begin

text \<open>
  The interactive shell: the command loop of \<open>psh_run\<close>, the small applets \<open>clear\<close>, \<open>reset\<close> and
  \<open>exit\<close>, \<open>psh_clockSync\<close> and the start of the shell in \<open>psh_pshapp\<close>
  (\<open>src/psh/pshapp/pshapp.c\<close>). One iteration takes what \<open>psh_readcmd\<close> returned through
  \<open>psh_parsecmd\<close>, the history, the redirections and the dispatch to an applet.

  An applet is a function of its arguments, the descriptor table it runs on and the history (which
  \<open>history -c\<close> changes); it gives its exit status, the history, whether it asks the shell to exit, and
  the descriptor table as it leaves it (\<open>tty\<close> puts another terminal under the standard streams).
\<close>

unbundle bit_operations_syntax

section \<open>Dispatch\<close>

type_synonym 'f applet = "string list \<Rightarrow> 'f fdtab \<Rightarrow> psh_hist \<Rightarrow> int \<times> psh_hist \<times> bool \<times> 'f fdtab"

text \<open>
  The loop that recognises \<open>/\<close>, \<open>./\<close> and \<open>../\<close>: the final value of \<open>cnt\<close> and the rest of the
  string at \<open>tmp\<close>.
\<close>

fun path_scan :: "nat \<Rightarrow> string \<Rightarrow> nat \<times> string" where
  "path_scan cnt [] = (cnt, [])"
| "path_scan cnt (c # cs) =
     (if c \<noteq> CHR ''.'' then (if c \<noteq> CHR ''/'' then 3 else cnt, c # cs) else path_scan (cnt + 1) cs)"

definition psh_dispatch :: "'a psh_appentry list \<Rightarrow> string \<Rightarrow> 'a psh_appentry option" where
  "psh_dispatch apps arg0 = (case psh_findapp arg0 apps of
     Some app \<Rightarrow> Some app
   | None \<Rightarrow> (case path_scan 0 arg0 of (cnt, tmp) \<Rightarrow>
       if cnt < 3 \<and> argchr tmp 0 = CHR ''/'' \<or> isalnum (argchr arg0 0)
       then psh_findapp ''/'' apps else None))"

section \<open>One command\<close>

record 'f shell =
  sh_hist :: psh_hist
  sh_fds :: "'f fdtab"
  sh_exitStatus :: int
  sh_exit :: bool
  sh_err :: int

datatype 'f runres = Continue "'f shell" | Break int "'f shell"

record 'f runenv =
  rn_apps :: "'f applet psh_appentry list"
  rn_alloc :: "nat \<Rightarrow> bool"
  rn_open :: "string \<Rightarrow> nat \<Rightarrow> 'f option"
  rn_nfd :: nat

definition run_app :: "'f runenv \<Rightarrow> 'f applet psh_appentry \<Rightarrow> string list \<Rightarrow> psh_redir \<Rightarrow> 'f shell \<Rightarrow> 'f shell" where
  "run_app env app args redir s =
     (case psh_streamRedirect (rn_nfd env) (sh_fds s) redir of (t1, r1, err) \<Rightarrow>
        (case (if err = 0 then app_run app args t1 (sh_hist s) else (err, sh_hist s, False, t1)) of (rc, h, ex, ta) \<Rightarrow>
           (case psh_streamRestore ta r1 of (t2, r2, e) \<Rightarrow>
              s\<lparr>sh_fds := t2, sh_hist := h, sh_exitStatus := rc, sh_exit := sh_exit s \<or> ex, sh_err := rc\<rparr>)))"

text \<open>
  The body of the loop behind \<open>psh_readcmd\<close>, for a return code \<open>n\<close> and the buffer \<open>cmd\<close> (not used
  when \<open>n\<close> is negative).
\<close>

definition run_iter :: "'f runenv \<Rightarrow> 'f shell \<Rightarrow> int \<Rightarrow> string \<Rightarrow> 'f runres option" where
  "run_iter env s n cmd =
     (if n < 0 then Some (Break n s)
      else do {
        (b, err, a) \<leftarrow> psh_parsecmd (rn_alloc env) cmd ANull;
        if err < 0 then Some (if err = - EINVAL then Continue (s\<lparr>sh_err := err\<rparr>) else Break err s)
        else do {
          h \<leftarrow> hist_add (sh_hist s) b (nat n);
          let args0 = (case a of Argv qs \<Rightarrow> argv_strings b qs | _ \<Rightarrow> []);
          let s1 = s\<lparr>sh_hist := h, sh_err := 0\<rparr>;
          (case psh_parseRedirections (rn_open env) (rn_nfd env) (sh_fds s) args0 of (t, redir, args, rc) \<Rightarrow>
             let s2 = s1\<lparr>sh_fds := t\<rparr> in
             if rc < 0 then Some (Continue s2)
             else (case args of
                 [] \<Rightarrow> Some (Continue s2)
               | arg0 # _ \<Rightarrow>
                   (case psh_dispatch (rn_apps env) arg0 of
                      Some app \<Rightarrow> Some (Continue (run_app env app args redir s2))
                    | None \<Rightarrow> Some (Continue (s2\<lparr>sh_exitStatus := PSH_UNKNOWN_CMD, sh_err := PSH_UNKNOWN_CMD\<rparr>)))))
        }
      })"

text \<open>
  The loop: each element of the list is one iteration, whether the shell is in the foreground when
  it begins, whether the user typed the exit key in \<open>psh_readcmd\<close>, and what that call returned. The
  end of the loop frees the history. \<open>None\<close> is a fault.
\<close>

fun run_loop :: "'f runenv \<Rightarrow> 'f shell \<Rightarrow> (bool \<times> bool \<times> int \<times> string) list \<Rightarrow> ('f shell \<times> int) option" where
  "run_loop env s [] = Some (s, sh_err s)"
| "run_loop env s ((fg, ex, n, cmd) # rest) =
     (if sh_exit s \<or> \<not> fg then Some (s, sh_err s)
      else do {
        r \<leftarrow> run_iter env (s\<lparr>sh_exit := ex\<rparr>) n cmd;
        (case r of Continue s' \<Rightarrow> run_loop env s' rest | Break e s' \<Rightarrow> Some (s', e))
      })"

text \<open>
  The start of \<open>psh_run\<close>, as the results of the calls it makes: opening the console (one result
  per attempt), whether the history exists already, and the process group, session and terminal
  calls. \<open>Inl\<close> is the error it returns. \<open>firstsh\<close> is \<open>psh_common.tcpid == -1\<close>.
\<close>

record startenv =
  st_firstsh :: bool
  st_ttyopen :: "nat \<Rightarrow> int"
  st_hist :: bool
  st_setsid :: "int option"
  st_sidleader :: bool
  st_ctty :: "int option"
  st_setpgid :: int
  st_tcgetattr :: int
  st_tcsetpgrp :: int
  st_calloc :: bool

fun tty_retry :: "(nat \<Rightarrow> int) \<Rightarrow> nat \<Rightarrow> nat \<Rightarrow> int \<Rightarrow> int" where
  "tty_retry f i 0 err = err"
| "tty_retry f i (Suc k) err = (if f i = 0 then 0 else tty_retry f (i + 1) k (f i))"

definition PSH_TTYOPEN_RETRIES :: nat where
  "PSH_TTYOPEN_RETRIES = 50"

definition run_start :: "startenv \<Rightarrow> int + unit" where
  "run_start e =
     (let err = (if st_firstsh e then tty_retry (st_ttyopen e) 0 PSH_TTYOPEN_RETRIES 0 else 0) in
      if st_firstsh e \<and> err < 0 then Inl err
      else if st_hist e then Inl (- EPERM)
      else if st_firstsh e \<and> (case st_setsid e of Some errno \<Rightarrow> errno \<noteq> EPERM \<or> \<not> st_sidleader e | None \<Rightarrow> False)
        then Inl (- the (st_setsid e))
      else if st_firstsh e \<and> st_ctty e \<noteq> None then Inl (- the (st_ctty e))
      else if \<not> st_firstsh e \<and> st_setpgid e < 0 then Inl (st_setpgid e)
      else if st_tcgetattr e < 0 then Inl (st_tcgetattr e)
      else if st_tcsetpgrp e < 0 then Inl (st_tcsetpgrp e)
      else if \<not> st_calloc e then Inl (- ENOMEM)
      else Inr ())"

definition psh_run ::
  "startenv \<Rightarrow> 'f runenv \<Rightarrow> 'f fdtab \<Rightarrow> int \<Rightarrow> (bool \<times> bool \<times> int \<times> string) list \<Rightarrow> ('f shell option \<times> int) option" where
  "psh_run st env t status cmds = (case run_start st of
     Inl e \<Rightarrow> Some (None, e)
   | Inr _ \<Rightarrow> do {
       (s, err) \<leftarrow> run_loop env \<lparr>sh_hist = hist_init, sh_fds = t, sh_exitStatus = status, sh_exit = False, sh_err = 0\<rparr> cmds;
       h \<leftarrow> hist_release (sh_hist s);
       Some (Some (s\<lparr>sh_hist := h\<rparr>), err)
     })"

section \<open>The small applets\<close>

datatype shout = Err string | Out string

definition psh_clear :: "string list \<Rightarrow> shout list \<times> int" where
  "psh_clear argv =
     (if length argv > 1 then ([Err ''clear: Invalid argument''], EXIT_FAILURE)
      else ([Out (CSI_HOME @ CSI_CLEAR0)], EXIT_SUCCESS))"

text \<open>
  The terminal modes, and the bits the system headers give: \<open>(c_iflag, c_oflag, c_lflag)\<close> and the
  masks \<open>IXON | BRKINT | PARMRK\<close>, \<open>OPOST\<close> and \<open>ICANON | ISIG | ECHO\<close>.
\<close>

type_synonym termios = "32 word \<times> 32 word \<times> 32 word"

abbreviation CSI_RESETSCROLL :: string where "CSI_RESETSCROLL \<equiv> CHR 0x1B # ''[r''"
abbreviation CSI_NORMAL :: string where "CSI_NORMAL \<equiv> CHR 0x1B # ''[m''"
abbreviation CSI_CURSOR_SHOW :: string where "CSI_CURSOR_SHOW \<equiv> CHR 0x1B # ''[?25h''"
abbreviation TERM_INIT :: string where "TERM_INIT \<equiv> CHR 0x1B # ''c''"

definition psh_reset ::
  "termios \<Rightarrow> bool \<Rightarrow> bool \<Rightarrow> termios \<Rightarrow> string list \<Rightarrow> termios \<times> shout list \<times> int" where
  "psh_reset bits getok setok term argv =
     (if length argv > 1 then (term, [Err ''reset: Invalid argument''], EXIT_FAILURE)
      else if \<not> getok then (term, [Err ''reset: tcgetattr() failed''], EXIT_FAILURE)
      else (case (bits, term) of ((bi, bo, bl), (i, ou, l)) \<Rightarrow>
        if \<not> setok then (term, [Err ''reset: failed to set cooked mode''], EXIT_FAILURE)
        else ((i OR bi, ou OR bo, l OR bl),
              [Out (TERM_INIT @ CSI_RESETSCROLL @ CSI_NORMAL @ CSI_CURSOR_SHOW)], EXIT_SUCCESS)))"

definition psh_pshappexit :: "'f applet" where
  "psh_pshappexit argv t h = (0, h, True, t)"

section \<open>Starting the shell\<close>

text \<open>
  \<open>psh_clockSync\<close>: what the calling process goes on with. In the forked child that is the
  replacement by \<open>ntpclient\<close>, after the given number of waits.
\<close>

datatype clock = ClockReturn | ClockExec nat "string list"

definition PSH_CLOCK_PLAUSIBLE :: int where
  "PSH_CLOCK_PLAUSIBLE = 1735689600"

fun bin_wait :: "(nat \<Rightarrow> bool) \<Rightarrow> nat \<Rightarrow> nat \<Rightarrow> nat" where
  "bin_wait access i 0 = i"
| "bin_wait access i (Suc k) = (if access i then i else bin_wait access (Suc i) k)"

definition psh_clockSync :: "int \<Rightarrow> int \<Rightarrow> (nat \<Rightarrow> bool) \<Rightarrow> clock" where
  "psh_clockSync now pid access =
     (if now \<ge> PSH_CLOCK_PLAUSIBLE then ClockReturn
      else if pid \<noteq> 0 then ClockReturn
      else ClockExec (bin_wait access 0 30) [''ntpclient'', ''-w'', ''90''])"

text \<open>The environment variables set when they are missing; \<open>home\<close> is \<open>pw_dir\<close> of the account.\<close>

definition default_environ :: "string option \<Rightarrow> environment \<Rightarrow> environment" where
  "default_environ home env0 =
     (let env1 = (if env0 ''PATH'' = None then env0(''PATH'' \<mapsto> ''/bin:/usr/bin:/sbin:/usr/sbin'') else env0);
          env2 = (if env1 ''HOME'' = None
                  then env1(''HOME'' \<mapsto> (case home of Some d \<Rightarrow> if d \<noteq> [] then d else ''/'' | None \<Rightarrow> ''/''))
                  else env1)
      in if env2 ''TERM'' = None then env2(''TERM'' \<mapsto> ''linux'') else env2)"

text \<open>The option loop: the console and the script path, or \<open>None\<close> for the usage text.\<close>

fun pshapp_opts :: "optev list \<Rightarrow> string \<times> string option \<Rightarrow> (string \<times> string option) option" where
  "pshapp_opts [] st = Some st"
| "pshapp_opts (e # es) (console, path) = (case e of
     Opt c (Some a) \<Rightarrow>
       if c = CHR ''t'' then pshapp_opts es (a, path)
       else if c = CHR ''i'' then pshapp_opts es (console, Some a) else None
   | _ \<Rightarrow> None)"

definition pshapp_args :: "string \<Rightarrow> string list \<Rightarrow> (string \<times> string option) option" where
  "pshapp_args console args =
     (case getopt_scan ''t:i:h'' args of (evs, operands) \<Rightarrow>
        map_option (\<lambda>(con, path). (con, case operands of [] \<Rightarrow> path | a # _ \<Rightarrow> Some a)) (pshapp_opts evs (console, None)))"

datatype 'f session =
    Usage
  | ScriptRan string "action list" int
  | Shell string "'f shell option" int
  | Replaced "string list"

text \<open>
  \<open>psh_pshapp\<close>: the scripts by path, what the calls of \<open>psh_run\<close> return for a console, the clock
  and the commands typed are parameters. The result is what was run and the exit status.
\<close>

record ('f, 'g) pshworld =
  w_script :: "string \<Rightarrow> 'g scriptenv \<times> string list"
  w_start :: "string \<Rightarrow> startenv"
  w_run :: "'f runenv"
  w_fds :: "'f fdtab"
  w_status :: int
  w_cmds :: "(bool \<times> bool \<times> int \<times> string) list"
  w_clock :: clock

definition start_shell :: "('f, 'g) pshworld \<Rightarrow> string \<Rightarrow> ('f session \<times> int) option" where
  "start_shell w console = (case w_clock w of
     ClockExec n argv \<Rightarrow> Some (Replaced argv, EXIT_FAILURE)
   | ClockReturn \<Rightarrow> do {
       (sh, err) \<leftarrow> psh_run (w_start w console) (w_run w) (w_fds w) (w_status w) (w_cmds w);
       Some (Shell console sh err, if err < 0 then EXIT_FAILURE else EXIT_SUCCESS)
     })"

definition psh_pshapp ::
  "string \<Rightarrow> ('f, 'g) pshworld \<Rightarrow> string option \<Rightarrow> environment \<Rightarrow> string list \<Rightarrow> (environment \<times> 'f session \<times> int) option" where
  "psh_pshapp PATH_CONSOLE w home env0 argv =
     (let env = default_environ home env0 in
      (case pshapp_args PATH_CONSOLE (tl argv) of
         None \<Rightarrow> Some (env, Usage, EXIT_SUCCESS)
       | Some (console, None) \<Rightarrow> map_option (Pair env) (start_shell w console)
       | Some (console, Some path) \<Rightarrow> do {
           (acts, err) \<leftarrow> psh_runscript (fst (w_script w path)) (snd (w_script w path));
           if err \<noteq> PSH_SCRIPT_NOTOPENED
           then Some (env, ScriptRan path acts err, if err < 0 then EXIT_FAILURE else EXIT_SUCCESS)
           else map_option (Pair env) (start_shell w console)
         }))"

section \<open>Dispatch: what is run\<close>

lemma path_scan_dots:
  "path_scan k (replicate d CHR ''.'' @ cs) = path_scan (k + d) cs"
  by (induction d arbitrary: k) simp_all

lemma path_scan_result:
  "path_scan k s = (let d = length (takeWhile (\<lambda>c. c = CHR ''.'') s); t = dropWhile (\<lambda>c. c = CHR ''.'') s
     in (if t \<noteq> [] \<and> hd t \<noteq> CHR ''/'' then 3 else k + d, t))"
  by (induction k s rule: path_scan.induct) (auto simp: Let_def)

text \<open>
  Dispatch of a command. The applet registered under the word is run; otherwise the applet for
  executable files is, exactly when the word begins with a letter or digit or is a path that
  begins with \<open>/\<close>, \<open>./\<close> or \<open>../\<close>; any other word is unknown.
\<close>

lemma psh_dispatch_correct:
  "psh_dispatch apps w = (case psh_findapp w apps of
     Some app \<Rightarrow> Some app
   | None \<Rightarrow>
       if (w \<noteq> [] \<and> isalnum (hd w)) \<or> (\<exists>k < 3. \<exists>cs. w = replicate k CHR ''.'' @ CHR ''/'' # cs)
       then psh_findapp ''/'' apps else None)"
proof -
  let ?d = "takeWhile (\<lambda>c. c = CHR ''.'') w" and ?t = "dropWhile (\<lambda>c. c = CHR ''.'') w"
  have dots: "?d = replicate (length ?d) CHR ''.''"
    by (rule replicate_length_same [symmetric]) (auto dest: set_takeWhileD)
  have w: "w = ?d @ ?t" by simp
  have "(\<exists>k < 3. \<exists>cs. w = replicate k CHR ''.'' @ CHR ''/'' # cs)
      \<longleftrightarrow> length ?d < 3 \<and> ?t \<noteq> [] \<and> hd ?t = CHR ''/''"
  proof
    assume "\<exists>k < 3. \<exists>cs. w = replicate k CHR ''.'' @ CHR ''/'' # cs"
    then obtain k cs where k: "k < 3" "w = replicate k CHR ''.'' @ CHR ''/'' # cs" by blast
    then have "?d = replicate k CHR ''.''" "?t = CHR ''/'' # cs"
      using takeWhile_split [of "replicate k CHR ''.''" "\<lambda>c. c = CHR ''.''" "CHR ''/'' # cs"] by simp_all
    then show "length ?d < 3 \<and> ?t \<noteq> [] \<and> hd ?t = CHR ''/''" using k(1) by simp
  next
    assume "length ?d < 3 \<and> ?t \<noteq> [] \<and> hd ?t = CHR ''/''"
    then have d3: "length ?d < 3" and "?t = CHR ''/'' # tl ?t"
      using hd_Cons_tl [of ?t] by auto
    then have "w = replicate (length ?d) CHR ''.'' @ CHR ''/'' # tl ?t"
      using w dots by argo
    with d3 show "\<exists>k < 3. \<exists>cs. w = replicate k CHR ''.'' @ CHR ''/'' # cs" by blast
  qed
  moreover have "(case path_scan 0 w of (cnt, tmp) \<Rightarrow> cnt < 3 \<and> argchr tmp 0 = CHR ''/'')
      \<longleftrightarrow> length ?d < 3 \<and> ?t \<noteq> [] \<and> hd ?t = CHR ''/''"
    unfolding path_scan_result Let_def argchr_def by (cases ?t) simp_all
  moreover have "isalnum (argchr w 0) \<longleftrightarrow> w \<noteq> [] \<and> isalnum (hd w)"
    unfolding argchr_def by (cases w) simp_all
  ultimately show ?thesis
    by (cases "psh_findapp w apps"; cases "path_scan 0 w")
      (simp_all add: psh_dispatch_def disj_commute del: dropWhile_eq_Nil_conv)
qed

section \<open>One command\<close>

definition shell_ok :: "nat \<Rightarrow> 'f shell \<Rightarrow> bool" where
  "shell_ok sz s \<longleftrightarrow> hist_ok sz (sh_hist s) \<and> (\<forall>j < 3. sh_fds s j \<noteq> None)"

text \<open>
  What is asked of the applets: each keeps the history well formed, closes what it opens, and of the
  descriptors it finds changes at most the standard streams, to one of the terminals \<open>V\<close>. Only \<open>tty\<close> does
  the latter; without it \<open>V\<close> is empty.
\<close>

definition applet_ok :: "nat \<Rightarrow> 'f set \<Rightarrow> 'f applet \<Rightarrow> bool" where
  "applet_ok sz V run \<longleftrightarrow> (\<forall>args t h. case run args t h of (c, h', ex, ta) \<Rightarrow>
     (hist_ok sz h \<longrightarrow> hist_ok sz h') \<and> (\<forall>fd. ta fd = t fd \<or> fd < 3 \<and> ta fd \<in> Some ` V))"

definition apps_ok :: "nat \<Rightarrow> 'f set \<Rightarrow> 'f runenv \<Rightarrow> bool" where
  "apps_ok sz V env \<longleftrightarrow> (\<forall>app \<in> set (rn_apps env). applet_ok sz V (app_run app))"

lemma applet_okD:
  assumes "applet_ok sz V run" "run args t h = (c, h', ex, ta)"
  shows "hist_ok sz h \<Longrightarrow> hist_ok sz h'" "3 \<le> fd \<Longrightarrow> ta fd = t fd" "ta fd = t fd \<or> ta fd \<in> Some ` V"
    "\<forall>j < 3. t j \<noteq> None \<Longrightarrow> \<forall>j < 3. ta j \<noteq> None"
proof -
  have "case run args t h of (c, h', ex, ta) \<Rightarrow>
     (hist_ok sz h \<longrightarrow> hist_ok sz h') \<and> (\<forall>fd. ta fd = t fd \<or> fd < 3 \<and> ta fd \<in> Some ` V)"
    using assms(1) by (simp add: applet_ok_def)
  then have ok: "hist_ok sz h \<longrightarrow> hist_ok sz h'" "ta fd = t fd \<or> fd < 3 \<and> ta fd \<in> Some ` V" for fd
    using assms(2) by auto
  show "hist_ok sz h \<Longrightarrow> hist_ok sz h'" "3 \<le> fd \<Longrightarrow> ta fd = t fd" "ta fd = t fd \<or> ta fd \<in> Some ` V"
    using ok(1) ok(2) [of fd] by auto
  show "\<forall>j < 3. ta j \<noteq> None" if "\<forall>j < 3. t j \<noteq> None" using that ok(2) by (metis image_iff option.distinct(1))
qed

text \<open>What a successful \<open>psh_readcmd\<close> returns.\<close>

definition line_ok :: "nat \<Rightarrow> int \<Rightarrow> string \<Rightarrow> bool" where
  "line_ok sz n cmd \<longleftrightarrow> 0 \<le> n \<longrightarrow> length cmd = Suc sz \<and> n \<le> int sz \<and> cmd ! nat n = NUL"

definition run_result :: "'f runres \<Rightarrow> 'f shell" where
  "run_result r = (case r of Continue s \<Rightarrow> s | Break _ s \<Rightarrow> s)"

lemma dispatch_mem: "psh_dispatch apps w = Some app \<Longrightarrow> app \<in> set apps"
  by (auto simp: psh_dispatch_def dest: findapp_Some split: option.splits prod.splits if_splits)

text \<open>
  Running an applet between \<open>psh_streamRedirect\<close> and \<open>psh_streamRestore\<close>: the whole state afterwards.
\<close>

lemma run_app_result:
  assumes std: "\<forall>j < 3. t j \<noteq> None" and p: "psh_parseRedirections opn (rn_nfd env) t argv = (t1, r, args, rc)"
    and rc: "\<not> rc < 0" and s: "sh_fds s = t1" and app: "applet_ok sz V (app_run app)"
    and d: "psh_streamRedirect (rn_nfd env) t1 r = (t2, r2, e)"
  shows "e \<noteq> 0 \<Longrightarrow> run_app env app args r s = s\<lparr>sh_fds := t, sh_exitStatus := e, sh_err := e\<rparr>"
    and "e = 0 \<Longrightarrow> app_run app args t2 (sh_hist s) = (c, h, ex, ta) \<Longrightarrow> run_app env app args r s
      = s\<lparr>sh_fds := \<lambda>fd. if fd < 3 \<and> targets t1 r fd = None then ta fd else t fd,
          sh_hist := h, sh_exitStatus := c, sh_exit := sh_exit s \<or> ex, sh_err := c\<rparr>"
proof -
  note S = redirections_start [OF std p rc d]
  obtain r3 where "psh_streamRestore t2 r2 = (t, r3, 0)" using restore_ok [OF S(3) std] by blast
  then show "run_app env app args r s = s\<lparr>sh_fds := t, sh_exitStatus := e, sh_err := e\<rparr>" if "e \<noteq> 0"
    using d s that by (simp add: run_app_def)
  assume e: "e = 0" and run: "app_run app args t2 (sh_hist s) = (c, h, ex, ta)"
  have "\<forall>fd \<ge> 3. ta fd = t2 fd" "\<forall>j < 3. ta j \<noteq> None"
    using applet_okD(2,4) [OF app run] S(3) by (auto simp: streams_def)
  then obtain r4 where "psh_streamRestore ta r2 = (\<lambda>fd. if fd < 3 \<and> save r2 fd = -1 then ta fd else t fd, r4, 0)"
    using restore_after [OF S(3) std] by blast
  moreover have "(\<lambda>fd. if fd < 3 \<and> save r2 fd = -1 then ta fd else t fd)
      = (\<lambda>fd. if fd < 3 \<and> targets t1 r fd = None then ta fd else t fd)"
    using S(5) [OF e] by (intro ext if_cong) auto
  ultimately show "run_app env app args r s
      = s\<lparr>sh_fds := \<lambda>fd. if fd < 3 \<and> targets t1 r fd = None then ta fd else t fd,
          sh_hist := h, sh_exitStatus := c, sh_exit := sh_exit s \<or> ex, sh_err := c\<rparr>"
    using d s e run by (simp add: run_app_def)
qed

text \<open>The streams of the shell, compared with those of an earlier table.\<close>

definition same_streams :: "'f set \<Rightarrow> 'f fdtab \<Rightarrow> 'f fdtab \<Rightarrow> bool" where
  "same_streams V t t' \<longleftrightarrow> (\<forall>j < 3. t' j = t j \<or> t' j \<in> Some ` V)"

lemma same_streams_refl [simp]: "same_streams V t t"
  by (simp add: same_streams_def)

lemma same_streams_trans: "same_streams V t t' \<Longrightarrow> same_streams V t' t'' \<Longrightarrow> same_streams V t t''"
  unfolding same_streams_def by metis

lemma same_streams_open: "same_streams V t t' \<Longrightarrow> \<forall>j < 3. t j \<noteq> None \<Longrightarrow> \<forall>j < 3. t' j \<noteq> None"
  unfolding same_streams_def by (metis image_iff option.distinct(1))

lemma run_app_ok:
  assumes std: "\<forall>j < 3. t j \<noteq> None" and p: "psh_parseRedirections opn (rn_nfd env) t argv = (t1, r, args, rc)"
    and rc: "\<not> rc < 0" and s: "sh_fds s = t1" "hist_ok sz (sh_hist s)"
    and app: "app \<in> set (rn_apps env)" "apps_ok sz V env"
  shows "same_streams V t (sh_fds (run_app env app args r s))" "hist_ok sz (sh_hist (run_app env app args r s))"
proof -
  obtain t2 r2 e where d: "psh_streamRedirect (rn_nfd env) t1 r = (t2, r2, e)" by (metis prod_cases3)
  obtain c h ex ta where run: "app_run app args t2 (sh_hist s) = (c, h, ex, ta)" by (metis prod_cases4)
  have ok: "applet_ok sz V (app_run app)" using app by (simp add: apps_ok_def)
  note R = run_app_result [OF std p rc s(1) ok d] and A = applet_okD [OF ok run]
  have "\<forall>j < 3. targets t1 r j = None \<longrightarrow> t2 j = t j" if "e = 0"
    using redirections_start(4) [OF std p rc d that] by auto
  then have "same_streams V t (\<lambda>fd. if fd < 3 \<and> targets t1 r fd = None then ta fd else t fd)" if "e = 0"
    using that A(3) by (auto simp: same_streams_def) metis
  then show "same_streams V t (sh_fds (run_app env app args r s))" "hist_ok sz (sh_hist (run_app env app args r s))"
    using R(1) R(2) [OF _ run] s(2) A(1) by (cases "e = 0"; simp)+
qed

lemma run_iter_ok:
  assumes ok: "shell_ok sz s" and line: "line_ok sz n cmd" and apps: "apps_ok sz V env"
  shows "\<exists>r. run_iter env s n cmd = Some r \<and> hist_ok sz (sh_hist (run_result r))
    \<and> same_streams V (sh_fds s) (sh_fds (run_result r))"
proof (cases "n < 0")
  case True
  then show ?thesis using ok by (simp add: run_iter_def run_result_def shell_ok_def)
next
  case False
  then have cmd: "length cmd = Suc sz" "nat n \<le> sz" "cmd ! nat n = NUL" using line by (auto simp: line_ok_def)
  note std = ok [unfolded shell_ok_def, THEN conjunct2]
  obtain b err a where p: "psh_parsecmd (rn_alloc env) cmd ANull = Some (b, err, a)"
    "err < 0 \<or> err = 0 \<and> length b = length cmd" using parsecmd_total [of "nat n" cmd "rn_alloc env" ANull] cmd by auto
  show ?thesis
  proof (cases "err < 0")
    case True
    then show ?thesis using False p ok by (auto simp: run_iter_def run_result_def shell_ok_def)
  next
    case e: False
    obtain h where h: "hist_add (sh_hist s) b (nat n) = Some h" "hist_ok sz h"
      using hist_add_refines [of sz "sh_hist s" b "nat n"] ok p(2) e cmd by (auto simp: shell_ok_def)
    define args0 where "args0 = (case a of Argv qs \<Rightarrow> argv_strings b qs | _ \<Rightarrow> [])"
    obtain t r args rc where q: "psh_parseRedirections (rn_open env) (rn_nfd env) (sh_fds s) args0 = (t, r, args, rc)"
      by (metis prod_cases4)
    have t: "same_streams V (sh_fds s) t" using redirections_fds(1) [OF std q] by (simp add: same_streams_def)
    define s2 where "s2 = s\<lparr>sh_hist := h, sh_err := 0, sh_fds := t\<rparr>"
    have it: "run_iter env s n cmd = (if rc < 0 then Some (Continue s2) else (case args of
           [] \<Rightarrow> Some (Continue s2)
         | arg0 # _ \<Rightarrow> (case psh_dispatch (rn_apps env) arg0 of
                Some app \<Rightarrow> Some (Continue (run_app env app args r s2))
              | None \<Rightarrow> Some (Continue (s2\<lparr>sh_exitStatus := PSH_UNKNOWN_CMD, sh_err := PSH_UNKNOWN_CMD\<rparr>)))))"
      using False e p(1) h(1) q 
      by (simp add: run_iter_def args0_def [symmetric] s2_def Let_def split: list.split option.split)
    have s2: "sh_fds s2 = t" "hist_ok sz (sh_hist s2)" using h(2) by (simp_all add: s2_def)
    note app = run_app_ok [OF std q _ s2 dispatch_mem apps]
    show ?thesis
      unfolding it using s2 t app by (auto simp: run_result_def split: list.splits option.splits)
  qed
qed


lemma run_loop_ok:
  "shell_ok sz s \<Longrightarrow> apps_ok sz V env \<Longrightarrow> \<forall>(fg, ex, n, cmd) \<in> set cmds. line_ok sz n cmd \<Longrightarrow>
     \<exists>s' e. run_loop env s cmds = Some (s', e) \<and> hist_ok sz (sh_hist s') \<and> same_streams V (sh_fds s) (sh_fds s')"
proof (induction cmds arbitrary: s)
  case (Cons c cmds)
  obtain fg ex n cmd where c: "c = (fg, ex, n, cmd)" by (metis prod_cases4)
  have ok: "shell_ok sz (s\<lparr>sh_exit := ex\<rparr>)" "line_ok sz n cmd" using Cons.prems c by (auto simp: shell_ok_def)
  then obtain r where r: "run_iter env (s\<lparr>sh_exit := ex\<rparr>) n cmd = Some r" "hist_ok sz (sh_hist (run_result r))"
      "same_streams V (sh_fds s) (sh_fds (run_result r))"
    using run_iter_ok [OF ok Cons.prems(2)] by auto
  show ?case
  proof (cases r)
    case (Continue s')
    have "shell_ok sz s'" using Continue r(2) same_streams_open [OF r(3)] Cons.prems(1) by (simp add: run_result_def shell_ok_def)
    then obtain s'' e where "run_loop env s' cmds = Some (s'', e)" "hist_ok sz (sh_hist s'')" "same_streams V (sh_fds s') (sh_fds s'')"
      using Cons.IH [of s'] Cons.prems(2,3) by auto
    then show ?thesis
      using c r Continue Cons.prems(1) same_streams_trans [OF r(3)] by (simp add: run_result_def shell_ok_def)
  qed (use c r Cons.prems(1) in \<open>simp add: run_result_def shell_ok_def\<close>)
qed (simp add: shell_ok_def)

lemma psh_run_total:
  assumes "\<forall>j < 3. t j \<noteq> None" "apps_ok sz V env" "\<forall>(fg, ex, n, cmd) \<in> set cmds. line_ok sz n cmd"
  shows "\<exists>sh err. psh_run st env t status cmds = Some (sh, err) \<and>
    (case sh of None \<Rightarrow> run_start st = Inl err
     | Some s \<Rightarrow> run_start st = Inr () \<and> (\<forall>j < 3. sh_fds s j \<noteq> None \<and> (sh_fds s j = t j \<or> sh_fds s j \<in> Some ` V))
         \<and> (\<forall>i < HISTSZ. ent_unowned (entries (sh_hist s) i)))"
proof (cases "run_start st")
  case (Inr u)
  let ?s0 = "\<lparr>sh_hist = hist_init, sh_fds = t, sh_exitStatus = status, sh_exit = False, sh_err = 0\<rparr>"
  have "shell_ok sz ?s0" using assms(1) hist_ok_init by (simp add: shell_ok_def)
  then obtain s e where s: "run_loop env ?s0 cmds = Some (s, e)" "hist_ok sz (sh_hist s)" "same_streams V t (sh_fds s)"
    using run_loop_ok [of sz ?s0 V env cmds] assms(2,3) by auto
  obtain h where "hist_release (sh_hist s) = Some h" "\<forall>i < HISTSZ. ent_unowned (entries h i)"
    using hist_release_ok [OF s(2)] by auto
  then show ?thesis
    using s Inr same_streams_open [OF s(3) assms(1)] by (simp add: psh_run_def same_streams_def)
qed (simp add: psh_run_def)

text \<open>
  C11: A whole session of the shell. The standard streams are open at the start, and the applets may put one of
  the terminals \<open>V\<close> under a standard stream (only \<open>tty\<close> does) but leave every other descriptor as they find
  it. Then, whatever lines \<open>psh_readcmd\<close> returns, every command passes through parsing, history,
  redirection and dispatch without an access outside a buffer or a double free. When the loop ends, each
  standard stream is open and is the one the shell started with or one of \<open>V\<close>, so no command's
  redirection is left behind; without \<open>tty\<close> (\<open>V\<close> empty) the streams are exactly those of the start. The
  history is released and no command buffer is left.
\<close>

theorem psh_run_session:
  assumes "\<forall>j < 3. t j \<noteq> None" "apps_ok sz V env" "\<forall>(fg, ex, n, cmd) \<in> set cmds. line_ok sz n cmd"
  shows "\<exists>sh err. psh_run st env t status cmds = Some (sh, err) \<and>
    (case sh of None \<Rightarrow> run_start st = Inl err
     | Some s \<Rightarrow> run_start st = Inr () \<and> (\<forall>j < 3. sh_fds s j \<noteq> None \<and> (sh_fds s j = t j \<or> sh_fds s j \<in> Some ` V))
         \<and> (\<forall>i < HISTSZ. ent_unowned (entries (sh_hist s) i)))"
  using assms by (rule psh_run_total)

definition start_demo :: startenv where
  "start_demo = \<lparr>st_firstsh = True, st_ttyopen = \<lambda>_. 0, st_hist = False, st_setsid = None, st_sidleader = True,
     st_ctty = None, st_setpgid = 0, st_tcgetattr = 0, st_tcsetpgrp = 0, st_calloc = True\<rparr>"

definition run_demo :: "string runenv" where
  "run_demo = \<lparr>rn_apps = [\<lparr>app_name = ''exit'', app_run = psh_pshappexit\<rparr>], rn_alloc = \<lambda>_. True,
     rn_open = \<lambda>p _. Some p, rn_nfd = 16\<rparr>"

lemma exit_ok: "applet_ok sz V psh_pshappexit"
  by (simp add: applet_ok_def psh_pshappexit_def)

text \<open>The applet \<open>tty\<close> keeps the contract, with the terminals that can be opened.\<close>

lemma tty_ok:
  "applet_ok sz {f. \<exists>p. tm_open e p 3 = Some f \<and> tm_isatty e f}
     (\<lambda>argv t h. case psh_ttyMain e dev argv t of (t', dev', rc) \<Rightarrow> (rc, h, False, t'))"
  unfolding applet_ok_def
proof (intro allI)
  fix argv t h
  obtain t' dev' rc where m: "psh_ttyMain e dev argv t = (t', dev', rc)" by (metis prod_cases3)
  show "case (case psh_ttyMain e dev argv t of (t', dev', rc) \<Rightarrow> (rc, h, False, t')) of (c, h', ex, ta) \<Rightarrow>
     (hist_ok sz h \<longrightarrow> hist_ok sz h')
     \<and> (\<forall>fd. ta fd = t fd \<or> fd < 3 \<and> ta fd \<in> Some ` {f. \<exists>p. tm_open e p 3 = Some f \<and> tm_isatty e f})"
    using psh_ttyMain_table [OF m] by (auto simp: m image_iff split: if_splits)
qed

lemma run_demo_ok: "apps_ok sz V run_demo"
  by (simp add: apps_ok_def run_demo_def exit_ok)

theorem psh_run_session_witness:
  "\<exists>sh err. psh_run start_demo run_demo tty_fds 0
      [(True, False, 8, ''ls > out'' @ [NUL, NUL]), (True, False, 8, ''exit 2>o'' @ [NUL, NUL])] = Some (sh, err) \<and>
    (case sh of None \<Rightarrow> run_start start_demo = Inl err
     | Some s \<Rightarrow> run_start start_demo = Inr ()
         \<and> (\<forall>j < 3. sh_fds s j \<noteq> None \<and> (sh_fds s j = tty_fds j \<or> sh_fds s j \<in> Some ` {}))
         \<and> (\<forall>i < HISTSZ. ent_unowned (entries (sh_hist s) i)))"
  by (rule psh_run_session [where sz = 9]) (simp_all add: tty_fds_def run_demo_ok line_ok_def)

text \<open>The iteration for a command line whose words, without the redirections, name an applet.\<close>

lemma run_iter_app:
  assumes ok: "shell_ok sz s" and line: "cmd = l @ NUL # r" "NUL \<notin> set l" "length cmd = Suc sz"
    and alloc: "\<forall>k. rn_alloc env k" and words: "words_of l \<noteq> []"
  obtains h t1 redir args rc where
    "hist_add (sh_hist s) (tokenised l @ NUL # r) (length l) = Some h" "hist_ok sz h"
    "hist_list h = hist_push (hist_list (sh_hist s)) (tokenised l)"
    "psh_parseRedirections (rn_open env) (rn_nfd env) (sh_fds s) (words_of l) = (t1, redir, args, rc)"
    "\<And>w ws app. \<not> rc < 0 \<Longrightarrow> args = w # ws \<Longrightarrow> psh_dispatch (rn_apps env) w = Some app \<Longrightarrow>
       run_iter env s (int (length l)) cmd
         = Some (Continue (run_app env app args redir (s\<lparr>sh_hist := h, sh_err := 0, sh_fds := t1\<rparr>)))"
    "rc < 0 \<or> args = [] \<Longrightarrow>
       run_iter env s (int (length l)) cmd = Some (Continue (s\<lparr>sh_hist := h, sh_err := 0, sh_fds := t1\<rparr>))"
proof -
  obtain qs where p: "psh_parsecmd (rn_alloc env) cmd ANull = Some (tokenised l @ NUL # r, 0, Argv qs)"
    "argv_strings (tokenised l @ NUL # r) qs = words_of l"
    using parsecmd_result [OF line(2) words, of "rn_alloc env" r ANull] alloc line(1) by auto
  have len: "length (tokenised l @ NUL # r) = Suc sz" "length l \<le> sz" using line(1,3) by (simp_all add: length_tokenised)
  then obtain h where h: "hist_add (sh_hist s) (tokenised l @ NUL # r) (length l) = Some h" "hist_ok sz h"
    "hist_list h = hist_push (hist_list (sh_hist s)) (take (length l) (tokenised l @ NUL # r))"
    using hist_add_refines [OF _ len, of "sh_hist s"] ok by (auto simp: shell_ok_def)
  obtain t1 redir args rc where q:
    "psh_parseRedirections (rn_open env) (rn_nfd env) (sh_fds s) (words_of l) = (t1, redir, args, rc)" by (metis prod_cases4)
  show thesis
  proof (rule that [OF h(1,2) _ q])
    show "hist_list h = hist_push (hist_list (sh_hist s)) (tokenised l)" using h(3) by (simp add: length_tokenised)
  qed (use p h(1) q in \<open>auto simp: run_iter_def Let_def\<close>)
qed

text \<open>
  C12: Running an applet from the command line. For a line whose words, once its redirections are taken out,
  begin with the name of an applet, the line is remembered and then one of three things happens. When a
  redirection cannot be opened (\<open>rc < 0\<close>) nothing is run and nothing else changes; when the streams cannot
  be connected (\<open>e \<noteq> 0\<close>) nothing is run and \<open>e\<close> is the exit status; the descriptor table is as before in both
  cases. Otherwise the applet has run with those words and with the standard streams on the files named last;
  the exit status, the history and the request to exit are its own; and the descriptor table is the one before
  the command, except that a standard stream without a redirection stays as the applet left it. With more
  than six free descriptors the applet always runs.
\<close>

theorem run_iter_runs_applet:
  assumes ok: "shell_ok sz s" "apps_ok sz V env" and line: "cmd = l @ NUL # r" "NUL \<notin> set l" "length cmd = Suc sz"
    and alloc: "\<forall>k. rn_alloc env k" and words: "words_of l \<noteq> []"
    and spec: "redir_spec (rn_open env) (words_of l) (\<lambda>_. None) = Inr (w # ws, g)"
    and app: "psh_dispatch (rn_apps env) w = Some app"
  shows "\<exists>s' h t1 redir args rc t2 r2 e. run_iter env s (int (length l)) cmd = Some (Continue s')
    \<and> hist_list h = hist_push (hist_list (sh_hist s)) (tokenised l)
    \<and> psh_parseRedirections (rn_open env) (rn_nfd env) (sh_fds s) (words_of l) = (t1, redir, args, rc)
    \<and> psh_streamRedirect (rn_nfd env) t1 redir = (t2, r2, e)
    \<and> (fd_room (rn_nfd env) (sh_fds s) \<longrightarrow> rc = 0 \<and> e = 0)
    \<and> (if rc < 0 then s' = s\<lparr>sh_hist := h, sh_err := 0\<rparr>
       else if e \<noteq> 0 then s' = s\<lparr>sh_hist := h, sh_exitStatus := e, sh_err := e\<rparr>
       else (\<forall>i < 3. t2 i = (case g i of Some f \<Rightarrow> Some f | None \<Rightarrow> sh_fds s i))
         \<and> (\<exists>c h' ex ta. app_run app (w # ws) t2 h = (c, h', ex, ta)
            \<and> s' = s\<lparr>sh_hist := h', sh_fds := \<lambda>fd. if fd < 3 \<and> g fd = None then ta fd else sh_fds s fd,
                     sh_exitStatus := c, sh_exit := sh_exit s \<or> ex, sh_err := c\<rparr>))"
proof -
  obtain h t1 redir args rc where it:
    "hist_list h = hist_push (hist_list (sh_hist s)) (tokenised l)"
    "psh_parseRedirections (rn_open env) (rn_nfd env) (sh_fds s) (words_of l) = (t1, redir, args, rc)"
    "\<And>w ws app. \<not> rc < 0 \<Longrightarrow> args = w # ws \<Longrightarrow> psh_dispatch (rn_apps env) w = Some app \<Longrightarrow>
       run_iter env s (int (length l)) cmd
         = Some (Continue (run_app env app args redir (s\<lparr>sh_hist := h, sh_err := 0, sh_fds := t1\<rparr>)))"
    "rc < 0 \<or> args = [] \<Longrightarrow>
       run_iter env s (int (length l)) cmd = Some (Continue (s\<lparr>sh_hist := h, sh_err := 0, sh_fds := t1\<rparr>))"
    using run_iter_app [OF ok(1) line alloc words] by metis
  obtain t2 r2 e where d: "psh_streamRedirect (rn_nfd env) t1 redir = (t2, r2, e)" by (metis prod_cases3)
  note std = ok(1) [unfolded shell_ok_def, THEN conjunct2]
  note room = redirections_room [OF std _ spec it(2) d]
  have finish: ?thesis
    if "run_iter env s (int (length l)) cmd = Some (Continue s')"
      and "if rc < 0 then s' = s\<lparr>sh_hist := h, sh_err := 0\<rparr>
       else if e \<noteq> 0 then s' = s\<lparr>sh_hist := h, sh_exitStatus := e, sh_err := e\<rparr>
       else (\<forall>i < 3. t2 i = (case g i of Some f \<Rightarrow> Some f | None \<Rightarrow> sh_fds s i))
         \<and> (\<exists>c h' ex ta. app_run app (w # ws) t2 h = (c, h', ex, ta)
            \<and> s' = s\<lparr>sh_hist := h', sh_fds := \<lambda>fd. if fd < 3 \<and> g fd = None then ta fd else sh_fds s fd,
                     sh_exitStatus := c, sh_exit := sh_exit s \<or> ex, sh_err := c\<rparr>)" for s'
    by (rule exI [of _ s'], rule exI [of _ h], rule exI [of _ t1], rule exI [of _ redir], rule exI [of _ args],
        rule exI [of _ rc], rule exI [of _ t2], rule exI [of _ r2], rule exI [of _ e],
        intro conjI that it(1,2) d impI room)
  show ?thesis
  proof (cases "rc < 0")
    case True
    let ?s = "s\<lparr>sh_hist := h, sh_err := 0\<rparr>"
    have eq: "s\<lparr>sh_hist := h, sh_err := 0, sh_fds := t1\<rparr> = ?s" using redirections_fds(2) [OF std it(2) True] by simp
    show ?thesis by (rule finish [OF it(4) [OF disjI1 [OF True], unfolded eq]]) (simp add: True)
  next
    case False
    note S = redirections_start [OF std it(2) False d]
    have g: "args = w # ws" "targets t1 redir = g" using S(2) spec by simp_all
    let ?s0 = "s\<lparr>sh_hist := h, sh_err := 0, sh_fds := t1\<rparr>"
    have "applet_ok sz V (app_run app)" using dispatch_mem [OF app] ok(2) by (simp add: apps_ok_def)
    note R = run_app_result [where s = ?s0, OF std it(2) False _ this d, simplified, unfolded g]
    note run = finish [OF it(3) [OF False g(1) app, unfolded g(1)]]
    show ?thesis
    proof (cases "e = 0")
      case True
      obtain c h' ex ta where a: "app_run app (w # ws) t2 h = (c, h', ex, ta)" by (metis prod_cases4)
      show ?thesis by (rule run) (use True False a R(2) [OF True a] S(4) [OF True, unfolded g] in simp)
    qed (rule run, use False R(1) in simp)
  qed
qed

definition shell_demo :: "string shell" where
  "shell_demo = \<lparr>sh_hist = hist_init, sh_fds = tty_fds, sh_exitStatus = 7, sh_exit = False, sh_err = 0\<rparr>"

lemma shell_demo_ok: "shell_ok sz shell_demo"
  by (simp add: shell_ok_def tty_fds_def hist_ok_init shell_demo_def)

text \<open>On the example shell the applet \<open>exit\<close> of \<open>exit >o\<close> runs: the shell is asked to exit with status 0.\<close>

theorem run_iter_runs_applet_witness:
  "\<exists>s'. run_iter run_demo shell_demo (int (length ''exit >o'')) (''exit >o'' @ NUL # []) = Some (Continue s')
    \<and> sh_exit s' \<and> sh_exitStatus s' = 0 \<and> sh_fds s' = tty_fds"
proof -
  have w: "words_of ''exit >o'' = [''exit'', ''>o'']" by (simp add: words_of.simps delim_def)
  have room: "fd_room 16 tty_fds" by (simp add: fd_room_def tty_fds_def upt_rec)
  have a: "\<forall>k. rn_alloc run_demo k" "rn_nfd run_demo = 16" "rn_apps run_demo = [\<lparr>app_name = ''exit'', app_run = psh_pshappexit\<rparr>]"
    by (simp_all add: run_demo_def)
  have s: "sh_fds shell_demo = tty_fds" by (simp add: shell_demo_def)
  have spec: "redir_spec (rn_open run_demo) (words_of ''exit >o'') (\<lambda>_. None) = Inr (''exit'' # [], [1 \<mapsto> ''o''])"
    by (auto simp: w redir_classify_def redir_marker_def argchr_def run_demo_def retarget_def marks_def fun_eq_iff)
  have app: "psh_dispatch (rn_apps run_demo) ''exit'' = Some \<lparr>app_name = ''exit'', app_run = psh_pshappexit\<rparr>"
    by (simp add: psh_dispatch_def run_demo_def)
  have line: "''exit >o'' @ NUL # [] = ''exit >o'' @ NUL # []" "NUL \<notin> set ''exit >o''"
    "length (''exit >o'' @ NUL # []) = Suc 7" "words_of ''exit >o'' \<noteq> []" by (simp_all add: w)
  note T = run_iter_runs_applet [OF shell_demo_ok run_demo_ok line(1-3) a(1) line(4) spec app, unfolded a(2) s]
  obtain s' t2 where r: "run_iter run_demo shell_demo (int (length ''exit >o'')) (''exit >o'' @ NUL # []) = Some (Continue s')"
    "(\<forall>i < 3. t2 i = (case [1 \<mapsto> ''o''] i of Some f \<Rightarrow> Some f | None \<Rightarrow> tty_fds i)) \<and> (\<exists>h' c x ta h.
       app_run \<lparr>app_name = ''exit'', app_run = psh_pshappexit\<rparr> [''exit''] t2 h = (c, h', x, ta)
       \<and> s' = shell_demo\<lparr>sh_hist := h', sh_fds := \<lambda>fd. if fd < 3 \<and> [1 \<mapsto> ''o''] fd = None then ta fd else tty_fds fd,
            sh_exitStatus := c, sh_exit := sh_exit shell_demo \<or> x, sh_err := c\<rparr>)"
    using T
    apply (elim exE conjE)
    subgoal premises p for s' h t1 redir args rc t2 r2 e
    proof -
      have z: "rc = 0" "e = 0" using p(6) room by simp_all
      note q = p(7) [unfolded z, simplified less_irrefl if_False simp_thms]
      show thesis by (rule that [OF p(2), of t2]) (intro conjI q [THEN conjunct1], use q [THEN conjunct2] in blast)
    qed
    done
  have "sh_exit s'" "sh_exitStatus s' = 0" "sh_fds s' = (\<lambda>fd. if fd < 3 \<and> [1 \<mapsto> ''o''] fd = None then t2 fd else tty_fds fd)"
    using r(2) by (auto simp: psh_pshappexit_def)
  moreover from this(3) have "sh_fds s' = tty_fds" using r(2) by auto
  ultimately show ?thesis using r(1) by blast
qed

text \<open>
  A defect: a line that holds nothing but redirections leaks their descriptors. After \<open>> f\<close>
  the shell goes on with the file still open in the lowest free descriptor.
\<close>

lemma redirection_only_leaks:
  assumes ok: "shell_ok (length cmd - 1) s" and cmd: "cmd = ''> '' @ p @ [NUL]"
    and p: "p \<noteq> []" "\<forall>c \<in> set p. wordchr c" and alloc: "\<forall>k. rn_alloc env k"
    and opn: "rn_open env p 770 = Some f" "fd_lowest (rn_nfd env) (sh_fds s) = Some fd"
  shows "\<exists>s'. run_iter env s (int (length p) + 2) cmd = Some (Continue s') \<and> sh_fds s' = (sh_fds s)(fd \<mapsto> f)"
proof -
  have nn: "NUL \<notin> set (''> '' @ p)" using p(2) by (auto simp: wordchr_iff)
  have "words_of (''>'' @ CHR '' '' # p) = [''>'', p]"
    using words_step(1) [of "[]" "''>''" "CHR '' '' # p"] words_step(1) [of "[]" p "[]"] p
    by (simp add: words_delim wordchr_iff delim_def words_none)
  then have w: "words_of (''> '' @ p) = [''>'', p]" by simp
  have line: "cmd = (''> '' @ p) @ NUL # []" "length cmd = Suc (length cmd - 1)" using cmd by simp_all
  have c: "redir_classify ''>'' = Some (M_OUT, 770, [])"
    by (simp add: redir_classify_def redir_marker_def argchr_def Let_def)
  have rd: "psh_parseRedirections (rn_open env) (rn_nfd env) (sh_fds s) [''>'', p]
      = ((sh_fds s)(fd \<mapsto> f), redir_none\<lparr>red := (\<lambda>_. -1)(1 := int fd)\<rparr>, [], 0)"
    using opn by (simp add: psh_parseRedirections_def c sys_open_def fd_alloc_def apply_marker_def set_red_def redir_none_def)
  show ?thesis
  proof (rule run_iter_app [OF ok line(1) nn line(2) alloc])
    show "words_of (''> '' @ p) \<noteq> []" unfolding w by simp
  next
    fix h t1 redir args rc
    assume "psh_parseRedirections (rn_open env) (rn_nfd env) (sh_fds s) (words_of (''> '' @ p)) = (t1, redir, args, rc)"
      "rc < 0 \<or> args = [] \<Longrightarrow>
       run_iter env s (int (length (''> '' @ p))) cmd = Some (Continue (s\<lparr>sh_hist := h, sh_err := 0, sh_fds := t1\<rparr>))"
    then show ?thesis using rd unfolding w by (simp add: add.commute)
  qed
qed

section \<open>Recalling a command\<close>

text \<open>
  Pressing Up and Enter runs the last command again. Whatever a line was, once it has been split
  in place by \<open>psh_parsecmd\<close> and kept in the history, the next \<open>psh_readcmd\<close> returns for these keys
  a line that \<open>psh_parsecmd\<close> splits into the same arguments.
\<close>

lemma recalled_command_same:
  assumes env: "0 < e_wscol env" and h: "hist_ok (e_cmdsz env) h"
    and line: "NUL \<notin> set l" "words_of l \<noteq> []" "length (l @ NUL # r) = Suc (e_cmdsz env)" and alloc: "\<forall>k. alloc k"
    and bufs: "length cmd0 = Suc (e_cmdsz env)" "length buff0 = 8" "length clip = e_cmdsz env" "cliplen \<le> e_cmdsz env"
  shows "\<exists>b qs h' s n buf b' qs'. psh_parsecmd alloc (l @ NUL # r) ANull = Some (b, 0, Argv qs)
    \<and> hist_add h b (length l) = Some h'
    \<and> psh_readcmd True 0 0 env h' (readcmd_init h' cmd0 buff0 clip cliplen nl) (UP @ CHR 0x0D # rest)
        = Some (Inr (s, (n, Some buf), rest))
    \<and> psh_parsecmd alloc buf ANull = Some (b', 0, Argv qs') \<and> argv_strings b' qs' = argv_strings b qs"
proof -
  obtain qs where p: "psh_parsecmd alloc (l @ NUL # r) ANull = Some (tokenised l @ NUL # r, 0, Argv qs)"
    "argv_strings (tokenised l @ NUL # r) qs = words_of l"
    using parsecmd_result [OF line(1,2), of alloc r ANull] alloc by auto
  have len: "length (tokenised l @ NUL # r) = Suc (e_cmdsz env)" "length l \<le> e_cmdsz env"
    using line(3) by (simp_all add: length_tokenised)
  obtain h' where h': "hist_add h (tokenised l @ NUL # r) (length l) = Some h'" "hist_ok (e_cmdsz env) h'"
    using hist_add_refines [OF h len] by blast
  have new: "hist_list h' \<noteq> []" "last (hist_list h') = tokenised l"
    using ring.add_last [OF h len h'(1)] by (simp_all add: length_tokenised)
  let ?s0 = "readcmd_init h' cmd0 buff0 clip cliplen nl"
  note inv0 = readcmd_init_inv(1) [OF env h'(2) bufs, of nl]
  have sz: "Suc 0 \<le> hsize h'" using new(1) by (cases "hsize h'") auto
  obtain s where s: "readcmd_loop env h' ?s0 (concat (replicate (Suc 0) UP) @ CHR 0x0D # rest)
      = readcmd_loop env h' s (CHR 0x0D # rest)" "browsing env h' ?s0 (hsize h' - Suc 0) s"
    using browse_up [OF inv0 _ sz, of "CHR 0x0D # rest"] by (auto simp: readcmd_init_def)
  have up: "concat (replicate (Suc 0) UP) @ CHR 0x0D # rest = UP @ CHR 0x0D # rest" by simp
  have inv: "ed_inv env h' s" using s(2) by (simp add: browsing_def)
  have l: "ed_line h' s = map detok (tokenised l)"
    using browsing_line(1) [OF s(2)] new sz by (auto simp: last_conv_nth split: if_splits)
  define l' where "l' = map detok (tokenised l)"
  obtain s' buf where b: "psh_readcmd True 0 0 env h' ?s0 (UP @ CHR 0x0D # rest)
      = Some (Inr (s', (int (length l'), Some buf), rest))"
    "take (length l') buf = l'" "buf ! length l' = NUL" "length l' < length buf"
    using readcmd_enter [OF inv s(1) [unfolded up]] unfolding l l'_def [symmetric] by auto
  have buf: "buf = l' @ NUL # drop (Suc (length l')) buf"
    using b(2-4) id_take_nth_drop [of "length l'" buf] by simp
  have "words_of l' = words_of l" "NUL \<notin> set l'" using detok_words [OF line(1)] by (simp_all add: l'_def)
  then obtain qs' where "psh_parsecmd alloc buf ANull = Some (tokenised l' @ NUL # drop (Suc (length l')) buf, 0, Argv qs')"
    "argv_strings (tokenised l' @ NUL # drop (Suc (length l')) buf) qs' = words_of l"
    using parsecmd_result [of l' alloc "drop (Suc (length l')) buf" ANull] alloc line(2) buf by metis
  then show ?thesis using p h'(1) b(1) by metis
qed

section \<open>Starting\<close>

text \<open>
  The shell process always gets to a prompt or ends with the outcome of its script. For valid
  options \<open>psh_pshapp\<close> runs the script when one is named and can be opened, and is then not interactive;
  otherwise, also when the script cannot be opened, the interactive shell starts on the console given by
  \<open>-t\<close> (the default one else), whatever the clock and the fork for \<open>ntpclient\<close> do in the parent.
  \<open>PATH\<close>, \<open>HOME\<close> and \<open>TERM\<close> are then all set, and a variable that was set keeps its value.
\<close>

lemma psh_pshapp_starts:
  assumes args: "pshapp_args con0 (tl argv) = Some (console, path)" and clock: "w_clock w = psh_clockSync now pid access" "pid \<noteq> 0"
    and fds: "\<forall>j < 3. w_fds w j \<noteq> None" "apps_ok sz V (w_run w)" "\<forall>(fg, ex, n, cmd) \<in> set (w_cmds w). line_ok sz n cmd"
    and script: "\<forall>p. path = Some p \<longrightarrow> psh_runscript (fst (w_script w p)) (snd (w_script w p)) = Some (acts, err)"
  shows "\<exists>env ses rc. psh_pshapp con0 w home env0 argv = Some (env, ses, rc)
    \<and> (if path = None \<or> err = PSH_SCRIPT_NOTOPENED then \<exists>sh e. ses = Shell console sh e \<and> rc = (if e < 0 then 1 else 0)
       else ses = ScriptRan (the path) acts err \<and> rc = (if err < 0 then 1 else 0))
    \<and> (\<forall>v \<in> {''PATH'', ''HOME'', ''TERM''}. env v \<noteq> None) \<and> (\<forall>v. env0 v \<noteq> None \<longrightarrow> env v = env0 v)"
proof -
  have "w_clock w = ClockReturn" using clock by (simp add: psh_clockSync_def)
  moreover obtain sh e where "psh_run (w_start w console) (w_run w) (w_fds w) (w_status w) (w_cmds w) = Some (sh, e)"
    using psh_run_total [OF fds] by metis
  ultimately have "start_shell w console = Some (Shell console sh e, if e < 0 then 1 else 0)" by (simp add: start_shell_def)
  moreover have "\<forall>v \<in> {''PATH'', ''HOME'', ''TERM''}. default_environ home env0 v \<noteq> None"
    "\<forall>v. env0 v \<noteq> None \<longrightarrow> default_environ home env0 v = env0 v"
    by (simp_all add: default_environ_def Let_def)
  moreover have "psh_pshapp con0 w home env0 argv = (if path = None \<or> err = PSH_SCRIPT_NOTOPENED
      then map_option (Pair (default_environ home env0)) (start_shell w console)
      else Some (default_environ home env0, ScriptRan (the path) acts err, if err < 0 then 1 else 0))"
    using args script by (cases path) (simp_all add: psh_pshapp_def)
  ultimately show ?thesis
    by (cases "path = None \<or> err = PSH_SCRIPT_NOTOPENED"; intro exI [of _ "default_environ home env0"] exI conjI)
      (assumption | simp (no_asm_simp) | blast)+
qed

definition world_demo :: "(string, unit) pshworld" where
  "world_demo = \<lparr>w_script = \<lambda>_. (script_demo\<lparr>se_open := \<lambda>_. False\<rparr>, []), w_start = \<lambda>_. start_demo, w_run = run_demo,
      w_fds = tty_fds, w_status = 0, w_cmds = [], w_clock = psh_clockSync 0 7 (\<lambda>_. False)\<rparr>"

end
