(* ===== verification/Auth.thy ===== *)
theory Auth
  imports Getopt Tty
begin

text \<open>
  The login prompt, \<open>src/psh/pshapp/auth.c\<close>, on the descriptor table: the console is opened with
  \<open>psh_ttyopen\<close>. Parameters: the characters typed (the end of the list is an interrupted or ended input), the
  files that can be opened at each attempt, the outcome of the terminal calls, \<open>getpwnam\<close>, \<open>crypt\<close>,
  \<open>_PATH_CONSOLE\<close> and the default user's password hash. \<open>None\<close> is a write outside the credential buffer.
\<close>

record authtty =
  at_get :: bool
  at_set :: bool
  at_restore :: bool

abbreviation LF :: char where "LF \<equiv> CHR 0x0A"

text \<open>The input loop: the final \<open>inputlen\<close>, the buffer and the unread input.\<close>

fun cred_loop :: "bool \<Rightarrow> nat \<Rightarrow> int \<Rightarrow> string \<Rightarrow> string \<Rightarrow> (int \<times> string \<times> string) option" where
  "cred_loop ispasswd maxinlen len0 buff [] = Some (-1, buff, [])"
| "cred_loop ispasswd maxinlen len0 buff (c # cs) =
     (let len = (if len0 < 0 then len0 + 1 else len0) in
      if c = LF then
        (if len \<le> int maxinlen \<and> len > 0 then do {
           b \<leftarrow> poke buff (nat len) NUL;
           Some (len - 1, b, cs)
         }
         else if ispasswd then
           (if maxinlen \<le> length buff then Some (0, replicate maxinlen NUL @ drop maxinlen buff, cs) else None)
         else cred_loop ispasswd maxinlen (-1) buff cs)
      else if isprint c then
        (if len < int maxinlen then do {
           b \<leftarrow> poke buff (nat len) c;
           cred_loop ispasswd maxinlen (len + 1) b cs
         }
         else cred_loop ispasswd maxinlen (len + 1) buff cs)
      else cred_loop ispasswd maxinlen len buff cs)"

definition psh_authcredentget ::
  "authtty \<Rightarrow> string \<Rightarrow> bool \<Rightarrow> nat \<Rightarrow> string \<Rightarrow> (int \<times> string \<times> string) option" where
  "psh_authcredentget tty buff ispasswd maxinlen input =
     (if \<not> at_get tty then Some (- ENOTTY, buff, input)
      else if \<not> at_set tty then Some (- ENOTTY, buff, input)
      else do {
        (len, b, rest) \<leftarrow> cred_loop ispasswd maxinlen (-1) buff input;
        Some (if \<not> at_restore tty then - ENOTTY else if len \<ge> 0 then len else - EINTR, b, rest)
      })"

record 'f authenv =
  ae_getpwnam :: "string \<Rightarrow> string option"
  ae_crypt :: "string \<Rightarrow> string \<Rightarrow> string option"
  ae_defhash :: string
  ae_console :: string
  ae_open :: "nat \<Rightarrow> string \<Rightarrow> nat \<Rightarrow> 'f option"
  ae_isatty :: "'f \<Rightarrow> bool"
  ae_strdup :: "nat \<Rightarrow> bool"
  ae_errno :: int
  ae_nfd :: nat
  ae_tty1 :: authtty
  ae_tty2 :: authtty

definition auth_maxlen :: nat where
  "auth_maxlen = 32"

text \<open>
  The two checks: against the password entry of the user, then against the default user. A
  password entry is its \<open>pw_passwd\<close>.
\<close>

definition auth_validate :: "'f authenv \<Rightarrow> string \<Rightarrow> string \<Rightarrow> bool" where
  "auth_validate e username passwd =
     (let user = (case ae_getpwnam e username of
          None \<Rightarrow> False | Some pw \<Rightarrow> ae_crypt e passwd pw = Some pw)
      in if user then True
         else ae_crypt e passwd (ae_defhash e) \<noteq> None \<and> username = ''defuser''
           \<and> ae_crypt e passwd (ae_defhash e) = Some (ae_defhash e))"

text \<open>The option loop: the path of the console, or \<open>None\<close> for the usage text.\<close>

fun auth_opts :: "optev list \<Rightarrow> string \<Rightarrow> string option" where
  "auth_opts [] consolePath = Some consolePath"
| "auth_opts (ev # evs) consolePath = (case ev of
     Opt c (Some optarg) \<Rightarrow> if c = CHR ''t'' then auth_opts evs optarg else None
   | _ \<Rightarrow> None)"

text \<open>The attempts to open the console; \<open>i\<close> counts those made, the second number is \<open>retries\<close>.\<close>

definition auth_attempt :: "'f authenv \<Rightarrow> string \<Rightarrow> 'f fdtab \<Rightarrow> nat \<Rightarrow> 'f fdtab \<times> int" where
  "auth_attempt e path t i = psh_ttyopen (ae_open e i) (ae_isatty e) (ae_strdup e i) (ae_errno e) (ae_nfd e) t path"

fun auth_ttyopen :: "'f authenv \<Rightarrow> string \<Rightarrow> nat \<Rightarrow> nat \<Rightarrow> 'f fdtab \<Rightarrow> 'f fdtab" where
  "auth_ttyopen e path i 0 t = t"
| "auth_ttyopen e path i (Suc retries) t =
     (case auth_attempt e path t i of (t', rc) \<Rightarrow>
        if rc = 0 then t' else auth_ttyopen e path (Suc i) retries t')"

definition stdout_isatty :: "'f authenv \<Rightarrow> 'f fdtab \<Rightarrow> bool" where
  "stdout_isatty e t = (case t 1 of Some f \<Rightarrow> ae_isatty e f | None \<Rightarrow> False)"

text \<open>
  \<open>psh_auth\<close>: the return code, the descriptor table and the unread input; \<open>u0\<close> and \<open>p0\<close> are the
  uninitialised buffers, \<open>args\<close> the arguments behind the name.
\<close>

definition psh_auth ::
  "'f authenv \<Rightarrow> string list \<Rightarrow> string \<Rightarrow> string \<Rightarrow> 'f fdtab \<Rightarrow> string \<Rightarrow> (int \<times> 'f fdtab \<times> string) option" where
  "psh_auth e args u0 p0 t input =
     (case auth_opts (fst (getopt_scan ''t:h'' args)) (ae_console e) of
        None \<Rightarrow> Some (EOK, t, input)
      | Some consolePath \<Rightarrow>
          let t' = auth_ttyopen e consolePath 0 5 t in
          if \<not> stdout_isatty e t' then Some (- ENOTTY, t', input)
          else do {
            (r1, ub, in1) \<leftarrow> psh_authcredentget (ae_tty1 e) u0 False auth_maxlen input;
            if r1 = - EINTR then Some (- EINTR, t', in1)
            else do {
              (r2, pb, in2) \<leftarrow> psh_authcredentget (ae_tty2 e) p0 True auth_maxlen in1;
              if r2 = - EINTR then Some (- EINTR, t', in2)
              else Some (if auth_validate e (cstr ub) (cstr pb) then EOK else - EACCES, t', in2)
            }
          })"

section \<open>Opening the console\<close>

text \<open>
  The table after the attempts: unchanged when all fail, or with the console under the three streams at the first
  that does not.
\<close>

lemma auth_ttyopen_table:
  assumes "\<forall>j < 3. t j \<noteq> None" "0 < ae_errno e"
  shows "auth_ttyopen e path i n t = t \<and> (\<forall>k. i \<le> k \<and> k < i + n \<longrightarrow> snd (auth_attempt e path t k) < 0)
    \<or> (\<exists>k < i + n. (\<forall>j. i \<le> j \<and> j < k \<longrightarrow> snd (auth_attempt e path t j) < 0) \<and> (\<exists>f. ae_open e k path 3 = Some f \<and> ae_isatty e f \<and> auth_ttyopen e path i n t = t(0 \<mapsto> f, 1 \<mapsto> f, 2 \<mapsto> f)))"
proof (induction n arbitrary: i)
  case (Suc n)
  obtain t' rc where o: "auth_attempt e path t i = (t', rc)" by (metis surj_pair)
  consider "rc < 0" "t' = t"
    | f where "rc = 0" "ae_open e i path 3 = Some f" "ae_isatty e f" "t' = t(0 \<mapsto> f, 1 \<mapsto> f, 2 \<mapsto> f)"
    using psh_ttyopen_correct [OF assms, where opn = "ae_open e i" and isatty = "ae_isatty e" and dupok = "ae_strdup e i"
        and nfd = "ae_nfd e" and dev = path] o
    by (auto simp: auth_attempt_def)
  then show ?case
  proof cases
    case 1
    have first: "(\<forall>k. i \<le> k \<and> k < m \<longrightarrow> snd (auth_attempt e path t k) < 0)
        \<longleftrightarrow> (\<forall>k. Suc i \<le> k \<and> k < m \<longrightarrow> snd (auth_attempt e path t k) < 0)" for m
      using 1 o by (metis Suc_leD le_antisym not_less_eq_eq snd_conv)
    show ?thesis using Suc.IH [of "Suc i"] 1 unfolding first by (simp add: o)
  next
    case 2
    then show ?thesis by (intro disjI2 exI [of _ i] conjI exI [of _ f]) (auto simp: o fun_eq_iff)
  qed
qed simp

section \<open>Reading one credential\<close>

text \<open>Printable characters are collected up to the limit; the rest of an overlong line is dropped.\<close>

lemma cred_chars:
  assumes "LF \<notin> set w" "length buff = Suc mx" "0 \<le> len0"
  shows "\<exists>buff'. cred_loop pw mx len0 buff (w @ rest) = cred_loop pw mx (len0 + int (length (filter isprint w))) buff' rest
    \<and> length buff' = Suc mx
    \<and> take mx (take (nat len0) buff @ filter isprint w) = take (min mx (nat len0 + length (filter isprint w))) buff'"
  using assms
proof (induction w arbitrary: len0 buff)
  case Nil
  then show ?case by (intro exI [of _ buff]) (simp add: min.commute)
next
  case (Cons c w)
  then have c: "c \<noteq> LF" "LF \<notin> set w" by auto
  show ?case
  proof (cases "isprint c")
    case False
    then show ?thesis using Cons.IH [OF c(2) Cons.prems(2,3)] c(1) Cons.prems(3) by simp
  next
    case True
    define buff1 where "buff1 = (if len0 < int mx then buff[nat len0 := c] else buff)"
    have eq: "cred_loop pw mx len0 buff (c # w @ rest) = cred_loop pw mx (len0 + 1) buff1 (w @ rest)"
      using True c(1) Cons.prems(2,3) by (simp add: buff1_def poke_def nat_less_iff)
    have len: "length buff1 = Suc mx" using Cons.prems(2) by (simp add: buff1_def)
    obtain buff' where b: "cred_loop pw mx (len0 + 1) buff1 (w @ rest)
        = cred_loop pw mx (len0 + 1 + int (length (filter isprint w))) buff' rest" "length buff' = Suc mx"
        "take mx (take (nat (len0 + 1)) buff1 @ filter isprint w)
          = take (min mx (nat (len0 + 1) + length (filter isprint w))) buff'"
      using Cons.IH [OF c(2) len, of "len0 + 1"] Cons.prems(3) by auto
    have n: "nat (len0 + 1) = Suc (nat len0)" using Cons.prems(3) by simp
    have "take mx (take (nat len0) buff @ c # filter isprint w) = take mx (take (nat (len0 + 1)) buff1 @ filter isprint w)"
    proof (cases "len0 < int mx")
      case True
      then show ?thesis
        using Cons.prems(2,3) by (simp add: buff1_def n take_Suc_conv_app_nth nat_less_iff)
    next
      case False
      then have "mx \<le> nat len0" by linarith
      then show ?thesis using False Cons.prems(2) by (simp add: buff1_def n min_def)
    qed
    then show ?thesis
      using eq b True Cons.prems(3) by (intro exI [of _ buff']) (simp add: n add.assoc del: cred_loop.simps)
  qed
qed
lemma cred_start: "cs \<noteq> [] \<Longrightarrow> cred_loop pw mx (-1) b cs = cred_loop pw mx 0 b cs"
  by (cases cs) simp_all

abbreviation tty_fine :: "authtty \<Rightarrow> bool" where
  "tty_fine tty \<equiv> at_get tty \<and> at_set tty \<and> at_restore tty"

lemma printable_no_NUL: "NUL \<notin> set (filter isprint w)"
  by simp

lemma cred_line:
  assumes w: "LF \<notin> set w" and buff: "length buff = Suc mx" and tty: "tty_fine tty"
    and u: "u = filter isprint w" "0 < length u" "length u \<le> mx"
  shows "\<exists>b. psh_authcredentget tty buff pw mx (w @ LF # rest) = Some (int (length u) - 1, b, rest) \<and> cstr b = u"
proof -
  obtain b where b: "cred_loop pw mx 0 buff (w @ LF # rest) = cred_loop pw mx (int (length u)) b (LF # rest)"
      "length b = Suc mx" "take mx u = take (min mx (length u)) b"
    using cred_chars [OF w buff, of 0 pw "LF # rest"] u(1) by auto
  have tb: "take (length u) b = u" using b(3) u(3) by (simp add: min_absorb2)
  have "drop (length u) b \<noteq> []" using b(2) u(3) by simp
  then obtain x y where "drop (length u) b = x # y" by (cases "drop (length u) b") auto
  then have "b = u @ x # y" using tb by (metis append_take_drop_id)
  then have "b[length u := NUL] = u @ NUL # y" by simp
  then have "cstr (b[length u := NUL]) = u" using u(1) printable_no_NUL by simp
  moreover have "cred_loop pw mx (int (length u)) b (LF # rest) = Some (int (length u) - 1, b[length u := NUL], rest)"
    using u(2,3) b(2) by (simp add: poke_def Let_def)
  ultimately show ?thesis
    using tty u(2) by (simp add: psh_authcredentget_def cred_start b(1))
qed

lemma cred_bad_password:
  assumes w: "LF \<notin> set w" and buff: "length buff = Suc mx" and tty: "tty_fine tty"
    and u: "u = filter isprint w" "length u = 0 \<or> length u > mx"
  shows "\<exists>b. psh_authcredentget tty buff True mx (w @ LF # rest) = Some (0, b, rest) \<and> (mx \<noteq> 0 \<longrightarrow> cstr b = [])"
proof -
  obtain b where b: "cred_loop True mx 0 buff (w @ LF # rest) = cred_loop True mx (int (length u)) b (LF # rest)"
      "length b = Suc mx"
    using cred_chars [OF w buff, of 0 True "LF # rest"] u(1) by auto
  have "cred_loop True mx (int (length u)) b (LF # rest) = Some (0, replicate mx NUL @ drop mx b, rest)"
    using u(2) b(2) by (auto simp: Let_def)
  moreover have "mx \<noteq> 0 \<Longrightarrow> cstr (replicate mx NUL @ drop mx b) = []" by (cases mx) (simp_all add: cstr_def)
  ultimately show ?thesis using tty by (auto simp: psh_authcredentget_def cred_start b(1))
qed

text \<open>What a line typed at the password prompt counts as.\<close>

definition typed_password :: "string \<Rightarrow> string" where
  "typed_password w = (let p = filter isprint w in if 0 < length p \<and> length p \<le> 32 then p else [])"

lemma password_line:
  assumes "LF \<notin> set w" "length p0 = 33" "tty_fine tty"
  obtains r b where "psh_authcredentget tty p0 True 32 (w @ LF # rest) = Some (r, b, rest)" "0 \<le> r" "cstr b = typed_password w"
proof (cases "0 < length (filter isprint w) \<and> length (filter isprint w) \<le> 32")
  case True
  then show thesis
    using cred_line [of w p0 32 tty "filter isprint w" True rest] assms that by (fastforce simp: typed_password_def)
next
  case False
  then show thesis
    using cred_bad_password [of w p0 32 tty "filter isprint w" rest] assms that by (auto simp: typed_password_def)
qed

text \<open>
  C17: Login, for any arguments. The standard streams are open, the terminal calls work, and the user types a
  name of 1 to 32 printable characters and a password line. With \<open>-h\<close> or an option \<open>auth\<close> does not know,
  \<open>psh_auth\<close> returns \<open>EOK\<close>, its code for a successful login, without reading anything. Otherwise the
  streams are put on the console (the last \<open>-t\<close>, else the default one) when one of five attempts opens it, and
  stay as they are when none does; when the standard output is then no terminal the result is \<open>-ENOTTY\<close>.
  On a terminal, \<open>psh_auth\<close> succeeds exactly when the password hashes to the password entry of the user, or
  the name is \<open>defuser\<close> and the password hashes to the built-in hash, whatever the password database holds;
  otherwise it returns \<open>-EACCES\<close>. A password line that is empty or longer than 32 characters counts as the empty
  password. Nothing is read or written outside the two buffers.
\<close>

theorem psh_auth_correct:
  assumes "\<forall>j < 3. t j \<noteq> None" "0 < ae_errno e" "tty_fine (ae_tty1 e)" "tty_fine (ae_tty2 e)"
    and "length u0 = 33" "length p0 = 33" "LF \<notin> set w1" "LF \<notin> set w2"
    and "u = filter isprint w1" "0 < length u" "length u \<le> 32" and "p = typed_password w2"
    and "input = w1 @ LF # w2 @ LF # rest"
  shows "case auth_opts (fst (getopt_scan ''t:h'' args)) (ae_console e) of
      None \<Rightarrow> psh_auth e args u0 p0 t input = Some (EOK, t, input)
    | Some path \<Rightarrow> \<exists>t'. (t' = t \<and> (\<forall>k < 5. snd (auth_attempt e path t k) < 0)
          \<or> (\<exists>k < 5. (\<forall>j < k. snd (auth_attempt e path t j) < 0)
              \<and> (\<exists>f. ae_open e k path 3 = Some f \<and> ae_isatty e f \<and> t' = t(0 \<mapsto> f, 1 \<mapsto> f, 2 \<mapsto> f))))
        \<and> psh_auth e args u0 p0 t input
          = Some (if \<not> stdout_isatty e t' then (- ENOTTY, t', input)
              else if (\<exists>pw. ae_getpwnam e u = Some pw \<and> ae_crypt e p pw = Some pw)
                \<or> u = ''defuser'' \<and> ae_crypt e p (ae_defhash e) = Some (ae_defhash e)
              then (EOK, t', rest) else (- EACCES, t', rest))"
proof (cases "auth_opts (fst (getopt_scan ''t:h'' args)) (ae_console e)")
  case (Some path)
  have mx: "auth_maxlen = 32" by (simp add: auth_maxlen_def)
  obtain ub where ub: "psh_authcredentget (ae_tty1 e) u0 False 32 input = Some (int (length u) - 1, ub, w2 @ LF # rest)" "cstr ub = u"
    using cred_line [of w1 u0 32 "ae_tty1 e" u False "w2 @ LF # rest"] assms by auto
  obtain r2 pb where pb: "psh_authcredentget (ae_tty2 e) p0 True 32 (w2 @ LF # rest) = Some (r2, pb, rest)"
      "0 \<le> r2" "cstr pb = p"
    using password_line [of w2 p0 "ae_tty2 e" rest] assms by metis
  have "auth_validate e u p \<longleftrightarrow> (\<exists>pw. ae_getpwnam e u = Some pw \<and> ae_crypt e p pw = Some pw)
              \<or> u = ''defuser'' \<and> ae_crypt e p (ae_defhash e) = Some (ae_defhash e)"
    by (auto simp: auth_validate_def Let_def split: option.splits)
  then show ?thesis
    using assms(10) ub pb auth_ttyopen_table [OF assms(1,2), of path 0 5]
    unfolding Some option.case by (intro exI [of _ "auth_ttyopen e path 0 5 t"]) (simp add: Some psh_auth_def mx Let_def, blast)
qed (simp add: psh_auth_def)

definition auth_demo :: "string authenv" where
  "auth_demo = \<lparr>ae_getpwnam = (\<lambda>u. if u = ''bob'' then Some ''h:pw'' else None),
     ae_crypt = (\<lambda>p s. Some (''h:'' @ p)), ae_defhash = ''h:def'', ae_console = ''/dev/console'',
     ae_open = (\<lambda>k p f. if p = ''/dev/tty1'' \<and> k = 2 then Some p else None), ae_isatty = (\<lambda>f. f \<noteq> ''pipe''),
     ae_strdup = (\<lambda>k. True), ae_errno = 2, ae_nfd = 16,
     ae_tty1 = \<lparr>at_get = True, at_set = True, at_restore = True\<rparr>,
     ae_tty2 = \<lparr>at_get = True, at_set = True, at_restore = True\<rparr>\<rparr>"

text \<open>A right and a wrong password on the example terminal, and the help option.\<close>

theorem psh_auth_correct_witness:
  "(\<exists>t'. psh_auth auth_demo [''-t'', ''/dev/tty1''] (replicate 33 NUL) (replicate 33 NUL) tty_fds (''bob'' @ LF # ''pw'' @ LF # [])
       = Some (EOK, t', []))
   \<and> (\<exists>t'. psh_auth auth_demo [] (replicate 33 NUL) (replicate 33 NUL) tty_fds (''bob'' @ LF # ''no'' @ LF # [])
       = Some (- EACCES, t', []))
   \<and> psh_auth auth_demo [''-h''] (replicate 33 NUL) (replicate 33 NUL) tty_fds (''bob'' @ LF # ''no'' @ LF # [])
       = Some (EOK, tty_fds, ''bob'' @ LF # ''no'' @ LF # [])"
proof -
  have std: "\<forall>j < 3. tty_fds j \<noteq> None" "tty_fds 1 = Some ''console''" by (simp_all add: tty_fds_def)
  have d: "0 < ae_errno auth_demo" "tty_fine (ae_tty1 auth_demo)" "tty_fine (ae_tty2 auth_demo)"
    "ae_console auth_demo = ''/dev/console''" "ae_isatty auth_demo = (\<lambda>f. f \<noteq> ''pipe'')"
    "ae_open auth_demo = (\<lambda>k p f. if p = ''/dev/tty1'' \<and> k = 2 then Some p else None)"
    "ae_getpwnam auth_demo ''bob'' = Some ''h:pw''" "ae_crypt auth_demo = (\<lambda>p s. Some (''h:'' @ p))"
    by (simp_all add: auth_demo_def)
  have w: "''bob'' = filter isprint ''bob''" "0 < length ''bob''" "length ''bob'' \<le> 32"
    "''pw'' = typed_password ''pw''" "''no'' = typed_password ''no''" "LF \<notin> set ''bob''" "LF \<notin> set ''pw''" "LF \<notin> set ''no''"
    by (simp_all add: typed_password_def isprint_def isgraph_def code_def)
  have b: "length (replicate 33 NUL) = 33" by simp
  have o: "auth_opts (fst (getopt_scan ''t:h'' [''-t'', ''/dev/tty1''])) ''/dev/console'' = Some ''/dev/tty1''"
    "auth_opts (fst (getopt_scan ''t:h'' [])) ''/dev/console'' = Some ''/dev/console''"
    "auth_opts (fst (getopt_scan ''t:h'' [''-h''])) ''/dev/console'' = None"
    by (simp_all add: is_opt_word_def)
  note A = psh_auth_correct [OF std(1) d(1-3) b b w(6) w(7) w(1-4) refl, where args = "[''-t'', ''/dev/tty1'']" and rest = "[]", unfolded d(4) o(1)]
  note B = psh_auth_correct [OF std(1) d(1-3) b b w(6) w(8) w(1-3) w(5) refl, where args = "[]" and rest = "[]", unfolded d(4) o(2)]
  note C = psh_auth_correct [OF std(1) d(1-3) b b w(6) w(8) w(1-3) w(5) refl, where args = "[''-h'']" and rest = "[]", unfolded d(4) o(3)]
  show ?thesis
    using A B C std(2) by (auto simp: d(5-8) stdout_isatty_def split: if_splits)
qed

text \<open>
  A defect of the login. With the option \<open>-h\<close> (or any option \<open>auth\<close> does not know) the applet
  prints its usage and returns \<open>EOK\<close>, which is its code for a successful login: nothing is read
  and no credential is checked.
\<close>

lemma psh_auth_help_succeeds:
  assumes "x \<noteq> CHR ''t''" "x \<noteq> CHR ''-''"
  shows "psh_auth e [[CHR ''-'', x]] u0 p0 t input = Some (EOK, t, input)"
  using assms by (simp add: psh_auth_def is_opt_word_def Let_def)

end
