(* ===== verification/Flash.thy ===== *)
theory Flash
  imports Prelude "HOL-Library.Word"
begin

text \<open>
  Moving blocks on a NAND device: \<open>src/nandpart/flashmng.c\<close> and the copy loops of
  \<open>src/nandpart/nandpart.c\<close>.

  The flash server is not part of the repository. It is a parameter: \<open>sv_send\<close> is \<open>msgSend\<close> of a
  device control request (the server's state afterwards, the result of \<open>msgSend\<close>, \<open>msg.o.err\<close> and
  \<open>msg.o.data\<close>), \<open>sv_read\<close> and \<open>sv_write\<close> are \<open>lseek\<close> followed by \<open>read\<close> or \<open>write\<close> on the device
  file (a negative number is \<open>-errno\<close> of \<open>lseek\<close>, otherwise the number of bytes). The server's state
  is of any type. Block and page numbers are natural numbers, since every loop stays between bounds
  that are 32 bit numbers; addresses wrap at 32 bits where the code multiplies \<open>unsigned int\<close>.
\<close>

section \<open>The flash server\<close>

type_synonym byte = "8 word"

record flashsrv_info =
  fi_size :: nat
  fi_erasesz :: nat
  fi_writesz :: nat
  fi_oobsz :: nat

datatype devctl =
    DIsBad nat
  | DErase nat nat
  | DReadMeta nat nat
  | DWriteMeta nat nat "byte list"

record 'n server =
  sv_send :: "devctl \<Rightarrow> 'n \<Rightarrow> 'n \<times> int \<times> int \<times> byte list"
  sv_read :: "nat \<Rightarrow> nat \<Rightarrow> 'n \<Rightarrow> 'n \<times> int \<times> byte list"
  sv_write :: "nat \<Rightarrow> byte list \<Rightarrow> 'n \<Rightarrow> 'n \<times> int"
  sv_alloc :: bool

definition u32 :: "nat \<Rightarrow> nat" where
  "u32 n = n mod 2 ^ 32"

text \<open>The result of a request: \<open>err\<close> of \<open>msgSend\<close> when negative, \<open>msg.o.err\<close> otherwise.\<close>

definition flash_send :: "'n server \<Rightarrow> devctl \<Rightarrow> 'n \<Rightarrow> 'n \<times> int \<times> byte list" where
  "flash_send sv r n = (case sv_send sv r n of (n', err, oerr, d) \<Rightarrow> (n', if err < 0 then err else oerr, d))"

definition flashmng_isBad :: "'n server \<Rightarrow> flashsrv_info \<Rightarrow> nat \<Rightarrow> 'n \<Rightarrow> 'n \<times> int" where
  "flashmng_isBad sv info block n =
     (case flash_send sv (DIsBad (u32 (block * fi_erasesz info))) n of (n', e, _) \<Rightarrow> (n', e))"

definition flashmng_erase :: "'n server \<Rightarrow> flashsrv_info \<Rightarrow> nat \<Rightarrow> nat \<Rightarrow> 'n \<Rightarrow> 'n \<times> int" where
  "flashmng_erase sv info start cnt n =
     (case flash_send sv (DErase (u32 (start * fi_erasesz info)) (u32 (cnt * fi_erasesz info))) n of (n', e, _) \<Rightarrow> (n', e))"

definition flashmng_readMeta :: "'n server \<Rightarrow> flashsrv_info \<Rightarrow> nat \<Rightarrow> 'n \<Rightarrow> 'n \<times> int \<times> byte list" where
  "flashmng_readMeta sv info page n = flash_send sv (DReadMeta (u32 (page * fi_writesz info)) (fi_oobsz info)) n"

definition flashmng_writeMeta :: "'n server \<Rightarrow> flashsrv_info \<Rightarrow> byte list \<Rightarrow> nat \<Rightarrow> 'n \<Rightarrow> 'n \<times> int" where
  "flashmng_writeMeta sv info data page n =
     (case flash_send sv (DWriteMeta (u32 (page * fi_writesz info)) (fi_oobsz info) data) n of (n', e, _) \<Rightarrow> (n', e))"

definition cleanmarker :: "nat \<Rightarrow> byte list" where
  "cleanmarker oobsz = [0x85, 0x19, 0x03, 0x20, 8, 0, 0, 0] @ replicate (oobsz - 8) 0xff"

text \<open>The loop of \<open>flashmng_markClean\<close> over \<open>k\<close> blocks: the last \<open>err\<close> and the count \<open>n\<close>.\<close>

fun markClean_loop :: "'n server \<Rightarrow> flashsrv_info \<Rightarrow> nat \<Rightarrow> nat \<Rightarrow> nat \<Rightarrow> int \<Rightarrow> 'n \<Rightarrow> 'n \<times> int \<times> nat" where
  "markClean_loop sv info block 0 cnt err n = (n, err, cnt)"
| "markClean_loop sv info block (Suc k) cnt err n =
     (case flashmng_isBad sv info block n of (n1, e1) \<Rightarrow>
        if e1 < 0 then (n1, e1, cnt)
        else if e1 = 0 then
          (case flashmng_writeMeta sv info (cleanmarker (fi_oobsz info)) (block * (fi_erasesz info div fi_writesz info)) n1 of
             (n2, e2) \<Rightarrow> if e2 < 0 then (n2, e2, cnt) else markClean_loop sv info (block + 1) k (cnt + 1) e2 n2)
        else markClean_loop sv info (block + 1) k cnt e1 n1)"

definition flashmng_markClean :: "'n server \<Rightarrow> flashsrv_info \<Rightarrow> nat \<Rightarrow> nat \<Rightarrow> 'n \<Rightarrow> 'n \<times> int" where
  "flashmng_markClean sv info start cnt n =
     (if \<not> sv_alloc sv then (n, - ENOMEM)
      else (case markClean_loop sv info start cnt 0 0 n of (n', err, k) \<Rightarrow> (n', if err < 0 then err else int k)))"

section \<open>Copying one block\<close>

definition clean :: "byte list \<Rightarrow> bool" where
  "clean bs \<longleftrightarrow> list_all (\<lambda>b. b = 0xff) bs"

definition copy_page :: "'n server \<Rightarrow> flashsrv_info \<Rightarrow> nat \<Rightarrow> nat \<Rightarrow> 'n \<Rightarrow> 'n \<times> int" where
  "copy_page sv info sp dp n =
     (case flashmng_readMeta sv info sp n of (n1, e1, meta) \<Rightarrow>
        if e1 < 0 then (n1, e1)
        else (case (if clean meta then (n1, 0) else flashmng_writeMeta sv info meta dp n1) of (n2, e2) \<Rightarrow>
          if e2 < 0 then (n2, e2)
          else (case sv_read sv (u32 sp * fi_writesz info) (fi_writesz info) n2 of (n3, r, data) \<Rightarrow>
            if r < 0 then (n3, r)
            else if r \<noteq> int (fi_writesz info) then (n3, - EIO)
            else if clean data then (n3, 0)
            else (case sv_write sv (u32 dp * fi_writesz info) data n3 of (n4, w) \<Rightarrow>
              if w < 0 then (n4, w) else if w \<noteq> int (fi_writesz info) then (n4, - EIO) else (n4, 0)))))"

fun copyBlock_loop :: "'n server \<Rightarrow> flashsrv_info \<Rightarrow> nat \<Rightarrow> nat \<Rightarrow> nat \<Rightarrow> 'n \<Rightarrow> 'n \<times> int" where
  "copyBlock_loop sv info sp dp 0 n = (n, 0)"
| "copyBlock_loop sv info sp dp (Suc k) n =
     (case copy_page sv info sp dp n of (n', e) \<Rightarrow>
        if e < 0 then (n', e) else copyBlock_loop sv info (sp + 1) (dp + 1) k n')"

definition nandpart_copyBlock :: "'n server \<Rightarrow> flashsrv_info \<Rightarrow> nat \<Rightarrow> nat \<Rightarrow> 'n \<Rightarrow> 'n \<times> int" where
  "nandpart_copyBlock sv info src dst n =
     (let npages = fi_erasesz info div fi_writesz info
      in copyBlock_loop sv info (src * npages) (dst * npages) npages n)"

section \<open>Finding good blocks\<close>

text \<open>The loop from block \<open>start + k\<close> down to \<open>start\<close>; \<open>end0\<close> is \<open>*end\<close>.\<close>

fun prev_scan :: "'n server \<Rightarrow> flashsrv_info \<Rightarrow> nat \<Rightarrow> nat \<Rightarrow> nat \<Rightarrow> 'n \<Rightarrow> 'n \<times> int \<times> nat" where
  "prev_scan sv info start 0 end0 n = (n, 1, end0)"
| "prev_scan sv info start (Suc k) end0 n =
     (case flashmng_isBad sv info (start + k) n of (n', e) \<Rightarrow>
        if e \<le> 0 then (n', e, if e = 0 then start + Suc k else end0) else prev_scan sv info start k end0 n')"

definition nandpart_prevBlock :: "'n server \<Rightarrow> flashsrv_info \<Rightarrow> nat \<Rightarrow> nat \<Rightarrow> 'n \<Rightarrow> 'n \<times> int \<times> nat" where
  "nandpart_prevBlock sv info start end0 n = prev_scan sv info start (end0 - start) end0 n"

fun next_scan :: "'n server \<Rightarrow> flashsrv_info \<Rightarrow> nat \<Rightarrow> nat \<Rightarrow> nat \<Rightarrow> 'n \<Rightarrow> 'n \<times> int \<times> nat" where
  "next_scan sv info block 0 start0 n = (n, 1, start0)"
| "next_scan sv info block (Suc k) start0 n =
     (case flashmng_isBad sv info block n of (n', e) \<Rightarrow>
        if e \<le> 0 then (n', e, if e = 0 then block else start0) else next_scan sv info (Suc block) k start0 n')"

definition nandpart_nextBlock :: "'n server \<Rightarrow> flashsrv_info \<Rightarrow> nat \<Rightarrow> nat \<Rightarrow> 'n \<Rightarrow> 'n \<times> int \<times> nat" where
  "nandpart_nextBlock sv info start0 end0 n = next_scan sv info start0 (end0 - start0) start0 n"

lemma prev_scan_range:
  "prev_scan sv info start k e0 n = (n', 0, b) \<Longrightarrow> start < b \<and> b \<le> start + k"
  by (induction k arbitrary: n) (fastforce split: prod.splits if_splits)+

lemma next_scan_range:
  "next_scan sv info blk k s0 n = (n', 0, b) \<Longrightarrow> blk \<le> b \<and> b < blk + k"
  by (induction k arbitrary: blk n) (force split: prod.splits if_splits)+

lemma prevBlock_range:
  assumes "nandpart_prevBlock sv info start e0 n = (n', 0, b)"
  shows "start < b" "b \<le> e0"
  using prev_scan_range [OF assms [unfolded nandpart_prevBlock_def]] by auto

lemma nextBlock_range:
  assumes "nandpart_nextBlock sv info s0 e0 n = (n', 0, b)"
  shows "s0 \<le> b" "b < e0"
  using next_scan_range [OF assms [unfolded nandpart_nextBlock_def]] by auto

lemma prevBlock_dec: "(n', 0, b) = nandpart_prevBlock sv info start e0 n \<Longrightarrow> b - Suc 0 < e0"
  using prevBlock_range [of sv info start e0 n n' b] by simp

lemma nextBlock_dec: "(n', 0, b) = nandpart_nextBlock sv info s0 e0 n \<Longrightarrow> e0 - Suc b < e0 - s0"
  using nextBlock_range [of sv info s0 e0 n n' b] by simp

section \<open>The copy loops\<close>

text \<open>
  The inner loop of \<open>nandpart_copyBackward\<close>: whether the function returns \<open>EOK\<close> at once because the
  destination has caught up with the source, the \<open>err\<close> behind the loop, and \<open>dstEnd\<close>.
\<close>

function back_dst ::
  "'n server \<Rightarrow> flashsrv_info \<Rightarrow> nat \<Rightarrow> nat \<Rightarrow> nat \<Rightarrow> bool \<Rightarrow> 'n \<Rightarrow> 'n \<times> bool \<times> int \<times> nat" where
  "back_dst sv info dstStart dstEnd srcEnd failBad n =
     (case nandpart_prevBlock sv info dstStart dstEnd n of (n1, err, de) \<Rightarrow>
        if err \<noteq> 0 then (n1, False, err, de)
        else if de = srcEnd then (n1, True, 0, de)
        else (case flashmng_erase sv info (de - 1) 1 n1 of (n2, e) \<Rightarrow>
          if e \<noteq> 0 then (n2, False, if e = 1 then 0 else e, de)
          else if failBad then (n2, False, - EBADMSG, de)
          else back_dst sv info dstStart (de - 1) srcEnd failBad n2))"
  by pat_completeness auto
termination
  by (relation "measure (\<lambda>(sv, info, ds, de, se, f, n). de)") (simp, auto intro: prevBlock_dec)

function nandpart_copyBackward ::
  "'n server \<Rightarrow> flashsrv_info \<Rightarrow> nat \<Rightarrow> nat \<Rightarrow> nat \<Rightarrow> nat \<Rightarrow> nat \<Rightarrow> nat \<Rightarrow> bool \<Rightarrow> 'n \<Rightarrow> 'n \<times> int \<times> nat \<times> nat" where
  "nandpart_copyBackward sv info srcStart srcEnd dstStart dstEnd src dst failBad n =
     (case nandpart_prevBlock sv info srcStart srcEnd n of (n1, err, se) \<Rightarrow>
        if err \<noteq> 0 then (n1, err, src, dst)
        else (case back_dst sv info dstStart dstEnd se failBad n1 of (n2, ret, err2, de) \<Rightarrow>
          if ret then (n2, 0, src, dst)
          else if err2 \<noteq> 0 then (n2, if err2 = 1 then - ENOSPC else err2, src, dst)
          else (case nandpart_copyBlock sv info (se - 1) (de - 1) n2 of (n3, err3) \<Rightarrow>
            if err3 < 0 then (n3, err3, src, dst)
            else nandpart_copyBackward sv info srcStart (se - 1) dstStart (de - 1) (se - 1) (de - 1) failBad n3)))"
  by pat_completeness auto
termination
  by (relation "measure (\<lambda>(sv, info, ss, se, ds, de, src, dst, f, n). se)")
    (simp, auto intro: prevBlock_dec)

function forw_dst ::
  "'n server \<Rightarrow> flashsrv_info \<Rightarrow> nat \<Rightarrow> nat \<Rightarrow> nat \<Rightarrow> bool \<Rightarrow> 'n \<Rightarrow> 'n \<times> bool \<times> int \<times> nat" where
  "forw_dst sv info dstStart dstEnd srcStart failBad n =
     (case nandpart_nextBlock sv info dstStart dstEnd n of (n1, err, ds) \<Rightarrow>
        if err \<noteq> 0 then (n1, False, err, ds)
        else if ds = srcStart then (n1, True, 0, ds)
        else (case flashmng_erase sv info ds 1 n1 of (n2, e) \<Rightarrow>
          if e \<noteq> 0 then (n2, False, if e = 1 then 0 else e, ds)
          else if failBad then (n2, False, - EBADMSG, ds)
          else forw_dst sv info (ds + 1) dstEnd srcStart failBad n2))"
  by pat_completeness auto
termination
  by (relation "measure (\<lambda>(sv, info, ds, de, ss, f, n). de - ds)")
    (simp, auto intro: nextBlock_dec)

function nandpart_copyForward ::
  "'n server \<Rightarrow> flashsrv_info \<Rightarrow> nat \<Rightarrow> nat \<Rightarrow> nat \<Rightarrow> nat \<Rightarrow> nat \<Rightarrow> nat \<Rightarrow> bool \<Rightarrow> 'n \<Rightarrow> 'n \<times> int \<times> nat \<times> nat" where
  "nandpart_copyForward sv info srcStart srcEnd dstStart dstEnd src dst failBad n =
     (case nandpart_nextBlock sv info srcStart srcEnd n of (n1, err, ss) \<Rightarrow>
        if err \<noteq> 0 then (n1, err, src, dst)
        else (case forw_dst sv info dstStart dstEnd ss failBad n1 of (n2, ret, err2, ds) \<Rightarrow>
          if ret then (n2, 0, src, dst)
          else if err2 \<noteq> 0 then (n2, if err2 = 1 then - ENOSPC else err2, src, dst)
          else (case nandpart_copyBlock sv info ss ds n2 of (n3, err3) \<Rightarrow>
            if err3 < 0 then (n3, err3, src, dst)
            else nandpart_copyForward sv info (ss + 1) srcEnd (ds + 1) dstEnd ss ds failBad n3)))"
  by pat_completeness auto
termination
  by (relation "measure (\<lambda>(sv, info, ss, se, ds, de, src, dst, f, n). se - ss)")
    (simp, auto intro: nextBlock_dec)

declare back_dst.simps [simp del] nandpart_copyBackward.simps [simp del]
  forw_dst.simps [simp del] nandpart_copyForward.simps [simp del]


end
