(* ===== verification/Ptable.thy ===== *)
theory Ptable
  imports Numfmt Flash
begin

text \<open>
  Partitions of a NAND device: the partition descriptions on the command line, the check of a
  partition against the device and the table, look-up by name and printing
  (\<open>src/nandpart/nandpart.c\<close>).

  The types \<open>ptable_part_t\<close> and \<open>ptable_t\<close>, the codes of the partition types and \<open>ptable_size\<close> come
  from \<open>ptable.h\<close>, which is not part of the repository: the codes, the size of the name array, \<open>sizeof\<close>
  of a partition and \<open>ptable_size\<close> are parameters (\<open>ptconst\<close>). Offsets and sizes are 32 bit words whose sums wrap, as
  the code computes them; the size of the device has 64 bits.
\<close>

section \<open>Types\<close>

record ptable_part =
  pt_name :: string
  pt_offset :: "32 word"
  pt_size :: "32 word"
  pt_type :: "8 word"

record ptconst =
  pc_namesz :: nat
  pc_raw :: "8 word"
  pc_jffs2 :: "8 word"
  pc_meterfs :: "8 word"
  pc_size :: "nat \<Rightarrow> nat"
  pc_partsz :: nat

definition nandpart_partType2Str :: "ptconst \<Rightarrow> 8 word \<Rightarrow> string" where
  "nandpart_partType2Str pc t =
     (if t = pc_raw pc then ''raw'' else if t = pc_jffs2 pc then ''jffs2''
      else if t = pc_meterfs pc then ''meterfs'' else ''err'')"

definition nandpart_partStr2Type :: "ptconst \<Rightarrow> string \<Rightarrow> 8 word" where
  "nandpart_partStr2Type pc s =
     (if s = ''raw'' then pc_raw pc else if s = ''jffs2'' then pc_jffs2 pc
      else if s = ''meterfs'' then pc_meterfs pc else - 1)"

section \<open>Descriptions of partitions\<close>

text \<open>
  \<open>strtoul\<close> with base 0, where \<open>M - 1\<close> is the largest \<open>unsigned long\<close> (32 bits here, since the device is a
  32 bit ARM target): blanks, a sign, \<open>0x\<close> or \<open>0\<close> choose the base, the value saturates. The result is the value and the rest of
  the string at \<open>endptr\<close>, which is the whole string when there is no digit.
\<close>

definition digit_val :: "char \<Rightarrow> nat" where
  "digit_val c =
     (if isdigit c then code c - 48
      else if 97 \<le> code c \<and> code c \<le> 122 then code c - 87
      else if 65 \<le> code c \<and> code c \<le> 90 then code c - 55 else 36)"

fun digits :: "nat \<Rightarrow> nat \<Rightarrow> string \<Rightarrow> nat \<times> string" where
  "digits base acc [] = (acc, [])"
| "digits base acc (c # cs) =
     (if digit_val c < base then digits base (acc * base + digit_val c) cs else (acc, c # cs))"

definition strtoul_w :: "nat \<Rightarrow> string \<Rightarrow> nat \<times> string" where
  "strtoul_w M s =
     (let s1 = dropWhile isspace s;
          neg = (s1 \<noteq> [] \<and> hd s1 = CHR ''-'');
          s2 = (if s1 \<noteq> [] \<and> (hd s1 = CHR ''-'' \<or> hd s1 = CHR ''+'') then tl s1 else s1);
          hex = (case s2 of a # b # c # _ \<Rightarrow> a = CHR ''0'' \<and> (b = CHR ''x'' \<or> b = CHR ''X'') \<and> digit_val c < 16 | _ \<Rightarrow> False);
          base = (if hex then 16 else if s2 \<noteq> [] \<and> hd s2 = CHR ''0'' then 8 else 10);
          s3 = (if hex then drop 2 s2 else s2)
      in if s3 = [] \<or> \<not> digit_val (hd s3) < base then (0, s)
         else (case digits base 0 s3 of (v, rest) \<Rightarrow>
           (if v \<ge> M then M - 1 else if neg then (M - v) mod M else v, rest)))"

definition strtoul0 :: "string \<Rightarrow> nat \<times> string" where
  "strtoul0 s = strtoul_w (2 ^ 32) s"

text \<open>
  \<open>nandpart_parsePartName\<close>: the name and the rest of the argument. The index runs while it is below
  \<open>sizeof(part->name)\<close> and the argument has neither a colon nor its end there.
\<close>

definition nandpart_parsePartName :: "ptconst \<Rightarrow> string \<Rightarrow> (string \<times> string) option" where
  "nandpart_parsePartName pc arg =
     (let i = length (takeWhile (\<lambda>c. c \<noteq> CHR '':'') (take (pc_namesz pc) arg))
      in if i = 0 \<or> i \<ge> pc_namesz pc then None else Some (take i arg, drop i arg))"

text \<open>
  \<open>nandpart_parsePart\<close>. The last test of the code compares an unsigned 8 bit value, promoted to
  \<open>int\<close>, with \<open>-1\<close>; it is written out as the comparison of the two integers.
\<close>

definition nandpart_parsePart :: "ptconst \<Rightarrow> string \<Rightarrow> int + ptable_part" where
  "nandpart_parsePart pc arg = (case nandpart_parsePartName pc arg of
     None \<Rightarrow> Inl (- EINVAL)
   | Some (nm, a0) \<Rightarrow>
       if a0 = [] \<or> hd a0 \<noteq> CHR '':'' then Inl (- EINVAL)
       else let a1 = tl a0; (off, e1) = strtoul0 a1 in
         if e1 = a1 \<or> e1 = [] \<or> hd e1 \<noteq> CHR '':'' then Inl (- EINVAL)
         else let a2 = tl e1; (sz, e2) = strtoul0 a2 in
           if e2 = a2 \<or> e2 = [] \<or> hd e2 \<noteq> CHR '':'' then Inl (- EINVAL)
           else let ty = nandpart_partStr2Type pc (tl e2) in
             if int (unat ty) = -1 then Inl (- EINVAL)
             else Inr \<lparr>pt_name = nm, pt_offset = of_nat off, pt_size = of_nat sz, pt_type = ty\<rparr>)"

section \<open>Checking a partition\<close>

type_synonym ptable = "ptable_part list"

definition overlaps :: "ptable_part \<Rightarrow> ptable_part \<Rightarrow> bool" where
  "overlaps part p \<longleftrightarrow> pt_offset part \<le> pt_offset p + pt_size p - 1 \<and> pt_offset part + pt_size part - 1 \<ge> pt_offset p"

fun overlap_loop :: "ptable_part \<Rightarrow> ptable \<Rightarrow> int" where
  "overlap_loop part [] = EOK"
| "overlap_loop part (p # ps) =
     (if strcmp (pt_name p) (pt_name part) = 0 then overlap_loop part ps
      else if overlaps part p then - EINVAL else overlap_loop part ps)"

definition nandpart_verifyPart :: "flashsrv_info \<Rightarrow> ptable \<Rightarrow> ptable_part \<Rightarrow> int" where
  "nandpart_verifyPart info ptable part =
     (if pt_size part = 0 then - EINVAL
      else if unat (pt_size part) mod fi_erasesz info \<noteq> 0 then - EINVAL
      else if unat (pt_offset part) mod fi_erasesz info \<noteq> 0 then - EINVAL
      else if unat (pt_offset part + pt_size part) > fi_size info then - EINVAL
      else if pt_offset part + pt_size part < pt_offset part then - EINVAL
      else overlap_loop part ptable)"

fun find_from :: "nat \<Rightarrow> ptable \<Rightarrow> string \<Rightarrow> nat option" where
  "find_from i [] nm = None"
| "find_from i (p # ps) nm = (if strcmp (pt_name p) nm = 0 then Some i else find_from (Suc i) ps nm)"

definition nandpart_findPart :: "ptable \<Rightarrow> string \<Rightarrow> nat option" where
  "nandpart_findPart ptable nm = find_from 0 ptable nm"

text \<open>\<open>%-8s\<close>, \<open>%10u\<close> and \<open>%8s\<close>: a field of at least the width.\<close>

definition padr :: "nat \<Rightarrow> string \<Rightarrow> string" where
  "padr w s = s @ replicate (w - length s) CHR '' ''"

definition padleft :: "nat \<Rightarrow> string \<Rightarrow> string" where
  "padleft w s = replicate (w - length s) CHR '' '' @ s"

definition part_line :: "ptconst \<Rightarrow> ptable_part \<Rightarrow> string" where
  "part_line pc p =
     padr 8 (pt_name p) @ '' '' @ padleft 10 (dec (unat (pt_offset p))) @ '' ''
     @ padleft 10 (dec (unat (pt_offset p + pt_size p))) @ '' '' @ padleft 10 (dec (unat (pt_size p))) @ '' ''
     @ padleft 8 (nandpart_partType2Str pc (pt_type p)) @ [CHR 0x0A]"

definition nandpart_printPtable :: "ptconst \<Rightarrow> flashsrv_info \<Rightarrow> ptable \<Rightarrow> string" where
  "nandpart_printPtable pc info ptable =
     ''Memory size: '' @ dec (fi_size info) @ '', Block size: '' @ dec (fi_erasesz info)
     @ '', Partition table size: '' @ dec (pc_size pc (length ptable)) @ [CHR 0x0A]
     @ padr 8 ''Name'' @ '' '' @ padleft 10 ''Start'' @ '' '' @ padleft 10 ''End'' @ '' '' @ padleft 10 ''Size''
     @ '' '' @ padleft 8 ''Type'' @ [CHR 0x0A] @ concat (map (part_line pc) ptable)"

section \<open>What a valid partition is\<close>

definition extent :: "ptable_part \<Rightarrow> nat set" where
  "extent p = {unat (pt_offset p) ..< unat (pt_offset p) + unat (pt_size p)}"

definition part_fits :: "flashsrv_info \<Rightarrow> ptable_part \<Rightarrow> bool" where
  "part_fits info p \<longleftrightarrow> pt_size p \<noteq> 0 \<and> fi_erasesz info dvd unat (pt_size p) \<and> fi_erasesz info dvd unat (pt_offset p) \<and>
     unat (pt_offset p) + unat (pt_size p) \<le> fi_size info \<and> unat (pt_offset p) + unat (pt_size p) < 2 ^ 32"

lemma end_wraps:
  fixes a b :: "32 word"
  assumes "b \<noteq> 0"
  shows "\<not> a + b < a \<longleftrightarrow> unat a + unat b < 2 ^ 32"
    and "unat a + unat b < 2 ^ 32 \<Longrightarrow> unat (a + b) = unat a + unat b"
    and "unat a + unat b < 2 ^ 32 \<Longrightarrow> unat (a + b - 1) = unat a + unat b - 1"
proof -
  show sum: "unat (a + b) = unat a + unat b" if "unat a + unat b < 2 ^ 32"
    using that by (simp add: unat_word_ariths)
  show "\<not> a + b < a \<longleftrightarrow> unat a + unat b < 2 ^ 32"
  proof (cases "unat a + unat b < 2 ^ 32")
    case False
    have "unat a < 2 ^ 32" "unat b < 2 ^ 32" using unsigned_less [of a, where ?'a = nat] unsigned_less [of b, where ?'a = nat] by simp_all
    then have "unat (a + b) = unat a + unat b - 2 ^ 32" using False by (simp add: unat_word_ariths mod_if)
    then show ?thesis using False \<open>unat b < 2 ^ 32\<close> by (simp add: word_less_nat_alt)
  qed (simp add: sum word_less_nat_alt)
  have "0 < unat b" using assms by (simp add: unat_gt_0)
  then show "unat (a + b - 1) = unat a + unat b - 1" if "unat a + unat b < 2 ^ 32"
    using sum [OF that] by (simp add: unat_sub_if')
qed

lemma overlaps_iff:
  assumes "part_fits info p" "part_fits info q"
  shows "overlaps p q \<longleftrightarrow> extent p \<inter> extent q \<noteq> {}"
proof -
  have e: "unat (pt_offset r + pt_size r - 1) = unat (pt_offset r) + unat (pt_size r) - 1" "0 < unat (pt_size r)"
    if "part_fits info r" for r
    using that end_wraps(3) [of "pt_size r" "pt_offset r"] by (auto simp: part_fits_def unat_gt_0)
  have "overlaps p q \<longleftrightarrow> unat (pt_offset p) < unat (pt_offset q) + unat (pt_size q)
      \<and> unat (pt_offset q) < unat (pt_offset p) + unat (pt_size p)"
    using e [OF assms(1)] e [OF assms(2)] by (auto simp: overlaps_def word_le_nat_alt)
  also have "\<dots> \<longleftrightarrow> extent p \<inter> extent q \<noteq> {}"
  proof
    assume "unat (pt_offset p) < unat (pt_offset q) + unat (pt_size q)
      \<and> unat (pt_offset q) < unat (pt_offset p) + unat (pt_size p)"
    then have "max (unat (pt_offset p)) (unat (pt_offset q)) \<in> extent p \<inter> extent q"
      using e(2) [OF assms(1)] e(2) [OF assms(2)] by (auto simp: extent_def)
    then show "extent p \<inter> extent q \<noteq> {}" by blast
  qed (auto simp: extent_def)
  finally show ?thesis .
qed

lemma overlap_loop_iff:
  "overlap_loop part ps = 0 \<longleftrightarrow> (\<forall>p \<in> set ps. pt_name p \<noteq> pt_name part \<longrightarrow> \<not> overlaps part p)"
  by (induction ps) auto

lemma overlap_loop_range: "overlap_loop part ps = 0 \<or> overlap_loop part ps = - EINVAL"
  by (induction ps) auto

lemma verifyPart_iff:
  assumes "\<forall>p \<in> set ptable. part_fits info p"
  shows "nandpart_verifyPart info ptable part = 0 \<longleftrightarrow>
    part_fits info part \<and> (\<forall>p \<in> set ptable. pt_name p \<noteq> pt_name part \<longrightarrow> extent part \<inter> extent p = {})"
proof -
  have "nandpart_verifyPart info ptable part = 0 \<longleftrightarrow> part_fits info part \<and> overlap_loop part ptable = 0"
    using end_wraps(1,2) [of "pt_size part" "pt_offset part"]
    by (auto simp: nandpart_verifyPart_def part_fits_def dvd_eq_mod_eq_0)
  also have "\<dots> \<longleftrightarrow> part_fits info part \<and> (\<forall>p \<in> set ptable. pt_name p \<noteq> pt_name part \<longrightarrow> extent part \<inter> extent p = {})"
    using assms overlaps_iff [of info part] by (auto simp: overlap_loop_iff)
  finally show ?thesis .
qed

text \<open>
  C34: The check of a partition is exact. With 32 bit sums that may wrap, \<open>nandpart_verifyPart\<close> accepts
  a partition if and only if it is not empty, begins and ends on a block boundary, ends within the
  device and below 4 GiB, and shares no byte with a partition of another name; otherwise it returns
  \<open>-EINVAL\<close>.
\<close>

theorem nandpart_verifyPart_exact:
  assumes "\<forall>p \<in> set ptable. part_fits info p"
  shows "nandpart_verifyPart info ptable part =
    (if part_fits info part \<and> (\<forall>p \<in> set ptable. pt_name p \<noteq> pt_name part \<longrightarrow> extent part \<inter> extent p = {})
     then 0 else - EINVAL)"
  using verifyPart_iff [OF assms, of part] overlap_loop_range [of part ptable]
  by (auto simp: nandpart_verifyPart_def split: if_splits)

definition info_demo :: flashsrv_info where
  "info_demo = \<lparr>fi_size = 2 ^ 27, fi_erasesz = 2 ^ 17, fi_writesz = 2 ^ 11, fi_oobsz = 64\<rparr>"

definition root_demo :: ptable_part where
  "root_demo = \<lparr>pt_name = ''root'', pt_offset = 0x20000, pt_size = 0x40000, pt_type = 1\<rparr>"

theorem nandpart_verifyPart_exact_witness:
  "let part = \<lparr>pt_name = ''data'', pt_offset = 0x40000, pt_size = 0x40000, pt_type = 1\<rparr> in
   nandpart_verifyPart info_demo [root_demo] part =
    (if part_fits info_demo part \<and> (\<forall>p \<in> set [root_demo]. pt_name p \<noteq> pt_name part \<longrightarrow> extent part \<inter> extent p = {})
     then 0 else - EINVAL)"
  unfolding Let_def
  by (rule nandpart_verifyPart_exact) (simp add: part_fits_def info_demo_def root_demo_def)


section \<open>Reading a description back\<close>

lemma digits_all:
  "\<forall>c \<in> set xs. digit_val c < base \<Longrightarrow>
     digits base acc (xs @ ys) = digits base (foldl (\<lambda>a c. a * base + digit_val c) acc xs) ys"
  by (induction xs arbitrary: acc) auto

lemma digit_char: "d < 10 \<Longrightarrow> digit_val (''0123456789'' ! d) = d"
  by (auto simp: less_Suc_eq numeral_eq_Suc digit_val_def isdigit_def code_def)

lemma dec_digits: "\<forall>c \<in> set (dec k). digit_val c < 10"
proof (induction k rule: dec.induct)
  case (1 k)
  then show ?case using digit_char [of k] digit_char [of "k mod 10"] by (subst dec.simps) auto
qed

lemma dec_value: "foldl (\<lambda>a c. a * 10 + digit_val c) 0 (dec k) = k"
proof (induction k rule: dec.induct)
  case (1 k)
  then show ?case using digit_char [of k] digit_char [of "k mod 10"] by (subst dec.simps) simp
qed

lemma dec_hd: "dec k \<noteq> [] \<and> (hd (dec k) = CHR ''0'' \<longleftrightarrow> k = 0)"
proof (induction k rule: dec.induct)
  case (1 k)
  show ?case
  proof (cases "k < 10")
    case True
    then show ?thesis by (subst (1 2) dec.simps) (auto simp: less_Suc_eq numeral_eq_Suc)
  next
    case False
    then show ?thesis using 1 by (subst (1 2) dec.simps) simp
  qed
qed

lemma digit_not_blank: "digit_val c < 10 \<Longrightarrow> \<not> isspace c \<and> c \<noteq> CHR ''-'' \<and> c \<noteq> CHR ''+''"
  by (auto simp: digit_val_def cclass code_def split: if_splits)

lemma strtoul_w_dec:
  assumes "k < M" "\<And>c r. rest = c # r \<Longrightarrow> digit_val c = 36"
  shows "strtoul_w M (dec k @ rest) = (k, rest)"
proof (cases "k = 0")
  case True
  have zero: "digit_val (CHR ''0'') = 0" "\<not> isspace (CHR ''0'')" "digit_val (CHR ''x'') = 33" "digit_val (CHR ''X'') = 33"
    by (simp_all add: digit_val_def cclass code_def)
  show ?thesis
  proof (cases rest)
    case (Cons c r)
    then have "digit_val c = 36" "c \<noteq> CHR ''x''" "c \<noteq> CHR ''X''" using assms(2) [OF Cons] zero by auto
    then show ?thesis using True Cons zero assms(1) by (cases r) (simp_all add: dec.simps strtoul_w_def Let_def)
  qed (use True zero assms(1) in \<open>simp add: dec.simps strtoul_w_def Let_def\<close>)
next
  case False
  obtain c cs where d: "dec k = c # cs" using dec_hd [of k] by (cases "dec k") auto
  have c: "digit_val c < 10" "c \<noteq> CHR ''0''" using dec_digits [of k] dec_hd [of k] False d by auto
  have "digits 10 0 (dec k @ rest) = (k, rest)"
    using digits_all [OF dec_digits [of k], of 0 rest] assms(2) by (cases rest) (simp_all add: dec_value)
  then show ?thesis
    using c digit_not_blank [OF c(1)] assms(1) unfolding d strtoul_w_def by (simp add: Let_def split: list.split)
qed

lemma strtoul_dec: "k < 2 ^ 32 \<Longrightarrow> strtoul0 (dec k @ CHR '':'' # rest) = (k, CHR '':'' # rest)"
  unfolding strtoul0_def by (rule strtoul_w_dec) (auto simp: digit_val_def cclass code_def)

definition part_spec :: "string \<Rightarrow> nat \<Rightarrow> nat \<Rightarrow> string \<Rightarrow> string" where
  "part_spec nm off sz ty = nm @ '':'' @ dec off @ '':'' @ dec sz @ '':'' @ ty"

lemma parsePart_spec:
  assumes nm: "nm \<noteq> []" "length nm < pc_namesz pc" "CHR '':'' \<notin> set nm" and n: "off < 2 ^ 32" "sz < 2 ^ 32"
  shows "nandpart_parsePart pc (part_spec nm off sz ty)
    = Inr \<lparr>pt_name = nm, pt_offset = of_nat off, pt_size = of_nat sz, pt_type = nandpart_partStr2Type pc ty\<rparr>"
proof -
  obtain m where m: "pc_namesz pc = length nm + Suc m" using nm(2) less_iff_Suc_add [of "length nm"] by auto
  have "takeWhile (\<lambda>c. c \<noteq> CHR '':'') (take (pc_namesz pc) (nm @ CHR '':'' # r)) = nm" for r
    unfolding m using nm(3) by (simp add: takeWhile_append)
  then have name: "nandpart_parsePartName pc (nm @ CHR '':'' # r) = Some (nm, CHR '':'' # r)" for r
    using nm by (simp add: nandpart_parsePartName_def)
  have ne: "dec k \<noteq> []" for k using dec_hd [of k] by auto
  have ty: "uint (nandpart_partStr2Type pc ty) \<noteq> - 1"
    using unsigned_greater_eq [of "nandpart_partStr2Type pc ty", where ?'a = int] by linarith
  show ?thesis
    unfolding nandpart_parsePart_def part_spec_def
    by (simp add: name strtoul_dec [OF n(1)] strtoul_dec [OF n(2)] ne ty Let_def)
qed

text \<open>
  A partition description is read back exactly: from \<open>name:offs:size:type\<close> with a name that
  fits, numbers below $2^{32}$ in decimal and one of the three type names, \<open>nandpart_parsePart\<close> gives
  that name, those numbers and the code of the type, and printing the code gives the type name
  back (for distinct codes).
\<close>

lemma nandpart_parsePart_roundtrip:
  assumes nm: "nm \<noteq> []" "length nm < pc_namesz pc" "CHR '':'' \<notin> set nm" and n: "off < 2 ^ 32" "sz < 2 ^ 32"
    and ty: "ty \<in> {''raw'', ''jffs2'', ''meterfs''}" "distinct [pc_raw pc, pc_jffs2 pc, pc_meterfs pc]"
  shows "\<exists>p. nandpart_parsePart pc (part_spec nm off sz ty) = Inr p \<and> pt_name p = nm
    \<and> unat (pt_offset p) = off \<and> unat (pt_size p) = sz \<and> nandpart_partType2Str pc (pt_type p) = ty"
  unfolding parsePart_spec [OF nm n]
  using n ty by (auto simp: nandpart_partType2Str_def nandpart_partStr2Type_def unat_of_nat)

definition pc_demo :: ptconst where
  "pc_demo = \<lparr>pc_namesz = 8, pc_raw = 0, pc_jffs2 = 1, pc_meterfs = 2, pc_size = \<lambda>n. 4 + 20 * n, pc_partsz = 20\<rparr>"

text \<open>
  A defect: an unknown type name is accepted. \<open>nandpart_partStr2Type\<close> returns \<open>-1\<close> as an unsigned
  8 bit value, the test for \<open>-1\<close> is never true, and the partition gets the type 255.
\<close>

lemma nandpart_parsePart_unknown_type:
  assumes nm: "nm \<noteq> []" "length nm < pc_namesz pc" "CHR '':'' \<notin> set nm" and n: "off < 2 ^ 32" "sz < 2 ^ 32"
    and ty: "ty \<notin> {''raw'', ''jffs2'', ''meterfs''}"
  shows "\<exists>p. nandpart_parsePart pc (part_spec nm off sz ty) = Inr p \<and> unat (pt_type p) = 255"
  unfolding parsePart_spec [OF nm n] using ty by (auto simp: nandpart_partStr2Type_def unsigned_minus_1_eq_mask mask_eq_exp_minus_1)

end
