(* ===== verification/Blockmove.thy ===== *)
theory Blockmove
  imports Ptable
begin

text \<open>
  Moving a partition: \<open>nandpart_shiftRightSafe\<close>, \<open>nandpart_eraseBlocks\<close>, the two safe copies,
  \<open>nandpart_countBlocks\<close> and \<open>nandpart_movePart\<close> of \<open>src/nandpart/nandpart.c\<close>, and what the copy loops of
  theory \<open>Flash\<close> do to the device.

  The variables that \<open>nandpart_copyForwardSafe\<close> leaves uninitialised are the parameters \<open>src0\<close> and
  \<open>dst0\<close>.
\<close>

section \<open>Shifting to the right\<close>

text \<open>The loop: the state, \<open>err\<close>, \<open>src\<close>, \<open>dst\<close>, \<open>srcEnd\<close> and \<open>dstEnd\<close> behind it.\<close>

function shift_loop ::
  "'n server \<Rightarrow> flashsrv_info \<Rightarrow> nat \<Rightarrow> nat \<Rightarrow> nat \<Rightarrow> nat \<Rightarrow> nat \<Rightarrow> 'n \<Rightarrow> 'n \<times> int \<times> nat \<times> nat \<times> nat \<times> nat" where
  "shift_loop sv info srcStart maxEnd dstEnd src dst n =
     (case nandpart_nextBlock sv info dstEnd maxEnd n of (n1, err, de) \<Rightarrow>
        if err = 1 then (n1, - ENOSPC, src, dst, dstEnd, de)
        else (case nandpart_copyBackward sv info srcStart dstEnd (srcStart + 1) (de + 1) src dst True n1 of
          (n2, err2, src', dst') \<Rightarrow>
            if err2 = - EBADMSG then shift_loop sv info srcStart maxEnd (de + 1) src' dst' n2
            else (n2, err2, src', dst', dstEnd, de + 1)))"
  by pat_completeness auto

lemma nextBlock_more:
  "(n', err, b) = nandpart_nextBlock sv info s0 e0 n \<Longrightarrow> err \<noteq> 1 \<Longrightarrow> s0 < e0 \<and> s0 \<le> b"
proof -
  have "next_scan sv info blk k st m = (n', err, b) \<Longrightarrow> err \<noteq> 1 \<Longrightarrow> st \<le> blk \<Longrightarrow> 0 < k \<and> st \<le> b" for blk k st m
    by (induction k arbitrary: blk m) (force split: prod.splits if_splits)+
  from this [of s0 "e0 - s0" s0 n] show "(n', err, b) = nandpart_nextBlock sv info s0 e0 n \<Longrightarrow> err \<noteq> 1 \<Longrightarrow> s0 < e0 \<and> s0 \<le> b"
    by (auto simp: nandpart_nextBlock_def)
qed

lemma nextBlock_shrinks:
  "(n', err, b) = nandpart_nextBlock sv info s0 e0 n \<Longrightarrow> err \<noteq> 1 \<Longrightarrow> e0 - Suc b < e0 - s0"
  using nextBlock_more [of n' err b sv info s0 e0 n] by linarith

termination shift_loop
  by (relation "measure (\<lambda>(sv, info, ss, me, de, src, dst, n). me - de)") (simp, auto intro: nextBlock_shrinks)

declare shift_loop.simps [simp del]

definition nandpart_shiftRightSafe ::
  "'n server \<Rightarrow> flashsrv_info \<Rightarrow> nat \<Rightarrow> nat \<Rightarrow> nat \<Rightarrow> 'n \<Rightarrow> 'n \<times> int \<times> nat \<times> nat" where
  "nandpart_shiftRightSafe sv info start end0 maxEnd n =
     (case shift_loop sv info start maxEnd end0 end0 end0 n of (n1, err, src, dst, srcEnd, dstEnd) \<Rightarrow>
        if err < 0 then
          (case nandpart_copyForward sv info dst dstEnd src srcEnd 0 0 True n1 of (n2, _) \<Rightarrow> (n2, err, start, end0))
        else (n1, err, dst, dstEnd))"

definition nandpart_eraseBlocks :: "'n server \<Rightarrow> flashsrv_info \<Rightarrow> nat \<Rightarrow> nat \<Rightarrow> bool \<Rightarrow> 'n \<Rightarrow> 'n \<times> int" where
  "nandpart_eraseBlocks sv info start cnt markClean n =
     (case flashmng_erase sv info start cnt n of (n1, err) \<Rightarrow>
        if err \<le> 0 \<or> \<not> markClean then (n1, err)
        else (case flashmng_markClean sv info start cnt n1 of (n2, err2) \<Rightarrow> (n2, if err2 < 0 then err2 else 0)))"

section \<open>The safe copies\<close>

lemma shift_loop_end:
  "shift_loop sv info ss me de src dst n = (n', err, src', dst', se', de') \<Longrightarrow> 0 \<le> err \<Longrightarrow> de < me \<and> de < de'"
proof (induction sv info ss me de src dst n rule: shift_loop.induct)
  case (1 sv info ss me de src dst n)
  obtain n1 e d where nb: "nandpart_nextBlock sv info de me n = (n1, e, d)" by (metis prod_cases3)
  obtain n2 e2 s2 d2 where cb: "nandpart_copyBackward sv info ss de (ss + 1) (d + 1) src dst True n1 = (n2, e2, s2, d2)"
    by (metis prod_cases4)
  have "e \<noteq> 1" using "1.prems" nb by (auto simp: shift_loop.simps [of _ _ ss])
  then have d: "de < me" "de \<le> d" using nextBlock_more [OF nb [symmetric]] by auto
  show ?case
  proof (cases "e2 = - EBADMSG")
    case True
    then have "shift_loop sv info ss me (d + 1) s2 d2 n2 = (n', err, src', dst', se', de')"
      using "1.prems"(1) nb cb \<open>e \<noteq> 1\<close> by (simp add: shift_loop.simps [of _ _ ss _ de])
    then have "d + 1 < de'" using "1.IH" [OF nb [symmetric] refl \<open>e \<noteq> 1\<close> cb [symmetric] refl refl True] "1.prems"(2) by simp
    then show ?thesis using d by simp
  next
    case False
    then show ?thesis using "1.prems"(1) nb cb \<open>e \<noteq> 1\<close> d by (auto simp: shift_loop.simps [of _ _ ss _ de])
  qed
qed

lemma shiftRight_grows:
  "(n', err, s', e') = nandpart_shiftRightSafe sv info start end0 me n \<Longrightarrow> \<not> err < 0 \<Longrightarrow> me - e' < me - end0"
  using shift_loop_end [of sv info start me end0 end0 end0 n]
  by (fastforce simp: nandpart_shiftRightSafe_def split: prod.splits if_splits)

text \<open>The loop: the state, \<open>err\<close>, \<open>src\<close>, \<open>dst\<close> and \<open>odstEnd\<close> behind it.\<close>

function back_safe_loop ::
  "'n server \<Rightarrow> flashsrv_info \<Rightarrow> nat \<Rightarrow> nat \<Rightarrow> nat \<Rightarrow> nat \<Rightarrow> nat \<Rightarrow> nat \<Rightarrow> nat \<Rightarrow> nat \<Rightarrow> 'n \<Rightarrow> 'n \<times> int \<times> nat \<times> nat \<times> nat" where
  "back_safe_loop sv info srcStart srcEnd dstStart dstEnd maxEnd src dst odstEnd n =
     (case nandpart_copyBackward sv info srcStart srcEnd dstStart dstEnd src dst True n of (n1, err, src1, dst1) \<Rightarrow>
        if err \<noteq> - EBADMSG then (n1, err, src1, dst1, odstEnd)
        else (case nandpart_shiftRightSafe sv info dst1 odstEnd maxEnd n1 of (n2, err2, dst2, odst2) \<Rightarrow>
          if err2 < 0 then (n2, err2, src1, dst2, odst2)
          else back_safe_loop sv info srcStart src1 dstStart dst2 maxEnd src1 dst2 odst2 n2))"
  by pat_completeness auto
termination
  by (relation "measure (\<lambda>(sv, info, ss, se, ds, de, me, src, dst, ode, n). me - ode)") (simp, auto intro: shiftRight_grows)

declare back_safe_loop.simps [simp del]

definition nandpart_copyBackwardSafe ::
  "'n server \<Rightarrow> flashsrv_info \<Rightarrow> nat \<Rightarrow> nat \<Rightarrow> nat \<Rightarrow> nat \<Rightarrow> nat \<Rightarrow> bool \<Rightarrow> 'n \<Rightarrow> 'n \<times> int" where
  "nandpart_copyBackwardSafe sv info srcStart srcEnd dstStart dstEnd maxEnd markClean n =
     (case back_safe_loop sv info srcStart srcEnd dstStart dstEnd maxEnd srcEnd dstEnd dstEnd n of
       (n1, err, src, dst, odstEnd) \<Rightarrow>
        if err < 0 then
          (case nandpart_copyForward sv info dst odstEnd src srcEnd 0 0 True n1 of (n2, _) \<Rightarrow> (n2, err))
        else if maxEnd > odstEnd then nandpart_eraseBlocks sv info odstEnd (maxEnd - odstEnd) markClean n1
        else (n1, err))"

definition nandpart_copyForwardSafe ::
  "'n server \<Rightarrow> flashsrv_info \<Rightarrow> nat \<Rightarrow> nat \<Rightarrow> nat \<Rightarrow> nat \<Rightarrow> nat \<Rightarrow> nat \<Rightarrow> bool \<Rightarrow> 'n \<Rightarrow> 'n \<times> int" where
  "nandpart_copyForwardSafe sv info srcStart srcEnd dstStart dstEnd src0 dst0 markClean n =
     (case nandpart_copyForward sv info srcStart srcEnd dstStart dstEnd src0 dst0 False n of (n1, err, src, dst) \<Rightarrow>
        if err < 0 then
          (case nandpart_copyBackward sv info dstStart (dst + 1) srcStart (src + 1) 0 0 True n1 of (n2, _) \<Rightarrow> (n2, err))
        else if dstEnd > dst + 1 then nandpart_eraseBlocks sv info (dst + 1) (dstEnd - dst - 1) markClean n1
        else (n1, err))"

section \<open>Moving a partition\<close>

function countBlocks_loop :: "'n server \<Rightarrow> flashsrv_info \<Rightarrow> nat \<Rightarrow> nat \<Rightarrow> nat \<Rightarrow> 'n \<Rightarrow> 'n \<times> int" where
  "countBlocks_loop sv info start end0 cnt n =
     (case nandpart_nextBlock sv info start end0 n of (n1, err, s1) \<Rightarrow>
        if err = 0 then countBlocks_loop sv info (s1 + 1) end0 (cnt + 1) n1
        else (n1, if err < 0 then err else int cnt))"
  by pat_completeness auto
termination
  by (relation "measure (\<lambda>(sv, info, s, e, c, n). e - s)") (simp, auto intro: nextBlock_dec)

declare countBlocks_loop.simps [simp del]

definition nandpart_countBlocks :: "'n server \<Rightarrow> flashsrv_info \<Rightarrow> nat \<Rightarrow> nat \<Rightarrow> 'n \<Rightarrow> 'n \<times> int" where
  "nandpart_countBlocks sv info start end0 n = countBlocks_loop sv info start end0 0 n"

text \<open>The end block of the destination area: \<open>i\<close> good blocks from \<open>end\<close> on; \<open>Inl\<close> is the error.\<close>

fun find_end :: "'n server \<Rightarrow> flashsrv_info \<Rightarrow> nat \<Rightarrow> nat \<Rightarrow> nat \<Rightarrow> 'n \<Rightarrow> 'n \<times> (int + nat)" where
  "find_end sv info 0 blk dstEnd n = (n, Inr blk)"
| "find_end sv info (Suc i) blk dstEnd n =
     (case nandpart_nextBlock sv info blk dstEnd n of (n1, err, b) \<Rightarrow>
        if err \<noteq> 0 then (n1, Inl (if err = 1 then - ENOSPC else err)) else find_end sv info i (b + 1) dstEnd n1)"

definition nandpart_movePart ::
  "'n server \<Rightarrow> ptconst \<Rightarrow> flashsrv_info \<Rightarrow> nat \<Rightarrow> nat \<Rightarrow> ptable_part \<Rightarrow> ptable_part \<Rightarrow> 'n \<Rightarrow> 'n \<times> int" where
  "nandpart_movePart sv pc info src0 dst0 part md n =
     (let markClean = (pt_type md = pc_jffs2 pc);
          srcStart = unat (pt_offset part) div fi_erasesz info;
          srcEnd = unat (pt_offset part + pt_size part) div fi_erasesz info;
          dstStart = unat (pt_offset md) div fi_erasesz info;
          dstEnd = unat (pt_offset md + pt_size md) div fi_erasesz info
      in if \<not> sv_alloc sv then (n, - ENOMEM)
         else if dstStart > srcStart \<and> dstStart < srcEnd then
           (case nandpart_countBlocks sv info srcStart srcEnd n of (n1, err) \<Rightarrow>
              if err \<le> 0 then (n1, err)
              else (case find_end sv info (nat err) dstStart dstEnd n1 of
                  (n2, Inl e) \<Rightarrow> (n2, e)
                | (n2, Inr en) \<Rightarrow>
                    nandpart_copyBackwardSafe sv info srcStart srcEnd dstStart (en + 1) dstEnd markClean n2))
         else nandpart_copyForwardSafe sv info srcStart srcEnd dstStart dstEnd src0 dst0 markClean n)"

end
