(* ===== verification/Copyproofs.thy ===== *)
theory Copyproofs
  imports Blockmove
begin

text \<open>
  What the copy loops do to the device, for a server that behaves as the flash server documents: it
  tells the bad blocks, erasing a good block sets its pages to \<open>0xff\<close>, and metadata and data of
  an erased page can be written once and are read back.
\<close>

section \<open>A server that behaves\<close>

type_synonym page = "byte list \<times> byte list"

abbreviation npages :: "flashsrv_info \<Rightarrow> nat" where
  "npages info \<equiv> fi_erasesz info div fi_writesz info"

definition blank :: "flashsrv_info \<Rightarrow> page" where
  "blank info = (replicate (fi_oobsz info) 0xff, replicate (fi_writesz info) 0xff)"

definition pages_of :: "flashsrv_info \<Rightarrow> nat \<Rightarrow> nat set" where
  "pages_of info b = {b * npages info ..< b * npages info + npages info}"

text \<open>
  \<open>bad\<close> tells the bad blocks, \<open>pg n p\<close> is metadata and data of page \<open>p\<close> in state \<open>n\<close>; the device
  has \<open>nb\<close> blocks.
\<close>

definition behaves ::
  "'n server \<Rightarrow> flashsrv_info \<Rightarrow> nat \<Rightarrow> (nat \<Rightarrow> bool) \<Rightarrow> ('n \<Rightarrow> nat \<Rightarrow> page) \<Rightarrow> bool" where
  "behaves sv info nb bad pg \<longleftrightarrow>
     (\<forall>b < nb. \<forall>n. flashmng_isBad sv info b n = (n, if bad b then 1 else 0)) \<and>
     (\<forall>b < nb. \<forall>n. \<not> bad b \<longrightarrow> (\<exists>n'. flashmng_erase sv info b 1 n = (n', 1) \<and>
        pg n' = (\<lambda>p. if p \<in> pages_of info b then blank info else pg n p))) \<and>
     (\<forall>p < nb * npages info. \<forall>n. flashmng_readMeta sv info p n = (n, 0, fst (pg n p)) \<and>
        sv_read sv (u32 p * fi_writesz info) (fi_writesz info) n = (n, int (fi_writesz info), snd (pg n p)) \<and>
        length (fst (pg n p)) = fi_oobsz info \<and> length (snd (pg n p)) = fi_writesz info) \<and>
     (\<forall>p < nb * npages info. \<forall>n d. fst (pg n p) = fst (blank info) \<and> length d = fi_oobsz info \<longrightarrow>
        (\<exists>n'. flashmng_writeMeta sv info d p n = (n', 0) \<and> pg n' = (pg n)(p := (d, snd (pg n p))))) \<and>
     (\<forall>p < nb * npages info. \<forall>n d. snd (pg n p) = snd (blank info) \<and> length d = fi_writesz info \<longrightarrow>
        (\<exists>n'. sv_write sv (u32 p * fi_writesz info) d n = (n', int (fi_writesz info)) \<and> pg n' = (pg n)(p := (fst (pg n p), d))))"

lemma behavesD:
  assumes "behaves sv info nb bad pg"
  shows "b < nb \<Longrightarrow> flashmng_isBad sv info b n = (n, if bad b then 1 else 0)"
    and "b < nb \<Longrightarrow> \<not> bad b \<Longrightarrow> \<exists>n'. flashmng_erase sv info b (Suc 0) n = (n', 1) \<and>
        pg n' = (\<lambda>p. if p \<in> pages_of info b then blank info else pg n p)"
    and "p < nb * npages info \<Longrightarrow> flashmng_readMeta sv info p n = (n, 0, fst (pg n p))"
    and "p < nb * npages info \<Longrightarrow>
        sv_read sv (u32 p * fi_writesz info) (fi_writesz info) n = (n, int (fi_writesz info), snd (pg n p))"
    and "p < nb * npages info \<Longrightarrow> length (fst (pg n p)) = fi_oobsz info"
    and "p < nb * npages info \<Longrightarrow> length (snd (pg n p)) = fi_writesz info"
    and "p < nb * npages info \<Longrightarrow> fst (pg n p) = fst (blank info) \<Longrightarrow> length d = fi_oobsz info \<Longrightarrow>
        \<exists>n'. flashmng_writeMeta sv info d p n = (n', 0) \<and> pg n' = (pg n)(p := (d, snd (pg n p)))"
    and "p < nb * npages info \<Longrightarrow> snd (pg n p) = snd (blank info) \<Longrightarrow> length e = fi_writesz info \<Longrightarrow>
        \<exists>n'. sv_write sv (u32 p * fi_writesz info) e n = (n', int (fi_writesz info)) \<and> pg n' = (pg n)(p := (fst (pg n p), e))"
  using assms by (simp_all add: behaves_def)

section \<open>Copying a block\<close>

lemma clean_blank: "clean m \<Longrightarrow> m = replicate (length m) 0xff"
  by (induction m) (auto simp: clean_def)

lemma copy_page_ok:
  assumes B: "behaves sv info nb bad pg" and p: "sp < nb * npages info" "dp < nb * npages info" "sp \<noteq> dp"
    and erased: "pg n dp = blank info"
  shows "\<exists>n'. copy_page sv info sp dp n = (n', 0) \<and> pg n' = (pg n)(dp := pg n sp)"
proof -
  note D = behavesD [OF B]
  let ?m = "fst (pg n sp)" and ?d = "snd (pg n sp)"
  have len: "length ?m = fi_oobsz info" "length ?d = fi_writesz info" using D(5,6) p(1) by simp_all
  obtain n1 where n1: "(if clean ?m then (n, 0) else flashmng_writeMeta sv info ?m dp n) = (n1, 0)"
    "pg n1 = (pg n)(dp := (?m, snd (blank info)))"
  proof (cases "clean ?m")
    case True
    then have "?m = fst (blank info)" using clean_blank len(1) by (metis blank_def fst_conv)
    then show ?thesis using True that [of n] erased by (auto simp: prod_eq_iff fun_eq_iff)
  next
    case False
    then show ?thesis using D(7) [OF p(2), of n ?m] erased len(1) that by auto
  qed
  have s1: "pg n1 sp = pg n sp" "pg n1 dp = (?m, snd (blank info))" using n1(2) p(3) by simp_all
  obtain n2 where n2: "(if clean ?d then (n1, 0) else (case sv_write sv (u32 dp * fi_writesz info) ?d n1 of (n4, w) \<Rightarrow>
      if w < 0 then (n4, w) else if w \<noteq> int (fi_writesz info) then (n4, - EIO) else (n4, 0))) = (n2, 0)"
    "pg n2 = (pg n)(dp := pg n sp)"
  proof (cases "clean ?d")
    case True
    then have "?d = snd (blank info)" using clean_blank len(2) by (metis blank_def snd_conv)
    then show ?thesis using True that [of n1] n1(2) by (auto simp: prod_eq_iff fun_eq_iff)
  next
    case False
    have "\<exists>n'. sv_write sv (u32 dp * fi_writesz info) ?d n1 = (n', int (fi_writesz info))
        \<and> pg n' = (pg n1)(dp := (fst (pg n1 dp), ?d))"
      by (rule D(8) [OF p(2)]) (simp_all add: s1 len)
    then show ?thesis using False that n1(2) s1(2) by (auto simp: fun_eq_iff)
  qed
  have "copy_page sv info sp dp n = (n2, 0)"
    using n1(1) n2(1) D(3) [OF p(1), of n] D(4) [OF p(1), of n1] s1(1) by (simp add: copy_page_def)
  then show ?thesis using n2(2) by blast
qed

lemma copyBlock_loop_ok:
  assumes B: "behaves sv info nb bad pg"
  shows "sp + k \<le> nb * npages info \<Longrightarrow> dp + k \<le> nb * npages info \<Longrightarrow> sp + k \<le> dp \<or> dp + k \<le> sp \<Longrightarrow>
    \<forall>i < k. pg n (dp + i) = blank info \<Longrightarrow>
    \<exists>n'. copyBlock_loop sv info sp dp k n = (n', 0) \<and>
      (\<forall>i < k. pg n' (dp + i) = pg n (sp + i)) \<and> (\<forall>p. p \<notin> {dp ..< dp + k} \<longrightarrow> pg n' p = pg n p)"
proof (induction k arbitrary: sp dp n)
  case (Suc k)
  obtain n1 where n1: "copy_page sv info sp dp n = (n1, 0)" "pg n1 = (pg n)(dp := pg n sp)"
    using copy_page_ok [OF B, of sp dp n] Suc.prems by force
  have "\<forall>i < k. pg n1 (Suc dp + i) = blank info" using n1(2) Suc.prems(4) by auto
  moreover have "Suc sp + k \<le> Suc dp \<or> Suc dp + k \<le> Suc sp" using Suc.prems(3) by auto
  ultimately obtain n2 where n2: "copyBlock_loop sv info (Suc sp) (Suc dp) k n1 = (n2, 0)"
    "\<forall>i < k. pg n2 (Suc dp + i) = pg n1 (Suc sp + i)" "\<forall>p. p \<notin> {Suc dp ..< Suc dp + k} \<longrightarrow> pg n2 p = pg n1 p"
    using Suc.IH [of "Suc sp" "Suc dp" n1] Suc.prems(1,2) by auto
  have "pg n2 (dp + i) = pg n (sp + i)" if "i < Suc k" for i
  proof (cases i)
    case 0
    then show ?thesis using n2(3) n1(2) by simp
  next
    case (Suc j)
    then have "pg n2 (dp + i) = pg n1 (sp + i)" using n2(2) that by auto
    moreover have "sp + i \<noteq> dp" using Suc.prems(3) that by auto
    ultimately show ?thesis using n1(2) by simp
  qed
  then show ?case using n1 n2 by (intro exI [of _ n2]) auto
qed simp

definition content :: "flashsrv_info \<Rightarrow> ('n \<Rightarrow> nat \<Rightarrow> page) \<Rightarrow> 'n \<Rightarrow> nat \<Rightarrow> page list" where
  "content info pg n b = map (pg n) [b * npages info ..< b * npages info + npages info]"

lemma content_cong: "\<forall>p \<in> pages_of info b. pg n' p = pg n p \<Longrightarrow> content info pg n' b = content info pg n b"
  by (simp add: content_def pages_of_def)

lemma block_page_le: "b < nb \<Longrightarrow> b * k + k \<le> nb * k" for b nb k :: nat
  by (metis Suc_leI mult_Suc mult_le_mono1 add.commute)

lemma blocks_apart: "a \<noteq> b \<Longrightarrow> a * k + k \<le> b * k \<or> b * k + k \<le> a * k" for a b k :: nat
  by (cases "a < b") (use block_page_le [of a b k] block_page_le [of b a k] in auto)

lemma pages_disjoint: "a \<noteq> b \<Longrightarrow> p \<in> pages_of info a \<Longrightarrow> p \<notin> pages_of info b"
  using blocks_apart [of a b "npages info"] by (auto simp: pages_of_def)

text \<open>Erasing a good block and copying another block into it: only that block changes.\<close>

lemma erase_copy:
  assumes B: "behaves sv info nb bad pg" and b: "src < nb" "dst < nb" "\<not> bad dst" "src \<noteq> dst"
  shows "\<exists>n1 n2. flashmng_erase sv info dst (Suc 0) n = (n1, 1) \<and> nandpart_copyBlock sv info src dst n1 = (n2, 0)
    \<and> content info pg n2 dst = content info pg n src
    \<and> (\<forall>c. c \<noteq> dst \<longrightarrow> content info pg n2 c = content info pg n c)"
proof -
  let ?k = "npages info"
  obtain n1 where n1: "flashmng_erase sv info dst (Suc 0) n = (n1, 1)"
    "pg n1 = (\<lambda>p. if p \<in> pages_of info dst then blank info else pg n p)"
    using behavesD(2) [OF B b(2,3), of n] by blast
  have er: "\<forall>i < ?k. pg n1 (dst * ?k + i) = blank info" using n1(2) by (simp add: pages_of_def)
  obtain n2 where n2: "copyBlock_loop sv info (src * ?k) (dst * ?k) ?k n1 = (n2, 0)"
    "\<forall>i < ?k. pg n2 (dst * ?k + i) = pg n1 (src * ?k + i)"
    "\<forall>p. p \<notin> pages_of info dst \<longrightarrow> pg n2 p = pg n1 p"
    using copyBlock_loop_ok [OF B block_page_le [OF b(1)] block_page_le [OF b(2)] blocks_apart [OF b(4)] er]
    unfolding pages_of_def by blast
  have same: "pg n1 p = pg n p" if "p \<notin> pages_of info dst" for p using n1(2) that by simp
  have "src * ?k + i \<notin> pages_of info dst" if "i < ?k" for i
    using that pages_disjoint [OF b(4), of "src * ?k + i" info] by (simp add: pages_of_def)
  then have "\<forall>i < ?k. pg n2 (dst * ?k + i) = pg n (src * ?k + i)" using n2(2) same by simp
  then have "content info pg n2 dst = content info pg n src"
    by (auto simp: content_def list_eq_iff_nth_eq)
  moreover have "content info pg n2 c = content info pg n c" if "c \<noteq> dst" for c
    using n2(3) same pages_disjoint [OF that] by (intro content_cong) simp
  ultimately show ?thesis using n1(1) n2(1) by (auto simp: nandpart_copyBlock_def Let_def)
qed

section \<open>Copying forward\<close>

definition goods :: "(nat \<Rightarrow> bool) \<Rightarrow> nat \<Rightarrow> nat \<Rightarrow> nat list" where
  "goods bad s e = filter (\<lambda>b. \<not> bad b) [s ..< e]"

lemma goods_Cons:
  assumes "goods bad s e = b # bs"
  shows "s \<le> b" "b < e" "\<not> bad b" "bs = goods bad (Suc b) e"
proof -
  obtain us vs where u: "[s ..< e] = us @ b # vs" "\<forall>u \<in> set us. bad u" "\<not> bad b" "bs = filter (\<lambda>b. \<not> bad b) vs"
    using assms by (auto simp: goods_def filter_eq_Cons_iff)
  have len: "length us < e - s" using arg_cong [OF u(1), of length] by simp
  have b: "b = s + length us" using arg_cong [OF u(1), of "\<lambda>l. l ! length us"] len by simp
  have "vs = drop (Suc (length us)) [s ..< e]" using u(1) by simp
  then have "vs = [Suc b ..< e]" using b by simp
  then show "s \<le> b" "b < e" "\<not> bad b" "bs = goods bad (Suc b) e" using b len u(3,4) by (auto simp: goods_def)
qed

lemma goods_mem: "x \<in> set (goods bad s e) \<longleftrightarrow> s \<le> x \<and> x < e \<and> \<not> bad x"
  by (auto simp: goods_def)

lemma goods_sorted: "sorted_wrt (<) (goods bad s e)"
  by (simp add: goods_def sorted_wrt_filter)

lemma next_scan_good:
  "behaves sv info nb bad pg \<Longrightarrow> blk + k \<le> nb \<Longrightarrow>
     next_scan sv info blk k s0 n = (case goods bad blk (blk + k) of [] \<Rightarrow> (n, 1, s0) | b # _ \<Rightarrow> (n, 0, b))"
proof (induction k arbitrary: blk)
  case (Suc k)
  have "goods bad blk (blk + Suc k) = (if bad blk then goods bad (Suc blk) (Suc blk + k) else blk # goods bad (Suc blk) (Suc blk + k))"
    by (simp add: goods_def upt_conv_Cons del: upt_Suc)
  then show ?case using Suc behavesD(1) [OF Suc.prems(1), of blk n] by simp
qed (simp add: goods_def)

lemma nextBlock_good:
  assumes "behaves sv info nb bad pg" "e0 \<le> nb"
  shows "nandpart_nextBlock sv info s0 e0 n = (case goods bad s0 e0 of [] \<Rightarrow> (n, 1, s0) | b # _ \<Rightarrow> (n, 0, b))"
proof (cases "s0 \<le> e0")
  case True
  then show ?thesis using next_scan_good [OF assms(1), of s0 "e0 - s0" s0 n] assms(2) by (simp add: nandpart_nextBlock_def)
qed (simp add: nandpart_nextBlock_def goods_def)

text \<open>
  One round of the loop: the next good source block goes to the next good destination block, unless
  that is the same block.
\<close>

lemma copyForward_step:
  assumes B: "behaves sv info nb bad pg" and e: "se \<le> nb" "de \<le> nb"
    and g: "goods bad ss se = s # gs" "goods bad ds de = d # gd"
  shows "s = d \<Longrightarrow> nandpart_copyForward sv info ss se ds de src dst f n = (n, 0, src, dst)"
    and "s \<noteq> d \<Longrightarrow> \<exists>n'. nandpart_copyForward sv info ss se ds de src dst f n
        = nandpart_copyForward sv info (Suc s) se (Suc d) de s d f n'
      \<and> content info pg n' d = content info pg n s \<and> (\<forall>c. c \<noteq> d \<longrightarrow> content info pg n' c = content info pg n c)"
proof -
  note G = goods_Cons [OF g(1)] goods_Cons [OF g(2)]
  have nb: "s < nb" "d < nb" using G(2,6) e by auto
  note N = nextBlock_good [OF B e(1), of ss] nextBlock_good [OF B e(2), of ds]
  show "s = d \<Longrightarrow> nandpart_copyForward sv info ss se ds de src dst f n = (n, 0, src, dst)"
    by (subst nandpart_copyForward.simps, subst forw_dst.simps) (simp add: N g)
  assume "s \<noteq> d"
  obtain n1 n2 where "flashmng_erase sv info d (Suc 0) n = (n1, 1)" "nandpart_copyBlock sv info s d n1 = (n2, 0)"
    "content info pg n2 d = content info pg n s" "\<forall>c. c \<noteq> d \<longrightarrow> content info pg n2 c = content info pg n c"
    using erase_copy [OF B nb G(7) \<open>s \<noteq> d\<close>, of n] by blast
  then show "\<exists>n'. nandpart_copyForward sv info ss se ds de src dst f n
        = nandpart_copyForward sv info (Suc s) se (Suc d) de s d f n'
      \<and> content info pg n' d = content info pg n s \<and> (\<forall>c. c \<noteq> d \<longrightarrow> content info pg n' c = content info pg n c)"
    using \<open>s \<noteq> d\<close> by (subst nandpart_copyForward.simps, subst forw_dst.simps) (auto simp: N g)
qed

lemma goods_prefix: "e \<le> e' \<Longrightarrow> \<exists>r. goods bad s e' = goods bad s e @ r"
proof (cases "s \<le> e")
  case True
  assume "e \<le> e'"
  then have "[s ..< e'] = [s ..< e] @ [e ..< e']" using True upt_add_eq_append [of s e "e' - e"] by simp
  then show ?thesis by (simp add: goods_def)
qed (simp add: goods_def)

lemma copyForward_moves:
  assumes B: "behaves sv info nb bad pg" and e: "se \<le> nb" "de \<le> nb"
  shows "goods bad ss se = gs \<Longrightarrow> goods bad ds de = gd \<Longrightarrow> length gs \<le> length gd \<Longrightarrow> ds \<le> ss \<or> se \<le> ds \<Longrightarrow>
    \<exists>n' rc r. nandpart_copyForward sv info ss se ds de src dst f n = (n', rc, r) \<and> 0 \<le> rc
      \<and> (\<forall>i < length gs. content info pg n' (gd ! i) = content info pg n (gs ! i))
      \<and> (\<forall>c. c \<notin> set (take (length gs) gd) \<longrightarrow> content info pg n' c = content info pg n c)"
proof (induction gs arbitrary: ss ds gd src dst n)
  case Nil
  then show ?case using nextBlock_good [OF B e(1), of ss n] by (subst nandpart_copyForward.simps) simp
next
  case (Cons s gs)
  then obtain d gd' where gd: "gd = d # gd'" by (cases gd) auto
  note g = Cons.prems(1) Cons.prems(2) [unfolded gd]
  note G = goods_Cons [OF g(1)] goods_Cons [OF g(2)]
  have d_s: "d \<le> s \<or> se \<le> d"
  proof (cases "ds \<le> ss")
    case True
    have "s \<in> set (d # gd')" if "s < de" using that True G by (metis goods_mem g(2) order_trans)
    then show ?thesis using goods_sorted [of bad ds de] G(6) g(2) by (cases "s < de") auto
  qed (use Cons.prems(4) G(5) in auto)
  have gs: "x \<noteq> d" if "x \<in> set gs" for x
    using that d_s G(4) by (auto simp: goods_mem)
  have gd': "d \<notin> set gd'" using G(8) by (auto simp: goods_mem)
  show ?case
  proof (cases "s = d")
    case True
    have len: "length gs \<le> length gd'" using Cons.prems(3) gd by simp
    have "gs = take (length gs) gd'"
    proof (cases "se \<le> de")
      case True
      then show ?thesis using goods_prefix [OF True, of bad "Suc s"] G(4,8) \<open>s = d\<close> by auto
    next
      case False
      then obtain r where "gs = gd' @ r" using goods_prefix [of de se bad "Suc s"] G(4,8) \<open>s = d\<close> by auto
      then show ?thesis using len by simp
    qed
    then have "(s # gs) ! i = gd ! i" if "i < length (s # gs)" for i
      using that gd True by (cases i) (simp_all, metis nth_take)
    then show ?thesis using copyForward_step(1) [OF B e g True] by simp
  next
    case False
    obtain n1 where n1: "nandpart_copyForward sv info ss se ds de src dst f n
        = nandpart_copyForward sv info (Suc s) se (Suc d) de s d f n1"
      "content info pg n1 d = content info pg n s" "\<forall>c. c \<noteq> d \<longrightarrow> content info pg n1 c = content info pg n c"
      using copyForward_step(2) [OF B e g False] by blast
    have le: "Suc d \<le> Suc s \<or> se \<le> Suc d" using d_s by auto
    obtain n' rc r where IH: "nandpart_copyForward sv info (Suc s) se (Suc d) de s d f n1 = (n', rc, r)" "0 \<le> rc"
      "\<forall>i < length gs. content info pg n' (gd' ! i) = content info pg n1 (gs ! i)"
      "\<forall>c. c \<notin> set (take (length gs) gd') \<longrightarrow> content info pg n' c = content info pg n1 c"
      using Cons.IH [OF G(4) [symmetric] G(8) [symmetric] _ le, of s d n1] Cons.prems(3) gd by auto
    have "content info pg n' d = content info pg n s"
      using IH(4) n1(2) gd' by (metis in_set_takeD)
    then have "content info pg n' (gd ! i) = content info pg n ((s # gs) ! i)" if "i < length (s # gs)" for i
      using that IH(3) n1(3) gs gd by (cases i) (simp_all add: nth_mem)
    moreover have "content info pg n' c = content info pg n c" if "c \<notin> set (take (length (s # gs)) gd)" for c
      using that IH(4) n1(3) gd by auto
    ultimately show ?thesis using n1(1) IH(1,2) by auto
  qed
qed

section \<open>Copying backward\<close>

lemma goods_snoc:
  assumes "goods bad s e = bs @ [b]"
  shows "s \<le> b" "b < e" "\<not> bad b" "bs = goods bad s b"
proof -
  have "b \<in> set (goods bad s e)" using assms by simp
  then show b: "s \<le> b" "b < e" "\<not> bad b" by (simp_all add: goods_mem)
  have "[s ..< e] = [s ..< b] @ b # [Suc b ..< e]"
    using b(1,2) upt_add_eq_append [of s b "e - b"] by (simp add: upt_conv_Cons)
  then have "goods bad s e = goods bad s b @ b # goods bad (Suc b) e" using b(3) by (simp add: goods_def)
  moreover have "goods bad (Suc b) e = []"
  proof -
    have "x \<le> b" if "x \<in> set (goods bad s e)" for x
      using that goods_sorted [of bad s e] assms by (auto simp: sorted_wrt_append)
    then have "x \<notin> set (goods bad (Suc b) e)" for x using b(1) goods_mem [of x bad] by fastforce
    then show ?thesis by (cases "goods bad (Suc b) e") auto
  qed
  ultimately show "bs = goods bad s b" using assms by simp
qed

lemma prev_scan_good:
  "behaves sv info nb bad pg \<Longrightarrow> start + k \<le> nb \<Longrightarrow>
     prev_scan sv info start k e0 n = (case rev (goods bad start (start + k)) of [] \<Rightarrow> (n, 1, e0) | b # _ \<Rightarrow> (n, 0, Suc b))"
proof (induction k)
  case (Suc k)
  then show ?case using behavesD(1) [OF Suc.prems(1), of "start + k" n] by (simp add: goods_def)
qed (simp add: goods_def)

lemma prevBlock_good:
  assumes "behaves sv info nb bad pg" "e0 \<le> nb"
  shows "nandpart_prevBlock sv info s0 e0 n = (case rev (goods bad s0 e0) of [] \<Rightarrow> (n, 1, e0) | b # _ \<Rightarrow> (n, 0, Suc b))"
proof (cases "s0 \<le> e0")
  case True
  then show ?thesis using prev_scan_good [OF assms(1), of s0 "e0 - s0" e0 n] assms(2) by (simp add: nandpart_prevBlock_def)
qed (simp add: nandpart_prevBlock_def goods_def)

lemma copyBackward_step:
  assumes B: "behaves sv info nb bad pg" and e: "se \<le> nb" "de \<le> nb"
    and g: "rev (goods bad ss se) = s # gs" "rev (goods bad ds de) = d # gd"
  shows "s = d \<Longrightarrow> nandpart_copyBackward sv info ss se ds de src dst f n = (n, 0, src, dst)"
    and "s \<noteq> d \<Longrightarrow> \<exists>n'. nandpart_copyBackward sv info ss se ds de src dst f n
        = nandpart_copyBackward sv info ss s ds d s d f n'
      \<and> content info pg n' d = content info pg n s \<and> (\<forall>c. c \<noteq> d \<longrightarrow> content info pg n' c = content info pg n c)"
proof -
  have g': "goods bad ss se = rev gs @ [s]" "goods bad ds de = rev gd @ [d]" using g by (simp_all add: rev_eq_Cons_iff)
  note G = goods_snoc [OF g'(1)] goods_snoc [OF g'(2)]
  have nb: "s < nb" "d < nb" using G(2,6) e by auto
  note N = prevBlock_good [OF B e(1), of ss] prevBlock_good [OF B e(2), of ds]
  show "s = d \<Longrightarrow> nandpart_copyBackward sv info ss se ds de src dst f n = (n, 0, src, dst)"
    by (subst nandpart_copyBackward.simps, subst back_dst.simps) (simp add: N g)
  assume "s \<noteq> d"
  obtain n1 n2 where "flashmng_erase sv info d (Suc 0) n = (n1, 1)" "nandpart_copyBlock sv info s d n1 = (n2, 0)"
    "content info pg n2 d = content info pg n s" "\<forall>c. c \<noteq> d \<longrightarrow> content info pg n2 c = content info pg n c"
    using erase_copy [OF B nb G(7) \<open>s \<noteq> d\<close>, of n] by blast
  then show "\<exists>n'. nandpart_copyBackward sv info ss se ds de src dst f n
        = nandpart_copyBackward sv info ss s ds d s d f n'
      \<and> content info pg n' d = content info pg n s \<and> (\<forall>c. c \<noteq> d \<longrightarrow> content info pg n' c = content info pg n c)"
    using \<open>s \<noteq> d\<close> by (subst nandpart_copyBackward.simps, subst back_dst.simps) (auto simp: N g)
qed

lemma goods_suffix: "s' \<le> s \<Longrightarrow> \<exists>r. goods bad s' e = r @ goods bad s e"
proof (cases "s \<le> e")
  case True
  assume "s' \<le> s"
  then have "[s' ..< e] = [s' ..< s] @ [s ..< e]" using True upt_add_eq_append [of s' s "e - s"] by simp
  then show ?thesis by (simp add: goods_def)
qed (simp add: goods_def)

lemma copyBackward_moves:
  assumes B: "behaves sv info nb bad pg"
  shows "se \<le> nb \<Longrightarrow> de \<le> nb \<Longrightarrow> rev (goods bad ss se) = gs \<Longrightarrow> rev (goods bad ds de) = gd \<Longrightarrow>
    length gs \<le> length gd \<Longrightarrow> se \<le> de \<Longrightarrow>
    \<exists>n' rc r. nandpart_copyBackward sv info ss se ds de src dst f n = (n', rc, r) \<and> 0 \<le> rc \<and> rc \<noteq> - EBADMSG
      \<and> (\<forall>i < length gs. content info pg n' (gd ! i) = content info pg n (gs ! i))
      \<and> (\<forall>c. c \<notin> set (take (length gs) gd) \<longrightarrow> content info pg n' c = content info pg n c)"
proof (induction gs arbitrary: se de gd src dst n)
  case Nil
  then show ?case using prevBlock_good [OF B Nil.prems(1), of ss n] by (subst nandpart_copyBackward.simps) simp
next
  case (Cons s gs)
  then obtain d gd' where gd: "gd = d # gd'" by (cases gd) auto
  note e = Cons.prems(1,2)
  note g = Cons.prems(3) Cons.prems(4) [unfolded gd]
  have g': "goods bad ss se = rev gs @ [s]" "goods bad ds de = rev gd' @ [d]" using g by (simp_all add: rev_eq_Cons_iff)
  note G = goods_snoc [OF g'(1)] goods_snoc [OF g'(2)]
  have s_d: "s \<le> d"
  proof (cases "ds \<le> s")
    case True
    then have "s \<in> set (rev gd' @ [d])" using G(2,3) Cons.prems(6) goods_mem [of s bad ds de] g'(2) by auto
    then show ?thesis using G(8) goods_mem [of s bad ds d] by auto
  qed (use G(5) in auto)
  have gs: "x \<noteq> d" if "x \<in> set gs" for x
    using that s_d G(4) goods_mem [of x bad ss s] by (metis leD set_rev)
  have gd': "d \<notin> set gd'" using G(8) goods_mem [of d bad ds d] by (metis less_irrefl set_rev)
  show ?case
  proof (cases "s = d")
    case True
    have len: "length gs \<le> length gd'" using Cons.prems(5) gd by simp
    have rv: "gs = rev (goods bad ss s)" "gd' = rev (goods bad ds s)" using G(4,8) True by (metis rev_rev_ident)+
    have "gs = take (length gs) gd'"
    proof (cases "ds \<le> ss")
      case True
      then show ?thesis using goods_suffix [OF True, of bad s] rv by auto
    next
      case False
      then obtain r where "gs = gd' @ r" using goods_suffix [of ss ds bad s] rv by auto
      then show ?thesis using len by simp
    qed
    then have "(s # gs) ! i = gd ! i" if "i < length (s # gs)" for i
      using that gd True by (cases i) (simp_all, metis nth_take)
    then show ?thesis using copyBackward_step(1) [OF B e g True] by simp
  next
    case False
    obtain n1 where n1: "nandpart_copyBackward sv info ss se ds de src dst f n = nandpart_copyBackward sv info ss s ds d s d f n1"
      "content info pg n1 d = content info pg n s" "\<forall>c. c \<noteq> d \<longrightarrow> content info pg n1 c = content info pg n c"
      using copyBackward_step(2) [OF B e g False] by blast
    have le: "s \<le> nb" "d \<le> nb" using G(2,6) e by auto
    have rv: "rev (goods bad ss s) = gs" "rev (goods bad ds d) = gd'" using G(4,8) by (metis rev_rev_ident)+
    obtain n' rc r where IH: "nandpart_copyBackward sv info ss s ds d s d f n1 = (n', rc, r)" "0 \<le> rc" "rc \<noteq> - EBADMSG"
      "\<forall>i < length gs. content info pg n' (gd' ! i) = content info pg n1 (gs ! i)"
      "\<forall>c. c \<notin> set (take (length gs) gd') \<longrightarrow> content info pg n' c = content info pg n1 c"
      using Cons.IH [OF le rv _ s_d, of s d n1] Cons.prems(5) gd by auto
    have "content info pg n' d = content info pg n s"
      using IH(5) n1(2) gd' by (metis in_set_takeD)
    then have "content info pg n' (gd ! i) = content info pg n ((s # gs) ! i)" if "i < length (s # gs)" for i
      using that IH(4) n1(3) gs gd by (cases i) (simp_all add: nth_mem)
    moreover have "content info pg n' c = content info pg n c" if "c \<notin> set (take (length (s # gs)) gd)" for c
      using that IH(5) n1(3) gd by auto
    ultimately show ?thesis using n1(1) IH(1-3) by auto
  qed
qed


section \<open>Counting blocks\<close>

lemma countBlocks_loop_ok:
  assumes B: "behaves sv info nb bad pg" and e: "e \<le> nb"
  shows "goods bad s e = gs \<Longrightarrow> countBlocks_loop sv info s e cnt n = (n, int (cnt + length gs))"
proof (induction gs arbitrary: s cnt)
  case Nil
  then show ?case using nextBlock_good [OF B e, of s n] by (subst countBlocks_loop.simps) simp
next
  case (Cons b gs)
  then show ?case using nextBlock_good [OF B e, of s n] goods_Cons(4) [OF Cons.prems] Cons.IH [of "Suc b" "Suc cnt"]
    by (subst countBlocks_loop.simps) simp
qed

lemma find_end_ok:
  assumes B: "behaves sv info nb bad pg" and e: "e \<le> nb"
  shows "i \<le> length (goods bad s e) \<Longrightarrow>
    find_end sv info i s e n = (n, Inr (if i = 0 then s else Suc (goods bad s e ! (i - 1))))"
proof (induction i arbitrary: s)
  case (Suc i)
  then obtain b gs where g: "goods bad s e = b # gs" by (cases "goods bad s e") auto
  then show ?case using nextBlock_good [OF B e, of s n] goods_Cons(4) [OF g] Suc.IH [of "Suc b"] Suc.prems by (cases i) auto
qed simp

lemma end_block:
  assumes "unat (pt_offset p) = x * E" "unat (pt_size p) = m * E" "(x + m) * E < 2 ^ 32" "0 < E"
  shows "unat (pt_offset p + pt_size p) div E = x + m"
proof -
  have "unat (pt_offset p + pt_size p) = (x + m) * E"
    using assms(1-3) unat_add_lem [of "pt_offset p" "pt_size p"] by (simp add: add_mult_distrib)
  then show ?thesis using assms(4) by simp
qed

section \<open>Properties of the copy loops\<close>

text \<open>
  C33: Copying blocks forward is a move of the data over the good blocks. On a device that behaves, with
  a destination that does not begin inside the source behind its start and has enough good blocks,
  \<open>nandpart_copyForward\<close> succeeds, the \<open>i\<close>-th good destination block afterwards has what the \<open>i\<close>-th good
  source block had, also where the two areas overlap, and every other block is unchanged.
\<close>

theorem nandpart_copyForward_moves:
  assumes "behaves sv info nb bad pg" "se \<le> nb" "de \<le> nb"
    and "length (goods bad ss se) \<le> length (goods bad ds de)" "ds \<le> ss \<or> se \<le> ds"
  shows "\<exists>n' rc r. nandpart_copyForward sv info ss se ds de src dst failBad n = (n', rc, r) \<and> 0 \<le> rc
    \<and> (\<forall>i < length (goods bad ss se). content info pg n' (goods bad ds de ! i) = content info pg n (goods bad ss se ! i))
    \<and> (\<forall>c. c \<notin> set (take (length (goods bad ss se)) (goods bad ds de)) \<longrightarrow> content info pg n' c = content info pg n c)"
  using copyForward_moves [OF assms(1-3) refl refl assms(4,5)] .

text \<open>A device with one byte of metadata and data per page, two pages per block and 8 blocks, the second bad.\<close>

definition info_tiny :: flashsrv_info where
  "info_tiny = \<lparr>fi_size = 16, fi_erasesz = 2, fi_writesz = 1, fi_oobsz = 1\<rparr>"

type_synonym tiny = "nat \<Rightarrow> byte \<times> byte"

definition tiny_page :: "tiny \<Rightarrow> nat \<Rightarrow> page" where
  "tiny_page n p = ([fst (n p)], [snd (n p)])"

definition tiny_server :: "(nat \<Rightarrow> bool) \<Rightarrow> tiny server" where
  "tiny_server bad = \<lparr>
     sv_send = \<lambda>r n. (case r of
         DIsBad a \<Rightarrow> (n, 0, if bad (a div 2) then 1 else 0, [])
       | DErase a k \<Rightarrow> (\<lambda>p. if p div 2 = a div 2 then (0xff, 0xff) else n p, 0, 1, [])
       | DReadMeta a k \<Rightarrow> (n, 0, 0, [fst (n a)])
       | DWriteMeta a k d \<Rightarrow> (n(a := (hd d, snd (n a))), 0, 0, [])),
     sv_read = \<lambda>p k n. (n, 1, [snd (n p)]),
     sv_write = \<lambda>p d n. (n(p := (fst (n p), hd d)), 1),
     sv_alloc = True\<rparr>"

lemma tiny_behaves: "behaves (tiny_server bad) info_tiny 8 bad tiny_page"
proof -
  have "p \<in> {b * 2 ..< b * 2 + 2} \<longleftrightarrow> p div 2 = b" for p b :: nat by auto
  moreover have "d = [hd d]" if "length d = Suc 0" for d :: "byte list" using that by (cases d) auto
  ultimately show ?thesis
    unfolding behaves_def
    by (simp add: info_tiny_def tiny_server_def flashmng_isBad_def flashmng_erase_def flashmng_readMeta_def
        flashmng_writeMeta_def flash_send_def u32_def pages_of_def blank_def)
      (auto simp: tiny_page_def fun_eq_iff blank_def info_tiny_def)
qed

theorem nandpart_copyForward_moves_witness:
  "\<exists>n' rc r. nandpart_copyForward (tiny_server (\<lambda>b. b = 1)) info_tiny 3 5 0 4 0 0 False (\<lambda>p. (0, of_nat p)) = (n', rc, r) \<and> 0 \<le> rc
    \<and> (\<forall>i < length [3, 4]. content info_tiny tiny_page n' ([0, 2, 3] ! i) = content info_tiny tiny_page (\<lambda>p. (0, of_nat p)) ([3, 4] ! i))
    \<and> (\<forall>c. c \<notin> set (take (length [3, 4]) [0, 2, 3]) \<longrightarrow> content info_tiny tiny_page n' c = content info_tiny tiny_page (\<lambda>p. (0, of_nat p)) c)"
proof -
  have "goods (\<lambda>b. b = 1) 3 5 = [3, 4]" "goods (\<lambda>b. b = 1) 0 4 = [0, 2, 3]" by (simp_all add: goods_def upt_rec)
  then show ?thesis
    using nandpart_copyForward_moves [OF tiny_behaves, of 5 4 "\<lambda>b. b = 1" 3 0 0 0 False "\<lambda>p. (0, of_nat p)"] by simp
qed

text \<open>
  C36: A defect: moving a partition to the right by less than its size writes one block behind it. On
  a device without bad blocks, for a partition of \<open>m\<close> blocks moved by \<open>k\<close> blocks, \<open>0 < k < m\<close>,
  \<open>nandpart_movePart\<close> reports success, but every block has gone one block too far: block \<open>i\<close> of the
  partition is found in block \<open>i + 1\<close> of the new place, and the last one in the block behind it,
  whose contents are lost.
\<close>

theorem nandpart_movePart_overruns:
  assumes B: "behaves sv info nb (\<lambda>_. False) pg" and E: "0 < fi_erasesz info" "sv_alloc sv"
    and part: "unat (pt_offset part) = a * fi_erasesz info" "unat (pt_size part) = m * fi_erasesz info"
    and md: "unat (pt_offset md) = (a + k) * fi_erasesz info" "unat (pt_size md) = m * fi_erasesz info"
    and k: "0 < k" "k < m" and fit: "(a + k + m) * fi_erasesz info < 2 ^ 32" "a + k + m < nb"
  shows "\<exists>n' rc. nandpart_movePart sv pc info src0 dst0 part md n = (n', rc) \<and> 0 \<le> rc
    \<and> (\<forall>i < m. content info pg n' (a + k + 1 + i) = content info pg n (a + i))"
proof -
  let ?E = "fi_erasesz info"
  have "(a + m) * ?E \<le> (a + k + m) * ?E" by simp
  then have "(a + m) * ?E < 2 ^ 32" using fit(1) by linarith
  then have ends: "unat (pt_offset part + pt_size part) div ?E = a + m" "unat (pt_offset md + pt_size md) div ?E = a + k + m"
    "unat (pt_offset part) div ?E = a" "unat (pt_offset md) div ?E = a + k"
    using end_block [OF part] end_block [OF md] fit(1) E(1) part(1) md(1) by simp_all
  have all: "goods (\<lambda>_. False) s e = [s ..< e]" for s e by (simp add: goods_def)
  have count: "nandpart_countBlocks sv info a (a + m) n = (n, int m)"
    using countBlocks_loop_ok [OF B _ refl, of "a + m" a 0 n] fit(2) by (simp add: all nandpart_countBlocks_def)
  have fe: "find_end sv info m (a + k) (a + k + m) n = (n, Inr (a + k + m))"
    using find_end_ok [OF B, of "a + k + m" m "a + k" n] fit(2) k by (simp add: all)
  obtain n' rc r where cb: "nandpart_copyBackward sv info a (a + m) (a + k) (a + k + m + 1) (a + m) (a + k + m + 1) True n = (n', rc, r)"
    "0 \<le> rc" "rc \<noteq> - EBADMSG"
    "\<forall>i < m. content info pg n' (rev [a + k ..< a + k + m + 1] ! i) = content info pg n (rev [a ..< a + m] ! i)"
    using copyBackward_moves [OF B _ _ refl refl, of "a + m" "a + k + m + 1" a "a + k" "a + m" "a + k + m + 1" True n] fit(2)
    by (auto simp: all)
  have "content info pg n' (a + k + 1 + i) = content info pg n (a + i)" if "i < m" for i
    using cb(4) [rule_format, of "m - 1 - i"] that by (simp add: rev_nth del: upt_Suc)
  moreover have "nandpart_movePart sv pc info src0 dst0 part md n = (n', rc)"
    using count fe cb(1-3) k E(2)
    by (simp add: nandpart_movePart_def ends Let_def nandpart_copyBackwardSafe_def back_safe_loop.simps split: prod.split)
  ultimately show ?thesis using cb(2) by blast
qed

theorem nandpart_movePart_overruns_witness:
  "\<exists>n' rc. nandpart_movePart (tiny_server (\<lambda>_. False)) pc_demo info_tiny 0 0
      \<lparr>pt_name = ''a'', pt_offset = 2, pt_size = 4, pt_type = 0\<rparr> \<lparr>pt_name = ''a'', pt_offset = 4, pt_size = 4, pt_type = 0\<rparr>
      (\<lambda>p. (0, of_nat p)) = (n', rc) \<and> 0 \<le> rc
    \<and> (\<forall>i < 2. content info_tiny tiny_page n' (1 + 1 + 1 + i) = content info_tiny tiny_page (\<lambda>p. (0, of_nat p)) (1 + i))"
  by (rule nandpart_movePart_overruns [OF tiny_behaves]) (simp_all add: info_tiny_def tiny_server_def)

text \<open>
  A defect: changing the size of a partition that stays where it is acts on an uninitialised
  variable. When the first block is good, \<open>nandpart_copyForward\<close> returns before it sets \<open>dst\<close>, and
  \<open>nandpart_copyForwardSafe\<close> erases everything from the block behind the value \<open>dst0\<close> that happens to be
  there up to the end of the partition, the partition's own data included.
\<close>

lemma nandpart_copyForwardSafe_uninitialised:
  assumes B: "behaves sv info nb bad pg" "se \<le> nb" "de \<le> nb" and s: "ss < se" "ss < de" "\<not> bad ss" and d: "dst0 + 1 < de"
  shows "nandpart_copyForwardSafe sv info ss se ss de src0 dst0 False n
    = flashmng_erase sv info (dst0 + 1) (de - dst0 - 1) n"
proof -
  have "goods bad ss e = ss # goods bad (Suc ss) e" if "ss < e" for e
    using that s(3) by (simp add: goods_def upt_conv_Cons)
  then have "nandpart_copyForward sv info ss se ss de src0 dst0 False n = (n, 0, src0, dst0)"
    using copyForward_step(1) [OF B] s by blast
  then show ?thesis using d by (simp add: nandpart_copyForwardSafe_def nandpart_eraseBlocks_def split: prod.split)
qed

end
