(* ===== verification/Nandpart.thy ===== *)
theory Nandpart
  imports Blockmove Getopt
begin

text \<open>
  The partition utility \<open>src/nandpart/nandpart.c\<close>: reading and writing the partition table, removing,
  modifying and adding partitions, updating to another table, and the program's start and end.

  The table is the buffer of \<open>ptable_t\<close>: the number of partitions and the slots of the allocated block,
  of which the first \<open>count\<close> are in use. The three lists of actions have their own element counters, as
  in the code. \<open>None\<close> is an access through a null pointer or outside a buffer. The serialisation in
  \<open>libptable\<close>, the flash server, \<open>umount\<close> and the outcome of file operations are parameters.
\<close>

section \<open>State\<close>

record ptbuf =
  pb_count :: nat
  pb_parts :: "ptable_part list"

definition table :: "ptbuf \<Rightarrow> ptable" where
  "table t = take (pb_count t) (pb_parts t)"

record nandpart_lists =
  nl_add :: "ptable_part list"
  nl_addsz :: nat
  nl_mod :: "ptable_part list"
  nl_modsz :: nat
  nl_rem :: "ptable_part list"
  nl_remsz :: nat

text \<open>Reading a table file: the results of the seeks and reads; writing one likewise.\<close>

record ptfile =
  pf_seek1 :: int
  pf_count :: "nat option"
  pf_seek2 :: int
  pf_table :: "ptbuf option"

record ptout =
  po_trunc :: int
  po_seek :: int
  po_write :: bool

record 'n npenv =
  ne_sv :: "'n server"
  ne_pc :: ptconst
  ne_info :: flashsrv_info
  ne_readptable :: "'n \<Rightarrow> 'n \<times> int \<times> int \<times> ptbuf"
  ne_writeptable :: "ptbuf \<Rightarrow> 'n \<Rightarrow> 'n \<times> int \<times> int"
  ne_deserialize :: "ptbuf \<Rightarrow> nat \<Rightarrow> nat \<Rightarrow> int \<times> ptbuf"
  ne_serialize :: "ptbuf \<Rightarrow> nat \<Rightarrow> nat \<Rightarrow> int \<times> ptbuf"
  ne_umount :: "string \<Rightarrow> 'n \<Rightarrow> 'n \<times> int"
  ne_junk :: "nat \<Rightarrow> nat \<times> nat"
  ne_alloc :: "nat \<Rightarrow> bool"

section \<open>Reading and writing the table\<close>

definition flashmng_readPtable :: "'n npenv \<Rightarrow> 'n \<Rightarrow> 'n \<times> int \<times> ptbuf" where
  "flashmng_readPtable env n = (case ne_readptable env n of (n', err, oerr, t) \<Rightarrow> (n', if err < 0 then err else oerr, t))"

definition flashmng_writePtable :: "'n npenv \<Rightarrow> ptbuf \<Rightarrow> 'n \<Rightarrow> 'n \<times> int" where
  "flashmng_writePtable env t n = (case ne_writeptable env t n of (n', err, oerr) \<Rightarrow> (n', if err < 0 then err else oerr))"

definition nandpart_readPtable :: "'n npenv \<Rightarrow> ptfile option \<Rightarrow> 'n \<Rightarrow> 'n \<times> (int + ptbuf)" where
  "nandpart_readPtable env file n = (case file of
     None \<Rightarrow> (case flashmng_readPtable env n of (n', err, t) \<Rightarrow> (n', if err < 0 then Inl err else Inr t))
   | Some f \<Rightarrow> (n,
       if pf_seek1 f \<noteq> 0 then Inl (- pf_seek1 f)
       else (case pf_count f of None \<Rightarrow> Inl (- EIO)
         | Some cnt \<Rightarrow>
             if pc_size (ne_pc env) cnt > fi_writesz (ne_info env) then Inl (- EINVAL)
             else if pf_seek2 f \<noteq> 0 then Inl (- pf_seek2 f)
             else (case pf_table f of None \<Rightarrow> Inl (- EIO)
               | Some t \<Rightarrow> (case ne_deserialize env t (fi_size (ne_info env)) (fi_erasesz (ne_info env)) of (err, t') \<Rightarrow>
                   if err < 0 then Inl err else Inr t')))))"

text \<open>The last component is what was written to the output file.\<close>

definition nandpart_writePtable :: "'n npenv \<Rightarrow> ptout option \<Rightarrow> ptbuf \<Rightarrow> 'n \<Rightarrow> 'n \<times> int \<times> ptbuf option" where
  "nandpart_writePtable env file t n = (case file of
     None \<Rightarrow> (case flashmng_writePtable env t n of (n', err) \<Rightarrow> (n', if err < 0 then err else 0, None))
   | Some f \<Rightarrow>
       if po_trunc f \<noteq> 0 then (n, - po_trunc f, None)
       else if po_seek f \<noteq> 0 then (n, - po_seek f, None)
       else if pc_size (ne_pc env) (pb_count t) > fi_writesz (ne_info env) then (n, - EINVAL, None)
       else (case ne_serialize env t (fi_size (ne_info env)) (fi_erasesz (ne_info env)) of (err, t') \<Rightarrow>
         if err < 0 then (n, err, None)
         else if \<not> po_write f then (n, - EIO, None) else (n, 0, Some t')))"

section \<open>Actions\<close>

text \<open>The outcome of a phase: \<open>Inl\<close> is an early return with an error, \<open>Inr\<close> the value of \<open>ret\<close> behind its loop.\<close>

type_synonym 'n acted = "('n \<times> ptbuf \<times> nandpart_lists \<times> (int + int)) option"

definition nandpart_umountPart :: "'n npenv \<Rightarrow> ptable_part \<Rightarrow> 'n \<Rightarrow> 'n" where
  "nandpart_umountPart env p n = fst (ne_umount env (''/dev/'' @ pt_name p) n)"

text \<open>
  Removing: \<open>memcpy(part, part + sizeof(*part), \<dots>)\<close> advances the pointer by \<open>sizeof(*part)\<close> elements. When
  the regions overlap the call is undefined, which is a fault here.
\<close>

definition remove_slot :: "ptconst \<Rightarrow> nat \<Rightarrow> ptbuf \<Rightarrow> ptbuf option" where
  "remove_slot pc i t = do {
     _ \<leftarrow> (if pc_partsz pc < pb_count t - (i + 1) then None else Some ());
     ps \<leftarrow> memcpy (pb_parts t) i (pb_parts t) (i + pc_partsz pc) (pb_count t - (i + 1));
     Some \<lparr>pb_count = pb_count t - 1, pb_parts = ps\<rparr>
   }"

fun rem_loop :: "'n npenv \<Rightarrow> bool \<Rightarrow> nat \<Rightarrow> ptbuf \<Rightarrow> nandpart_lists \<Rightarrow> int \<Rightarrow> 'n \<Rightarrow> 'n acted" where
  "rem_loop env out 0 t ls ret n = Some (n, t, ls, Inr ret)"
| "rem_loop env out (Suc k) t ls ret n = (case nl_rem ls of
     [] \<Rightarrow> None
   | r # rs \<Rightarrow>
       let ls' = ls\<lparr>nl_rem := rs, nl_remsz := k\<rparr> in
       (case nandpart_findPart (table t) (pt_name r) of
          None \<Rightarrow> Some (n, t, ls', Inl (- EINVAL))
        | Some i \<Rightarrow> do {
            t' \<leftarrow> remove_slot (ne_pc env) i t;
            if out then rem_loop env out k t' ls' ret n
            else do {
              part \<leftarrow> peek (pb_parts t') i;
              (case nandpart_writePtable env None t' (nandpart_umountPart env part n) of (n2, err, _) \<Rightarrow>
                 if err < 0 then Some (n2, t', ls', Inl err) else rem_loop env out k t' ls' (- EAGAIN) n2)
            }
          }))"

fun find_valid :: "flashsrv_info \<Rightarrow> ptable \<Rightarrow> nat \<Rightarrow> ptable_part list \<Rightarrow> nat option" where
  "find_valid info tab i [] = None"
| "find_valid info tab i (m # ms) = (if nandpart_verifyPart info tab m = EOK then Some i else find_valid info tab (Suc i) ms)"

fun mod_loop :: "'n npenv \<Rightarrow> bool \<Rightarrow> nat \<Rightarrow> ptbuf \<Rightarrow> nandpart_lists \<Rightarrow> int \<Rightarrow> 'n \<Rightarrow> 'n acted" where
  "mod_loop env out 0 t ls ret n = Some (n, t, ls, Inr ret)"
| "mod_loop env out (Suc k) t ls ret n = (case find_valid (ne_info env) (table t) 0 (nl_mod ls) of
     None \<Rightarrow> Some (n, t, ls, Inl (- EINVAL))
   | Some j \<Rightarrow>
       let m = nl_mod ls ! j; ls' = ls\<lparr>nl_mod := take j (nl_mod ls) @ drop (Suc j) (nl_mod ls), nl_modsz := k\<rparr> in
       (case nandpart_findPart (table t) (pt_name m) of
          None \<Rightarrow> Some (n, t, ls', Inl (- EINVAL))
        | Some i \<Rightarrow>
            let p = pb_parts t ! i;
                t' = t\<lparr>pb_parts := (pb_parts t)[i := p\<lparr>pt_offset := pt_offset m, pt_size := pt_size m, pt_type := pt_type m\<rparr>]\<rparr> in
            if pt_offset p = pt_offset m \<and> pt_size p = pt_size m \<and> pt_type p = pt_type m
            then mod_loop env out k t ls' ret n
            else if out then mod_loop env out k t' ls' ret n
            else (case nandpart_movePart (ne_sv env) (ne_pc env) (ne_info env) (fst (ne_junk env k)) (snd (ne_junk env k)) p m
                    (nandpart_umountPart env p n) of (n1, err) \<Rightarrow>
              if err < 0 then Some (n1, t, ls', Inl err)
              else (case nandpart_writePtable env None t' n1 of (n2, err2, _) \<Rightarrow>
                if err2 < 0 then Some (n2, t', ls', Inl err2) else mod_loop env out k t' ls' (- EAGAIN) n2))))"

text \<open>Adding: the code counts \<open>mod.size\<close> down, with 32 bits, and leaves \<open>add.size\<close>.\<close>

function add_loop :: "'n npenv \<Rightarrow> bool \<Rightarrow> ptbuf \<Rightarrow> nandpart_lists \<Rightarrow> int \<Rightarrow> 'n \<Rightarrow> 'n acted" where
  "add_loop env out t ls ret n =
     (if nl_addsz ls = 0 then Some (n, t, ls, Inr ret)
      else (case nl_add ls of
        [] \<Rightarrow> None
      | a # as \<Rightarrow>
          let ls' = ls\<lparr>nl_add := as, nl_modsz := (nl_modsz ls + 2 ^ 32 - 1) mod 2 ^ 32\<rparr> in
          do {
            ps \<leftarrow> poke (pb_parts t) (pb_count t) a;
            let t' = \<lparr>pb_count = pb_count t + 1, pb_parts = ps\<rparr>;
            if out then add_loop env out t' ls' ret n
            else (case nandpart_writePtable env None t' n of (n2, err, _) \<Rightarrow>
              if err < 0 then Some (n2, t', ls', Inl err) else add_loop env out t' ls' (- EAGAIN) n2)
          }))"
  by pat_completeness auto
termination
  by (relation "measure (\<lambda>(env, out, t, ls, ret, n). length (nl_add ls))") auto

declare add_loop.simps [simp del]

text \<open>\<open>out\<close> tells whether an output file is given.\<close>

definition nandpart_processActions ::
  "'n npenv \<Rightarrow> bool \<Rightarrow> ptbuf \<Rightarrow> nandpart_lists \<Rightarrow> 'n \<Rightarrow> ('n \<times> ptbuf \<times> nandpart_lists \<times> int) option" where
  "nandpart_processActions env out t ls n =
     (if nl_remsz ls > pb_count t then Some (n, t, ls, - EINVAL)
      else if nl_modsz ls > pb_count t - nl_remsz ls then Some (n, t, ls, - EINVAL)
      else if pc_size (ne_pc env) (pb_count t - nl_remsz ls + nl_addsz ls) > fi_writesz (ne_info env)
      then Some (n, t, ls, - EINVAL)
      else (case rem_loop env out (nl_remsz ls) t ls 0 n of
          None \<Rightarrow> None
        | Some (n1, t1, ls1, Inl e) \<Rightarrow> Some (n1, t1, ls1, e)
        | Some (n1, t1, ls1, Inr r1) \<Rightarrow> (case mod_loop env out (nl_modsz ls1) t1 ls1 r1 n1 of
              None \<Rightarrow> None
            | Some (n2, t2, ls2, Inl e) \<Rightarrow> Some (n2, t2, ls2, e)
            | Some (n2, t2, ls2, Inr r2) \<Rightarrow> (case add_loop env out t2 ls2 r2 n2 of
                  None \<Rightarrow> None
                | Some (n3, t3, ls3, r3) \<Rightarrow> Some (n3, t3, ls3, case r3 of Inl e \<Rightarrow> e | Inr r \<Rightarrow> r)))))"

section \<open>Updating to another table\<close>

text \<open>\<open>LIST_ADD\<close> appends to the circular list. The first loop, over the partitions of the device.\<close>

fun update_rem :: "(nat \<Rightarrow> bool) \<Rightarrow> nat \<Rightarrow> ptable \<Rightarrow> ptable \<Rightarrow> nandpart_lists \<Rightarrow> nandpart_lists \<times> int" where
  "update_rem alloc i [] upd ls = (ls, 0)"
| "update_rem alloc i (p # ps) upd ls =
     (if nandpart_findPart upd (pt_name p) = None then
        (if \<not> alloc i then (ls, - ENOMEM)
         else update_rem alloc (i + 1) ps upd (ls\<lparr>nl_rem := nl_rem ls @ [p], nl_remsz := nl_remsz ls + 1\<rparr>))
      else update_rem alloc (i + 1) ps upd ls)"

fun update_addmod :: "(nat \<Rightarrow> bool) \<Rightarrow> nat \<Rightarrow> ptable \<Rightarrow> ptable \<Rightarrow> nandpart_lists \<Rightarrow> nandpart_lists \<times> int" where
  "update_addmod alloc i tab [] ls = (ls, 0)"
| "update_addmod alloc i tab (m # ms) ls =
     (if \<not> alloc i then (ls, - ENOMEM)
      else if nandpart_findPart tab (pt_name m) = None
      then update_addmod alloc (i + 1) tab ms (ls\<lparr>nl_add := nl_add ls @ [m], nl_addsz := nl_addsz ls + 1\<rparr>)
      else update_addmod alloc (i + 1) tab ms (ls\<lparr>nl_mod := nl_mod ls @ [m], nl_modsz := nl_modsz ls + 1\<rparr>))"

definition nandpart_updatePtable :: "(nat \<Rightarrow> bool) \<Rightarrow> ptable \<Rightarrow> ptable \<Rightarrow> nandpart_lists \<Rightarrow> nandpart_lists \<times> int" where
  "nandpart_updatePtable alloc tab upd ls =
     (case update_rem alloc 0 tab upd ls of (ls1, err) \<Rightarrow>
        if err < 0 then (ls1, err) else update_addmod alloc (length tab) tab upd ls1)"

section \<open>The program\<close>

text \<open>\<open>nandpart_run\<close>: the device, the lists, the return code, the text printed and what the output file got.\<close>

record 'n runstate =
  rs_dev :: 'n
  rs_lists :: nandpart_lists
  rs_err :: int
  rs_text :: string
  rs_file :: "ptbuf option"

definition run_err :: "'n \<Rightarrow> nandpart_lists \<Rightarrow> int \<Rightarrow> 'n runstate" where
  "run_err n ls e = \<lparr>rs_dev = n, rs_lists = ls, rs_err = e, rs_text = [], rs_file = None\<rparr>"

definition run_table :: "'n npenv \<Rightarrow> ptout option \<Rightarrow> ptbuf \<Rightarrow> nandpart_lists \<Rightarrow> 'n \<Rightarrow> 'n runstate option" where
  "run_table env output t ls n =
     (if nl_remsz ls = 0 \<and> nl_modsz ls = 0 \<and> nl_addsz ls = 0 then
        (case output of
           None \<Rightarrow> Some ((run_err n ls 0)\<lparr>rs_text := nandpart_printPtable (ne_pc env) (ne_info env) (table t)\<rparr>)
         | Some f \<Rightarrow> (case nandpart_writePtable env output t n of (n1, err, w) \<Rightarrow> Some ((run_err n1 ls err)\<lparr>rs_file := w\<rparr>)))
      else do {
        (n1, t1, ls1, err) \<leftarrow> nandpart_processActions env (output \<noteq> None) t ls n;
        if err \<ge> 0 \<and> output \<noteq> None
        then (case nandpart_writePtable env output t1 n1 of (n2, err2, w) \<Rightarrow> Some ((run_err n2 ls1 err2)\<lparr>rs_file := w\<rparr>))
        else Some (run_err n1 ls1 err)
      })"

definition nandpart_run ::
  "'n npenv \<Rightarrow> ptfile option \<Rightarrow> ptout option \<Rightarrow> ptfile option \<Rightarrow> nandpart_lists \<Rightarrow> 'n \<Rightarrow> 'n runstate option" where
  "nandpart_run env input output update ls n =
     (if \<not> ne_alloc env 0 then Some (run_err n ls (- ENOMEM))
      else (case nandpart_readPtable env input n of
          (n1, Inl e) \<Rightarrow> Some (run_err n1 ls e)
        | (n1, Inr t) \<Rightarrow> (case update of
              None \<Rightarrow> run_table env output t ls n1
            | Some f \<Rightarrow>
                if \<not> ne_alloc env 1 then Some (run_err n1 ls (- ENOMEM))
                else (case nandpart_readPtable env (Some f) n1 of
                    (n2, Inl e) \<Rightarrow> Some (run_err n2 ls e)
                  | (n2, Inr u) \<Rightarrow> (case nandpart_updatePtable (\<lambda>i. ne_alloc env (i + 2)) (table t) (table u) ls of (ls1, err) \<Rightarrow>
                      if err < 0 then Some (run_err n2 ls1 err) else run_table env output t ls1 n2)))))"

fun nandpart_freeList :: "nat \<Rightarrow> ptable_part list \<Rightarrow> unit option" where
  "nandpart_freeList 0 l = Some ()"
| "nandpart_freeList (Suc k) [] = None"
| "nandpart_freeList (Suc k) (x # xs) = nandpart_freeList k xs"

definition nandpart_done :: "nandpart_lists \<Rightarrow> unit option" where
  "nandpart_done ls = do {
     _ \<leftarrow> nandpart_freeList (nl_remsz ls) (nl_rem ls);
     _ \<leftarrow> nandpart_freeList (nl_modsz ls) (nl_mod ls);
     nandpart_freeList (nl_addsz ls) (nl_add ls)
   }"

text \<open>
  The option loop of \<open>nandpart_init\<close>: input, output and update path and the lists; \<open>Inl None\<close> is the
  exit of \<open>-h\<close>, \<open>Inl (Some e)\<close> an error, each with the lists so far.
\<close>

type_synonym npopts = "string option \<times> string option \<times> string option \<times> nandpart_lists"

fun init_opts :: "ptconst \<Rightarrow> (nat \<Rightarrow> bool) \<Rightarrow> nat \<Rightarrow> optev list \<Rightarrow> npopts \<Rightarrow> (int option \<times> nandpart_lists) + npopts" where
  "init_opts pc alloc k [] st = Inr st"
| "init_opts pc alloc k (OptErr c # es) (i, ou, u, ls) = Inl (Some (- EINVAL), ls)"
| "init_opts pc alloc k (Opt c arg # es) (i, ou, u, ls) =
     (let a = (case arg of Some a \<Rightarrow> a | None \<Rightarrow> []) in
      if c = CHR ''i'' then init_opts pc alloc k es (Some a, ou, u, ls)
      else if c = CHR ''o'' then init_opts pc alloc k es (i, Some a, u, ls)
      else if c = CHR ''u'' then init_opts pc alloc k es (i, ou, Some a, ls)
      else if c = CHR ''h'' then Inl (None, ls)
      else if \<not> alloc k then Inl (Some (- ENOMEM), ls)
      else if c = CHR ''a'' then (case nandpart_parsePart pc a of
          Inl e \<Rightarrow> Inl (Some e, ls)
        | Inr p \<Rightarrow> init_opts pc alloc (k + 1) es (i, ou, u, ls\<lparr>nl_add := nl_add ls @ [p], nl_addsz := nl_addsz ls + 1\<rparr>))
      else if c = CHR ''m'' then (case nandpart_parsePart pc a of
          Inl e \<Rightarrow> Inl (Some e, ls)
        | Inr p \<Rightarrow> init_opts pc alloc (k + 1) es (i, ou, u, ls\<lparr>nl_mod := nl_mod ls @ [p], nl_modsz := nl_modsz ls + 1\<rparr>))
      else (case nandpart_parsePartName pc a of
          Some (nm, []) \<Rightarrow> init_opts pc alloc (k + 1) es
            (i, ou, u, ls\<lparr>nl_rem := nl_rem ls @ [\<lparr>pt_name = nm, pt_offset = 0, pt_size = 0, pt_type = 0\<rparr>], nl_remsz := nl_remsz ls + 1\<rparr>)
        | _ \<Rightarrow> Inl (Some (- EINVAL), ls)))"

definition to_bytes :: "flashsrv_info \<Rightarrow> ptable_part \<Rightarrow> ptable_part" where
  "to_bytes info p = p\<lparr>pt_offset := pt_offset p * of_nat (fi_erasesz info), pt_size := pt_size p * of_nat (fi_erasesz info)\<rparr>"

text \<open>
  The rest of \<open>nandpart_init\<close>: the results of \<open>realpath\<close>, \<open>lookup\<close>, \<open>flashmng_info\<close> and \<open>open\<close> of the
  device, in this order, the opened files by path (\<open>Inl\<close> is
  \<open>errno\<close>) and the outcome of the allocations.
\<close>

record npworld =
  nw_device :: "string \<Rightarrow> int + unit"
  nw_input :: "string \<Rightarrow> int + ptfile"
  nw_output :: "string \<Rightarrow> int + ptout"
  nw_alloc :: "nat \<Rightarrow> bool"

definition open_opt :: "(string \<Rightarrow> int + 'f) \<Rightarrow> string option \<Rightarrow> int + 'f option" where
  "open_opt opn path = (case path of None \<Rightarrow> Inr None | Some p \<Rightarrow> (case opn p of Inl e \<Rightarrow> Inl (- e) | Inr f \<Rightarrow> Inr (Some f)))"

definition no_actions :: nandpart_lists where
  "no_actions = \<lparr>nl_add = [], nl_addsz = 0, nl_mod = [], nl_modsz = 0, nl_rem = [], nl_remsz = 0\<rparr>"

definition nandpart_init ::
  "'n npenv \<Rightarrow> npworld \<Rightarrow> string list \<Rightarrow>
     (int option \<times> nandpart_lists) + (ptfile option \<times> ptout option \<times> ptfile option \<times> nandpart_lists)" where
  "nandpart_init env w args =
     (case getopt_scan ''i:o:u:a:m:r:h'' args of (evs, operands) \<Rightarrow>
        (case init_opts (ne_pc env) (nw_alloc w) 0 evs (None, None, None, no_actions) of
           Inl r \<Rightarrow> Inl r
         | Inr (i, ou, u, ls) \<Rightarrow>
             (case operands of
                [] \<Rightarrow> Inl (Some (- EINVAL), ls)
              | dev # _ \<Rightarrow> (case nw_device w dev of
                    Inl e \<Rightarrow> Inl (Some e, ls)
                  | Inr _ \<Rightarrow> (case open_opt (nw_input w) i of
                        Inl e \<Rightarrow> Inl (Some e, ls)
                      | Inr input \<Rightarrow> (case open_opt (nw_output w) ou of
                            Inl e \<Rightarrow> Inl (Some e, ls)
                          | Inr output \<Rightarrow> (case open_opt (nw_input w) u of
                                Inl e \<Rightarrow> Inl (Some e, ls)
                              | Inr update \<Rightarrow> Inr (input, output, update,
                                  ls\<lparr>nl_mod := map (to_bytes (ne_info env)) (nl_mod ls),
                                     nl_add := map (to_bytes (ne_info env)) (nl_add ls)\<rparr>))))))))"

definition nandpart_main :: "'n npenv \<Rightarrow> npworld \<Rightarrow> string list \<Rightarrow> 'n \<Rightarrow> (int \<times> 'n runstate option) option" where
  "nandpart_main env w args n = (case nandpart_init env w args of
     Inl (None, ls) \<Rightarrow> map_option (\<lambda>_. (0, None)) (nandpart_done ls)
   | Inl (Some e, ls) \<Rightarrow> map_option (\<lambda>_. (if e < 0 then - e else 0, None)) (nandpart_done ls)
   | Inr (i, ou, u, ls) \<Rightarrow> do {
       r \<leftarrow> nandpart_run env i ou u ls n;
       _ \<leftarrow> nandpart_done (rs_lists r);
       Some (if rs_err r < 0 then - rs_err r else 0, Some r)
     })"

section \<open>Modifying keeps the table valid\<close>

definition table_ok :: "flashsrv_info \<Rightarrow> ptable \<Rightarrow> bool" where
  "table_ok info ps \<longleftrightarrow> distinct (map pt_name ps) \<and> (\<forall>p \<in> set ps. part_fits info p) \<and>
     (\<forall>p \<in> set ps. \<forall>q \<in> set ps. pt_name p \<noteq> pt_name q \<longrightarrow> extent p \<inter> extent q = {})"

lemma find_from_Some: "find_from k ps nm = Some i \<Longrightarrow> k \<le> i \<and> i - k < length ps \<and> pt_name (ps ! (i - k)) = nm"
  by (induction k ps nm arbitrary: i rule: find_from.induct) (fastforce split: if_splits simp: nth_Cons' less_Suc_eq_le)+

lemma findPart_Some: "nandpart_findPart ps nm = Some i \<Longrightarrow> i < length ps \<and> pt_name (ps ! i) = nm"
  using find_from_Some [of 0 ps nm i] by (simp add: nandpart_findPart_def)

lemma findPart_None: "nandpart_findPart ps nm = None \<longleftrightarrow> nm \<notin> pt_name ` set ps"
proof -
  have "find_from k ps nm = None \<longleftrightarrow> nm \<notin> pt_name ` set ps" for k by (induction ps arbitrary: k) auto
  then show ?thesis by (simp add: nandpart_findPart_def)
qed

lemma find_valid_Some:
  "find_valid info tab k ms = Some j \<Longrightarrow> k \<le> j \<and> j - k < length ms \<and> nandpart_verifyPart info tab (ms ! (j - k)) = 0"
  by (induction info tab k ms arbitrary: j rule: find_valid.induct) (fastforce split: if_splits simp: nth_Cons' less_Suc_eq_le)+

lemma table_update:
  assumes ok: "table_ok info ps" and i: "i < length ps" "pt_name m = pt_name (ps ! i)" and v: "nandpart_verifyPart info ps m = 0"
  shows "table_ok info (ps[i := m])" "map pt_name (ps[i := m]) = map pt_name ps"
    "\<And>q. q \<in> set ps \<Longrightarrow> pt_name q \<noteq> pt_name m \<Longrightarrow> q \<in> set (ps[i := m])" "m \<in> set (ps[i := m])"
proof -
  show names: "map pt_name (ps[i := m]) = map pt_name ps" using i by (simp add: map_update list_update_same_conv)
  have V: "part_fits info m" "\<forall>p \<in> set ps. pt_name p \<noteq> pt_name m \<longrightarrow> extent m \<inter> extent p = {}"
    using v verifyPart_iff [of ps info m] ok by (auto simp: table_ok_def)
  have sub: "set (ps[i := m]) \<subseteq> insert m (set ps)" by (rule set_update_subset_insert)
  show "table_ok info (ps[i := m])"
    unfolding table_ok_def
  proof (intro conjI ballI impI)
    show "distinct (map pt_name (ps[i := m]))" using ok names by (simp add: table_ok_def)
    show "part_fits info p" if "p \<in> set (ps[i := m])" for p using that sub V(1) ok by (auto simp: table_ok_def)
    show "extent p \<inter> extent q = {}" if "p \<in> set (ps[i := m])" "q \<in> set (ps[i := m])" "pt_name p \<noteq> pt_name q" for p q
    proof -
      have "p = m \<or> p \<in> set ps" "q = m \<or> q \<in> set ps" using that(1,2) sub by auto
      moreover have "\<forall>p \<in> set ps. pt_name m \<noteq> pt_name p \<longrightarrow> extent m \<inter> extent p = {} \<and> extent p \<inter> extent m = {}"
        using V(2) by (simp add: inf_commute)
      ultimately show ?thesis using that(3) ok by (elim disjE) (simp_all add: table_ok_def)
    qed
  qed
  show "q \<in> set (ps[i := m])" if q: "q \<in> set ps" "pt_name q \<noteq> pt_name m" for q
  proof -
    obtain j where j: "j < length ps" "q = ps ! j" using q(1) by (auto simp: in_set_conv_nth)
    then have "j \<noteq> i" using q(2) i(2) by auto
    then have "ps[i := m] ! j = q" using j by simp
    then show ?thesis using j(1) by (metis length_list_update nth_mem)
  qed
  show "m \<in> set (ps[i := m])" using i(1) by (rule set_update_memI)
qed

definition mod_result :: "flashsrv_info \<Rightarrow> ptable_part list \<Rightarrow> ptbuf \<Rightarrow> ptbuf \<Rightarrow> bool \<Rightarrow> bool" where
  "mod_result info ms t t' fine \<longleftrightarrow> table_ok info (table t') \<and> pb_count t' = pb_count t \<and> length (pb_parts t') = length (pb_parts t)
     \<and> map pt_name (table t') = map pt_name (table t)
     \<and> (\<forall>q \<in> set (table t). pt_name q \<notin> pt_name ` set ms \<longrightarrow> q \<in> set (table t'))
     \<and> (fine \<and> distinct (map pt_name ms) \<longrightarrow> set ms \<subseteq> set (table t'))"

lemma mod_loop_ok:
  "table_ok (ne_info env) (table t) \<Longrightarrow> pb_count t \<le> length (pb_parts t) \<Longrightarrow> length (nl_mod ls) = k \<Longrightarrow> nl_modsz ls = k \<Longrightarrow>
     \<exists>n' t' ls' r. mod_loop env out k t ls ret n = Some (n', t', ls', r)
       \<and> nl_add ls' = nl_add ls \<and> nl_addsz ls' = nl_addsz ls \<and> nl_modsz ls' = length (nl_mod ls')
       \<and> mod_result (ne_info env) (nl_mod ls) t t' (\<exists>x. r = Inr x)"
proof (induction k arbitrary: t ls ret n)
  case 0
  then show ?case by (simp add: mod_result_def)
next
  case (Suc k)
  let ?info = "ne_info env"
  show ?case
  proof (cases "find_valid ?info (table t) 0 (nl_mod ls)")
    case None
    then show ?thesis using Suc.prems by (simp add: mod_result_def)
  next
    case (Some j)
    define m where "m = nl_mod ls ! j"
    define ls' where "ls' = ls\<lparr>nl_mod := take j (nl_mod ls) @ drop (Suc j) (nl_mod ls), nl_modsz := k\<rparr>"
    have j: "j < length (nl_mod ls)" and v: "nandpart_verifyPart ?info (table t) m = 0"
      using find_valid_Some [OF Some] by (simp_all add: m_def)
    have split: "nl_mod ls = take j (nl_mod ls) @ m # drop (Suc j) (nl_mod ls)" unfolding m_def by (rule id_take_nth_drop [OF j])
    have sub: "set (nl_mod ls) = insert m (set (nl_mod ls'))" by (subst split) (auto simp: ls'_def)
    have dist: "distinct (map pt_name (nl_mod ls')) \<and> pt_name m \<notin> pt_name ` set (nl_mod ls')"
      if "distinct (map pt_name (nl_mod ls))"
      using that by (subst (asm) split) (auto simp: ls'_def)
    have ls': "length (nl_mod ls') = k" "nl_modsz ls' = k" "nl_add ls' = nl_add ls" "nl_addsz ls' = nl_addsz ls"
      using j Suc.prems(3) by (simp_all add: ls'_def)
    show ?thesis
    proof (cases "nandpart_findPart (table t) (pt_name m)")
      case None
      then show ?thesis using Some Suc.prems ls' by (simp add: m_def ls'_def Let_def mod_result_def)
    next
      case f: (Some i)
      define p where "p = pb_parts t ! i"
      define t' where "t' = t\<lparr>pb_parts := (pb_parts t)[i := p\<lparr>pt_offset := pt_offset m, pt_size := pt_size m, pt_type := pt_type m\<rparr>]\<rparr>"
      have i: "i < length (table t)" "pt_name (table t ! i) = pt_name m" using findPart_Some [OF f] by simp_all
      have ic: "i < pb_count t" using i(1) by (simp add: table_def)
      have p: "p = table t ! i" using ic by (simp add: p_def table_def)
      have pm: "p\<lparr>pt_offset := pt_offset m, pt_size := pt_size m, pt_type := pt_type m\<rparr> = m" using i(2) p by simp
      have tt: "table t' = (table t)[i := m]" using ic by (simp add: t'_def table_def pm take_update_swap)
      note U = table_update [OF Suc.prems(1) i(1) i(2) [symmetric] v]
      have t': "pb_count t' = pb_count t" "length (pb_parts t') = length (pb_parts t)" by (simp_all add: t'_def)
      have res: "mod_result ?info (nl_mod ls) t t' False" using U(1-3) tt sub t' by (auto simp: mod_result_def)
      have onward: "mod_result ?info (nl_mod ls) t t'' x" if "mod_result ?info (nl_mod ls') t' t'' x" for t'' x
        using that U tt sub t' dist unfolding mod_result_def by auto
      have step: "mod_loop env out (Suc k) t ls ret n =
         (if pt_offset p = pt_offset m \<and> pt_size p = pt_size m \<and> pt_type p = pt_type m then mod_loop env out k t ls' ret n
          else if out then mod_loop env out k t' ls' ret n
          else (case nandpart_movePart (ne_sv env) (ne_pc env) ?info (fst (ne_junk env k)) (snd (ne_junk env k)) p m
                  (nandpart_umountPart env p n) of (n1, err) \<Rightarrow>
            if err < 0 then Some (n1, t, ls', Inl err)
            else (case nandpart_writePtable env None t' n1 of (n2, err2, _) \<Rightarrow>
              if err2 < 0 then Some (n2, t', ls', Inl err2) else mod_loop env out k t' ls' (- EAGAIN) n2)))"
        unfolding mod_loop.simps Some option.case Let_def m_def [symmetric] ls'_def [symmetric] f p_def [symmetric] t'_def [symmetric]
        by (rule refl)
      have IH: "\<exists>n' t'' ls'' r. mod_loop env out k t' ls' ret' n0 = Some (n', t'', ls'', r)
         \<and> nl_add ls'' = nl_add ls \<and> nl_addsz ls'' = nl_addsz ls \<and> nl_modsz ls'' = length (nl_mod ls'')
         \<and> mod_result ?info (nl_mod ls) t t'' (\<exists>x. r = Inr x)" for ret' n0
        using Suc.IH [of t' ls' ret' n0] U(1) tt t' ls' Suc.prems(2) onward by fastforce
      show ?thesis
      proof (cases "pt_offset p = pt_offset m \<and> pt_size p = pt_size m \<and> pt_type p = pt_type m")
        case True
        then have "p = m" using pm by (cases p) (auto simp: i)
        then have "(pb_parts t)[i := m] = pb_parts t" using list_update_id [of "pb_parts t" i] by (simp add: p_def)
        then have "t' = t" by (simp add: t'_def pm)
        then show ?thesis using IH [of ret n] step True by simp
      next
        case False
        obtain n1 err where mv: "nandpart_movePart (ne_sv env) (ne_pc env) ?info (fst (ne_junk env k)) (snd (ne_junk env k)) p m
                  (nandpart_umountPart env p n) = (n1, err)" by fastforce
        obtain n2 err2 w where wr: "nandpart_writePtable env None t' n1 = (n2, err2, w)" by (metis prod_cases3)
        have same: "mod_result ?info (nl_mod ls) t t False" using Suc.prems(1) by (simp add: mod_result_def)
        show ?thesis
          unfolding step if_not_P [OF False] using IH [of ret n] IH [of "- EAGAIN" n2] mv wr res same ls'
          by (cases out; cases "err < 0"; cases "err2 < 0") simp_all
      qed
    qed
  qed
qed


text \<open>
  C35: Modifying partitions keeps the table valid. From a table whose partitions fit the device, have
  distinct names and do not overlap, \<open>nandpart_processActions\<close> with any list of modifications always
  returns, in every case with a table of the same names that is valid again; a partition that is
  not named is unchanged, and when the actions succeed every modification (with distinct
  names) is in the table, in whatever order they had to be made.
\<close>

theorem nandpart_modify_keeps_table:
  assumes ok: "table_ok (ne_info env) (table t)" "pb_count t \<le> length (pb_parts t)"
    and ls: "nl_modsz ls = length (nl_mod ls)" "nl_remsz ls = 0" "nl_addsz ls = 0"
  shows "\<exists>n' t' ls' rc. nandpart_processActions env out t ls n = Some (n', t', ls', rc)
    \<and> table_ok (ne_info env) (table t') \<and> map pt_name (table t') = map pt_name (table t)
    \<and> (\<forall>q \<in> set (table t). pt_name q \<notin> pt_name ` set (nl_mod ls) \<longrightarrow> q \<in> set (table t'))
    \<and> (rc = 0 \<and> distinct (map pt_name (nl_mod ls)) \<longrightarrow> set (nl_mod ls) \<subseteq> set (table t'))"
proof -
  obtain n' t' ls' r where m: "mod_loop env out (nl_modsz ls) t ls 0 n = Some (n', t', ls', r)" "nl_addsz ls' = 0"
    "mod_result (ne_info env) (nl_mod ls) t t' (\<exists>x. r = Inr x)"
    using mod_loop_ok [OF ok ls(1) [symmetric] refl, of out 0 n] ls(3) by auto
  have neg: "mod_loop env out k u l x y = Some (a, b, c, Inl e) \<Longrightarrow> e < 0" for k u l x y a b c e
    by (induction k arbitrary: u l x y) (auto simp: Let_def split: option.splits if_splits prod.splits)
  have al: "add_loop env out t' ls' x y = Some (y, t', ls', Inr x)" for x y using m(2) by (simp add: add_loop.simps)
  define big where "big \<longleftrightarrow> nl_modsz ls > pb_count t \<or> pc_size (ne_pc env) (pb_count t) > fi_writesz (ne_info env)"
  have "nandpart_processActions env out t ls n = (if big then Some (n, t, ls, - EINVAL)
     else Some (n', t', ls', case r of Inl e \<Rightarrow> e | Inr x \<Rightarrow> x))"
    using m(1) ls al by (cases r) (auto simp: nandpart_processActions_def big_def)
  moreover have "mod_result (ne_info env) (nl_mod ls) t t False" using ok(1) by (simp add: mod_result_def)
  ultimately show ?thesis
    using m(1,3) neg by (cases big; cases r) (force simp: mod_result_def)+
qed

definition env_demo :: "unit npenv" where
  "env_demo = \<lparr>ne_sv = \<lparr>sv_send = \<lambda>_ n. (n, 0, 0, []), sv_read = \<lambda>_ _ n. (n, 0, []), sv_write = \<lambda>_ _ n. (n, 0), sv_alloc = True\<rparr>,
     ne_pc = pc_demo, ne_info = info_demo, ne_readptable = \<lambda>n. (n, 0, 0, \<lparr>pb_count = 0, pb_parts = []\<rparr>),
     ne_writeptable = \<lambda>_ n. (n, 0, 0), ne_deserialize = \<lambda>t _ _. (0, t), ne_serialize = \<lambda>t _ _. (0, t),
     ne_umount = \<lambda>_ n. (n, 0), ne_junk = \<lambda>_. (0, 0), ne_alloc = \<lambda>_. True\<rparr>"

definition table_demo :: ptbuf where
  "table_demo = \<lparr>pb_count = 1, pb_parts = root_demo # replicate 63 (root_demo\<lparr>pt_name := ''x''\<rparr>)\<rparr>"

lemma table_demo_ok: "table_ok info_demo (table table_demo)" "table table_demo = [root_demo]"
  by (simp_all add: table_ok_def table_def table_demo_def part_fits_def info_demo_def root_demo_def)

theorem nandpart_modify_keeps_table_witness:
  "let m = root_demo\<lparr>pt_size := 0x80000\<rparr> in
   \<exists>n' t' ls' rc. nandpart_processActions env_demo True table_demo (no_actions\<lparr>nl_mod := [m], nl_modsz := 1\<rparr>) () = Some (n', t', ls', rc)
    \<and> table_ok info_demo (table t') \<and> map pt_name (table t') = map pt_name (table table_demo)
    \<and> (\<forall>q \<in> set (table table_demo). pt_name q \<notin> pt_name ` set [m] \<longrightarrow> q \<in> set (table t'))
    \<and> (rc = 0 \<and> distinct (map pt_name [m]) \<longrightarrow> set [m] \<subseteq> set (table t'))"
  using nandpart_modify_keeps_table [of env_demo table_demo "no_actions\<lparr>nl_mod := [root_demo\<lparr>pt_size := 0x80000\<rparr>], nl_modsz := 1\<rparr>" True "()"]
    table_demo_ok by (simp add: env_demo_def no_actions_def table_demo_def)

section \<open>Removing and adding\<close>

lemma add_loop_crashes:
  assumes w: "out \<or> (\<forall>t n. 0 \<le> fst (snd (nandpart_writePtable env None t n)))"
  shows "nl_add ls = as \<Longrightarrow> nl_addsz ls \<noteq> 0 \<Longrightarrow> pb_count t + length as \<le> length (pb_parts t) \<Longrightarrow>
    add_loop env out t ls ret n = None"
proof (induction as arbitrary: t ls ret n)
  case Nil
  then show ?case by (simp add: add_loop.simps)
next
  case (Cons a as)
  let ?t = "\<lparr>pb_count = pb_count t + 1, pb_parts = (pb_parts t)[pb_count t := a]\<rparr>"
  let ?ls = "ls\<lparr>nl_add := as, nl_modsz := (nl_modsz ls + 2 ^ 32 - 1) mod 2 ^ 32\<rparr>"
  obtain n2 e f where wr: "nandpart_writePtable env None ?t n = (n2, e, f)" by (metis prod_cases3)
  have IH: "add_loop env out ?t ?ls x y = None" for x y using Cons by (intro Cons.IH) simp_all
  have "out \<or> \<not> e < 0" using w wr by (metis fst_conv snd_conv linorder_not_less)
  moreover have "poke (pb_parts t) (pb_count t) a = Some ((pb_parts t)[pb_count t := a])"
    using Cons.prems by (simp add: poke_def)
  ultimately show ?case
    using Cons.prems(1,2) IH wr by (subst add_loop.simps) (auto simp: Let_def)
qed

text \<open>
  A defect: adding partitions always ends in an access through a null pointer. The loop counts
  the wrong list down, so that it goes on when the list of partitions to add is empty; with an output
  file, and on the device when every write of the table succeeds, \<open>nandpart_processActions\<close> faults for
  every list of partitions to add that passes its checks.
\<close>

lemma nandpart_add_crashes:
  assumes "nl_remsz ls = 0" "nl_modsz ls = 0" "nl_addsz ls = length (nl_add ls)" "nl_add ls \<noteq> []"
    and "pc_size (ne_pc env) (pb_count t + nl_addsz ls) \<le> fi_writesz (ne_info env)"
    and "pb_count t + length (nl_add ls) \<le> length (pb_parts t)"
    and "out \<or> (\<forall>t n. 0 \<le> fst (snd (nandpart_writePtable env None t n)))"
  shows "nandpart_processActions env out t ls n = None"
  using assms add_loop_crashes [OF assms(7) refl _ assms(6), of 0 n] by (simp add: nandpart_processActions_def)

text \<open>
  A defect: removing a partition other than the last destroys the ones behind it. The source of
  the \<open>memcpy\<close> is \<open>sizeof(*part)\<close> slots further on instead of one: after \<open>-r\<close> of the partition in slot
  \<open>i\<close>, the slots from \<open>i\<close> on hold what was \<open>sizeof(*part)\<close> slots behind, outside the table (for a table with no
  more than \<open>sizeof(*part)\<close> partitions behind the removed one; with more the areas of the \<open>memcpy\<close> overlap).
\<close>

lemma nandpart_remove_wrong_slots:
  assumes ls: "nl_rem ls = [r]" "nl_remsz ls = 1" "nl_modsz ls = 0" "nl_addsz ls = 0"
    and i: "nandpart_findPart (table t) (pt_name r) = Some i"
    and fit: "pc_size (ne_pc env) (pb_count t - 1) \<le> fi_writesz (ne_info env)" "pb_count t \<le> length (pb_parts t)"
    and buf: "pb_count t + pc_partsz (ne_pc env) - 1 \<le> length (pb_parts t)" "0 < pc_partsz (ne_pc env)"
    and apart: "pb_count t - (i + 1) \<le> pc_partsz (ne_pc env)"
  shows "\<exists>t' ls'. nandpart_processActions env True t ls n = Some (n, t', ls', 0)
    \<and> table t' = take i (table t) @ take (pb_count t - 1 - i) (drop (i + pc_partsz (ne_pc env)) (pb_parts t))"
proof -
  let ?k = "pc_partsz (ne_pc env)"
  have i': "i < pb_count t" using findPart_Some [OF i] by (simp add: table_def)
  then obtain c where c: "pb_count t = Suc (i + c)" using less_iff_Suc_add by blast
  have "memcpy (pb_parts t) i (pb_parts t) (i + ?k) c
      = Some (take i (pb_parts t) @ take c (drop (i + ?k) (pb_parts t)) @ drop (i + c) (pb_parts t))"
    using c fit(2) buf by (simp add: memcpy_def)
  then have rs: "remove_slot (ne_pc env) i t = Some \<lparr>pb_count = i + c,
      pb_parts = take i (pb_parts t) @ take c (drop (i + ?k) (pb_parts t)) @ drop (i + c) (pb_parts t)\<rparr>"
    using c apart by (simp add: remove_slot_def)
  show ?thesis
    using ls i rs fit buf c
    by (auto simp: nandpart_processActions_def Let_def add_loop.simps table_def min_def)
qed

section \<open>Updating\<close>

lemma update_rem_ok:
  "\<forall>i. alloc i \<Longrightarrow> update_rem alloc i ps upd ls = (ls\<lparr>
     nl_rem := nl_rem ls @ filter (\<lambda>p. pt_name p \<notin> pt_name ` set upd) ps,
     nl_remsz := nl_remsz ls + length (filter (\<lambda>p. pt_name p \<notin> pt_name ` set upd) ps)\<rparr>, 0)"
  by (induction ps arbitrary: i ls) (simp_all add: findPart_None)

lemma update_addmod_ok:
  "\<forall>i. alloc i \<Longrightarrow> update_addmod alloc i tab ms ls = (ls\<lparr>
     nl_add := nl_add ls @ filter (\<lambda>m. pt_name m \<notin> pt_name ` set tab) ms,
     nl_addsz := nl_addsz ls + length (filter (\<lambda>m. pt_name m \<notin> pt_name ` set tab) ms),
     nl_mod := nl_mod ls @ filter (\<lambda>m. pt_name m \<in> pt_name ` set tab) ms,
     nl_modsz := nl_modsz ls + length (filter (\<lambda>m. pt_name m \<in> pt_name ` set tab) ms)\<rparr>, 0)"
  by (induction ms arbitrary: i ls) (simp_all add: findPart_None)

text \<open>
  The actions of an update. When the allocations succeed, \<open>nandpart_updatePtable\<close> schedules for
  removal exactly the partitions whose name the new table does not have, for addition exactly the
  new ones whose name the old table does not have, and for modification all other new ones, in table
  order.
\<close>

lemma nandpart_updatePtable_correct:
  assumes "\<forall>i. alloc i"
  shows "\<exists>ls. nandpart_updatePtable alloc tab upd no_actions = (ls, 0)
    \<and> nl_rem ls = filter (\<lambda>p. pt_name p \<notin> pt_name ` set upd) tab \<and> nl_remsz ls = length (nl_rem ls)
    \<and> nl_add ls = filter (\<lambda>p. pt_name p \<notin> pt_name ` set tab) upd \<and> nl_addsz ls = length (nl_add ls)
    \<and> nl_mod ls = filter (\<lambda>p. pt_name p \<in> pt_name ` set tab) upd \<and> nl_modsz ls = length (nl_mod ls)"
  using update_rem_ok [OF assms] update_addmod_ok [OF assms] by (simp add: nandpart_updatePtable_def no_actions_def)

end
