(* ===== verification/Chmod.thy ===== *)
theory Chmod
  imports Prelude "HOL-Library.Word"
begin

text \<open>
  The \<open>chmod\<close> applet, \<open>src/psh/chmod/chmod.c\<close>: symbolic and octal modes and the walk over the files.

  Modes are 32 bit words with the permission bits POSIX gives. Whether \<open>S_ISVTX\<close> exists, the tests
  \<open>S_ISDIR\<close> and \<open>S_ISLNK\<close>, the file creation mask and the file system are parameters.
\<close>

unbundle bit_operations_syntax

section \<open>Symbolic modes\<close>

type_synonym mode = "32 word"

abbreviation S_ISUID :: mode where "S_ISUID \<equiv> 2048"
abbreviation S_ISGID :: mode where "S_ISGID \<equiv> 1024"
abbreviation S_ISVTX :: mode where "S_ISVTX \<equiv> 512"
abbreviation S_IRWXU :: mode where "S_IRWXU \<equiv> 448"
abbreviation S_IRWXG :: mode where "S_IRWXG \<equiv> 56"
abbreviation S_IRWXO :: mode where "S_IRWXO \<equiv> 7"

definition USR_MODES :: mode where "USR_MODES = S_ISUID OR S_IRWXU"
definition GRP_MODES :: mode where "GRP_MODES = S_ISGID OR S_IRWXG"
definition EXE_MODES :: mode where "EXE_MODES = 64 OR 8 OR 1"

record chenv =
  ch_vtx :: bool
  ch_isdir :: "mode \<Rightarrow> bool"
  ch_islnk :: "mode \<Rightarrow> bool"
  ch_umask :: mode
  ch_lstat :: "string \<Rightarrow> mode option"
  ch_chmod :: "string \<Rightarrow> mode \<Rightarrow> bool"
  ch_readdir :: "string \<Rightarrow> string list option"
  ch_pathmax :: nat
  ch_alloc :: bool

definition ALL_MODES :: "chenv \<Rightarrow> mode" where
  "ALL_MODES env = USR_MODES OR GRP_MODES OR S_IRWXO OR (if ch_vtx env then S_ISVTX else 0)"

fun who_loop :: "chenv \<Rightarrow> mode \<Rightarrow> string \<Rightarrow> mode \<times> string" where
  "who_loop env who [] = (who, [])"
| "who_loop env who (c # s) =
     (if c = CHR ''a'' then who_loop env (who OR ALL_MODES env) s
      else if c = CHR ''u'' then who_loop env (who OR USR_MODES) s
      else if c = CHR ''g'' then who_loop env (who OR GRP_MODES) s
      else if c = CHR ''o'' then who_loop env (who OR S_IRWXO) s
      else (who, c # s))"

text \<open>The permissions behind an operator: \<open>who\<close>, \<open>mask\<close> and the rest of the string.\<close>

fun perm_loop :: "chenv \<Rightarrow> mode \<Rightarrow> mode \<Rightarrow> mode \<Rightarrow> mode \<Rightarrow> string \<Rightarrow> mode \<times> mode \<times> string" where
  "perm_loop env old new who msk [] = (who, msk, [])"
| "perm_loop env old new who msk (c # s) =
     (if c = CHR ''u'' then
        (let t = new AND S_IRWXU in (who, msk OR t OR push_bit 3 t OR push_bit 6 t, c # s))
      else if c = CHR ''g'' then
        (let t = new AND S_IRWXG in (who, msk OR t OR drop_bit 3 t OR push_bit 3 t, c # s))
      else if c = CHR ''o'' then
        (let t = new AND S_IRWXO in (who, msk OR t OR drop_bit 3 t OR drop_bit 6 t, c # s))
      else if c = CHR ''r'' then perm_loop env old new who (msk OR (256 OR 32 OR 4)) s
      else if c = CHR ''w'' then perm_loop env old new who (msk OR (128 OR 16 OR 2)) s
      else if c = CHR ''x'' then perm_loop env old new who (msk OR EXE_MODES) s
      else if c = CHR ''s'' then perm_loop env old new who (msk OR (S_ISUID OR S_ISGID)) s
      else if c = CHR ''X'' then
        perm_loop env old new who (if ch_isdir env old \<or> old AND EXE_MODES \<noteq> 0 then msk OR EXE_MODES else msk) s
      else if c = CHR ''t'' \<and> ch_vtx env then perm_loop env old new (who OR S_ISVTX) (msk OR S_ISVTX) s
      else (who, msk, c # s))"

definition apply_action :: "chenv \<Rightarrow> char \<Rightarrow> mode \<Rightarrow> mode \<Rightarrow> mode \<Rightarrow> mode" where
  "apply_action env action who msk new =
     (if action = CHR ''='' then
        (if who \<noteq> 0 then (new AND NOT who) OR (who AND msk) else msk AND NOT (ch_umask env))
      else if action = CHR ''+'' then
        (if who \<noteq> 0 then new OR (who AND msk) else new OR (msk AND NOT (ch_umask env)))
      else
        (if who \<noteq> 0 then new AND NOT (who AND msk) else new AND (NOT msk OR ch_umask env)))"

lemma perm_loop_le: "perm_loop env old new who msk s = (w, m, r) \<Longrightarrow> length r \<le> length s"
  by (induction s arbitrary: who msk) (auto simp: Let_def split: if_splits intro: le_SucI)

lemma who_loop_le: "who_loop env who s = (w, r) \<Longrightarrow> length r \<le> length s"
  by (induction s arbitrary: who) (auto split: if_splits intro: le_SucI)

text \<open>The actions of one clause: the new mode and the rest of the string; \<open>None\<close> is the usage error.\<close>

function action_loop :: "chenv \<Rightarrow> mode \<Rightarrow> mode \<Rightarrow> mode \<Rightarrow> string \<Rightarrow> (mode \<times> string) option" where
  "action_loop env old who new s = (case s of
     [] \<Rightarrow> Some (new, [])
   | c # s' \<Rightarrow>
       if c = CHR '','' then Some (new, s)
       else if c = CHR ''+'' \<or> c = CHR ''-'' \<or> c = CHR ''='' then
         (case perm_loop env old new who 0 s' of (who', msk, rest) \<Rightarrow>
            action_loop env old who' (apply_action env c who' msk new) rest)
       else None)"
  by pat_completeness auto
termination
  by (relation "measure (\<lambda>(env, old, who, new, s). length s)") (simp, auto dest!: sym [of "(_, _, _)"] perm_loop_le)

declare action_loop.simps [simp del]

lemma action_loop_less: "action_loop env old who new s = Some (m, r) \<Longrightarrow> length r \<le> length s"
proof (induction env old who new s rule: action_loop.induct)
  case (1 env old who new s)
  show ?case
  proof (cases s)
    case (Cons c s')
    obtain w k r' where p: "perm_loop env old new who 0 s' = (w, k, r')" by (metis prod_cases3)
    show ?thesis
      using "1.prems" "1.IH" [OF Cons _ _ p [symmetric] refl] perm_loop_le [OF p] Cons p
      by (subst (asm) action_loop.simps) (auto split: if_splits)
  qed (use "1.prems" in \<open>simp add: action_loop.simps\<close>)
qed

text \<open>The loop over the clauses.\<close>

function clause_loop :: "chenv \<Rightarrow> mode \<Rightarrow> mode \<Rightarrow> string \<Rightarrow> mode option" where
  "clause_loop env old new s =
     (if s = [] then Some new
      else (case who_loop env 0 s of (who, s1) \<Rightarrow>
        if s1 = [] \<or> hd s1 = CHR '','' then None
        else (case action_loop env old who new s1 of
            None \<Rightarrow> None
          | Some (new', s2) \<Rightarrow> clause_loop env old new' (if s2 \<noteq> [] then tl s2 else s2))))"
  by pat_completeness auto

lemma action_loop_consumes:
  assumes "action_loop env old who new s = Some (m, r)" "s \<noteq> []" "hd s \<noteq> CHR '',''"
  shows "length r < length s"
proof -
  obtain c s' where s: "s = c # s'" using assms(2) by (cases s) auto
  obtain w k r' where p: "perm_loop env old new who 0 s' = (w, k, r')" by (metis prod_cases3)
  have "action_loop env old w (apply_action env c w k new) r' = Some (m, r)"
    using assms s p by (subst (asm) action_loop.simps) (auto split: if_splits)
  then show ?thesis using action_loop_less perm_loop_le [OF p] s by fastforce
qed

lemma clause_shorter:
  assumes "(who, s1) = who_loop env w s" "s1 \<noteq> []" "hd s1 \<noteq> CHR '',''" "action_loop env old who new s1 = Some (m, r)"
  shows "length (if r \<noteq> [] then tl r else r) < length s"
  using who_loop_le [OF assms(1) [symmetric]] action_loop_consumes [OF assms(4,2,3)] by auto

termination clause_loop
  by (relation "measure (\<lambda>(env, old, new, s). length s)") (simp, use clause_shorter in \<open>fastforce simp del: length_tl\<close>)

declare clause_loop.simps [simp del]

definition parsemode :: "chenv \<Rightarrow> string \<Rightarrow> mode \<Rightarrow> mode option" where
  "parsemode env symbolic old = clause_loop env old (old AND ALL_MODES env) symbolic"

section \<open>The files\<close>

abbreviation (input) CH_SUCCESS :: int where "CH_SUCCESS \<equiv> 0"
abbreviation (input) CH_FAILURE :: int where "CH_FAILURE \<equiv> 1"

text \<open>The mode to set: the symbolic string, or the number.\<close>

datatype chspec = Symbolic string | Octal mode

definition is_dots :: "string \<Rightarrow> bool" where
  "is_dots d \<longleftrightarrow> d = ''.'' \<or> d = ''..''"

text \<open>
  The global state that changes: \<open>common.path\<close>, a buffer of \<open>PATH_MAX\<close> characters, and \<open>common.errors\<close>; and the modes that
  were set. \<open>None\<close> is a write outside the buffer.
\<close>

record chst =
  cs_path :: string
  cs_errors :: bool
  cs_log :: "(string \<times> mode) list"

definition strncpy :: "string \<Rightarrow> nat \<Rightarrow> string \<Rightarrow> nat \<Rightarrow> string option" where
  "strncpy buf off src n =
     (if off + n \<le> length buf then Some (take off buf @ take n (src @ replicate n NUL) @ drop (off + n) buf) else None)"

text \<open>
  The entries of a directory, whose path with the slash behind it ends at \<open>off\<close>, the pointer \<open>namp\<close>; \<open>rec\<close> is the
  recursive call for \<open>common.path\<close>.
\<close>

fun chmod_entries :: "chenv \<Rightarrow> (chst \<Rightarrow> (chst \<times> int) option) \<Rightarrow> nat \<Rightarrow> string list \<Rightarrow> chst \<Rightarrow> chst option" where
  "chmod_entries env rec off [] s = Some s"
| "chmod_entries env rec off (d # ds) s =
     (if is_dots d then chmod_entries env rec off ds s
      else (case strncpy (cs_path s) off d (ch_pathmax env - off - 1) of
          None \<Rightarrow> None
        | Some b \<Rightarrow> (case poke b (off + (ch_pathmax env - off)) NUL of
            None \<Rightarrow> None
          | Some b' \<Rightarrow> (case rec (s\<lparr>cs_path := b'\<rparr>) of
              None \<Rightarrow> None
            | Some (s', ret) \<Rightarrow> chmod_entries env rec off ds (s'\<lparr>cs_errors := (cs_errors s' \<or> ret \<noteq> 0)\<rparr>)))))"

text \<open>The directory branch; \<open>arg\<close> is \<open>None\<close> when \<open>name\<close> is \<open>common.path\<close> itself.\<close>

definition chmod_dir :: "chenv \<Rightarrow> (chst \<Rightarrow> (chst \<times> int) option) \<Rightarrow> string option \<Rightarrow> string list \<Rightarrow> chst \<Rightarrow> (chst \<times> int) option" where
  "chmod_dir env rec arg ds s =
     (let b = (case arg of
          None \<Rightarrow> Some (cs_path s)
        | Some name \<Rightarrow> Option.bind (strncpy (cs_path s) 0 name (ch_pathmax env)) (\<lambda>b. poke b (ch_pathmax env - 1) NUL)) in
      case b of
        None \<Rightarrow> None
      | Some b \<Rightarrow>
          let n = length (cstr b) in
          if n < ch_pathmax env - 1
          then (case poke b n (CHR ''/'') of
              None \<Rightarrow> None
            | Some b' \<Rightarrow> map_option (\<lambda>s'. (s', if cs_errors s' then CH_FAILURE else CH_SUCCESS))
                (chmod_entries env rec (n + 1) ds (s\<lparr>cs_path := b'\<rparr>)))
          else Some (s\<lparr>cs_path := b\<rparr>, CH_FAILURE))"

text \<open>
  One file. The recursion has fuel for the depth: a path in the buffer grows by at least one character
  per level, so \<open>PATH_MAX\<close> levels are enough; \<open>do_chmod_fuel\<close> shows that the fuel never matters.
\<close>

fun do_chmod :: "nat \<Rightarrow> chenv \<Rightarrow> bool \<Rightarrow> chspec \<Rightarrow> string option \<Rightarrow> chst \<Rightarrow> (chst \<times> int) option" where
  "do_chmod 0 env rflag spec arg s = None"
| "do_chmod (Suc k) env rflag spec arg s =
     (let name = (case arg of None \<Rightarrow> cstr (cs_path s) | Some f \<Rightarrow> f) in
      case ch_lstat env name of
        None \<Rightarrow> Some (s, CH_FAILURE)
      | Some st \<Rightarrow>
          if ch_islnk env st \<and> rflag then Some (s, CH_SUCCESS)
          else (case (case spec of Symbolic y \<Rightarrow> parsemode env y st | Octal m \<Rightarrow> Some m) of
              None \<Rightarrow> Some (s, -1)
            | Some m \<Rightarrow>
                let ok = ch_chmod env name m;
                    s1 = s\<lparr>cs_errors := \<not> ok, cs_log := cs_log s @ (if ok then [(name, m)] else [])\<rparr> in
                if ch_isdir env st \<and> rflag
                then (case ch_readdir env name of
                    None \<Rightarrow> Some (s1, CH_FAILURE)
                  | Some ds \<Rightarrow> chmod_dir env (do_chmod k env rflag spec None) arg ds s1)
                else Some (s1, if ok then CH_SUCCESS else CH_FAILURE)))"

fun chmod_files :: "chenv \<Rightarrow> bool \<Rightarrow> chspec \<Rightarrow> string list \<Rightarrow> chst \<Rightarrow> int \<Rightarrow> (chst \<times> int) option" where
  "chmod_files env rflag spec [] s ec = Some (s, ec)"
| "chmod_files env rflag spec (f # fs) s ec = (case do_chmod (Suc (ch_pathmax env)) env rflag spec (Some f) s of
     None \<Rightarrow> None
   | Some (s', ret) \<Rightarrow>
       if ret < 0 then Some (s', CH_FAILURE)
       else chmod_files env rflag spec fs s' (if ret = CH_FAILURE then CH_FAILURE else ec))"

fun octal_loop :: "mode \<Rightarrow> string \<Rightarrow> mode \<times> string" where
  "octal_loop v [] = (v, [])"
| "octal_loop v (c # s) =
     (if isdigit c then octal_loop (push_bit 3 v OR (of_nat (code c) AND 7)) s else (v, c # s))"

text \<open>The mode argument; \<open>None\<close> is the usage error.\<close>

definition chmod_spec :: "chenv \<Rightarrow> string \<Rightarrow> chspec option" where
  "chmod_spec env s =
     (if s \<noteq> [] \<and> isdigit (hd s) then
        (case octal_loop 0 s of (v, rest) \<Rightarrow> if rest \<noteq> [] then None else Some (Octal (v AND ALL_MODES env)))
      else Some (Symbolic s))"

definition psh_chmod :: "chenv \<Rightarrow> string list \<Rightarrow> ((string \<times> mode) list \<times> int) option" where
  "psh_chmod env argv =
     (let args = tl argv; rflag = (args \<noteq> [] \<and> hd args = ''-R''); args' = (if rflag then tl args else args) in
      case args' of
        [] \<Rightarrow> Some ([], CH_FAILURE)
      | [s] \<Rightarrow> Some ([], CH_FAILURE)
      | s # files \<Rightarrow> (case chmod_spec env s of
            None \<Rightarrow> Some ([], CH_FAILURE)
          | Some spec \<Rightarrow>
              if \<not> ch_alloc env then Some ([], CH_FAILURE)
              else map_option (\<lambda>(s', ec). (cs_log s', ec)) (chmod_files env rflag spec files
                \<lparr>cs_path = replicate (ch_pathmax env) NUL, cs_errors = False, cs_log = []\<rparr> CH_SUCCESS)))"

section \<open>What a symbolic mode means\<close>

text \<open>
  A clause is whom it is about, and a list of operators with permissions. \<open>perm_bits\<close> are the bits of a
  permission letter; the bits of \<open>who\<close> are those of its letters, and the sticky bit once \<open>t\<close> was among the
  permissions.
\<close>

definition who_bits :: "chenv \<Rightarrow> string \<Rightarrow> mode" where
  "who_bits env ws = fold (\<lambda>c v. v OR (if c = CHR ''a'' then ALL_MODES env else if c = CHR ''u'' then USR_MODES
     else if c = CHR ''g'' then GRP_MODES else S_IRWXO)) ws 0"

definition perm_bits :: "chenv \<Rightarrow> mode \<Rightarrow> char \<Rightarrow> mode" where
  "perm_bits env old c =
     (if c = CHR ''r'' then 292 else if c = CHR ''w'' then 146 else if c = CHR ''x'' then 73
      else if c = CHR ''s'' then 3072 else if c = CHR ''X'' then (if ch_isdir env old \<or> old AND 73 \<noteq> 0 then 73 else 0)
      else 512)"

definition perms_bits :: "chenv \<Rightarrow> mode \<Rightarrow> string \<Rightarrow> mode" where
  "perms_bits env old ps = fold (\<lambda>c v. v OR perm_bits env old c) ps 0"

type_synonym clause = "string \<times> (char \<times> string) list"

text \<open>
  What an operator does: the permissions it is about are those given, for the classes named or, when none
  is named, those the file creation mask does not hold back. They are added, taken away, or put in the
  place of all the bits of these classes.
\<close>

definition act_spec :: "chenv \<Rightarrow> char \<Rightarrow> mode \<Rightarrow> mode \<Rightarrow> mode \<Rightarrow> mode" where
  "act_spec env c who msk new =
     (let eff = msk AND (if who = 0 then NOT (ch_umask env) else who) in
      if c = CHR ''+'' then new OR eff
      else if c = CHR ''-'' then new AND NOT eff
      else (new AND NOT (if who = 0 then - 1 else who)) OR eff)"

lemma apply_action_spec: "c \<in> set ''+-='' \<Longrightarrow> apply_action env c who msk new = act_spec env c who msk new"
  by (auto simp: apply_action_def act_spec_def Let_def and.commute and.left_commute bit_eq_iff bit_simps)

fun act_all :: "chenv \<Rightarrow> mode \<Rightarrow> mode \<Rightarrow> mode \<Rightarrow> (char \<times> string) list \<Rightarrow> mode" where
  "act_all env old who new [] = new"
| "act_all env old who new ((c, ps) # as) =
     (let who' = (if CHR ''t'' \<in> set ps then who OR S_ISVTX else who)
      in act_all env old who' (act_spec env c who' (perms_bits env old ps) new) as)"

definition clause_text :: "clause \<Rightarrow> string" where
  "clause_text cl = fst cl @ concat (map (\<lambda>(c, ps). c # ps) (snd cl))"

fun mode_text :: "clause list \<Rightarrow> string" where
  "mode_text [] = []"
| "mode_text [cl] = clause_text cl"
| "mode_text (cl # cls) = clause_text cl @ CHR '','' # mode_text cls"

definition clause_ok :: "chenv \<Rightarrow> clause \<Rightarrow> bool" where
  "clause_ok env cl \<longleftrightarrow> set (fst cl) \<subseteq> set ''augo'' \<and> snd cl \<noteq> [] \<and>
     (\<forall>(c, ps) \<in> set (snd cl). c \<in> set ''+-='' \<and> set ps \<subseteq> set (if ch_vtx env then ''rwxsXt'' else ''rwxsX''))"

definition apply_clause :: "chenv \<Rightarrow> mode \<Rightarrow> mode \<Rightarrow> clause \<Rightarrow> mode" where
  "apply_clause env old new cl = act_all env old (who_bits env (fst cl)) new (snd cl)"


section \<open>Reading a symbolic mode\<close>

lemma who_loop_letters:
  "set ws \<subseteq> set ''augo'' \<Longrightarrow> r = [] \<or> hd r \<notin> set ''augo'' \<Longrightarrow>
     who_loop env w (ws @ r) = (fold (\<lambda>c v. v OR (if c = CHR ''a'' then ALL_MODES env else if c = CHR ''u'' then USR_MODES
     else if c = CHR ''g'' then GRP_MODES else S_IRWXO)) ws w, r)"
proof (induction ws arbitrary: w)
  case Nil
  then show ?case by (cases r) auto
qed auto

lemma mode_numerals: "256 OR 32 OR 4 = (292 :: mode)" "128 OR 16 OR 2 = (146 :: mode)" "EXE_MODES = 73"
  "S_ISUID OR S_ISGID = 3072"
  by (simp_all add: EXE_MODES_def)

lemma perm_loop_letters:
  "set ps \<subseteq> set (if ch_vtx env then ''rwxsXt'' else ''rwxsX'') \<Longrightarrow> r = [] \<or> hd r \<in> set ''+-=,'' \<Longrightarrow>
     perm_loop env old new who msk (ps @ r)
       = (if CHR ''t'' \<in> set ps then who OR S_ISVTX else who, fold (\<lambda>c v. v OR perm_bits env old c) ps msk, r)"
proof (induction ps arbitrary: who msk)
  case Nil
  then show ?case by (cases r) auto
next
  case (Cons c ps)
  have c: "c \<in> set ''rwxsX'' \<or> c = CHR ''t'' \<and> ch_vtx env" using Cons.prems(1) by (auto split: if_splits)
  have ps: "set ps \<subseteq> set (if ch_vtx env then ''rwxsXt'' else ''rwxsX'')" using Cons.prems(1) by simp
  have tt: "(who OR S_ISVTX) OR S_ISVTX = who OR S_ISVTX" by (simp add: or.assoc)
  show ?case
    using c Cons.IH [OF ps Cons.prems(2)] tt by (auto simp: perm_bits_def mode_numerals)
qed

lemma concat_ops_hd:
  "\<forall>(c, ps) \<in> set as. c \<in> set ''+-='' \<Longrightarrow> r = [] \<or> hd r = CHR '','' \<Longrightarrow>
     concat (map (\<lambda>(c, ps). c # ps) as) @ r = [] \<or> hd (concat (map (\<lambda>(c, ps). c # ps) as) @ r) \<in> set ''+-=,''"
  by (cases as) auto

lemma action_loop_clause:
  "\<forall>(c, ps) \<in> set as. c \<in> set ''+-='' \<and> set ps \<subseteq> set (if ch_vtx env then ''rwxsXt'' else ''rwxsX'') \<Longrightarrow>
   r = [] \<or> hd r = CHR '','' \<Longrightarrow>
     action_loop env old who new (concat (map (\<lambda>(c, ps). c # ps) as) @ r) = Some (act_all env old who new as, r)"
proof (induction as arbitrary: who new)
  case Nil
  then show ?case by (cases r) (auto simp: action_loop.simps)
next
  case (Cons a as)
  obtain c ps where a: "a = (c, ps)" by fastforce
  let ?t = "concat (map (\<lambda>(c, ps). c # ps) as) @ r"
  have t: "?t = [] \<or> hd ?t \<in> set ''+-=,''" using concat_ops_hd [of as r] Cons.prems by fastforce
  have ps: "set ps \<subseteq> set (if ch_vtx env then ''rwxsXt'' else ''rwxsX'')" "c \<in> set ''+-=''" using Cons.prems(1) a by auto
  have "perm_loop env old new who 0 (ps @ ?t)
      = (if CHR ''t'' \<in> set ps then who OR S_ISVTX else who, perms_bits env old ps, ?t)"
    using perm_loop_letters [OF ps(1) t] by (simp add: perms_bits_def)
  then show ?case
    using ps(2) a Cons.IH Cons.prems apply_action_spec [OF ps(2)] by (subst action_loop.simps) (auto simp: Let_def)
qed

lemma clause_loop_clause:
  assumes cl: "clause_ok env cl" and r: "r = [] \<or> hd r = CHR '',''"
  shows "clause_loop env old new (clause_text cl @ r) = clause_loop env old (apply_clause env old new cl) (if r \<noteq> [] then tl r else r)"
proof -
  define t where "t = concat (map (\<lambda>(c, ps). c # ps) (snd cl)) @ r"
  have as: "\<forall>(c, ps) \<in> set (snd cl). c \<in> set ''+-='' \<and> set ps \<subseteq> set (if ch_vtx env then ''rwxsXt'' else ''rwxsX'')"
    "snd cl \<noteq> []" "set (fst cl) \<subseteq> set ''augo''" using cl by (simp_all add: clause_ok_def)
  obtain c ps cs where c: "snd cl = (c, ps) # cs" using as(2) by (cases "snd cl") auto
  then have hd: "t \<noteq> []" "hd t \<in> set ''+-=''" using as(1) by (auto simp: t_def)
  then have "who_loop env 0 (fst cl @ t) = (who_bits env (fst cl), t)"
    using who_loop_letters [OF as(3), of t env 0] by (auto simp: who_bits_def)
  moreover have "action_loop env old (who_bits env (fst cl)) new t = Some (apply_clause env old new cl, r)"
    using action_loop_clause [OF as(1) r] by (simp add: apply_clause_def t_def)
  moreover have "hd t \<noteq> CHR '',''" using hd(2) by auto
  ultimately show ?thesis
    using hd(1) by (subst clause_loop.simps) (simp add: clause_text_def t_def [symmetric])
qed

lemma clause_loop_all:
  "\<forall>cl \<in> set cls. clause_ok env cl \<Longrightarrow> clause_loop env old new (mode_text cls) = Some (foldl (apply_clause env old) new cls)"
proof (induction cls arbitrary: new rule: mode_text.induct)
  case 1
  then show ?case by (simp add: clause_loop.simps)
next
  case (2 cl)
  then show ?case using clause_loop_clause [of env cl "[]" old new] by (simp add: clause_loop.simps)
next
  case (3 cl c cs)
  then show ?case using clause_loop_clause [of env cl "CHR '','' # mode_text (c # cs)" old new] by simp
qed

text \<open>The bits of a mode are among the permission bits.\<close>

definition within :: "mode \<Rightarrow> mode \<Rightarrow> bool" where
  "within a b \<longleftrightarrow> (\<forall>k. bit a k \<longrightarrow> bit b k)"

lemma within_simps:
  "within 0 b" "within (a AND b) b" "within a b \<Longrightarrow> within (a AND c) b" "within a b \<Longrightarrow> within c b \<Longrightarrow> within (a OR c) b"
  by (auto simp: within_def bit_simps)

lemma within_trans: "within a b \<Longrightarrow> within b c \<Longrightarrow> within a c"
  by (simp add: within_def)

lemma within_numeral: "a OR b = b \<Longrightarrow> within a b"
  by (metis within_def bit_or_iff)

lemma ALL_MODES_eq: "ALL_MODES env = (if ch_vtx env then 4095 else 3583)"
  by (simp add: ALL_MODES_def USR_MODES_def GRP_MODES_def)

lemma who_bits_within: "within (who_bits env ws) (ALL_MODES env)"
proof -
  have "within v (ALL_MODES env) \<Longrightarrow> within (fold (\<lambda>c v. v OR (if c = CHR ''a'' then ALL_MODES env else if c = CHR ''u'' then USR_MODES
     else if c = CHR ''g'' then GRP_MODES else S_IRWXO)) ws v) (ALL_MODES env)" for v
  proof (induction ws arbitrary: v)
    case (Cons c ws)
    have "within USR_MODES (ALL_MODES env)" "within GRP_MODES (ALL_MODES env)" "within S_IRWXO (ALL_MODES env)"
      "within (ALL_MODES env) (ALL_MODES env)"
      by (auto intro!: within_numeral simp: ALL_MODES_eq USR_MODES_def GRP_MODES_def)
    then show ?case using Cons by (auto intro: within_simps(4))
  qed simp
  then show ?thesis by (simp add: who_bits_def within_simps)
qed

lemma perms_bits_within:
  assumes "set ps \<subseteq> set (if ch_vtx env then ''rwxsXt'' else ''rwxsX'')"
  shows "within (perms_bits env old ps) (ALL_MODES env)"
proof -
  have "within v (ALL_MODES env) \<Longrightarrow> within (fold (\<lambda>c v. v OR perm_bits env old c) ps v) (ALL_MODES env)" for v
    using assms
  proof (induction ps arbitrary: v)
    case (Cons c ps)
    have "within (perm_bits env old c) (ALL_MODES env)"
      using Cons.prems(2) by (intro within_numeral) (auto simp: ALL_MODES_eq perm_bits_def split: if_splits)
    then show ?case using Cons by (auto intro: within_simps(4) split: if_splits)
  qed simp
  then show ?thesis by (simp add: perms_bits_def within_simps)
qed

lemma act_all_within:
  "within new (ALL_MODES env) \<Longrightarrow> within who (ALL_MODES env) \<Longrightarrow>
   \<forall>(c, ps) \<in> set as. set ps \<subseteq> set (if ch_vtx env then ''rwxsXt'' else ''rwxsX'') \<Longrightarrow>
     within (act_all env old who new as) (ALL_MODES env)"
proof (induction as arbitrary: who new)
  case (Cons a as)
  obtain c ps where a: "a = (c, ps)" by fastforce
  have ps: "set ps \<subseteq> set (if ch_vtx env then ''rwxsXt'' else ''rwxsX'')" using Cons.prems(3) a by simp
  define w where "w = (if CHR ''t'' \<in> set ps then who OR S_ISVTX else who)"
  have "within S_ISVTX (ALL_MODES env)" if "CHR ''t'' \<in> set ps"
    using that ps by (intro within_numeral) (auto simp: ALL_MODES_eq split: if_splits)
  then have w: "within w (ALL_MODES env)" using Cons.prems(2) by (auto simp: w_def intro: within_simps(4))
  have "within (act_spec env c w (perms_bits env old ps) new) (ALL_MODES env)"
    using Cons.prems(1) w perms_bits_within [OF ps, of old]
    by (auto simp: act_spec_def Let_def intro: within_simps(3,4))
  then show ?case using Cons.IH [OF _ w] Cons.prems(3) a by (simp add: w_def Let_def)
qed simp

lemma clauses_within:
  "\<forall>cl \<in> set cls. clause_ok env cl \<Longrightarrow> within new (ALL_MODES env) \<Longrightarrow> within (foldl (apply_clause env old) new cls) (ALL_MODES env)"
proof (induction cls arbitrary: new)
  case (Cons cl cls)
  have "\<forall>(c, ps) \<in> set (snd cl). set ps \<subseteq> set (if ch_vtx env then ''rwxsXt'' else ''rwxsX'')"
    using Cons.prems(1) by (simp add: clause_ok_def case_prod_beta)
  then have "within (apply_clause env old new cl) (ALL_MODES env)"
    unfolding apply_clause_def using Cons.prems(2) by (intro act_all_within who_bits_within)
  then show ?case using Cons by simp
qed simp

text \<open>
  C39: Symbolic modes are read as they are meant. For every list of clauses, each for any of \<open>u\<close>, \<open>g\<close>,
  \<open>o\<close>, \<open>a\<close> (or nobody, and then under the file creation mask) with any number of operators \<open>+\<close>, \<open>-\<close>, \<open>=\<close> and
  permissions, \<open>parsemode\<close> accepts the text of the clauses and applies them one after the other to the
  old mode; what it gives has only permission bits.
\<close>

theorem parsemode_correct:
  assumes "\<forall>cl \<in> set cls. clause_ok env cl"
  shows "\<exists>m. parsemode env (mode_text cls) old = Some m \<and> within m (ALL_MODES env)
    \<and> m = foldl (apply_clause env old) (old AND ALL_MODES env) cls"
  using clause_loop_all [OF assms] clauses_within [OF assms within_simps(2)] by (simp add: parsemode_def)

definition chmod_demo :: chenv where
  "chmod_demo = \<lparr>ch_vtx = True, ch_isdir = \<lambda>m. m AND 16384 \<noteq> 0, ch_islnk = \<lambda>_. False, ch_umask = 18,
     ch_lstat = \<lambda>_. Some 420, ch_chmod = \<lambda>_ _. True, ch_readdir = \<lambda>_. Some [], ch_pathmax = 1024, ch_alloc = True\<rparr>"

theorem parsemode_correct_witness:
  "\<exists>m. parsemode chmod_demo ''u+x,go=r'' 384 = Some m \<and> within m (ALL_MODES chmod_demo)
    \<and> m = foldl (apply_clause chmod_demo 384) (384 AND ALL_MODES chmod_demo) [(''u'', [(CHR ''+'', ''x'')]), (''go'', [(CHR ''='', ''r'')])]"
  using parsemode_correct [of "[(''u'', [(CHR ''+'', ''x'')]), (''go'', [(CHR ''='', ''r'')])]" chmod_demo 384]
  by (simp add: clause_ok_def clause_text_def)


text \<open>The applet gives every file its new mode, with each symbolic mode and no \<open>-R\<close>.\<close>

lemma chmod_files_plain:
  assumes "\<forall>f \<in> set fs. ch_lstat env f = Some (st f) \<and> ch_chmod env f (new (st f))"
    and "\<And>m. (case spec of Symbolic y \<Rightarrow> parsemode env y m | Octal v \<Rightarrow> Some v) = Some (new m)"
  shows "\<exists>s'. chmod_files env False spec fs s ec = Some (s', ec) \<and> cs_log s' = cs_log s @ map (\<lambda>f. (f, new (st f))) fs"
  using assms(1)
proof (induction fs arbitrary: s)
  case (Cons f fs)
  obtain s' where "chmod_files env False spec fs (s\<lparr>cs_errors := False, cs_log := cs_log s @ [(f, new (st f))]\<rparr>) ec = Some (s', ec)"
      "cs_log s' = (cs_log s @ [(f, new (st f))]) @ map (\<lambda>f. (f, new (st f))) fs"
    using Cons.IH [of "s\<lparr>cs_errors := False, cs_log := cs_log s @ [(f, new (st f))]\<rparr>"] Cons.prems by auto
  then show ?case using Cons.prems by (simp add: assms(2) Let_def)
qed simp

lemma psh_chmod_symbolic:
  assumes "\<forall>cl \<in> set cls. clause_ok env cl" "mode_text cls = [] \<or> \<not> isdigit (hd (mode_text cls))" "mode_text cls \<noteq> ''-R''"
    and "fs \<noteq> []" "ch_alloc env" "\<forall>f \<in> set fs. ch_lstat env f = Some (st f)"
    and "\<forall>f m. f \<in> set fs \<longrightarrow> ch_chmod env f m"
  shows "psh_chmod env (''chmod'' # mode_text cls # fs) =
    Some (map (\<lambda>f. (f, foldl (apply_clause env (st f)) (st f AND ALL_MODES env) cls)) fs, CH_SUCCESS)"
proof -
  define new where "new m = foldl (apply_clause env m) (m AND ALL_MODES env) cls" for m
  have "(case Symbolic (mode_text cls) of Symbolic y \<Rightarrow> parsemode env y m | Octal v \<Rightarrow> Some v) = Some (new m)" for m
    using clause_loop_all [OF assms(1)] by (simp add: parsemode_def new_def)
  from chmod_files_plain [where st = st and new = new, OF _ this] assms(6,7) obtain s' where
    "chmod_files env False (Symbolic (mode_text cls)) fs \<lparr>cs_path = replicate (ch_pathmax env) NUL, cs_errors = False, cs_log = []\<rparr>
       CH_SUCCESS = Some (s', CH_SUCCESS)" "cs_log s' = map (\<lambda>f. (f, new (st f))) fs"
    by (metis (no_types, lifting) append_Nil chst.select_convs(3))
  then show ?thesis
    using assms(2-5)
    by (auto simp: psh_chmod_def chmod_spec_def Let_def new_def neq_Nil_conv simp del: chmod_files.simps do_chmod.simps split: list.split)
qed

section \<open>Defects\<close>

lemma perm_loop_copy:
  "set ps \<subseteq> set (if ch_vtx env then ''rwxsXt'' else ''rwxsX'') \<Longrightarrow> c \<in> set ''ugo'' \<Longrightarrow>
     \<exists>w m. perm_loop env old new who msk (ps @ c # r) = (w, m, c # r)"
proof (induction ps arbitrary: who msk)
  case (Cons p ps)
  then have "p \<in> set ''rwxsX'' \<or> p = CHR ''t'' \<and> ch_vtx env" by (auto split: if_splits)
  then show ?case using Cons by auto
qed (auto simp: Let_def)

text \<open>
  A defect: copying permissions from another class is never accepted. After \<open>u\<close>, \<open>g\<close> or \<open>o\<close> behind an operator
  the string is not advanced, and the same letter is taken for an operator next: \<open>g=u\<close> and the like
  end with the usage text. (The shifts of the copied bits also go the wrong way.)
\<close>

lemma parsemode_copy_rejected:
  assumes "set ws \<subseteq> set ''augo''" "a \<in> set ''+-=''" "set ps \<subseteq> set (if ch_vtx env then ''rwxsXt'' else ''rwxsX'')" "c \<in> set ''ugo''"
  shows "parsemode env (ws @ a # ps @ c # r) old = None"
proof -
  obtain w m where p: "perm_loop env old (old AND ALL_MODES env) (who_bits env ws) 0 (ps @ c # r) = (w, m, c # r)"
    using perm_loop_copy [OF assms(3,4)] by blast
  have "action_loop env old x y (c # r) = None" for x y using assms(4) by (subst action_loop.simps) auto
  then have "action_loop env old (who_bits env ws) (old AND ALL_MODES env) (a # ps @ c # r) = None"
    using p assms(2) by (subst action_loop.simps) auto
  moreover have "who_loop env 0 (ws @ a # ps @ c # r) = (who_bits env ws, a # ps @ c # r)"
    using who_loop_letters [OF assms(1), of "a # ps @ c # r" env 0] assms(2) by (auto simp: who_bits_def)
  moreover have "a \<noteq> CHR '',''" using assms(2) by auto
  ultimately show ?thesis by (simp add: parsemode_def clause_loop.simps)
qed

lemma strncpy_length: "strncpy buf off src n = Some b \<Longrightarrow> length b = length buf"
  by (auto simp: strncpy_def split: if_splits)

lemma chmod_entries_cases:
  "length (cs_path s) = ch_pathmax env \<Longrightarrow> off \<le> ch_pathmax env \<Longrightarrow>
     chmod_entries env rec off ds s = (if \<exists>d \<in> set ds. \<not> is_dots d then None else Some s)"
  by (induction ds) (auto simp: poke_def dest: strncpy_length split: option.split)

lemma chmod_dir_cases:
  assumes "length (cs_path s) = ch_pathmax env"
  shows "chmod_dir env rec arg ds s = chmod_dir env rec' arg ds s"
proof -
  have "chmod_entries env rec off ds (s\<lparr>cs_path := b[i := x]\<rparr>) = chmod_entries env rec' off ds (s\<lparr>cs_path := b[i := x]\<rparr>)"
    if "length b = ch_pathmax env" "off \<le> ch_pathmax env" for b i x off
    using that by (simp add: chmod_entries_cases)
  then show ?thesis
    using assms unfolding chmod_dir_def
    by (auto simp: Let_def poke_def dest!: strncpy_length split: option.splits bind_splits)
qed

text \<open>The fuel does not matter: no recursive call is ever reached.\<close>

lemma do_chmod_fuel:
  "length (cs_path s) = ch_pathmax env \<Longrightarrow> do_chmod (Suc k) env rflag spec arg s = do_chmod (Suc j) env rflag spec arg s"
  by (auto simp: Let_def intro: chmod_dir_cases split: option.split)

text \<open>
  A defect: \<open>chmod -R\<close> writes behind its path buffer. For a directory that can be read and has any
  entry but the dots, and a path that fits, the terminator is written to the position \<open>PATH_MAX\<close> of
  the buffer of \<open>PATH_MAX\<close> characters, whatever the mode and the length of the names; this
  happens before anything inside the directory is changed.
\<close>

lemma chmod_recursive_overflow:
  assumes "ch_lstat env name = Some st" "ch_isdir env st" "\<not> ch_islnk env st" "ch_readdir env name = Some ds"
    and "\<exists>d \<in> set ds. \<not> is_dots d" "length name + 1 < ch_pathmax env" "NUL \<notin> set name"
    and "length (cs_path s) = ch_pathmax env"
  shows "do_chmod (Suc k) env True (Octal m) (Some name) s = None"
proof -
  define b where "b = take (ch_pathmax env) (name @ replicate (ch_pathmax env) NUL)"
  have b: "strncpy (cs_path s) 0 name (ch_pathmax env) = Some b" using assms(8) by (simp add: strncpy_def b_def)
  have be: "b = name @ replicate (ch_pathmax env - length name) NUL" using assms(6) by (simp add: b_def)
  moreover have "replicate (ch_pathmax env - length name) NUL = NUL # replicate (ch_pathmax env - length name - 1) NUL"
    using assms(6) by (simp add: Suc_diff_Suc flip: replicate_Suc)
  ultimately have "cstr b = name" using assms(7) by (simp del: replicate_Suc)
  with be have "poke b (ch_pathmax env - 1) NUL = Some b" "length (cstr b) = length name" "length b = ch_pathmax env"
    using assms(6,7)
    by (auto simp: poke_def nth_append list_update_same_conv)
  then have "chmod_dir env rec (Some name) ds (s\<lparr>cs_errors := e, cs_log := l\<rparr>) = None" for rec e l
    using b assms(5,6,8) by (auto simp: chmod_dir_def Let_def poke_def chmod_entries_cases)
  then show ?thesis using assms(1-4) by (simp add: Let_def)
qed

end
