(* ===== verification/Dd.thy ===== *)
theory Dd
  imports Ptable
begin

text \<open>
  The \<open>dd\<close> applet, \<open>src/psh/dd/dd.c\<close>: numbers with suffixes, the operands, and the copy loop.

  \<open>ssize_t\<close> and \<open>unsigned long\<close> have 64 bits and \<open>int\<close> has 32, as on the 64 bit targets. A file is its
  bytes, with a position; \<open>lseek\<close> moves the position when the file can be positioned. The answers to the
  calls of \<open>read\<close> and \<open>write\<close> are lists that the loops consume; \<open>None\<close> means that the loop goes on
  when its list is used up. An answer to \<open>read\<close> is an error or the number of bytes that are ready: the call
  delivers so many of the bytes at the position, but not more than the block size. Each read comes with the
  value of the flag \<open>psh_common.sigint\<close> after it. A signed product that overflows, which C leaves undefined,
  wraps around here.
\<close>

section \<open>Numbers\<close>

abbreviation (input) EOVERFLOW :: int where "EOVERFLOW \<equiv> 75"

definition SSIZE_MAX :: int where
  "SSIZE_MAX = 2 ^ 63 - 1"

text \<open>\<open>strtoul\<close> with base 10, converted to \<open>ssize_t\<close>; the rest of the string at \<open>endptr\<close>.\<close>

definition to_ssize :: "nat \<Rightarrow> int" where
  "to_ssize v = (if v < 2 ^ 63 then int v else int v - 2 ^ 64)"

definition strtoul10 :: "string \<Rightarrow> int \<times> string" where
  "strtoul10 s =
     (let s1 = dropWhile isspace s;
          neg = (s1 \<noteq> [] \<and> hd s1 = CHR ''-'');
          s2 = (if s1 \<noteq> [] \<and> (hd s1 = CHR ''-'' \<or> hd s1 = CHR ''+'') then tl s1 else s1)
      in if s2 = [] \<or> \<not> digit_val (hd s2) < 10 then (0, s)
         else (case digits 10 0 s2 of (v, rest) \<Rightarrow>
           (to_ssize (if v \<ge> 2 ^ 64 then 2 ^ 64 - 1 else if neg then (2 ^ 64 - v) mod 2 ^ 64 else v), rest)))"

definition wrap64 :: "int \<Rightarrow> int" where
  "wrap64 v = (v + 2 ^ 63) mod 2 ^ 64 - 2 ^ 63"

definition suffix_mult :: "char \<Rightarrow> int option" where
  "suffix_mult c =
     (if c = CHR ''M'' then Some (1024 * 1024) else if c = CHR ''k'' then Some 1024
      else if c = CHR ''b'' then Some 512 else if c = CHR ''w'' then Some 2
      else if c = CHR ''c'' then Some 1 else None)"

definition getnumber :: "string \<Rightarrow> int" where
  "getnumber numstr = (case strtoul10 numstr of (value, str) \<Rightarrow>
     if str = numstr then - EINVAL
     else (case str of
         [] \<Rightarrow> value
       | c # rest \<Rightarrow> (case suffix_mult c of
             None \<Rightarrow> -1
           | Some mult \<Rightarrow>
               if rest \<noteq> [] then - EINVAL
               else if value > SSIZE_MAX div mult then - EOVERFLOW else wrap64 (value * mult))))"

section \<open>Operands\<close>










section \<open>Copying\<close>

datatype rd = RGot nat | RErr int

text \<open>Writing a chunk: what was written, the results left over, and whether it failed.\<close>

fun write_loop :: "string \<Rightarrow> (int \<times> int) list \<Rightarrow> (string \<times> (int \<times> int) list \<times> bool) option" where
  "write_loop p ws =
     (if p = [] then Some ([], ws, False)
      else (case ws of
          [] \<Rightarrow> None
        | (outcc, errno) # ws' \<Rightarrow>
            if outcc < 0 then (if errno = EINTR then write_loop p ws' else Some ([], ws', True))
            else map_option (\<lambda>(w, r, e). (take (nat outcc) p @ w, r, e)) (write_loop (drop (nat outcc) p) ws')))"

declare write_loop.simps [simp del]

record ddres =
  dr_in :: int
  dr_out :: string
  dr_err :: bool

text \<open>The loop on the bytes \<open>inp\<close> that are left of the input; \<open>bs\<close> is the block size.\<close>

fun dd_loop :: "nat \<Rightarrow> int \<Rightarrow> (rd \<times> bool) list \<Rightarrow> (int \<times> int) list \<Rightarrow> string \<Rightarrow> int \<Rightarrow> string \<Rightarrow> ddres option" where
  "dd_loop bs inmax [] ws inp intotal out = None"
| "dd_loop bs inmax ((RErr e, sigint) # rs) ws inp intotal out =
     (if e = EINTR then dd_loop bs inmax rs ws inp intotal out
      else Some \<lparr>dr_in = intotal, dr_out = out, dr_err = False\<rparr>)"
| "dd_loop bs inmax ((RGot k, sigint) # rs) ws inp intotal out =
     (let d = take (min bs k) inp; n = intotal + int (length d) in
      if d = [] then Some \<lparr>dr_in = intotal, dr_out = out, dr_err = False\<rparr>
      else if sigint then Some \<lparr>dr_in = n, dr_out = out, dr_err = True\<rparr>
      else (case write_loop d ws of
          None \<Rightarrow> None
        | Some (w, ws', fail) \<Rightarrow>
            if fail then Some \<lparr>dr_in = n, dr_out = out @ w, dr_err = True\<rparr>
            else if inmax \<noteq> 0 \<and> n \<ge> inmax then Some \<lparr>dr_in = n, dr_out = out @ w, dr_err = False\<rparr>
            else dd_loop bs inmax rs ws' (drop (length d) inp) n (out @ w)))"









section \<open>Numbers read back\<close>

lemma strtoul10_dec:
  assumes "k < 2 ^ 63" and "rest = [] \<or> \<not> digit_val (hd rest) < 10"
  shows "strtoul10 (dec k @ rest) = (int k, rest)"
proof -
  obtain c cs where d: "dec k = c # cs" using dec_hd [of k] by (cases "dec k") auto
  have c: "digit_val c < 10" using dec_digits [of k] d by auto
  have "digits 10 0 (dec k @ rest) = (k, rest)"
    using digits_all [OF dec_digits [of k], of 0 rest] assms(2) by (cases rest) (auto simp: dec_value)
  then show ?thesis
    using c digit_not_blank [OF c] assms(1) unfolding d strtoul10_def by (simp add: Let_def to_ssize_def)
qed

lemma suffix_not_digit: "suffix_mult c = Some m \<Longrightarrow> m > 0 \<and> \<not> digit_val c < 10"
  by (auto simp: suffix_mult_def digit_val_def cclass code_def split: if_splits)

lemma div_less_iff_less_mult_int:
  fixes m k S :: int
  assumes "m > 0"
  shows "S div m < k \<longleftrightarrow> S < k * m"
proof
  assume "S div m < k"
  then have "(S div m + 1) * m \<le> k * m" using assms by simp
  moreover have "S < (S div m + 1) * m"
    unfolding distrib_right using assms pos_mod_bound [of m S] div_mult_mod_eq [of S m] by linarith
  ultimately show "S < k * m" by simp
next
  assume "S < k * m"
  then have "S div m * m < k * m"
    using assms pos_mod_sign [of m S] div_mult_mod_eq [of S m] by linarith
  then show "S div m < k" using assms by simp
qed

lemma wrap64_id: "0 \<le> v \<Longrightarrow> v \<le> SSIZE_MAX \<Longrightarrow> wrap64 v = v"
  by (simp add: wrap64_def SSIZE_MAX_def)

text \<open>
  \<open>getnumber\<close> reads a decimal number below 2 to the 63 as its value, and one with a suffix as the
  product with the unit of the suffix; where the product does not fit \<open>ssize_t\<close> it returns \<open>-EOVERFLOW\<close>,
  never a truncated value, and anything after a suffix is refused.
\<close>

lemma getnumber_dec:
  assumes "k < 2 ^ 63" and "suffix_mult c = Some m"
  shows "getnumber (dec k) = int k
    \<and> getnumber (dec k @ [c]) = (if int k * m \<le> SSIZE_MAX then int k * m else - EOVERFLOW)
    \<and> (rest \<noteq> [] \<longrightarrow> getnumber (dec k @ c # rest) = - EINVAL)"
proof -
  have ne: "dec k \<noteq> []" using dec_hd [of k] by simp
  have m: "m > 0" "\<not> digit_val c < 10" using suffix_not_digit [OF assms(2)] by auto
  have div: "(int k > SSIZE_MAX div m) = (\<not> int k * m \<le> SSIZE_MAX)"
    using m by (simp add: not_le div_less_iff_less_mult_int)
  show ?thesis
    using ne m strtoul10_dec [OF assms(1), of "[]"] strtoul10_dec [OF assms(1), of "c # r" for r] assms(2)
    by (auto simp: getnumber_def div wrap64_id)
qed

section \<open>What is copied\<close>





text \<open>Reads that deliver at least one byte or are interrupted, and how many deliver.\<close>

definition rd_ok :: "(rd \<times> bool) list \<Rightarrow> bool" where
  "rd_ok rs = list_all (\<lambda>(r, sigint). case r of RGot k \<Rightarrow> k \<ge> 1 \<and> \<not> sigint | RErr e \<Rightarrow> e = EINTR) rs"

definition rd_count :: "(rd \<times> bool) list \<Rightarrow> nat" where
  "rd_count rs = length (filter (\<lambda>(r, sigint). case r of RGot k \<Rightarrow> True | RErr e \<Rightarrow> False) rs)"

text \<open>Every read that delivers has a whole block ready.\<close>

definition rd_full :: "nat \<Rightarrow> (rd \<times> bool) list \<Rightarrow> bool" where
  "rd_full bs rs = list_all (\<lambda>(r, sigint). case r of RGot k \<Rightarrow> bs \<le> k | RErr e \<Rightarrow> True) rs"

lemma rd_simps [simp]:
  "rd_ok ((RGot k, sg) # rs) \<longleftrightarrow> k \<ge> 1 \<and> \<not> sg \<and> rd_ok rs" "rd_ok ((RErr e, sg) # rs) \<longleftrightarrow> e = EINTR \<and> rd_ok rs"
  "rd_count ((RGot k, sg) # rs) = Suc (rd_count rs)" "rd_count ((RErr e, sg) # rs) = rd_count rs"
  "rd_full bs ((RGot k, sg) # rs) \<longleftrightarrow> bs \<le> k \<and> rd_full bs rs" "rd_full bs ((RErr e, sg) # rs) \<longleftrightarrow> rd_full bs rs"
  "rd_ok []" "rd_count [] = 0" "rd_full bs []"
  by (simp_all add: rd_ok_def rd_count_def rd_full_def)















text \<open>
  The limit of a positive \<open>count\<close> counts bytes and not reads: with short reads more than \<open>count\<close> blocks are
  copied. With blocks of four bytes and \<open>count=2\<close>, reads of three bytes copy nine.
\<close>

lemma dd_count_overshoots:
  "dd_loop 4 8 (map (\<lambda>r. (r, False)) [RGot 3, RGot 3, RGot 3, RGot 3]) [(3, 0), (3, 0), (3, 0)] ''abcdefghijkl'' 0 []
    = Some \<lparr>dr_in = 9, dr_out = ''abcdefghi'', dr_err = False\<rparr>"
  by (simp add: write_loop.simps Let_def)

end
