(* ===== verification/Textedit.thy ===== *)
theory Textedit
  imports Ptable "HOL-Library.Monad_Syntax"
begin

text \<open>
  The text editor applet, \<open>src/psh/edit/edit.c\<close>: rows of text in growing buffers, the cursor, drawing,
  loading and saving, and the events from the terminal.

  The globals \<open>edit_common\<close> and \<open>term_common\<close> are one record. A row has its allocated buffer and the length in
  use; every access to a buffer or to the array of rows is checked and \<open>None\<close> is an access outside.
  Whether an allocation succeeds, the content of fresh memory, the files and the terminal's input are
  parameters. What is drawn is kept as a list of items: the rows with the text put on them, the status
  line and the final place of the cursor.
\<close>

section \<open>State\<close>

definition EDIT_TAB_STOP :: nat where "EDIT_TAB_STOP = 4"

record row_t =
  r_chars :: string
  r_len :: nat
  r_updated :: bool

datatype event_t = EvNone | EvRedraw | EvQuit | EvFatalError int | EvKey nat | EvKeyDead

record edit =
  x_filename :: "string option"
  x_row :: "row_t list"
  x_rows :: int
  x_cols :: int
  x_hbar :: int
  x_cx :: int
  x_cy :: int
  x_vx :: int
  x_vy :: int
  x_rx :: int
  x_msg :: "string option"
  x_dirty :: bool
  x_replace :: bool
  t_evCnt :: int
  t_cols :: int
  t_rows :: int
  t_ev :: event_t
  x_tick :: nat

text \<open>The allocations are numbered; \<open>xe_alloc\<close> says which succeed, \<open>xe_junk\<close> is what fresh memory holds.\<close>

record xenv =
  xe_alloc :: "nat \<Rightarrow> bool"
  xe_junk :: char
  xe_stat :: "string \<Rightarrow> bool"
  xe_file :: "string \<Rightarrow> string option"
  xe_fopenw :: bool
  xe_print :: "nat \<Rightarrow> bool"
  xe_tcget :: bool
  xe_tcset :: bool

abbreviation nrows :: "edit \<Rightarrow> int" where "nrows s \<equiv> int (length (x_row s))"

definition keyEsc :: nat where "keyEsc = 0x1b"
definition keyEnter :: nat where "keyEnter = 0x0d"
definition keyEdit :: "char \<Rightarrow> nat" where "keyEdit c = 0x100 + code c"
definition keyCtrl :: "char \<Rightarrow> nat" where "keyCtrl c = 0x200 + code c"
definition keyBksp :: nat where "keyBksp = keyEdit (CHR ''%'')"
definition keyTab :: nat where "keyTab = keyEdit (CHR ''-'')"
definition keyShiftTab :: nat where "keyShiftTab = keyEdit (CHR ''='')"
definition keyUp :: nat where "keyUp = keyEdit (CHR ''A'')"
definition keyDown :: nat where "keyDown = keyEdit (CHR ''B'')"
definition keyRight :: nat where "keyRight = keyEdit (CHR ''C'')"
definition keyLeft :: nat where "keyLeft = keyEdit (CHR ''D'')"
definition keyIns :: nat where "keyIns = keyEdit (CHR ''2'')"
definition keyDel :: nat where "keyDel = keyEdit (CHR ''3'')"
definition keyPgup :: nat where "keyPgup = keyEdit (CHR ''5'')"
definition keyPgdn :: nat where "keyPgdn = keyEdit (CHR ''6'')"
definition keyHome :: nat where "keyHome = keyEdit (CHR ''7'')"
definition keyEnd :: nat where "keyEnd = keyEdit (CHR ''8'')"

section \<open>Keys from the terminal\<close>

definition term_handleCtrl :: "char \<Rightarrow> event_t" where
  "term_handleCtrl c =
     (if code c = 0x03 then EvKey (keyCtrl (CHR ''C''))
      else if code c = 0x04 then EvKey (keyCtrl (CHR ''D''))
      else if code c = 0x08 \<or> code c = 0x7f then EvKey keyBksp
      else if code c = 9 then EvKey keyTab
      else if code c = 0x0c then EvKey (keyCtrl (CHR ''L''))
      else if code c = 10 \<or> code c = 13 then EvKey keyEnter
      else if code c = 0x11 then EvKey (keyCtrl (CHR ''Q''))
      else if code c = 0x13 then EvKey (keyCtrl (CHR ''S''))
      else if code c = 0x18 then EvKey (keyCtrl (CHR ''X''))
      else if code c = 0x1b then EvKey keyEsc
      else EvKeyDead)"

text \<open>The result 0 or 1 and the event; \<open>buf\<close> holds the \<open>len\<close> characters read.\<close>

definition term_handleEscape :: "string \<Rightarrow> nat \<times> event_t" where
  "term_handleEscape buf =
     (let len = length buf in
      if len = 4 \<and> last buf = CHR ''~'' then
        (let c = buf ! (len - 2) in
         if c = CHR ''1'' then (0, EvKey keyHome) else if c = CHR ''4'' then (0, EvKey keyEnd)
         else if c \<in> set ''235678'' then (0, EvKey (keyEdit c)) else (1, EvKeyDead))
      else if len = 3 \<and> (buf ! 1 = CHR ''['' \<or> buf ! 1 = CHR ''O'') then
        (let c = buf ! (len - 1) in
         if c \<in> set ''ABCD'' then (0, EvKey (keyEdit c))
         else if c = CHR ''H'' then (0, EvKey keyHome) else if c = CHR ''F'' then (0, EvKey keyEnd)
         else if c = CHR ''Z'' then (0, EvKey keyShiftTab)
         else if c \<in> set ''PQRS'' then (0, EvKeyDead) else (1, EvKeyDead))
      else (1, EvKeyDead))"

text \<open>What a call of \<open>read\<close> for one character gives.\<close>

datatype tin = TIn char | TErr int | TEof

definition iscntrl :: "char \<Rightarrow> bool" where
  [cclass]: "iscntrl c \<longleftrightarrow> code c < 32 \<or> code c = 127"

text \<open>The loop of \<open>term_getEvent\<close>: the result, the event and the input left; \<open>buf\<close> has the characters so far.\<close>

fun getEvent_loop :: "string \<Rightarrow> event_t \<Rightarrow> tin list \<Rightarrow> (int \<times> event_t \<times> tin list) option" where
  "getEvent_loop buf ev inp =
     (if length buf \<ge> 16 then Some (1, ev, inp)
      else (case inp of
          [] \<Rightarrow> None
        | TEof # inp' \<Rightarrow> Some (1, if buf = [CHR 0x1b] then term_handleCtrl NUL else ev, inp')
        | TErr e # inp' \<Rightarrow>
            if buf = [CHR 0x1b] then Some (1, term_handleCtrl NUL, inp')
            else if e \<noteq> EAGAIN then Some (-1, ev, inp') else Some (1, ev, inp')
        | TIn c # inp' \<Rightarrow>
            if iscntrl c then
              (if c \<noteq> CHR 0x1b then Some (1, term_handleCtrl c, inp')
               else if buf \<noteq> [] \<and> last buf = CHR 0x1b then Some (1, term_handleCtrl c, inp')
               else getEvent_loop [CHR 0x1b] ev inp')
            else if buf = [] then Some (1, EvKey (code c), inp')
            else (let buf' = buf @ [c] in
              if length buf' > 2 \<and> (buf' ! 1 = CHR ''['' \<or> buf' ! 1 = CHR ''O'') then
                (case term_handleEscape buf' of (r, ev') \<Rightarrow>
                  if r = 0 then Some (1, ev', inp')
                  else if c = CHR ''~'' then Some (1, EvKeyDead, inp') else getEvent_loop buf' ev' inp')
              else getEvent_loop buf' ev inp')))"

declare getEvent_loop.simps [simp del]

definition term_getEvent :: "edit \<Rightarrow> event_t \<Rightarrow> tin list \<Rightarrow> (int \<times> edit \<times> event_t \<times> tin list) option" where
  "term_getEvent s ev inp =
     (let ev1 = (if t_ev s \<noteq> EvNone then t_ev s else ev); s1 = s\<lparr>t_ev := EvNone\<rparr> in
      case ev1 of
        EvQuit \<Rightarrow> Some (0, s1, ev1, inp)
      | EvFatalError e \<Rightarrow> Some (- e, s1, ev1, inp)
      | _ \<Rightarrow>
          if ev1 \<noteq> EvNone \<and> t_evCnt s1 < 3 then Some (t_evCnt s1 + 1, s1\<lparr>t_evCnt := t_evCnt s1 + 1\<rparr>, ev1, inp)
          else map_option (\<lambda>(r, ev', inp'). (r, s1\<lparr>t_evCnt := 0\<rparr>, ev', inp')) (getEvent_loop [] EvNone inp))"

section \<open>Rows\<close>

definition edit_error :: "int \<Rightarrow> edit \<Rightarrow> int \<times> edit" where
  "edit_error e s = (- e, s\<lparr>t_ev := EvFatalError e\<rparr>)"

text \<open>An allocation: whether it succeeds; and a buffer resized, with fresh memory at its end.\<close>

definition alloc :: "xenv \<Rightarrow> edit \<Rightarrow> bool \<times> edit" where
  "alloc env s = (xe_alloc env (x_tick s), s\<lparr>x_tick := x_tick s + 1\<rparr>)"

definition resized :: "xenv \<Rightarrow> string \<Rightarrow> nat \<Rightarrow> string" where
  "resized env b n = take n b @ replicate (n - length b) (xe_junk env)"

abbreviation touch :: "row_t \<Rightarrow> row_t" where "touch r \<equiv> r\<lparr>r_updated := True\<rparr>"

definition edit_rowInsert :: "xenv \<Rightarrow> int \<Rightarrow> string \<Rightarrow> nat \<Rightarrow> edit \<Rightarrow> (int \<times> edit) option" where
  "edit_rowInsert env pos line len s =
     (if pos < 0 \<or> pos > nrows s then Some (0, s)
      else (case alloc env s of (ok, s1) \<Rightarrow>
        if \<not> ok then Some (edit_error ENOMEM s1)
        else (case alloc env s1 of (ok, s2) \<Rightarrow>
          if \<not> ok then Some (edit_error ENOMEM s2)
          else do {
            buf \<leftarrow> memcpy (replicate (len + 1) (xe_junk env)) 0 line 0 len;
            let r = \<lparr>r_chars = buf, r_len = len, r_updated = True\<rparr>;
            Some (1, s2\<lparr>x_row := take (nat pos) (x_row s2) @ r # map touch (drop (nat pos) (x_row s2)), x_dirty := True\<rparr>) })))"

definition edit_rowDelete :: "int \<Rightarrow> edit \<Rightarrow> edit" where
  "edit_rowDelete cury s =
     (if cury < 0 \<or> cury \<ge> nrows s then s
      else s\<lparr>x_row := take (nat cury) (x_row s) @ map touch (drop (nat cury + 1) (x_row s)), x_dirty := True\<rparr>)"

definition edit_rowAppend :: "xenv \<Rightarrow> int \<Rightarrow> string \<Rightarrow> nat \<Rightarrow> edit \<Rightarrow> (int \<times> edit) option" where
  "edit_rowAppend env cury chars len s = do {
     row \<leftarrow> (if cury < 0 then None else peek (x_row s) (nat cury));
     (case alloc env s of (ok, s1) \<Rightarrow>
       if \<not> ok then Some (edit_error ENOMEM s1)
       else do {
         tmp \<leftarrow> memcpy (resized env (r_chars row) (r_len row + len + 1)) (r_len row) chars 0 len;
         Some (0, s1\<lparr>x_row := (x_row s1)[nat cury := \<lparr>r_chars = tmp, r_len = r_len row + len, r_updated = True\<rparr>], x_dirty := True\<rparr>) }) }"

definition edit_rowInsertChar :: "xenv \<Rightarrow> int \<Rightarrow> int \<Rightarrow> char \<Rightarrow> edit \<Rightarrow> (int \<times> edit) option" where
  "edit_rowInsertChar env curx cury ch s = do {
     row \<leftarrow> (if cury < 0 then None else peek (x_row s) (nat cury));
     let x = (if curx < 0 \<or> curx > int (r_len row) then r_len row else nat curx);
     (if \<not> x_replace s \<or> x = r_len row then
        (case alloc env s of (ok, s1) \<Rightarrow>
          if \<not> ok then Some (edit_error ENOMEM s1)
          else do {
            let b = resized env (r_chars row) (r_len row + 1);
            b \<leftarrow> (if \<not> x_replace s then memmove b (x + 1) x (r_len row - x) else Some b);
            b \<leftarrow> poke b x ch;
            Some (0, s1\<lparr>x_row := (x_row s1)[nat cury := \<lparr>r_chars = b, r_len = r_len row + 1, r_updated = True\<rparr>], x_dirty := True\<rparr>) })
      else do {
        b \<leftarrow> poke (r_chars row) x ch;
        Some (0, s\<lparr>x_row := (x_row s)[nat cury := \<lparr>r_chars = b, r_len = r_len row, r_updated = True\<rparr>], x_dirty := True\<rparr>) }) }"

definition edit_rowDeleteChar :: "int \<Rightarrow> int \<Rightarrow> edit \<Rightarrow> edit option" where
  "edit_rowDeleteChar curx cury s = do {
     row \<leftarrow> (if cury < 0 then None else peek (x_row s) (nat cury));
     (if curx < 0 \<or> curx \<ge> int (r_len row) then Some s
      else do {
        let len = r_len row - 1;
        b \<leftarrow> memmove (r_chars row) (nat curx) (nat curx + 1) (len - nat curx);
        Some (s\<lparr>x_row := (x_row s)[nat cury := \<lparr>r_chars = b, r_len = len, r_updated = True\<rparr>], x_dirty := True\<rparr>) }) }"

section \<open>Editing\<close>

definition edit_insertChar :: "xenv \<Rightarrow> char \<Rightarrow> edit \<Rightarrow> edit option" where
  "edit_insertChar env ch s = do {
     (r, s1) \<leftarrow> (if x_cy s = nrows s then edit_rowInsert env (nrows s) [] 0 s else Some (1, s));
     (if r < 0 then Some s1
      else do {
        (r, s2) \<leftarrow> edit_rowInsertChar env (x_cx s1) (x_cy s1) ch s1;
        Some (if r = 0 then s2\<lparr>x_cx := x_cx s2 + 1\<rparr> else s2) }) }"

definition edit_deleteChar :: "xenv \<Rightarrow> edit \<Rightarrow> edit option" where
  "edit_deleteChar env s =
     (if nrows s = 1 \<and> r_len (x_row s ! 0) = 0 then Some (edit_rowDelete 0 (s\<lparr>x_cx := 0, x_cy := 0\<rparr>))
      else if x_cx s = 0 \<and> x_cy s = 0 then Some s
      else if x_cx s > 0 then do {
        s1 \<leftarrow> edit_rowDeleteChar (x_cx s - 1) (x_cy s) s;
        Some (s1\<lparr>x_cx := x_cx s1 - 1\<rparr>) }
      else do {
        prev \<leftarrow> (if x_cy s - 1 < 0 then None else peek (x_row s) (nat (x_cy s - 1)));
        let s1 = s\<lparr>x_cx := int (r_len prev)\<rparr>;
        (r, s2) \<leftarrow> (if x_cy s1 < nrows s1 then
            (let row = x_row s1 ! nat (x_cy s1) in edit_rowAppend env (x_cy s1 - 1) (r_chars row) (r_len row) s1)
          else Some (0, s1));
        (if r < 0 then Some s2
         else (let s3 = edit_rowDelete (x_cy s2) s2 in Some (s3\<lparr>x_cy := x_cy s3 - 1\<rparr>))) })"

definition edit_insertNewLine :: "xenv \<Rightarrow> edit \<Rightarrow> edit option" where
  "edit_insertNewLine env s =
     (if x_cx s = 0 then do {
        (r, s1) \<leftarrow> edit_rowInsert env (x_cy s) [] 0 s;
        Some (if r < 0 then s1 else s1\<lparr>x_cy := x_cy s1 + 1, x_cx := 0\<rparr>) }
      else do {
        row \<leftarrow> (if x_cy s < 0 then None else peek (x_row s) (nat (x_cy s)));
        line \<leftarrow> (if x_cx s > int (r_len row) then None else cslice (r_chars row) (nat (x_cx s)) (r_len row - nat (x_cx s)));
        (r, s1) \<leftarrow> edit_rowInsert env (x_cy s + 1) line (r_len row - nat (x_cx s)) s;
        (if r < 0 then Some s1
         else do {
           row \<leftarrow> peek (x_row s1) (nat (x_cy s1));
           let s2 = s1\<lparr>x_row := (x_row s1)[nat (x_cy s1) := row\<lparr>r_len := nat (x_cx s1), r_updated := True\<rparr>]\<rparr>;
           Some (s2\<lparr>x_cy := x_cy s2 + 1, x_cx := 0\<rparr>) }) })"

definition move_step :: "nat \<Rightarrow> edit \<Rightarrow> edit option" where
  "move_step key s = do {
     row \<leftarrow> (if x_cy s < nrows s then (if x_cy s < 0 then None else Some (Some (x_row s ! nat (x_cy s)))) else Some None);
     s1 \<leftarrow> (if key = keyUp then Some (if x_cy s > 0 then s\<lparr>x_cy := x_cy s - 1\<rparr> else s)
       else if key = keyDown then Some (if x_cy s < nrows s then s\<lparr>x_cy := x_cy s + 1\<rparr> else s)
       else if key = keyLeft then
         (if x_cx s > 0 then Some (s\<lparr>x_cx := x_cx s - 1\<rparr>)
          else if x_cy s > 0 then do { p \<leftarrow> peek (x_row s) (nat (x_cy s - 1)); Some (s\<lparr>x_cy := x_cy s - 1, x_cx := int (r_len p)\<rparr>) }
          else Some s)
       else if key = keyRight then
         Some (case row of
             None \<Rightarrow> s
           | Some r \<Rightarrow> if x_cx s < int (r_len r) then s\<lparr>x_cx := x_cx s + 1\<rparr>
                else if x_cx s = int (r_len r) then s\<lparr>x_cy := x_cy s + 1, x_cx := 0\<rparr> else s)
       else Some s);
     (if x_cy s1 < nrows s1 then do {
        r \<leftarrow> (if x_cy s1 < 0 then None else peek (x_row s1) (nat (x_cy s1)));
        Some (if x_cx s1 > int (r_len r) then s1\<lparr>x_cx := int (r_len r)\<rparr> else s1) }
      else Some (s1\<lparr>x_cx := 0\<rparr>)) }"

fun edit_cursorMove :: "nat \<Rightarrow> nat \<Rightarrow> edit \<Rightarrow> edit option" where
  "edit_cursorMove key 0 s = Some s"
| "edit_cursorMove key (Suc k) s = Option.bind (move_step key s) (edit_cursorMove key k)"

section \<open>Drawing\<close>

text \<open>The column of the cursor: \<open>k\<close> characters of the row from \<open>i\<close> on.\<close>

fun rx_loop :: "string \<Rightarrow> nat \<Rightarrow> nat \<Rightarrow> nat \<Rightarrow> nat option" where
  "rx_loop chars 0 i rx = Some rx"
| "rx_loop chars (Suc k) i rx = do {
     c \<leftarrow> peek chars i;
     rx_loop chars k (i + 1) ((if c = CHR 0x09 then rx + ((EDIT_TAB_STOP - 1) - rx mod EDIT_TAB_STOP) else rx) + 1) }"

definition edit_updateScroll :: "edit \<Rightarrow> (bool \<times> edit) option" where
  "edit_updateScroll s = do {
     let s1 = s\<lparr>x_rx := 0, x_cols := t_cols s, x_rows := t_rows s - x_hbar s\<rparr>;
     s2 \<leftarrow> (if x_cy s1 < nrows s1 then do {
         row \<leftarrow> (if x_cy s1 < 0 then None else peek (x_row s1) (nat (x_cy s1)));
         rx \<leftarrow> rx_loop (r_chars row) (nat (x_cx s1)) 0 0;
         Some (s1\<lparr>x_rx := int rx\<rparr>) }
       else Some s1);
     let s3 = (if x_cy s2 < x_vy s2 then s2\<lparr>x_vy := x_cy s2\<rparr> else s2);
     let s4 = (if x_cy s3 \<ge> x_vy s3 + x_rows s3 then s3\<lparr>x_vy := x_cy s3 - x_rows s3 + 1\<rparr> else s3);
     let s5 = (if x_rx s4 < x_vx s4 then s4\<lparr>x_vx := x_rx s4\<rparr> else s4);
     let s6 = (if x_rx s5 \<ge> x_vx s5 + x_cols s5 then s5\<lparr>x_vx := x_rx s5 - x_cols s5 + 1\<rparr> else s5);
     Some (x_vx s \<noteq> x_vx s6 \<or> x_vy s \<noteq> x_vy s6, s6) }"

text \<open>The text a row puts on the screen: the columns from \<open>offset\<close> to \<open>end\<close>; \<open>j\<close> counts the columns.\<close>

fun tab_cols :: "nat \<Rightarrow> nat list" where
  "tab_cols j = [j..<j + (EDIT_TAB_STOP - j mod EDIT_TAB_STOP)]"

fun render_loop :: "nat \<Rightarrow> nat \<Rightarrow> nat \<Rightarrow> string \<Rightarrow> string" where
  "render_loop offset end1 j [] = []"
| "render_loop offset end1 j (ch # cs) =
     (if ch = CHR 0x09
      then replicate (length (filter (\<lambda>i. i \<ge> offset \<and> i < end1) (tab_cols j))) (CHR '' '')
           @ render_loop offset end1 (j + (EDIT_TAB_STOP - j mod EDIT_TAB_STOP)) cs
      else (if j \<ge> offset \<and> j < end1 then [if isprint ch then ch else CHR ''?''] else []) @ render_loop offset end1 (j + 1) cs)"

definition edit_rowRender :: "row_t \<Rightarrow> nat \<Rightarrow> int \<Rightarrow> string" where
  "edit_rowRender row offset cols =
     (let line = take (r_len row) (r_chars row);
          j = r_len row + length (filter (\<lambda>c. c = CHR 0x09) line) * (EDIT_TAB_STOP - 1) + 1
      in render_loop (min offset j) (nat ((int offset + cols) mod 2 ^ 32)) 0 line)"

datatype eout = ORow nat string | OTilde nat | OStatus int string string | OKeys int "string list" | OCursor int int | OBell

fun drawRows_loop :: "bool \<Rightarrow> nat list \<Rightarrow> edit \<Rightarrow> edit \<times> eout list" where
  "drawRows_loop force [] s = (s, [])"
| "drawRows_loop force (y # ys) s =
     (let ry = y + nat (x_vy s) in
      if ry < length (x_row s) then
        (if force \<or> r_updated (x_row s ! ry)
         then (case drawRows_loop force ys (s\<lparr>x_row := (x_row s)[ry := (x_row s ! ry)\<lparr>r_updated := False\<rparr>]\<rparr>) of (s', os) \<Rightarrow>
                (s', ORow (y + 1) (edit_rowRender (x_row s ! ry) (nat (x_vx s)) (x_cols s)) # os))
         else drawRows_loop force ys s)
      else if force \<or> ry = length (x_row s) then
        (case drawRows_loop force ys s of (s', os) \<Rightarrow> (s', OTilde (y + 1) # os))
      else drawRows_loop force ys s)"

definition edit_drawRows :: "bool \<Rightarrow> edit \<Rightarrow> edit \<times> eout list" where
  "edit_drawRows force s = drawRows_loop force [0..<nat (x_rows s mod 2 ^ 32)] s"

definition edit_drawStatusBar :: "edit \<Rightarrow> edit \<times> eout list" where
  "edit_drawStatusBar s =
     (let left = (case x_msg s of
            None \<Rightarrow> '' ['' @ (case x_filename s of Some f \<Rightarrow> f | None \<Rightarrow> ''No name'') @ ''] - '' @ dec (length (x_row s)) @ '' lines ''
          | Some m \<Rightarrow> '' '' @ m);
          buf = take 31 (''['' @ dec (nat (x_cy s + 1)) @ '':'' @ dec (nat (x_cx s + 1)) @ ''] ''
            @ (if x_replace s then ''R'' else ''I'') @ (if x_dirty s then ''*'' else '' ''))
      in (s\<lparr>x_msg := None\<rparr>, [OStatus (x_rows s + 1) left buf]))"

definition edit_keys :: "(string \<times> string) list" where
  "edit_keys = [(''^S'', ''Save''), (''^Q'', ''Quit''), (''^D'', ''Delete row''), (''^L'', ''Redraw''), (''Ins'', ''Insert/Replace'')]"

fun drawKeys_loop :: "nat \<Rightarrow> nat \<Rightarrow> (string \<times> string) list \<Rightarrow> string list" where
  "drawKeys_loop cols len [] = []"
| "drawKeys_loop cols len ((k, d) # ks) =
     (let len' = len + length k + length d + 3 in if len' \<ge> cols then [] else (k @ '' '' @ d) # drawKeys_loop cols len' ks)"

definition edit_drawKeys :: "bool \<Rightarrow> edit \<Rightarrow> eout list" where
  "edit_drawKeys force s = (if \<not> force then [] else [OKeys (t_rows s) (drawKeys_loop (nat (x_cols s mod 2 ^ 32)) 0 edit_keys)])"

definition edit_draw :: "bool \<Rightarrow> edit \<Rightarrow> (edit \<times> eout list) option" where
  "edit_draw force s = do {
     (changed, s1) \<leftarrow> edit_updateScroll s;
     let (s2, o1) = edit_drawStatusBar s1;
     let o2 = edit_drawKeys force s2;
     let (s3, o3) = edit_drawRows (force \<or> changed) s2;
     Some (s3, o1 @ o2 @ o3 @ [OCursor (x_cy s3 - x_vy s3 + 1) (x_rx s3 - x_vx s3 + 1)]) }"

section \<open>Files\<close>

text \<open>\<open>getline\<close>: the lines of a file, each with its newline, the last one perhaps without.\<close>

fun getlines :: "string \<Rightarrow> string list" where
  "getlines [] = []"
| "getlines (c # cs) =
     (if c = CHR 0x0a then [c] # getlines cs
      else (case getlines cs of [] \<Rightarrow> [[c]] | l # ls \<Rightarrow> (c # l) # ls))"

definition strip_eol :: "string \<Rightarrow> string" where
  "strip_eol l = rev (dropWhile (\<lambda>c. c = CHR 0x0a \<or> c = CHR 0x0d) (rev l))"

fun open_loop :: "xenv \<Rightarrow> string list \<Rightarrow> edit \<Rightarrow> edit option" where
  "open_loop env [] s = Some s"
| "open_loop env (l # ls) s = do {
     (r, s1) \<leftarrow> edit_rowInsert env (nrows s) l (length (strip_eol l)) s;
     if r < 0 then Some s1 else open_loop env ls s1 }"

definition edit_open :: "xenv \<Rightarrow> string \<Rightarrow> edit \<Rightarrow> (int \<times> edit) option" where
  "edit_open env filename s = (case alloc env s of (ok, s1) \<Rightarrow>
     if \<not> ok then Some (edit_error ENOMEM s1)
     else (let s2 = s1\<lparr>x_filename := Some filename\<rparr> in
       if \<not> xe_stat env filename then Some (0, s2\<lparr>x_msg := Some ''Editing new empty file''\<rparr>)
       else (case xe_file env filename of
           None \<Rightarrow> Some (-1, s2)
         | Some content \<Rightarrow> map_option (\<lambda>s3. (nrows s3, s3\<lparr>x_dirty := False\<rparr>)) (open_loop env (getlines content) s2))))"

text \<open>
  \<open>edit_save\<close>: what is written, and whether every row was. \<open>%.*s\<close> stops at a NUL; a row that is not printed
  whole ends the loop. \<open>xe_print\<close> says which calls of \<open>fprintf\<close> succeed.
\<close>

fun save_loop :: "xenv \<Rightarrow> nat \<Rightarrow> row_t list \<Rightarrow> string \<times> bool" where
  "save_loop env n [] = ([], True)"
| "save_loop env n (r # rs) =
     (let out = cstr (take (r_len r) (r_chars r)) @ [CHR 0x0a] in
      if \<not> xe_print env n then ([], False)
      else if length out \<noteq> r_len r + 1 then (out, False)
      else (case save_loop env (n + 1) rs of (w, ok) \<Rightarrow> (out @ w, ok)))"

definition edit_save :: "xenv \<Rightarrow> edit \<Rightarrow> edit \<times> (string \<times> string) list" where
  "edit_save env s = (case x_filename s of
     None \<Rightarrow> (s, [])
   | Some f \<Rightarrow>
       (case (if xe_fopenw env then (case save_loop env 0 (x_row s) of (w, ok) \<Rightarrow> (ok, [(f, w)])) else (False, [])) of (ok, fs) \<Rightarrow>
         if ok then (s\<lparr>x_dirty := False, x_msg := Some ''File saved.''\<rparr>, fs)
         else (s\<lparr>x_msg := Some ''Unable to write file to disk!''\<rparr>, fs)))"

section \<open>Events\<close>

text \<open>One key: the state, the event behind it (\<open>None\<close> when the screen is drawn next) and the files written.\<close>

definition handle_key :: "xenv \<Rightarrow> nat \<Rightarrow> edit \<Rightarrow> (edit \<times> event_t option \<times> (string \<times> string) list) option" where
  "handle_key env key s =
     (let done = map_option (\<lambda>s'. (s', None, [])) in
      if key = keyCtrl (CHR ''L'') then Some (s, Some EvRedraw, [])
      else if key = keyCtrl (CHR ''X'') then done (Some s)
      else if key = keyCtrl (CHR ''C'') then Some (s, Some EvQuit, [])
      else if key = keyCtrl (CHR ''Q'') then
        (if \<not> x_dirty s then Some (s, Some EvQuit, [])
         else done (Some (s\<lparr>x_msg := Some ''Please save file or use ^C to abandon editing.''\<rparr>)))
      else if key = keyCtrl (CHR ''S'') then (case edit_save env s of (s', fs) \<Rightarrow> Some (s', None, fs))
      else if key = keyEnter then done (edit_insertNewLine env s)
      else if key = keyCtrl (CHR ''D'') then
        (let s1 = (if nrows s > 0 \<and> x_cy s = nrows s then s\<lparr>x_cy := x_cy s - 1\<rparr> else s)
         in done (Some ((edit_rowDelete (x_cy s1) s1)\<lparr>x_cx := 0\<rparr>)))
      else if key = keyDel then done (Option.bind (edit_cursorMove keyRight 1 s) (edit_deleteChar env))
      else if key = keyBksp then done (edit_deleteChar env s)
      else if key = keyIns then done (Some (s\<lparr>x_replace := \<not> x_replace s\<rparr>))
      else if key = keyHome then done (Some (s\<lparr>x_cx := 0\<rparr>))
      else if key = keyEnd then
        done (if x_cy s < nrows s then map_option (\<lambda>r. s\<lparr>x_cx := int (r_len r)\<rparr>) (if x_cy s < 0 then None else peek (x_row s) (nat (x_cy s))) else Some s)
      else if key = keyPgup then done (edit_cursorMove keyUp (nat (x_rows s)) (s\<lparr>x_cy := x_vy s\<rparr>))
      else if key = keyPgdn then
        done (edit_cursorMove keyDown (nat (x_rows s)) (s\<lparr>x_cy := min (x_vy s + x_rows s - 1) (nrows s)\<rparr>))
      else if key \<in> {keyUp, keyDown, keyLeft, keyRight} then done (edit_cursorMove key 1 s)
      else if key = keyTab then done (edit_insertChar env (CHR 0x09) s)
      else done (edit_insertChar env (char_of (key mod 256)) s))"

section \<open>The size of the terminal\<close>

text \<open>The answer to the query of the cursor: the characters read, where its escape begins, and whether it is complete.\<close>

fun getCursor_loop :: "string \<Rightarrow> nat \<Rightarrow> tin list \<Rightarrow> ((string \<times> nat \<times> bool) \<times> tin list) option" where
  "getCursor_loop buf e inp =
     (if length buf \<ge> 15 then Some ((buf, e, False), inp)
      else (case inp of
          [] \<Rightarrow> None
        | TIn c # inp' \<Rightarrow>
            (let i = length buf; b = buf @ [c]; e' = (if c = CHR 0x1b then i else e) in
             if i - e' \<ge> 5 \<and> b ! e' = CHR 0x1b \<and> b ! (e' + 1) = CHR ''['' \<and> c = CHR ''R'' then Some ((buf, e', True), inp')
             else getCursor_loop b e' inp')
        | _ # inp' \<Rightarrow> Some ((buf, e, False), inp')))"

declare getCursor_loop.simps [simp del]

text \<open>\<open>%d\<close> of \<open>sscanf\<close>, and the whole format \<open>ESC [ %d ; %d\<close>: the row and the column.\<close>

definition scan_int :: "string \<Rightarrow> (int \<times> string) option" where
  "scan_int s =
     (let s1 = dropWhile isspace s; neg = (s1 \<noteq> [] \<and> hd s1 = CHR ''-'');
          s2 = (if s1 \<noteq> [] \<and> (hd s1 = CHR ''-'' \<or> hd s1 = CHR ''+'') then tl s1 else s1)
      in if s2 = [] \<or> \<not> isdigit (hd s2) then None
         else (case digits 10 0 s2 of (v, rest) \<Rightarrow> Some (if neg then - int v else int v, rest)))"

definition scan_cursor :: "string \<Rightarrow> (int \<times> int) option" where
  "scan_cursor s = (case s of
     a # b # s1 \<Rightarrow>
       if a = CHR 0x1b \<and> b = CHR ''['' then
         do { (lrow, s2) \<leftarrow> scan_int s1;
           (if s2 \<noteq> [] \<and> hd s2 = CHR '';'' then do { (lcol, s3) \<leftarrow> scan_int (tl s2); Some (lcol, lrow) } else None) }
       else None
   | _ \<Rightarrow> None)"

definition term_getCursor :: "xenv \<Rightarrow> int \<times> int \<Rightarrow> tin list \<Rightarrow> (int \<times> (int \<times> int) \<times> tin list) option" where
  "term_getCursor env old inp =
     (if \<not> xe_tcget env \<or> \<not> xe_tcset env then Some (-1, old, inp)
      else do { ((buf, e, complete), inp') \<leftarrow> getCursor_loop [] 0 inp;
        let new = (if complete then (case scan_cursor (drop e buf) of Some cr \<Rightarrow> cr | None \<Rightarrow> old) else old);
        Some (0, new, inp') })"

text \<open>The result and, when it is 0, the columns and rows.\<close>

definition term_getSize :: "xenv \<Rightarrow> tin list \<Rightarrow> ((int \<times> int) option \<times> tin list) option" where
  "term_getSize env inp = do {
     (r, (lcol, lrow), inp1) \<leftarrow> term_getCursor env (-1, -1) inp;
     (if r < 0 \<or> lcol < 0 \<or> lrow < 0 then Some (None, inp1)
      else do { (r, cr, inp2) \<leftarrow> term_getCursor env (lcol, lrow) inp1;
        Some (if r < 0 then None else Some cr, inp2) }) }"

text \<open>\<open>term_setup(-1, -1)\<close>: the columns are stored as the rows and the rows as the columns.\<close>

definition term_setup :: "xenv \<Rightarrow> edit \<Rightarrow> tin list \<Rightarrow> (int \<times> edit \<times> tin list) option" where
  "term_setup env s inp = do {
     (sz, inp1) \<leftarrow> term_getSize env inp;
     let (cols, rows) = (case sz of None \<Rightarrow> (80, 25) | Some cr \<Rightarrow> cr);
     let s1 = (if cols \<noteq> 0 then s\<lparr>t_rows := cols\<rparr> else s);
     let s2 = (if rows \<noteq> 0 then s1\<lparr>t_cols := rows\<rparr> else s1);
     Some (if xe_tcget env \<and> xe_tcset env then 0 else -1, s2, inp1) }"

section \<open>The editor\<close>

record xres =
  xr_state :: edit
  xr_ev :: event_t
  xr_inp :: "tin list"
  xr_out :: "eout list"
  xr_files :: "(string \<times> string) list"

definition edit_handleEvent :: "xenv \<Rightarrow> event_t \<Rightarrow> edit \<Rightarrow> tin list \<Rightarrow> xres option" where
  "edit_handleEvent env ev s inp = (case ev of
     EvKey key \<Rightarrow> do {
       (s1, next, fs) \<leftarrow> handle_key env key s;
       (case next of
          Some ev' \<Rightarrow> Some \<lparr>xr_state = s1, xr_ev = ev', xr_inp = inp, xr_out = [], xr_files = fs\<rparr>
        | None \<Rightarrow> do { (s2, os) \<leftarrow> edit_draw False s1; Some \<lparr>xr_state = s2, xr_ev = EvNone, xr_inp = inp, xr_out = os, xr_files = fs\<rparr> }) }
   | EvRedraw \<Rightarrow> do {
       (sz, inp1) \<leftarrow> term_getSize env inp;
       let s1 = (case sz of None \<Rightarrow> s | Some (cols, rows) \<Rightarrow> s\<lparr>t_cols := cols, t_rows := rows\<rparr>);
       (s2, os) \<leftarrow> edit_draw True s1;
       Some \<lparr>xr_state = s2, xr_ev = EvNone, xr_inp = inp1, xr_out = os, xr_files = []\<rparr> }
   | _ \<Rightarrow> Some \<lparr>xr_state = s, xr_ev = ev, xr_inp = inp, xr_out = [], xr_files = []\<rparr>)"

text \<open>The main loop: its result, the last state, what was drawn and the files written.\<close>

partial_function (option) edit_loop ::
  "xenv \<Rightarrow> event_t \<Rightarrow> edit \<Rightarrow> tin list \<Rightarrow> (int \<times> edit \<times> eout list \<times> (string \<times> string) list) option" where
  [code]: "edit_loop env ev s inp = (case term_getEvent s ev inp of
     None \<Rightarrow> None
   | Some (ret, s1, ev1, inp1) \<Rightarrow>
       if ret > 0 then
         (let bell = ret > 1; ev2 = (if bell then EvNone else ev1) in
          (case edit_handleEvent env ev2 s1 inp1 of
             None \<Rightarrow> None
           | Some x \<Rightarrow> Option.bind (edit_loop env (xr_ev x) (xr_state x) (xr_inp x))
               (\<lambda>(r, s', os, fs). Some (r, s', (if bell then [OBell] else []) @ xr_out x @ os, xr_files x @ fs))))
       else Some (ret, s1, [], []))"

text \<open>\<open>memset\<close> clears \<open>edit_common\<close> and leaves \<open>term_common\<close>.\<close>

definition edit_clear :: "edit \<Rightarrow> edit" where
  "edit_clear s = s\<lparr>x_filename := None, x_row := [], x_rows := 0, x_cols := 0, x_hbar := 0, x_cx := 0, x_cy := 0, x_vx := 0, x_vy := 0,
     x_rx := 0, x_msg := None, x_dirty := False, x_replace := False\<rparr>"

definition edit_init :: "xenv \<Rightarrow> string list \<Rightarrow> edit \<Rightarrow> (int \<times> edit) option" where
  "edit_init env argv s =
     (if length argv \<noteq> 2 then Some (- EINVAL, edit_clear s)
      else map_option (\<lambda>(r, s'). (r, s'\<lparr>x_hbar := 2\<rparr>)) (edit_open env (argv ! 1) (edit_clear s)))"

text \<open>All rows are freed; what is left in \<open>edit_common\<close> is cleared by the next start.\<close>

definition edit_free :: "edit \<Rightarrow> edit" where
  "edit_free s = s\<lparr>x_row := [], x_filename := None\<rparr>"

definition edit_main :: "xenv \<Rightarrow> string list \<Rightarrow> edit \<Rightarrow> tin list \<Rightarrow> (int \<times> edit \<times> eout list \<times> (string \<times> string) list) option" where
  "edit_main env argv s inp = do {
     (ret, s1) \<leftarrow> edit_init env argv s;
     (if ret < 0 then Some (ret, edit_free s1, [], [])
      else do {
        (r2, s2, inp1) \<leftarrow> term_setup env s1 inp;
        (if r2 < 0 then Some (ret, edit_free s2, [], [])
         else map_option (\<lambda>(r, s3, os, fs). (r, edit_free s3, os, fs)) (edit_loop env EvRedraw s2 inp1)) }) }"

end
