(* ===== verification/Texteditproofs.thy ===== *)
theory Texteditproofs
  imports Textedit
begin

text \<open>
  What the editor of \<open>edit.c\<close> does with its text: the invariant \<open>text_ok\<close> of rows and cursor, and that every
  operation and every key refines an operation on a document, a list of lines with a cursor (\<open>d_key\<close>).
\<close>

section \<open>Text and invariant\<close>

definition line_of :: "row_t \<Rightarrow> string" where
  "line_of r = take (r_len r) (r_chars r)"

definition row_ok :: "row_t \<Rightarrow> bool" where
  "row_ok r \<longleftrightarrow> r_len r \<le> length (r_chars r)"

definition text_of :: "edit \<Rightarrow> string list" where
  "text_of s = map line_of (x_row s)"

lemma length_line_of [simp]: "row_ok r \<Longrightarrow> length (line_of r) = r_len r"
  by (simp add: line_of_def row_ok_def)

lemma line_of_touch [simp]: "line_of (touch r) = line_of r" "row_ok (touch r) = row_ok r" "line_of (r\<lparr>r_updated := b\<rparr>) = line_of r"
  "row_ok (r\<lparr>r_updated := b\<rparr>) = row_ok r"
  by (simp_all add: line_of_def row_ok_def)

lemma text_length [simp]: "length (text_of s) = length (x_row s)"
  by (simp add: text_of_def)

lemma text_of_update [simp]: "text_of (s\<lparr>x_cx := i\<rparr>) = text_of s" "text_of (s\<lparr>x_cy := i\<rparr>) = text_of s" "text_of (s\<lparr>x_msg := m\<rparr>) = text_of s"
  "text_of (s\<lparr>x_replace := b\<rparr>) = text_of s" "text_of (s\<lparr>x_dirty := b\<rparr>) = text_of s"
  by (simp_all add: text_of_def)

text \<open>The document: its lines and the place of the cursor.\<close>

type_synonym doc = "string list \<times> nat \<times> nat"

definition doc_of :: "edit \<Rightarrow> doc" where
  "doc_of s = (text_of s, nat (x_cx s), nat (x_cy s))"

definition d_insert :: "bool \<Rightarrow> char \<Rightarrow> doc \<Rightarrow> doc" where
  "d_insert rep ch d = (case d of (ls, x, y) \<Rightarrow>
     let ls1 = (if y = length ls then ls @ [[]] else ls); l = ls1 ! y
     in (ls1[y := if rep \<and> x < length l then l[x := ch] else take x l @ ch # drop x l], x + 1, y))"

definition d_newline :: "doc \<Rightarrow> doc" where
  "d_newline d = (case d of (ls, x, y) \<Rightarrow>
     (if x = 0 then take y ls @ [] # drop y ls else take y ls @ take x (ls ! y) # drop x (ls ! y) # drop (y + 1) ls, 0, y + 1))"

definition d_backspace :: "doc \<Rightarrow> doc" where
  "d_backspace d = (case d of (ls, x, y) \<Rightarrow>
     if ls = [[]] then ([], 0, 0)
     else if x = 0 \<and> y = 0 then d
     else if x > 0 then (ls[y := take (x - 1) (ls ! y) @ drop x (ls ! y)], x - 1, y)
     else (if y = length ls then ls else take (y - 1) ls @ (ls ! (y - 1) @ ls ! y) # drop (y + 1) ls, length (ls ! (y - 1)), y - 1))"

definition d_delrow :: "doc \<Rightarrow> doc" where
  "d_delrow d = (case d of (ls, x, y) \<Rightarrow>
     let y' = (if ls \<noteq> [] \<and> y = length ls then y - 1 else y) in (take y' ls @ drop (y' + 1) ls, 0, y'))"

definition d_right :: "doc \<Rightarrow> doc" where
  "d_right d = (case d of (ls, x, y) \<Rightarrow> if y < length ls then (if x < length (ls ! y) then (ls, x + 1, y) else (ls, 0, y + 1)) else d)"

definition d_left :: "doc \<Rightarrow> doc" where
  "d_left d = (case d of (ls, x, y) \<Rightarrow> if x > 0 then (ls, x - 1, y) else if y > 0 then (ls, length (ls ! (y - 1)), y - 1) else d)"

definition d_goto :: "nat \<Rightarrow> doc \<Rightarrow> doc" where
  "d_goto y' d = (case d of (ls, x, y) \<Rightarrow> (ls, if y' < length ls then min x (length (ls ! y')) else 0, y'))"

text \<open>The cursor is in the text or on the line behind it; the invariant of the state, and with the view of the screen.\<close>

definition doc_ok :: "doc \<Rightarrow> bool" where
  "doc_ok d = (case d of (ls, x, y) \<Rightarrow> y \<le> length ls \<and> x \<le> (if y < length ls then length (ls ! y) else 0))"

definition text_ok :: "edit \<Rightarrow> bool" where
  "text_ok s \<longleftrightarrow> (\<forall>r \<in> set (x_row s). row_ok r) \<and> 0 \<le> x_cy s \<and> 0 \<le> x_cx s \<and> doc_ok (doc_of s)"

definition edit_ok :: "edit \<Rightarrow> bool" where
  "edit_ok s \<longleftrightarrow> text_ok s \<and> 0 \<le> x_vy s \<and> x_vy s \<le> nrows s \<and> 0 \<le> x_vx s"

lemma doc_of_parts [simp]: "fst (doc_of s) = text_of s" "fst (snd (doc_of s)) = nat (x_cx s)" "snd (snd (doc_of s)) = nat (x_cy s)"
  by (simp_all add: doc_of_def)

text \<open>A row of the array and its line.\<close>

lemma row_at:
  assumes "text_ok s" "x_cy s < nrows s"
  shows "nat (x_cy s) < length (x_row s)" "row_ok (x_row s ! nat (x_cy s))" "text_of s ! nat (x_cy s) = line_of (x_row s ! nat (x_cy s))"
    "x_cx s \<le> int (r_len (x_row s ! nat (x_cy s)))"
proof -
  show y: "nat (x_cy s) < length (x_row s)" using assms by (simp add: text_ok_def nat_less_iff)
  then show r: "row_ok (x_row s ! nat (x_cy s))" using assms(1) by (simp add: text_ok_def)
  show t: "text_of s ! nat (x_cy s) = line_of (x_row s ! nat (x_cy s))" using y by (simp add: text_of_def)
  show "x_cx s \<le> int (r_len (x_row s ! nat (x_cy s)))"
    using assms r t y by (simp add: text_ok_def doc_ok_def doc_of_def nat_le_iff)
qed

lemma row_end:
  assumes "text_ok s" "\<not> x_cy s < nrows s"
  shows "x_cy s = nrows s" "x_cx s = 0"
  using assms by (auto simp: text_ok_def doc_ok_def doc_of_def nat_le_iff split: if_splits)

section \<open>Operations on rows\<close>

definition plenty :: "xenv \<Rightarrow> bool" where
  "plenty env \<longleftrightarrow> (\<forall>n. xe_alloc env n)"

lemma plentyD [simp]: "plenty env \<Longrightarrow> xe_alloc env n"
  by (simp add: plenty_def)

definition new_row :: "xenv \<Rightarrow> string \<Rightarrow> row_t" where
  "new_row env l = \<lparr>r_chars = l @ [xe_junk env], r_len = length l, r_updated = True\<rparr>"

lemma new_row_simps [simp]: "line_of (new_row env l) = l" "row_ok (new_row env l)" "r_updated (new_row env l)" "r_len (new_row env l) = length l"
  by (simp_all add: new_row_def line_of_def row_ok_def)

lemma rowInsert_ok:
  assumes "plenty env" "0 \<le> pos" "pos \<le> nrows s" "len \<le> length line"
  shows "edit_rowInsert env pos line len s = Some (1, s\<lparr>x_tick := x_tick s + 2,
    x_row := take (nat pos) (x_row s) @ new_row env (take len line) # map touch (drop (nat pos) (x_row s)), x_dirty := True\<rparr>)"
proof -
  have "drop len (replicate (len + 1) (xe_junk env)) = [xe_junk env]" by (subst drop_replicate) simp
  then show ?thesis
    using assms by (simp add: edit_rowInsert_def alloc_def memcpy_Some new_row_def min_absorb2 del: replicate_Suc drop_replicate)
qed

lemma memmove_up:
  assumes "x \<le> n" "n < length b"
  shows "memmove b (x + 1) x (n - x) = Some (take (x + 1) b @ take (n - x) (drop x b) @ drop (n + 1) b)"
  using assms by (simp add: memcpy_def)

lemma resized_length [simp]: "length (resized env b n) = n"
  by (simp add: resized_def)

lemma resized_take: "n \<le> length b \<Longrightarrow> n \<le> m \<Longrightarrow> take n (resized env b m) = take n b"
  by (simp add: resized_def min_def take_append)

lemma upd_last: "length xs = Suc n \<Longrightarrow> xs[n := c] = take n xs @ [c]"
  by (simp add: upd_conv_take_nth_drop)

lemma rowInsertChar_ok:
  assumes "plenty env" "0 \<le> cy" "cy < nrows s" "row_ok (x_row s ! nat cy)" "0 \<le> cx" "cx \<le> int (r_len (x_row s ! nat cy))"
  shows "\<exists>r t. edit_rowInsertChar env cx cy ch s = Some (0, s\<lparr>x_tick := t, x_row := (x_row s)[nat cy := r], x_dirty := True\<rparr>)
    \<and> row_ok r \<and> r_updated r
    \<and> line_of r = (let l = line_of (x_row s ! nat cy); x = nat cx in if x_replace s \<and> x < length l then l[x := ch] else take x l @ ch # drop x l)"
proof -
  define row where "row = x_row s ! nat cy"
  define x where "x = nat cx"
  have peek: "peek (x_row s) (nat cy) = Some row" using assms(2,3) by (simp add: peek_def row_def nat_less_iff)
  have ok: "r_len row \<le> length (r_chars row)" "x \<le> r_len row" using assms(4-6) by (simp_all add: row_def row_ok_def x_def nat_le_iff)
  have cx: "\<not> (cx < 0 \<or> cx > int (r_len row))" "\<not> cx < 0" "\<not> int (r_len row) < cx" "\<not> cy < 0" using assms(2,5,6) by (simp_all add: row_def)
  let ?b = "resized env (r_chars row) (r_len row + 1)"
  consider "\<not> x_replace s" | "x_replace s" "x = r_len row" | "x_replace s" "x < r_len row" using ok by fastforce
  then show ?thesis
  proof cases
    case 1
    define b where "b = (take (x + 1) ?b @ take (r_len row - x) (drop x ?b))[x := ch]"
    have m: "memmove ?b (x + 1) x (r_len row - x) = Some (take (x + 1) ?b @ take (r_len row - x) (drop x ?b))"
      using memmove_up [of x "r_len row" ?b] ok by simp
    have "take (r_len row + 1) b = take x (line_of row) @ ch # drop x (line_of row)"
    proof -
      have "take (x + 1) ?b = take x ?b @ [?b ! x]" using ok by (simp add: take_Suc_conv_app_nth)
      moreover have "take x ?b = take x (line_of row)" using ok resized_take [of x "r_chars row"] by (simp add: line_of_def min_def)
      moreover have "take (r_len row - x) (drop x ?b) = drop x (line_of row)"
        using resized_take [of "r_len row" "r_chars row" "r_len row + 1" env] ok by (simp add: line_of_def take_drop flip: drop_take)
      moreover have "length (take x (line_of row)) = x" "length (drop x (line_of row)) = r_len row - x" using ok by (simp_all add: line_of_def)
      ultimately show ?thesis using ok by (simp add: b_def list_update_append min_def)
    qed
    moreover have "length b = r_len row + 1" using ok by (simp add: b_def)
    moreover have "poke (take (x + 1) ?b @ take (r_len row - x) (drop x ?b)) x ch = Some b" using ok by (simp add: poke_def b_def)
    ultimately show ?thesis
      using assms(1) 1 peek cx m unfolding edit_rowInsertChar_def row_def [symmetric]
      by (auto simp: alloc_def Let_def x_def [symmetric] row_ok_def line_of_def
          intro!: exI [of _ "\<lparr>r_chars = b, r_len = r_len row + 1, r_updated = True\<rparr>"] exI [of _ "x_tick s + 1"])
  next
    case 2
    define b where "b = ?b[x := ch]"
    have "take (r_len row + 1) b = line_of row @ [ch]"
      using 2 ok resized_take [of "r_len row" "r_chars row" "r_len row + 1" env] by (simp add: b_def line_of_def upd_last)
    moreover have "poke ?b x ch = Some b" "length b = r_len row + 1" using 2 by (simp_all add: poke_def b_def)
    ultimately show ?thesis
      using assms(1) 2 peek cx ok unfolding edit_rowInsertChar_def row_def [symmetric]
      by (auto simp: alloc_def Let_def x_def [symmetric] row_ok_def line_of_def
          intro!: exI [of _ "\<lparr>r_chars = b, r_len = r_len row + 1, r_updated = True\<rparr>"] exI [of _ "x_tick s + 1"])
  next
    case 3
    then show ?thesis
      using peek cx ok unfolding edit_rowInsertChar_def row_def [symmetric]
      by (auto simp: Let_def x_def [symmetric] poke_def row_ok_def line_of_def take_update_swap
          intro!: exI [of _ "\<lparr>r_chars = (r_chars row)[x := ch], r_len = r_len row, r_updated = True\<rparr>"] exI [of _ "x_tick s"])
  qed
qed

section \<open>Editing operations\<close>

text \<open>A row whose line has changed or that has moved is marked for drawing, and at most one row is lost.\<close>

definition redraws :: "edit \<Rightarrow> edit \<Rightarrow> bool" where
  "redraws s s' \<longleftrightarrow> length (x_row s) \<le> length (x_row s') + 1
     \<and> (\<forall>i < length (x_row s'). r_updated (x_row s' ! i) \<or> i < length (x_row s) \<and> line_of (x_row s' ! i) = line_of (x_row s ! i))"

definition same_view :: "edit \<Rightarrow> edit \<Rightarrow> bool" where
  "same_view s s' \<longleftrightarrow> x_rows s' = x_rows s \<and> x_cols s' = x_cols s \<and> x_hbar s' = x_hbar s \<and> x_vx s' = x_vx s \<and> x_vy s' = x_vy s
     \<and> x_filename s' = x_filename s \<and> t_rows s' = t_rows s \<and> t_cols s' = t_cols s \<and> t_ev s' = t_ev s \<and> t_evCnt s' = t_evCnt s"

definition edit_step :: "edit \<Rightarrow> edit \<Rightarrow> doc \<Rightarrow> bool" where
  "edit_step s s' d \<longleftrightarrow> (\<forall>r \<in> set (x_row s'). row_ok r) \<and> 0 \<le> x_cx s' \<and> 0 \<le> x_cy s' \<and> doc_of s' = d \<and> redraws s s' \<and> same_view s s'
     \<and> x_replace s' = x_replace s"

lemma row_ok_update: "\<forall>r \<in> set rs. row_ok r \<Longrightarrow> row_ok r' \<Longrightarrow> \<forall>r \<in> set (rs[i := r']). row_ok r"
  by (auto dest: set_update_subset_insert [THEN subsetD])

lemma insertChar_ok:
  assumes "plenty env" "text_ok s"
  shows "\<exists>s'. edit_insertChar env ch s = Some s' \<and> edit_step s s' (d_insert (x_replace s) ch (doc_of s))"
proof -
  define s1 where "s1 = (if x_cy s = nrows s then s\<lparr>x_tick := x_tick s + 2, x_row := x_row s @ [new_row env []], x_dirty := True\<rparr> else s)"
  define y where "y = nat (x_cy s)"
  have y: "x_cy s = int y" "y \<le> length (x_row s)" using assms(2) by (auto simp: y_def text_ok_def doc_ok_def doc_of_def)
  have rows: "\<forall>r \<in> set (x_row s). row_ok r" "0 \<le> x_cx s" using assms(2) by (simp_all add: text_ok_def)
  have t1: "text_of s1 = (if y = length (x_row s) then text_of s @ [[]] else text_of s)" using y by (simp add: s1_def text_of_def)
  have r1: "\<forall>r \<in> set (x_row s1). row_ok r" "y < length (x_row s1)" using rows y by (auto simp: s1_def)
  have cx: "x_cx s \<le> int (r_len (x_row s1 ! y))" using row_at [OF assms(2)] row_end [OF assms(2)] y by (auto simp: s1_def)
  have eq: "x_cx s1 = x_cx s" "x_cy s1 = x_cy s" "x_replace s1 = x_replace s" by (simp_all add: s1_def)
  have first: "(if x_cy s = nrows s then edit_rowInsert env (nrows s) [] 0 s else Some (1, s)) = Some (1, s1)"
    using rowInsert_ok [OF assms(1), of "nrows s" s 0 "[]"] by (simp add: s1_def)
  obtain r t where ins: "edit_rowInsertChar env (x_cx s1) (x_cy s1) ch s1 = Some (0, s1\<lparr>x_tick := t, x_row := (x_row s1)[y := r], x_dirty := True\<rparr>)"
    and r: "row_ok r" "r_updated r" "line_of r = (let l = line_of (x_row s1 ! y); x = nat (x_cx s) in if x_replace s \<and> x < length l then l[x := ch] else take x l @ ch # drop x l)"
    using rowInsertChar_ok [OF assms(1), of "x_cy s1" s1 "x_cx s1" ch] y r1 rows(2) cx by (auto simp: eq)
  define s' where "s' = s1\<lparr>x_tick := t, x_row := (x_row s1)[y := r], x_dirty := True, x_cx := x_cx s + 1\<rparr>"
  have "edit_insertChar env ch s = Some s'" using first ins by (simp add: edit_insertChar_def s'_def eq)
  moreover have "doc_of s' = d_insert (x_replace s) ch (doc_of s)"
  proof -
    have "line_of (x_row s1 ! y) = text_of s1 ! y" using r1(2) by (simp add: text_of_def)
    moreover have "doc_of s' = ((text_of s1)[y := line_of r], nat (x_cx s) + 1, y)"
      using rows(2) y(1) by (simp add: doc_of_def s'_def text_of_def map_update eq nat_add_distrib)
    ultimately show ?thesis using r(3) y(1) t1 by (simp add: d_insert_def doc_of_def Let_def)
  qed
  moreover have "redraws s s'" using r y by (auto simp: redraws_def s'_def s1_def nth_list_update nth_append)
  moreover have "\<forall>r \<in> set (x_row s'). row_ok r" using row_ok_update [OF r1(1) r(1)] by (simp add: s'_def)
  ultimately show ?thesis using rows y by (simp add: edit_step_def same_view_def s'_def s1_def)
qed

lemma redraws_split:
  assumes "x_row s' = take k (x_row s) @ ts" "k \<le> length (x_row s)" "\<forall>r \<in> set ts. r_updated r" "length (x_row s) \<le> k + length ts + 1"
  shows "redraws s s'"
  using assms by (auto simp: redraws_def nth_append min_def)

lemma row_ok_parts: "\<forall>r \<in> set rs. row_ok r \<Longrightarrow> \<forall>r \<in> set (take k rs). row_ok r" "\<forall>r \<in> set rs. row_ok r \<Longrightarrow> \<forall>r \<in> set (map touch (drop k rs)). row_ok r"
  by (auto dest: in_set_takeD in_set_dropD)

lemma take_update_Cons: "y < length rs \<Longrightarrow> (take (y + 1) rs @ zs)[y := r] = take y rs @ r # zs"
  by (simp add: take_Suc_conv_app_nth list_update_append)

lemma map_line_touch [simp]: "map (line_of \<circ> touch) rs = map line_of rs"
  by (simp add: o_def)

lemma insertNewLine_ok:
  assumes "plenty env" "text_ok s"
  shows "\<exists>s'. edit_insertNewLine env s = Some s' \<and> edit_step s s' (d_newline (doc_of s))"
proof -
  define y where "y = nat (x_cy s)"
  define x where "x = nat (x_cx s)"
  have y: "x_cy s = int y" "x_cx s = int x" "y \<le> length (x_row s)" using assms(2) by (auto simp: x_def y_def text_ok_def doc_ok_def doc_of_def)
  have rows: "\<forall>r \<in> set (x_row s). row_ok r" using assms(2) by (simp add: text_ok_def)
  show ?thesis
  proof (cases "x = 0")
    case True
    define s' where "s' = s\<lparr>x_tick := x_tick s + 2, x_row := take y (x_row s) @ new_row env [] # map touch (drop y (x_row s)), x_dirty := True,
      x_cy := int y + 1, x_cx := 0\<rparr>"
    have "edit_insertNewLine env s = Some s'"
      using True y rowInsert_ok [OF assms(1), of "int y" s 0 "[]"] by (simp add: edit_insertNewLine_def s'_def)
    moreover have "doc_of s' = d_newline (doc_of s)"
      using True y by (simp add: doc_of_def d_newline_def s'_def text_of_def take_map drop_map nat_add_distrib)
    moreover have "redraws s s'" using y by (intro redraws_split [of _ y]) (auto simp: s'_def)
    moreover have "\<forall>r \<in> set (x_row s'). row_ok r" using row_ok_parts [OF rows] by (auto simp: s'_def)
    ultimately show ?thesis by (auto simp: edit_step_def same_view_def s'_def)
  next
    case False
    define row where "row = x_row s ! y"
    have lt: "x_cy s < nrows s" using row_end [OF assms(2)] y False by fastforce
    have row: "y < length (x_row s)" "r_len row \<le> length (r_chars row)" "x \<le> r_len row"
      using row_at [OF assms(2) lt] y by (simp_all add: row_def row_ok_def)
    define l where "l = drop x (line_of row)"
    have sl: "cslice (r_chars row) x (r_len row - x) = Some l" "length l = r_len row - x"
      using row by (simp_all add: cslice_def l_def line_of_def drop_take)
    define row' where "row' = row\<lparr>r_len := x, r_updated := True\<rparr>"
    have row': "line_of row' = take x (line_of row)" "row_ok row'" "r_updated row'"
      using row by (simp_all add: row'_def line_of_def row_ok_def min_def)
    define s' where "s' = s\<lparr>x_tick := x_tick s + 2, x_row := take y (x_row s) @ row' # new_row env l # map touch (drop (y + 1) (x_row s)), x_dirty := True,
      x_cy := int y + 1, x_cx := 0\<rparr>"
    have peek: "peek (x_row s) y = Some row" "peek (take (y + 1) (x_row s) @ new_row env l # map touch (drop (y + 1) (x_row s))) y = Some row"
      using row by (simp_all add: peek_def row_def nth_append)
    have "edit_insertNewLine env s = Some s'"
      using False y row sl peek rowInsert_ok [OF assms(1), of "int y + 1" s "length l" l]
      by (simp add: edit_insertNewLine_def s'_def nat_add_distrib take_update_Cons [simplified] row'_def)
    moreover have "doc_of s' = d_newline (doc_of s)"
      using False y row by (simp add: doc_of_def d_newline_def s'_def text_of_def take_map drop_map nat_add_distrib row' l_def row_def)
    moreover have "redraws s s'" using y row' row by (intro redraws_split [of _ y]) (auto simp: s'_def)
    moreover have "\<forall>r \<in> set (x_row s'). row_ok r" using row_ok_parts [OF rows] row' by (auto simp: s'_def)
    ultimately show ?thesis by (auto simp: edit_step_def same_view_def s'_def)
  qed
qed

lemma rowDeleteChar_ok:
  assumes "y < length (x_row s)" "row_ok (x_row s ! y)" "x < r_len (x_row s ! y)"
  shows "\<exists>r. edit_rowDeleteChar (int x) (int y) s = Some (s\<lparr>x_row := (x_row s)[y := r], x_dirty := True\<rparr>) \<and> row_ok r \<and> r_updated r
    \<and> line_of r = take x (line_of (x_row s ! y)) @ drop (x + 1) (line_of (x_row s ! y))"
proof -
  define row where "row = x_row s ! y"
  define b where "b = take x (r_chars row) @ take (r_len row - 1 - x) (drop (x + 1) (r_chars row)) @ drop (r_len row - 1) (r_chars row)"
  have row: "r_len row \<le> length (r_chars row)" "x < r_len row" "peek (x_row s) y = Some row"
    using assms by (simp_all add: row_def row_ok_def peek_def)
  have "memmove (r_chars row) x (x + 1) (r_len row - 1 - x) = Some b" using row by (simp add: memcpy_def b_def)
  moreover have "take (r_len row - 1) b = take x (line_of row) @ drop (x + 1) (line_of row)"
  proof -
    have "b = (take x (r_chars row) @ take (r_len row - 1 - x) (drop (x + 1) (r_chars row))) @ drop (r_len row - 1) (r_chars row)" by (simp add: b_def)
    moreover have "length (take x (r_chars row) @ take (r_len row - 1 - x) (drop (x + 1) (r_chars row))) = r_len row - 1" using row by simp
    ultimately have "take (r_len row - 1) b = take x (r_chars row) @ take (r_len row - 1 - x) (drop (x + 1) (r_chars row))" by (metis append_eq_conv_conj)
    then show ?thesis using row by (simp add: line_of_def drop_take min_absorb1)
  qed
  moreover have "length b = length (r_chars row)" using row by (simp add: b_def)
  ultimately show ?thesis
    using row unfolding row_def [symmetric]
    by (intro exI [of _ "\<lparr>r_chars = b, r_len = r_len row - 1, r_updated = True\<rparr>"]) (simp add: edit_rowDeleteChar_def row_ok_def line_of_def Let_def)
qed

lemma rowAppend_ok:
  assumes "plenty env" "y < length (x_row s)" "row_ok (x_row s ! y)" "n \<le> length chars"
  shows "\<exists>r t. edit_rowAppend env (int y) chars n s = Some (0, s\<lparr>x_tick := t, x_row := (x_row s)[y := r], x_dirty := True\<rparr>) \<and> row_ok r \<and> r_updated r
    \<and> line_of r = line_of (x_row s ! y) @ take n chars"
proof -
  define row where "row = x_row s ! y"
  define c where "c = resized env (r_chars row) (r_len row + n + 1)"
  define b where "b = take (r_len row) c @ take n chars @ drop (r_len row + n) c"
  have row: "r_len row \<le> length (r_chars row)" "peek (x_row s) y = Some row"
    using assms by (simp_all add: row_def row_ok_def peek_def)
  have c: "length c = r_len row + n + 1" "take (r_len row) c = line_of row" "length (line_of row) = r_len row"
    using row by (simp_all add: c_def resized_take line_of_def)
  then have "memcpy c (r_len row) chars 0 n = Some b" "take (r_len row + n) b = line_of row @ take n chars" "length b = r_len row + n + 1"
    using assms(4) by (simp_all add: memcpy_def b_def)
  then show ?thesis
    using row assms(1) unfolding row_def [symmetric]
    by (intro exI [of _ "\<lparr>r_chars = b, r_len = r_len row + n, r_updated = True\<rparr>"] exI [of _ "x_tick s + 1"])
      (simp add: edit_rowAppend_def alloc_def c_def [symmetric, simplified] row_ok_def line_of_def)
qed

lemma backspace_in_row:
  assumes "text_ok s" "x_cx s > 0" "text_of s \<noteq> [[]]"
  shows "\<exists>s'. edit_rowDeleteChar (x_cx s - 1) (x_cy s) s = Some s' \<and> edit_step s (s'\<lparr>x_cx := x_cx s' - 1\<rparr>) (d_backspace (doc_of s))"
proof -
  define y where "y = nat (x_cy s)"
  define x where "x = nat (x_cx s)"
  have y: "x_cy s = int y" "x_cx s = int x" "x > 0" using assms(1,2) by (auto simp: x_def y_def text_ok_def)
  have rows: "\<forall>r \<in> set (x_row s). row_ok r" using assms(1) by (simp add: text_ok_def)
  have lt: "x_cy s < nrows s" using row_end [OF assms(1)] y by fastforce
  have row: "y < length (x_row s)" "row_ok (x_row s ! y)" "x \<le> r_len (x_row s ! y)" "text_of s ! y = line_of (x_row s ! y)"
    using row_at [OF assms(1) lt] y by simp_all
  obtain r where del: "edit_rowDeleteChar (int (x - 1)) (int y) s = Some (s\<lparr>x_row := (x_row s)[y := r], x_dirty := True\<rparr>)"
    and r: "row_ok r" "r_updated r" "line_of r = take (x - 1) (line_of (x_row s ! y)) @ drop x (line_of (x_row s ! y))"
    using rowDeleteChar_ok [of y s "x - 1"] row y(3) less_le_trans [of "x - 1" x "r_len (x_row s ! y)"] by auto
  let ?s = "s\<lparr>x_row := (x_row s)[y := r], x_dirty := True, x_cx := x_cx s - 1\<rparr>"
  have "doc_of ?s = d_backspace (doc_of s)"
    using y r(3) row(4) assms(3) by (simp add: doc_of_def d_backspace_def nat_diff_distrib) (simp add: text_of_def map_update)
  moreover have "redraws s ?s" using r row by (auto simp: redraws_def nth_list_update)
  ultimately have "edit_step s ?s (d_backspace (doc_of s))"
    using y row_ok_update [OF rows r(1)] by (simp add: edit_step_def same_view_def)
  moreover have "edit_rowDeleteChar (x_cx s - 1) (x_cy s) s = Some (s\<lparr>x_row := (x_row s)[y := r], x_dirty := True\<rparr>)" using del y by (simp add: of_nat_diff)
  ultimately show ?thesis by simp
qed

lemma backspace_join:
  assumes "plenty env" "text_ok s" "x_cx s = 0" "x_cy s > 0"  "text_of s \<noteq> [[]]"
  shows "\<exists>s'. edit_deleteChar env s = Some s' \<and> edit_step s s' (d_backspace (doc_of s))"
proof -
  obtain y where y: "x_cy s = int (Suc y)" using assms(4) by (metis Suc_pred' nat_0_le nat_less_iff of_nat_0 order_less_imp_le zero_less_nat_eq)
  have rows: "\<forall>r \<in> set (x_row s). row_ok r" "Suc y \<le> length (x_row s)" using assms(2) y by (auto simp: text_ok_def doc_ok_def doc_of_def)
  define prev where "prev = x_row s ! y"
  have prev: "row_ok prev" "peek (x_row s) y = Some prev" "text_of s ! y = line_of prev" using rows by (simp_all add: prev_def peek_def text_of_def)
  have guard: "\<not> (nrows s = 1 \<and> r_len (x_row s ! 0) = 0)"
  proof
    assume "nrows s = 1 \<and> r_len (x_row s ! 0) = 0"
    then obtain r where "x_row s = [r]" "r_len r = 0" by (cases "x_row s") auto
    then have "text_of s = [[]]" by (simp add: text_of_def line_of_def)
    then show False using assms(5) by simp
  qed
  show ?thesis
  proof (cases "Suc y < length (x_row s)")
    case True
    define row where "row = x_row s ! Suc y"
    have row: "row_ok row" "text_of s ! Suc y = line_of row" using rows True by (simp_all add: row_def text_of_def)
    define s1 where "s1 = s\<lparr>x_cx := int (r_len prev)\<rparr>"
    obtain r t where app: "edit_rowAppend env (int y) (r_chars row) (r_len row) s1 = Some (0, s1\<lparr>x_tick := t, x_row := (x_row s1)[y := r], x_dirty := True\<rparr>)"
      and r: "row_ok r" "r_updated r" "line_of r = line_of prev @ line_of row"
      using rowAppend_ok [OF assms(1), of y s1 "r_len row" "r_chars row"] rows prev(1) row(1)
      by (auto simp: s1_def row_ok_def line_of_def prev_def)
    define s' where "s' = s\<lparr>x_cx := int (r_len prev), x_tick := t, x_row := take y (x_row s) @ r # map touch (drop (y + 2) (x_row s)), x_dirty := True, x_cy := int y\<rparr>"
    have upd: "take (Suc y) ((x_row s)[y := r]) = take y (x_row s) @ [r]" "drop (Suc (Suc y)) ((x_row s)[y := r]) = drop (Suc (Suc y)) (x_row s)"
      using rows True by (simp_all add: take_Suc_conv_app_nth)
    have "edit_deleteChar env s = Some s'"
      using guard app assms(3) y True prev(2)
      by (simp add: edit_deleteChar_def s1_def row_def edit_rowDelete_def upd nat_add_distrib s'_def)
    moreover have "doc_of s' = d_backspace (doc_of s)"
      using assms(3,5) y True prev row r(3) by (simp add: doc_of_def d_backspace_def s'_def nat_add_distrib) (simp add: text_of_def take_map drop_map)
    moreover have "redraws s s'" using rows True r by (intro redraws_split [of _ y]) (auto simp: s'_def)
    moreover have "\<forall>r \<in> set (x_row s'). row_ok r" using row_ok_parts [OF rows(1)] r by (auto simp: s'_def)
    ultimately show ?thesis by (auto simp: edit_step_def same_view_def s'_def)
  next
    case False
    have len: "length (x_row s) = Suc y" using False rows by simp
    define s' where "s' = s\<lparr>x_cx := int (r_len prev), x_cy := int y\<rparr>"
    have "edit_deleteChar env s = Some s'"
      using guard assms(3) y False prev(2) rows by (auto simp: edit_deleteChar_def edit_rowDelete_def s'_def)
    moreover have "doc_of s' = d_backspace (doc_of s)"
      using assms(3,5) y len prev by (simp add: doc_of_def d_backspace_def s'_def nat_add_distrib text_length [symmetric] del: text_length)
    moreover have "redraws s s'" by (auto simp: redraws_def s'_def)
    ultimately show ?thesis using rows by (auto simp: edit_step_def same_view_def s'_def)
  qed
qed

lemma edit_step_refl: "text_ok s \<Longrightarrow> edit_step s s (doc_of s)"
  by (simp add: edit_step_def same_view_def redraws_def text_ok_def)

lemma deleteChar_ok:
  assumes "plenty env" "text_ok s"
  shows "\<exists>s'. edit_deleteChar env s = Some s' \<and> edit_step s s' (d_backspace (doc_of s))"
proof -
  have rows: "\<forall>r \<in> set (x_row s). row_ok r" "0 \<le> x_cy s" "0 \<le> x_cx s" using assms(2) by (simp_all add: text_ok_def)
  have guard: "text_of s = [[]] \<longleftrightarrow> nrows s = 1 \<and> r_len (x_row s ! 0) = 0"
    using rows by (cases "x_row s") (auto simp: text_of_def line_of_def row_ok_def)
  consider "text_of s = [[]]" | "text_of s \<noteq> [[]]" "x_cx s = 0" "x_cy s = 0" | "text_of s \<noteq> [[]]" "x_cx s > 0" | "text_of s \<noteq> [[]]" "x_cx s = 0" "x_cy s > 0"
    using rows by fastforce
  then show ?thesis
  proof cases
    case 1
    then have "length (x_row s) = 1" using text_length [of s] by (simp del: text_length)
    then show ?thesis using 1 guard
      by (auto simp: edit_deleteChar_def edit_rowDelete_def edit_step_def same_view_def redraws_def doc_of_def d_backspace_def text_of_def)
  next
    case 2
    then show ?thesis using guard edit_step_refl [OF assms(2)] by (auto simp: edit_deleteChar_def d_backspace_def doc_of_def)
  next
    case 3
    obtain s' where "edit_rowDeleteChar (x_cx s - 1) (x_cy s) s = Some s'" "edit_step s (s'\<lparr>x_cx := x_cx s' - 1\<rparr>) (d_backspace (doc_of s))"
      using backspace_in_row [OF assms(2) 3(2,1)] by auto
    then show ?thesis using 3 guard by (auto simp: edit_deleteChar_def)
  next
    case 4
    then show ?thesis using backspace_join [OF assms] by simp
  qed
qed

text \<open>Moving the cursor; going to another line cuts the column.\<close>

lemma key_values [simp]: "keyUp = 0x141" "keyDown = 0x142" "keyRight = 0x143" "keyLeft = 0x144" "keyIns = 0x132" "keyDel = 0x133" "keyPgup = 0x135"
  "keyPgdn = 0x136" "keyHome = 0x137" "keyEnd = 0x138" "keyBksp = 0x125" "keyTab = 0x12d" "keyShiftTab = 0x13d" "keyEnter = 13" "keyEsc = 27"
  "keyCtrl (CHR ''L'') = 0x24c" "keyCtrl (CHR ''X'') = 0x258" "keyCtrl (CHR ''C'') = 0x243" "keyCtrl (CHR ''Q'') = 0x251" "keyCtrl (CHR ''S'') = 0x253"
  "keyCtrl (CHR ''D'') = 0x244"
  by (simp_all add: keyUp_def keyDown_def keyRight_def keyLeft_def keyIns_def keyDel_def keyPgup_def keyPgdn_def keyHome_def keyEnd_def keyBksp_def
    keyTab_def keyShiftTab_def keyEnter_def keyEsc_def keyEdit_def keyCtrl_def code_def)

definition d_cursor :: "nat \<Rightarrow> doc \<Rightarrow> doc" where
  "d_cursor key d = (if key = keyRight then d_right d else if key = keyLeft then d_left d
     else if key = keyUp then d_goto (snd (snd d) - 1) d else if key = keyDown then d_goto (min (length (fst d)) (snd (snd d) + 1)) d else d)"

lemma edit_step_cursor:
  assumes "\<forall>r \<in> set (x_row s). row_ok r"
  shows "edit_step s (s\<lparr>x_cy := int y, x_cx := int x\<rparr>) (text_of s, x, y)"
  using assms by (simp add: edit_step_def same_view_def redraws_def doc_of_def)

lemma move_step_ok:
  assumes "text_ok s" "key \<in> {keyUp, keyDown, keyLeft, keyRight}"
  shows "\<exists>x y. move_step key s = Some (s\<lparr>x_cy := int y, x_cx := int x\<rparr>) \<and> d_cursor key (doc_of s) = (text_of s, x, y)"
proof -
  obtain x y where y: "x_cy s = int y" "x_cx s = int x" using assms(1) unfolding text_ok_def by (meson zero_le_imp_eq_int)
  have rows: "\<forall>r \<in> set (x_row s). row_ok r" "y \<le> length (x_row s)" "x \<le> (if y < length (x_row s) then length (text_of s ! y) else 0)"
    using assms(1) y by (auto simp: text_ok_def doc_ok_def doc_of_def split: if_splits)
  have len: "length (text_of s ! i) = r_len (x_row s ! i)" if "i < length (x_row s)" for i using rows that by (simp add: text_of_def)
  have s: "s\<lparr>x_cy := int y, x_cx := int x\<rparr> = s" "s\<lparr>x_cx := int x\<rparr> = s" "s\<lparr>x_cy := int y\<rparr> = s" using y by simp_all
  show ?thesis
    using assms(2) rows y len by (elim insertE) (auto simp: move_step_def d_cursor_def doc_of_def d_right_def d_left_def d_goto_def peek_def min_def s
      nat_less_iff nat_le_iff nat_diff_distrib nat_add_distrib of_nat_diff split: if_splits)
qed

section \<open>Keys\<close>

text \<open>The document and the mode after a key; paging is not described here.\<close>

definition d_key :: "nat \<Rightarrow> doc \<times> bool \<Rightarrow> doc \<times> bool" where
  "d_key key s = (case s of (d, rep) \<Rightarrow>
     if key \<in> {keyCtrl (CHR ''L''), keyCtrl (CHR ''X''), keyCtrl (CHR ''C''), keyCtrl (CHR ''Q''), keyCtrl (CHR ''S'')} then s
     else if key = keyIns then (d, \<not> rep)
     else (if key = keyEnter then d_newline d
       else if key = keyCtrl (CHR ''D'') then d_delrow d
       else if key = keyDel then d_backspace (d_right d)
       else if key = keyBksp then d_backspace d
       else if key = keyHome then (case d of (ls, x, y) \<Rightarrow> (ls, 0, y))
       else if key = keyEnd then (case d of (ls, x, y) \<Rightarrow> (ls, if y < length ls then length (ls ! y) else x, y))
       else if key \<in> {keyUp, keyDown, keyLeft, keyRight} then d_cursor key d
       else d_insert rep (if key = keyTab then CHR 0x09 else char_of (key mod 256)) d, rep))"

lemma doc_ok_d_insert: "doc_ok d \<Longrightarrow> doc_ok (d_insert rep ch d)"
  by (cases d) (auto simp: doc_ok_def d_insert_def Let_def nth_append split: if_splits)

lemma doc_ok_d_newline: "doc_ok d \<Longrightarrow> doc_ok (d_newline d)"
  by (cases d) (auto simp: doc_ok_def d_newline_def)

lemma doc_ok_d_backspace: "doc_ok d \<Longrightarrow> doc_ok (d_backspace d)"
  by (cases d) (auto simp: doc_ok_def d_backspace_def nth_append min_def split: if_splits)

lemma doc_ok_d_delrow: "doc_ok d \<Longrightarrow> doc_ok (d_delrow d)"
  by (cases d) (auto simp: doc_ok_def d_delrow_def Let_def split: if_splits)

lemma doc_ok_d_cursor: "doc_ok d \<Longrightarrow> doc_ok (d_cursor key d)"
proof -
  assume d: "doc_ok d"
  have "doc_ok (d_right d)" using d by (cases d) (auto simp: doc_ok_def d_right_def split: if_splits)
  moreover have "doc_ok (d_left d)" using d by (cases d; cases "fst d") (auto simp: doc_ok_def d_left_def split: if_splits)
  moreover have "doc_ok (d_goto y d)" if "y \<le> length (fst d)" for y using that by (cases d) (simp add: doc_ok_def d_goto_def)
  moreover have "snd (snd d) - 1 \<le> length (fst d)" using d by (cases d) (auto simp: doc_ok_def)
  ultimately show ?thesis using d by (simp add: d_cursor_def)
qed

lemma doc_ok_d_key:
  assumes "doc_ok d"
  shows "doc_ok (fst (d_key key (d, rep)))"
proof -
  have "doc_ok (d_right d)" using doc_ok_d_cursor [OF assms, of keyRight] by (simp add: d_cursor_def)
  moreover have "doc_ok (case d of (ls, x, y) \<Rightarrow> (ls, 0, y))" "doc_ok (case d of (ls, x, y) \<Rightarrow> (ls, if y < length ls then length (ls ! y) else x, y))"
    using assms by (auto simp: doc_ok_def)
  ultimately show ?thesis
    using assms by (simp add: d_key_def doc_ok_d_insert doc_ok_d_newline doc_ok_d_backspace doc_ok_d_delrow doc_ok_d_cursor)
qed

lemma edit_step_text_ok: "edit_step s s' d \<Longrightarrow> doc_ok d \<Longrightarrow> text_ok s'"
  by (simp add: edit_step_def text_ok_def)

lemma cursorMove_ok:
  assumes "text_ok s" "key \<in> {keyUp, keyDown, keyLeft, keyRight}"
  shows "\<exists>x y. edit_cursorMove key 1 s = Some (s\<lparr>x_cy := int y, x_cx := int x\<rparr>) \<and> d_cursor key (doc_of s) = (text_of s, x, y)
    \<and> edit_step s (s\<lparr>x_cy := int y, x_cx := int x\<rparr>) (d_cursor key (doc_of s))"
  using move_step_ok [OF assms] edit_step_cursor [of s] assms(1) by (auto simp: text_ok_def)

lemma rowDelete_ok:
  assumes "text_ok s"
  shows "edit_step s (let s1 = (if nrows s > 0 \<and> x_cy s = nrows s then s\<lparr>x_cy := x_cy s - 1\<rparr> else s)
    in (edit_rowDelete (x_cy s1) s1)\<lparr>x_cx := 0\<rparr>) (d_delrow (doc_of s))"
proof -
  obtain y where y: "x_cy s = int y" using assms unfolding text_ok_def by (meson zero_le_imp_eq_int)
  have rows: "\<forall>r \<in> set (x_row s). row_ok r" "y \<le> length (x_row s)" using assms y by (auto simp: text_ok_def doc_ok_def doc_of_def)
  define y' where "y' = (if x_row s \<noteq> [] \<and> y = length (x_row s) then y - 1 else y)"
  define s1 where "s1 = s\<lparr>x_cy := int y'\<rparr>"
  define s' where "s' = (edit_rowDelete (int y') s1)\<lparr>x_cx := 0\<rparr>"
  have y': "y' < length (x_row s) \<or> x_row s = [] \<and> y' = 0" using rows by (auto simp: y'_def)
  have s1: "(if nrows s > 0 \<and> x_cy s = nrows s then s\<lparr>x_cy := x_cy s - 1\<rparr> else s) = s1" using y by (auto simp: s1_def y'_def of_nat_diff Suc_le_eq)
  have rs: "x_row s' = take y' (x_row s) @ map touch (drop (y' + 1) (x_row s))" "x_cy s' = int y'" "x_cx s' = 0"
    "same_view s s'" "x_replace s' = x_replace s"
    using y' by (auto simp: s'_def s1_def edit_rowDelete_def nat_add_distrib same_view_def)
  have "doc_of s' = d_delrow (doc_of s)"
    using rs y y' by (auto simp: doc_of_def text_of_def d_delrow_def y'_def take_map drop_map Let_def)
  moreover have "redraws s s'" using rs y' by (intro redraws_split [of _ y']) auto
  moreover have "\<forall>r \<in> set (x_row s'). row_ok r" using row_ok_parts [OF rows(1)] rs by auto
  ultimately show ?thesis using rs s1 by (simp add: edit_step_def s'_def [symmetric] s1_def) (simp add: s'_def s1_def)
qed

text \<open>Up and down from any place of the text, also with a column behind the end of the row.\<close>

lemma cursor_clamp:
  assumes "x_cy s = int y" "y \<le> length (x_row s)" "x_cx s = int x"
  shows "(if x_cy s < nrows s then do {
        r \<leftarrow> (if x_cy s < 0 then None else peek (x_row s) (nat (x_cy s)));
        Some (if x_cx s > int (r_len r) then s\<lparr>x_cx := int (r_len r)\<rparr> else s) }
      else Some (s\<lparr>x_cx := 0\<rparr>)) = Some (s\<lparr>x_cx := int (if y < length (x_row s) then min x (r_len (x_row s ! y)) else 0)\<rparr>)"
proof -
  have "s\<lparr>x_cx := int x\<rparr> = s" using assms(3) by simp
  then show ?thesis using assms by (auto simp: peek_def min_def)
qed

lemma move_step_vertical:
  assumes "\<forall>r \<in> set (x_row s). row_ok r" "0 \<le> x_cx s" "0 \<le> x_cy s" "x_cy s \<le> nrows s" "key \<in> {keyUp, keyDown}"
  shows "\<exists>x y. move_step key s = Some (s\<lparr>x_cy := int y, x_cx := int x\<rparr>) \<and> doc_ok (text_of s, x, y)"
proof -
  obtain x y where y: "x_cy s = int y" "x_cx s = int x" using assms(2,3) by (meson zero_le_imp_eq_int)
  have len: "length (text_of s ! i) = r_len (x_row s ! i)" if "i < length (x_row s)" for i using assms(1) that by (simp add: text_of_def)
  define y' where "y' = (if key = keyUp then y - 1 else min (y + 1) (length (x_row s)))"
  define x' where "x' = (if y' < length (x_row s) then min x (r_len (x_row s ! y')) else 0)"
  have "y' \<le> length (x_row s)" using assms(4) y by (auto simp: y'_def)
  then have "doc_ok (text_of s, x', y')" using len by (simp add: doc_ok_def x'_def)
  moreover have "move_step key s = Some (s\<lparr>x_cy := int y', x_cx := int x'\<rparr>)"
  proof -
    have s: "s\<lparr>x_cy := int y\<rparr> = s" using y by simp
    have "(if key = keyUp then Some (if x_cy s > 0 then s\<lparr>x_cy := x_cy s - 1\<rparr> else s) else Some (if x_cy s < nrows s then s\<lparr>x_cy := x_cy s + 1\<rparr> else s))
      = Some (s\<lparr>x_cy := int y'\<rparr>)"
      using y assms(4) s by (cases y) (auto simp: y'_def min_def Suc_le_eq)
    then show ?thesis
      using cursor_clamp [of "s\<lparr>x_cy := int y'\<rparr>" y' x] \<open>y' \<le> length (x_row s)\<close> y assms(3,5)
      by (elim insertE emptyE) (simp_all add: move_step_def x'_def split: if_splits)
  qed
  ultimately show ?thesis by blast
qed

lemma cursorMove_vertical:
  assumes "\<forall>r \<in> set (x_row s). row_ok r" "0 \<le> x_cx s" "0 \<le> x_cy s" "x_cy s \<le> nrows s" "key \<in> {keyUp, keyDown}"
  shows "\<exists>x y. edit_cursorMove key (Suc n) s = Some (s\<lparr>x_cy := int y, x_cx := int x\<rparr>) \<and> doc_ok (text_of s, x, y)"
  using assms(1-4)
proof (induction n arbitrary: s)
  case 0
  then show ?case using move_step_vertical [OF 0 assms(5)] by fastforce
next
  case (Suc n)
  obtain x y where 1: "move_step key s = Some (s\<lparr>x_cy := int y, x_cx := int x\<rparr>)" "doc_ok (text_of s, x, y)"
    using move_step_vertical [OF Suc.prems assms(5)] by auto
  obtain x' y' where "edit_cursorMove key (Suc n) (s\<lparr>x_cy := int y, x_cx := int x\<rparr>) = Some (s\<lparr>x_cy := int y', x_cx := int x'\<rparr>)" "doc_ok (text_of s, x', y')"
    using Suc.IH [of "s\<lparr>x_cy := int y, x_cx := int x\<rparr>"] Suc.prems 1(2) by (auto simp: doc_ok_def)
  then show ?case using 1(1) by auto
qed

text \<open>What every key keeps, with the document it gives.\<close>

definition key_step :: "edit \<Rightarrow> edit \<Rightarrow> bool" where
  "key_step s s' \<longleftrightarrow> text_ok s' \<and> redraws s s' \<and> same_view s s'"

lemma handle_key_edit:
  assumes "plenty env" "text_ok s" "key \<in> {keyEnter, keyDel, keyBksp, keyTab}
    \<or> key \<notin> {keyCtrl (CHR ''L''), keyCtrl (CHR ''X''), keyCtrl (CHR ''C''), keyCtrl (CHR ''Q''), keyCtrl (CHR ''S''), keyCtrl (CHR ''D''), keyIns,
      keyHome, keyEnd, keyPgup, keyPgdn, keyUp, keyDown, keyLeft, keyRight}"
  shows "\<exists>s'. handle_key env key s = Some (s', None, []) \<and> edit_step s s' (fst (d_key key (doc_of s, x_replace s))) \<and> snd (d_key key (doc_of s, x_replace s)) = x_replace s"
proof -
  have del: "\<exists>s'. Option.bind (edit_cursorMove keyRight 1 s) (edit_deleteChar env) = Some s' \<and> edit_step s s' (d_backspace (d_right (doc_of s)))"
  proof -
    obtain x y where 1: "edit_cursorMove keyRight 1 s = Some (s\<lparr>x_cy := int y, x_cx := int x\<rparr>)" "d_right (doc_of s) = (text_of s, x, y)"
      using cursorMove_ok [OF assms(2), of keyRight] by (auto simp: d_cursor_def)
    define s1 where "s1 = s\<lparr>x_cy := int y, x_cx := int x\<rparr>"
    have d1: "doc_of s1 = d_right (doc_of s)" using 1 by (simp add: s1_def doc_of_def)
    have ok: "text_ok s1"
      using assms(2) doc_ok_d_cursor [of "doc_of s" keyRight] d1 by (simp add: text_ok_def d_cursor_def) (simp add: s1_def)
    show ?thesis
      using deleteChar_ok [OF assms(1) ok] 1(1) d1 by (auto simp: s1_def [symmetric] edit_step_def redraws_def same_view_def) (auto simp: s1_def)
  qed
  show ?thesis
  proof (cases "key \<in> {keyEnter, keyDel, keyBksp, keyTab}")
    case True
    then show ?thesis
      using insertChar_ok [OF assms(1,2), of "CHR 0x09"] insertNewLine_ok [OF assms(1,2)] deleteChar_ok [OF assms(1,2)] del
      by (elim insertE emptyE) (auto simp: handle_key_def d_key_def Let_def)
  next
    case False
    then show ?thesis
      using insertChar_ok [OF assms(1,2), of "char_of (key mod 256)"] assms(3) by (auto simp: handle_key_def d_key_def Let_def)
  qed
qed

lemma handle_key_page:
  assumes "edit_ok s" "x_rows s \<ge> 1" "key \<in> {keyPgup, keyPgdn}"
  shows "\<exists>s'. handle_key env key s = Some (s', None, []) \<and> key_step s s' \<and> text_of s' = text_of s \<and> x_replace s' = x_replace s"
proof -
  have rows: "\<forall>r \<in> set (x_row s). row_ok r" "0 \<le> x_cx s" "0 \<le> x_vy s" "x_vy s \<le> nrows s" using assms(1) by (simp_all add: edit_ok_def text_ok_def)
  obtain n where n: "nat (x_rows s) = Suc n" using assms(2) by (metis Suc_pred' nat_0_iff not_le not_gr_zero int_one_le_iff_zero_less zero_less_nat_eq)
  define c where "c = (if key = keyPgup then x_vy s else min (x_vy s + x_rows s - 1) (nrows s))"
  define k where "k = (if key = keyPgup then keyUp else keyDown)"
  have k: "k \<in> {keyUp, keyDown}" by (simp add: k_def)
  have c: "0 \<le> c" "c \<le> nrows s" using rows assms(2) by (auto simp: c_def)
  obtain x y where 1: "edit_cursorMove k (Suc n) (s\<lparr>x_cy := c\<rparr>) = Some (s\<lparr>x_cy := int y, x_cx := int x\<rparr>)" "doc_ok (text_of s, x, y)"
    using cursorMove_vertical [of "s\<lparr>x_cy := c\<rparr>" k n] rows c k by auto
  have "handle_key env key s = Some (s\<lparr>x_cy := int y, x_cx := int x\<rparr>, None, [])"
    using assms(3) 1 n by (elim insertE emptyE) (simp_all add: handle_key_def Let_def c_def k_def)
  moreover have "key_step s (s\<lparr>x_cy := int y, x_cx := int x\<rparr>)"
    using 1(2) rows by (simp add: key_step_def text_ok_def doc_of_def redraws_def same_view_def)
  ultimately show ?thesis by simp
qed

lemma edit_step_key: "edit_step s s' d \<Longrightarrow> text_ok s \<Longrightarrow> doc_ok d \<Longrightarrow> key_step s s' \<and> doc_of s' = d \<and> x_replace s' = x_replace s"
  by (simp add: key_step_def edit_step_def text_ok_def)

lemma handle_key_plain:
  assumes "text_ok s" "key \<in> {keyCtrl (CHR ''L''), keyCtrl (CHR ''X''), keyCtrl (CHR ''C''), keyCtrl (CHR ''Q''), keyCtrl (CHR ''S''), keyIns, keyHome, keyEnd}"
  shows "\<exists>s' nx fs. handle_key env key s = Some (s', nx, fs) \<and> key_step s s' \<and> (doc_of s', x_replace s') = d_key key (doc_of s, x_replace s)
    \<and> (key \<notin> {keyCtrl (CHR ''L''), keyCtrl (CHR ''C''), keyCtrl (CHR ''Q'')} \<longrightarrow> nx = None)"
proof -
  have rows: "\<forall>r \<in> set (x_row s). row_ok r" "0 \<le> x_cx s" "0 \<le> x_cy s" "doc_ok (doc_of s)" using assms(1) by (simp_all add: text_ok_def)
  have k: "key_step s s'" if "x_row s' = x_row s" "0 \<le> x_cx s'" "x_cy s' = x_cy s" "doc_ok (doc_of s')" "same_view s s'" for s'
    using that rows by (simp add: key_step_def text_ok_def redraws_def)
  have doc: "doc_of s' = doc_of s" if "x_row s' = x_row s" "x_cx s' = x_cx s" "x_cy s' = x_cy s" for s' using that by (simp add: doc_of_def text_of_def)
  have home: "doc_ok (text_of s, 0, nat (x_cy s))" using rows(4) by (auto simp: doc_ok_def doc_of_def)
  consider "key \<in> {keyCtrl (CHR ''L''), keyCtrl (CHR ''X''), keyCtrl (CHR ''C'')}" | "key = keyCtrl (CHR ''Q'')" | "key = keyCtrl (CHR ''S'')" | "key = keyIns"
    | "key = keyHome" | "key = keyEnd" using assms(2) by blast
  then show ?thesis
  proof cases
    case 1
    then show ?thesis using k [of s] rows by (elim insertE emptyE) (simp_all add: handle_key_def d_key_def Let_def same_view_def)
  next
    case 2
    then show ?thesis using k [of s] k [of "s\<lparr>x_msg := _\<rparr>"] doc [of "s\<lparr>x_msg := _\<rparr>"] rows by (simp add: handle_key_def d_key_def Let_def same_view_def)
  next
    case 3
    obtain s' fs where sv: "edit_save env s = (s', fs)" by (cases "edit_save env s")
    then have "x_row s' = x_row s" "x_cx s' = x_cx s" "x_cy s' = x_cy s" "same_view s s'" "x_replace s' = x_replace s"
      by (auto simp: edit_save_def same_view_def split: option.splits prod.splits if_splits)
    then show ?thesis using 3 sv k [of s'] doc [of s'] rows by (simp add: handle_key_def d_key_def Let_def)
  next
    case 4
    then show ?thesis using k [of "s\<lparr>x_replace := \<not> x_replace s\<rparr>"] doc [of "s\<lparr>x_replace := \<not> x_replace s\<rparr>"] rows
      by (simp add: handle_key_def d_key_def Let_def same_view_def)
  next
    case 5
    then show ?thesis using k [of "s\<lparr>x_cx := 0\<rparr>"] home by (simp add: handle_key_def d_key_def Let_def same_view_def doc_of_def)
  next
    case 6
    show ?thesis
    proof (cases "x_cy s < nrows s")
      case True
      note r = row_at [OF assms(1) True]
      have "doc_ok (text_of s, r_len (x_row s ! nat (x_cy s)), nat (x_cy s))" using r rows(3) by (simp add: doc_ok_def)
      then show ?thesis using 6 True r rows(3) k [of "s\<lparr>x_cx := int (r_len (x_row s ! nat (x_cy s)))\<rparr>"]
        by (simp add: handle_key_def d_key_def Let_def same_view_def doc_of_def peek_def)
    next
      case False
      then have "\<not> nat (x_cy s) < length (text_of s)" by (simp add: nat_less_iff)
      then show ?thesis using 6 False rows k [of s] by (simp add: handle_key_def d_key_def Let_def same_view_def doc_of_def)
    qed
  qed
qed

lemma handle_key_ok:
  assumes "plenty env" "text_ok s" "key \<notin> {keyPgup, keyPgdn}"
  shows "\<exists>s' nx fs. handle_key env key s = Some (s', nx, fs) \<and> key_step s s' \<and> (doc_of s', x_replace s') = d_key key (doc_of s, x_replace s)
    \<and> (key \<notin> {keyCtrl (CHR ''L''), keyCtrl (CHR ''C''), keyCtrl (CHR ''Q'')} \<longrightarrow> nx = None)"
proof -
  have ok: "doc_ok (fst (d_key key (doc_of s, x_replace s)))" using doc_ok_d_key assms(2) by (simp add: text_ok_def)
  consider "key \<in> {keyCtrl (CHR ''L''), keyCtrl (CHR ''X''), keyCtrl (CHR ''C''), keyCtrl (CHR ''Q''), keyCtrl (CHR ''S''), keyIns, keyHome, keyEnd}"
    | "key = keyCtrl (CHR ''D'')" | "key \<in> {keyUp, keyDown, keyLeft, keyRight}"
    | "key \<in> {keyEnter, keyDel, keyBksp, keyTab} \<or> key \<notin> {keyCtrl (CHR ''L''), keyCtrl (CHR ''X''), keyCtrl (CHR ''C''), keyCtrl (CHR ''Q''),
        keyCtrl (CHR ''S''), keyCtrl (CHR ''D''), keyIns, keyHome, keyEnd, keyPgup, keyPgdn, keyUp, keyDown, keyLeft, keyRight}"
    using assms(3) by blast
  then show ?thesis
  proof cases
    case 1
    then show ?thesis by (rule handle_key_plain [OF assms(2)])
  next
    case 2
    then show ?thesis using edit_step_key [OF rowDelete_ok [OF assms(2)] assms(2)] ok by (simp add: handle_key_def d_key_def Let_def)
  next
    case 3
    obtain s' where "edit_cursorMove key 1 s = Some s'" "edit_step s s' (d_cursor key (doc_of s))" using cursorMove_ok [OF assms(2) 3] by auto
    moreover have "handle_key env key s = map_option (\<lambda>s'. (s', None, [])) (edit_cursorMove key 1 s)" "d_key key (doc_of s, x_replace s) = (d_cursor key (doc_of s), x_replace s)"
      using 3 by (elim insertE emptyE; simp add: handle_key_def d_key_def Let_def)+
    ultimately show ?thesis using edit_step_key [of s s', OF _ assms(2)] ok by simp
  next
    case 4
    obtain s' where "handle_key env key s = Some (s', None, [])" "edit_step s s' (fst (d_key key (doc_of s, x_replace s)))"
      "snd (d_key key (doc_of s, x_replace s)) = x_replace s" using handle_key_edit [OF assms(1,2) 4] by auto
    then show ?thesis using edit_step_key [of s s', OF _ assms(2) ok] by (simp add: prod_eq_iff)
  qed
qed

end
