(* ===== verification/Texteditscreen.thy ===== *)
theory Texteditscreen
  imports Texteditproofs
begin

text \<open>
  The screen and the sessions of the editor of \<open>edit.c\<close>: drawing only the changed rows shows the same as
  drawing everything, any sequence of keys refines the document, loading and saving, and the end of the input.
\<close>

section \<open>Drawing\<close>

text \<open>The column of a place in a line, where a tab fills up to the next multiple of its width.\<close>

definition advance :: "nat \<Rightarrow> char \<Rightarrow> nat" where
  "advance j c = (if c = CHR 0x09 then j + (EDIT_TAB_STOP - j mod EDIT_TAB_STOP) else j + 1)"

lemma rx_loop_columns: "i + k \<le> length b \<Longrightarrow> rx_loop b k i j = Some (foldl advance j (take k (drop i b)))"
proof (induction k arbitrary: i j)
  case (Suc k)
  have "j mod EDIT_TAB_STOP < EDIT_TAB_STOP" by (simp add: EDIT_TAB_STOP_def)
  then have "(if b ! i = CHR 0x09 then j + ((EDIT_TAB_STOP - 1) - j mod EDIT_TAB_STOP) else j) + 1 = advance j (b ! i)" by (auto simp: advance_def)
  then show ?case using Suc by (simp add: peek_def Cons_nth_drop_Suc [symmetric])
qed simp

text \<open>The part of a row on the screen, in terms of its line.\<close>

definition render_line :: "string \<Rightarrow> nat \<Rightarrow> int \<Rightarrow> string" where
  "render_line l offset cols = render_loop (min offset (length l + length (filter (\<lambda>c. c = CHR 0x09) l) * (EDIT_TAB_STOP - 1) + 1)) (nat ((int offset + cols) mod 2 ^ 32)) 0 l"

lemma edit_rowRender_line: "row_ok r \<Longrightarrow> edit_rowRender r off cols = render_line (line_of r) off cols"
  by (simp add: edit_rowRender_def render_line_def line_of_def [symmetric] Let_def)

type_synonym screen = "nat \<Rightarrow> eout option"

fun paint :: "eout list \<Rightarrow> screen \<Rightarrow> screen" where
  "paint [] scr = scr"
| "paint (ORow y t # os) scr = paint os (scr(y \<mapsto> ORow y t))"
| "paint (OTilde y # os) scr = paint os (scr(y \<mapsto> OTilde y))"
| "paint (_ # os) scr = paint os scr"

text \<open>What a full drawing has on a line of the screen, and a screen that shows it everywhere.\<close>

definition line_at :: "edit \<Rightarrow> nat \<Rightarrow> eout" where
  "line_at s y = (let ry = y + nat (x_vy s) in
     if ry < length (x_row s) then ORow (y + 1) (render_line (text_of s ! ry) (nat (x_vx s)) (x_cols s)) else OTilde (y + 1))"

definition shows_text :: "screen \<Rightarrow> edit \<Rightarrow> bool" where
  "shows_text scr s \<longleftrightarrow> (\<forall>y < nat (x_rows s). scr (y + 1) = Some (line_at s y))"

lemma paint_append: "paint (os @ os') scr = paint os' (paint os scr)"
proof (induction os arbitrary: scr)
  case (Cons a os)
  then show ?case by (cases a) (simp_all add: fun_upd_def)
qed simp

text \<open>Drawing only clears the marks of rows.\<close>

definition unmarked :: "edit \<Rightarrow> edit \<Rightarrow> bool" where
  "unmarked s s' \<longleftrightarrow> (\<exists>rs. s' = s\<lparr>x_row := rs\<rparr> \<and> map touch rs = map touch (x_row s))"

lemma unmarked_refl: "unmarked s s"
  unfolding unmarked_def by (rule exI [of _ "x_row s"]) simp

lemma unmarked_text:
  assumes "unmarked s s'"
  shows "text_of s' = text_of s" "length (x_row s') = length (x_row s)" "(\<forall>r \<in> set (x_row s'). row_ok r) = (\<forall>r \<in> set (x_row s). row_ok r)"
proof -
  obtain rs where rs: "s' = s\<lparr>x_row := rs\<rparr>" "map touch rs = map touch (x_row s)" using assms by (auto simp: unmarked_def)
  have "map line_of rs = map (line_of \<circ> touch) rs" by simp
  also have "\<dots> = map (line_of \<circ> touch) (x_row s)" using rs(2) by (metis map_map)
  finally show "text_of s' = text_of s" using rs(1) by (simp add: text_of_def)
  show "length (x_row s') = length (x_row s)" using rs by (metis length_map edit.select_convs(2) edit.update_convs(2) edit.surjective)
  have "(\<forall>r \<in> set rs. row_ok r) = list_all (row_ok \<circ> touch) rs" by (simp add: list_all_iff)
  also have "\<dots> = list_all (row_ok \<circ> touch) (x_row s)" using rs(2) by (metis list.pred_map)
  finally show "(\<forall>r \<in> set (x_row s'). row_ok r) = (\<forall>r \<in> set (x_row s). row_ok r)" using rs(1) by (simp add: list_all_iff)
qed

lemma unmarked_trans: "unmarked s s' \<Longrightarrow> unmarked s' s'' \<Longrightarrow> unmarked s s''"
  by (auto simp: unmarked_def)

lemma line_at_unmarked:
  assumes "unmarked s s'"
  shows "line_at s' y = line_at s y"
proof -
  obtain rs where "s' = s\<lparr>x_row := rs\<rparr>" using assms by (auto simp: unmarked_def)
  then show ?thesis using unmarked_text [OF assms] by (simp add: line_at_def Let_def)
qed

lemma unmark_row: "ry < length (x_row s) \<Longrightarrow> unmarked s (s\<lparr>x_row := (x_row s)[ry := (x_row s ! ry)\<lparr>r_updated := False\<rparr>]\<rparr>)"
  unfolding unmarked_def
  by (rule exI [of _ "(x_row s)[ry := (x_row s ! ry)\<lparr>r_updated := False\<rparr>]"]) (simp add: map_update list_update_same_conv)

text \<open>A line has to be drawn unless the screen shows it already.\<close>

definition up_to_date :: "screen \<Rightarrow> edit \<Rightarrow> nat \<Rightarrow> bool" where
  "up_to_date scr s y \<longleftrightarrow> (let ry = y + nat (x_vy s) in
     ry < length (x_row s) \<and> r_updated (x_row s ! ry) \<or> ry = length (x_row s) \<or> scr (y + 1) = Some (line_at s y))"

lemma drawRows_loop_shows:
  assumes "\<forall>r \<in> set (x_row s). row_ok r" "distinct ys" "force \<or> (\<forall>y \<in> set ys. up_to_date scr s y)"
  shows "\<exists>s' os. drawRows_loop force ys s = (s', os) \<and> unmarked s s'
    \<and> (\<forall>y. paint os scr (y + 1) = (if y \<in> set ys then Some (line_at s y) else scr (y + 1)))"
  using assms
proof (induction ys arbitrary: s scr)
  case Nil
  then show ?case by (simp add: unmarked_refl)
next
  case (Cons y ys)
  define ry where "ry = y + nat (x_vy s)"
  define s1 where "s1 = s\<lparr>x_row := (x_row s)[ry := (x_row s ! ry)\<lparr>r_updated := False\<rparr>]\<rparr>"
  have rest: "\<exists>s' os. drawRows_loop force ys s2 = (s', os) \<and> unmarked s s'
      \<and> (\<forall>y'. paint os scr2 (y' + 1) = (if y' \<in> set ys then Some (line_at s y') else scr2 (y' + 1)))"
    if "unmarked s s2" "\<forall>i. i \<noteq> ry \<longrightarrow> i < length (x_row s) \<longrightarrow> r_updated (x_row s2 ! i) = r_updated (x_row s ! i)"
      "\<forall>y'. y' \<noteq> y \<longrightarrow> scr2 (y' + 1) = scr (y' + 1)" for s2 scr2
  proof -
    have vy: "x_vy s2 = x_vy s" using that(1) by (auto simp: unmarked_def)
    have "up_to_date scr2 s2 y' = up_to_date scr s y'" if "y' \<in> set ys" for y'
    proof -
      have "y' \<noteq> y" using that Cons.prems(2) by auto
      then have "scr2 (y' + 1) = scr (y' + 1)" "y' + nat (x_vy s) < length (x_row s) \<Longrightarrow> r_updated (x_row s2 ! (y' + nat (x_vy s))) = r_updated (x_row s ! (y' + nat (x_vy s)))"
        using \<open>\<forall>y'. y' \<noteq> y \<longrightarrow> scr2 (y' + 1) = scr (y' + 1)\<close>
          \<open>\<forall>i. i \<noteq> ry \<longrightarrow> i < length (x_row s) \<longrightarrow> r_updated (x_row s2 ! i) = r_updated (x_row s ! i)\<close> by (auto simp: ry_def)
      then show ?thesis
        using unmarked_text(2) [OF \<open>unmarked s s2\<close>] line_at_unmarked [OF \<open>unmarked s s2\<close>] vy by (auto simp: up_to_date_def Let_def)
    qed
    then have "force \<or> (\<forall>y' \<in> set ys. up_to_date scr2 s2 y')" using Cons.prems(3) by auto
    then show ?thesis
      using Cons.IH [of s2 scr2] Cons.prems(1,2) unmarked_text(3) [OF that(1)] unmarked_trans [OF that(1)] line_at_unmarked [OF that(1)]
      by fastforce
  qed
  consider "ry < length (x_row s)" "force \<or> r_updated (x_row s ! ry)" | "ry \<ge> length (x_row s)" "force \<or> ry = length (x_row s)"
    | "ry < length (x_row s)" "\<not> (force \<or> r_updated (x_row s ! ry))" | "ry \<ge> length (x_row s)" "\<not> (force \<or> ry = length (x_row s))" by linarith
  then show ?case
  proof cases
    case 1
    have line: "line_at s y = ORow (y + 1) (edit_rowRender (x_row s ! ry) (nat (x_vx s)) (x_cols s))"
      using 1 Cons.prems(1) by (simp add: line_at_def ry_def [symmetric] edit_rowRender_line text_of_def)
    obtain s' os where "drawRows_loop force ys s1 = (s', os)" "unmarked s s'"
      "\<forall>y'. paint os (scr(y + 1 \<mapsto> line_at s y)) (y' + 1) = (if y' \<in> set ys then Some (line_at s y') else (scr(y + 1 \<mapsto> line_at s y)) (y' + 1))"
      using rest [of s1 "scr(y + 1 \<mapsto> line_at s y)"] unmark_row [OF 1(1)] by (auto simp: s1_def)
    then show ?thesis using 1 line by (auto simp: Let_def ry_def [symmetric] s1_def)
  next
    case 2
    have line: "line_at s y = OTilde (y + 1)" using 2 by (simp add: line_at_def ry_def [symmetric])
    obtain s' os where "drawRows_loop force ys s = (s', os)" "unmarked s s'"
      "\<forall>y'. paint os (scr(y + 1 \<mapsto> line_at s y)) (y' + 1) = (if y' \<in> set ys then Some (line_at s y') else (scr(y + 1 \<mapsto> line_at s y)) (y' + 1))"
      using rest [of s "scr(y + 1 \<mapsto> line_at s y)"] unmarked_refl by auto
    then show ?thesis using 2 line by (auto simp: Let_def ry_def [symmetric])
  next
    case 3
    then have "scr (y + 1) = Some (line_at s y)" using Cons.prems(3) by (auto simp: up_to_date_def ry_def [symmetric])
    then show ?thesis using 3 rest [of s scr] unmarked_refl by (auto simp: Let_def ry_def [symmetric])
  next
    case 4
    then have "scr (y + 1) = Some (line_at s y)" using Cons.prems(3) by (auto simp: up_to_date_def ry_def [symmetric])
    then show ?thesis using 4 rest [of s scr] unmarked_refl by (auto simp: Let_def ry_def [symmetric])
  qed
qed

text \<open>The view follows the cursor.\<close>

definition cursor_col :: "edit \<Rightarrow> int" where
  "cursor_col s = (if x_cy s < nrows s then int (foldl advance 0 (take (nat (x_cx s)) (text_of s ! nat (x_cy s)))) else 0)"

definition in_view :: "edit \<Rightarrow> bool" where
  "in_view s \<longleftrightarrow> x_rows s = t_rows s - x_hbar s \<and> x_cols s = t_cols s \<and> x_rx s = cursor_col s
     \<and> 0 \<le> x_vy s \<and> x_vy s \<le> x_cy s \<and> x_cy s < x_vy s + x_rows s \<and> 0 \<le> x_vx s \<and> x_vx s \<le> x_rx s \<and> x_rx s < x_vx s + x_cols s"

definition term_ok :: "edit \<Rightarrow> bool" where
  "term_ok s \<longleftrightarrow> t_rows s - x_hbar s \<ge> 1 \<and> t_rows s < 2 ^ 31 \<and> x_hbar s \<ge> 0 \<and> t_cols s \<ge> 1"

lemma updateScroll_ok:
  assumes "text_ok s" "0 \<le> x_vy s" "0 \<le> x_vx s" "term_ok s"
  shows "\<exists>vx vy. edit_updateScroll s = Some (x_vx s \<noteq> vx \<or> x_vy s \<noteq> vy,
      s\<lparr>x_rx := cursor_col s, x_cols := t_cols s, x_rows := t_rows s - x_hbar s, x_vy := vy, x_vx := vx\<rparr>)
    \<and> in_view (s\<lparr>x_rx := cursor_col s, x_cols := t_cols s, x_rows := t_rows s - x_hbar s, x_vy := vy, x_vx := vx\<rparr>)"
proof -
  define s1 where "s1 = s\<lparr>x_rx := 0, x_cols := t_cols s, x_rows := t_rows s - x_hbar s\<rparr>"
  define s2 where "s2 = s\<lparr>x_rx := cursor_col s, x_cols := t_cols s, x_rows := t_rows s - x_hbar s\<rparr>"
  have rows: "0 \<le> x_cx s" "0 \<le> x_cy s" using assms(1) by (simp_all add: text_ok_def)
  have col: "(if x_cy s1 < nrows s1 then do {
         row \<leftarrow> (if x_cy s1 < 0 then None else peek (x_row s1) (nat (x_cy s1)));
         rx \<leftarrow> rx_loop (r_chars row) (nat (x_cx s1)) 0 0;
         Some (s1\<lparr>x_rx := int rx\<rparr>) }
       else Some s1) = Some s2"
  proof (cases "x_cy s < nrows s")
    case True
    note r = row_at [OF assms(1) True]
    have "rx_loop (r_chars (x_row s ! nat (x_cy s))) (nat (x_cx s)) 0 0 = Some (foldl advance 0 (take (nat (x_cx s)) (text_of s ! nat (x_cy s))))"
      using r rows(1) rx_loop_columns [of 0 "nat (x_cx s)" "r_chars (x_row s ! nat (x_cy s))" 0]
      by (simp add: row_ok_def line_of_def min_def nat_le_iff)
    then show ?thesis using True r rows(2) by (simp add: peek_def s1_def s2_def cursor_col_def)
  qed (simp add: s1_def s2_def cursor_col_def)
  define vy where "vy = (if x_cy s < x_vy s then x_cy s else if x_cy s \<ge> x_vy s + (t_rows s - x_hbar s) then x_cy s - (t_rows s - x_hbar s) + 1 else x_vy s)"
  define vx where "vx = (if cursor_col s < x_vx s then cursor_col s else if cursor_col s \<ge> x_vx s + t_cols s then cursor_col s - t_cols s + 1 else x_vx s)"
  have "edit_updateScroll s = Some (x_vx s \<noteq> vx \<or> x_vy s \<noteq> vy, s2\<lparr>x_vy := vy, x_vx := vx\<rparr>)"
    unfolding edit_updateScroll_def s1_def [symmetric] Let_def [of s1] col
    using assms(4) by (simp add: s2_def vx_def vy_def term_ok_def)
  moreover have "in_view (s2\<lparr>x_vy := vy, x_vx := vx\<rparr>)"
    using assms rows by (auto simp: in_view_def s2_def vx_def vy_def cursor_col_def term_ok_def text_of_def)
  ultimately show ?thesis by (auto simp: s2_def)
qed

text \<open>What drawing keeps of the state.\<close>

definition drawn :: "edit \<Rightarrow> edit \<Rightarrow> bool" where
  "drawn s s' \<longleftrightarrow> doc_of s' = doc_of s \<and> x_filename s' = x_filename s \<and> x_dirty s' = x_dirty s \<and> x_replace s' = x_replace s \<and> x_hbar s' = x_hbar s
     \<and> t_rows s' = t_rows s \<and> t_cols s' = t_cols s \<and> t_ev s' = t_ev s \<and> t_evCnt s' = t_evCnt s"

lemma up_to_date_redraws:
  assumes "shows_text scr s0" "redraws s0 s" "x_rows s0 = x_rows s" "x_cols s0 = x_cols s" "x_vx s0 = x_vx s" "x_vy s0 = x_vy s" "y < nat (x_rows s)"
  shows "up_to_date scr s y"
proof -
  define ry where "ry = y + nat (x_vy s)"
  have scr: "scr (y + 1) = Some (line_at s0 y)" using assms(1,3,7) by (simp add: shows_text_def)
  consider "ry < length (x_row s)" "r_updated (x_row s ! ry)" | "ry = length (x_row s)"
    | "ry < length (x_row s)" "ry < length (x_row s0)" "line_of (x_row s ! ry) = line_of (x_row s0 ! ry)" | "ry > length (x_row s)" "ry \<ge> length (x_row s0)"
    using assms(2) unfolding redraws_def by (metis add.commute le_trans linorder_neqE_nat not_less_eq_eq not_less plus_1_eq_Suc)
  then show ?thesis
  proof cases
    case 3
    then have "line_at s0 y = line_at s y" using assms(4-6) by (simp add: line_at_def ry_def text_of_def)
    then show ?thesis using scr by (simp add: up_to_date_def Let_def)
  next
    case 4
    then have "line_at s0 y = line_at s y" using assms(6) by (simp add: line_at_def ry_def)
    then show ?thesis using scr by (simp add: up_to_date_def Let_def)
  qed (simp_all add: up_to_date_def ry_def)
qed

lemma edit_draw_shows:
  assumes "text_ok s" "0 \<le> x_vy s" "0 \<le> x_vx s" "term_ok s"
    "force \<or> shows_text scr s0 \<and> in_view s0 \<and> redraws s0 s \<and> same_view s0 s"
  shows "\<exists>s' os. edit_draw force s = Some (s', os) \<and> shows_text (paint os scr) s' \<and> edit_ok s' \<and> in_view s' \<and> drawn s s'"
proof -
  obtain vx vy where sc: "edit_updateScroll s = Some (x_vx s \<noteq> vx \<or> x_vy s \<noteq> vy,
      s\<lparr>x_rx := cursor_col s, x_cols := t_cols s, x_rows := t_rows s - x_hbar s, x_vy := vy, x_vx := vx\<rparr>)"
    and view: "in_view (s\<lparr>x_rx := cursor_col s, x_cols := t_cols s, x_rows := t_rows s - x_hbar s, x_vy := vy, x_vx := vx\<rparr>)"
    using updateScroll_ok [OF assms(1-4)] by auto
  define s1 where "s1 = s\<lparr>x_rx := cursor_col s, x_cols := t_cols s, x_rows := t_rows s - x_hbar s, x_vy := vy, x_vx := vx\<rparr>"
  define s2 where "s2 = s1\<lparr>x_msg := None\<rparr>"
  define changed where "changed \<longleftrightarrow> x_vx s \<noteq> vx \<or> x_vy s \<noteq> vy"
  obtain left buf where bar: "edit_drawStatusBar s1 = (s2, [OStatus (x_rows s1 + 1) left buf])" by (auto simp: edit_drawStatusBar_def s2_def Let_def)
  define os1 where "os1 = [OStatus (x_rows s1 + 1) left buf] @ edit_drawKeys force s2"
  have os1: "paint os1 scr = scr" by (simp add: os1_def edit_drawKeys_def)
  have rows: "\<forall>r \<in> set (x_row s2). row_ok r" "x_row s2 = x_row s" using assms(1) by (simp_all add: s2_def s1_def text_ok_def)
  have full: "nat (x_rows s2 mod 2 ^ 32) = nat (x_rows s2)"
    using assms(4) by (simp add: term_ok_def s2_def s1_def)
  have "force \<or> changed \<or> (\<forall>y \<in> set [0..<nat (x_rows s2)]. up_to_date scr s2 y)"
  proof (cases "force \<or> changed")
    case False
    then have s0: "shows_text scr s0" "in_view s0" "redraws s0 s" "same_view s0 s" using assms(5) by auto
    have "up_to_date scr s2 y" if "y < nat (x_rows s2)" for y
      using s0(2-4) False by (intro up_to_date_redraws [OF s0(1) _ _ _ _ _ that])
        (auto simp: s2_def s1_def changed_def redraws_def same_view_def in_view_def)
    then show ?thesis by simp
  qed blast
  then obtain s3 os where dr: "drawRows_loop (force \<or> changed) [0..<nat (x_rows s2)] s2 = (s3, os)" "unmarked s2 s3"
    "\<forall>y. paint os scr (y + 1) = (if y \<in> set [0..<nat (x_rows s2)] then Some (line_at s2 y) else scr (y + 1))"
    using drawRows_loop_shows [OF rows(1) distinct_upt, where scr = scr and force = "force \<or> changed"] by blast
  obtain rs where rs: "s3 = s2\<lparr>x_row := rs\<rparr>" using dr(2) by (auto simp: unmarked_def)
  note same = unmarked_text [OF dr(2)]
  have tx: "text_of s3 = text_of s" using same(1) by (simp add: s2_def s1_def text_of_def)
  define cur where "cur = OCursor (x_cy s3 - x_vy s3 + 1) (x_rx s3 - x_vx s3 + 1)"
  have "edit_draw force s = Some (s3, os1 @ os @ [cur])"
    using dr(1) bar unfolding edit_draw_def sc s1_def [symmetric] changed_def [symmetric]
    by (simp add: edit_drawRows_def full [simplified] os1_def cur_def)
  moreover have "shows_text (paint (os1 @ os @ [cur]) scr) s3"
    using dr(3) line_at_unmarked [OF dr(2)] by (simp add: shows_text_def paint_append os1 cur_def) (simp add: rs)
  moreover have doc: "doc_of s3 = doc_of s" using tx by (simp add: doc_of_def) (simp add: rs s2_def s1_def)
  moreover have v3: "in_view s3"
  proof -
    have "cursor_col s3 = cursor_col s" using tx same(2) rows(2) by (simp add: cursor_col_def) (simp add: rs s2_def s1_def)
    moreover have "cursor_col s1 = cursor_col s" by (simp add: cursor_col_def s1_def text_of_def)
    ultimately show ?thesis using view [folded s1_def] by (simp add: in_view_def) (simp add: rs s2_def s1_def)
  qed
  moreover have t3: "text_ok s3" using assms(1) same(3) doc rows(2) by (simp add: text_ok_def) (simp add: rs s2_def s1_def)
  moreover have "edit_ok s3" using v3 t3 by (auto simp: edit_ok_def in_view_def text_ok_def doc_ok_def doc_of_def nat_le_iff)
  moreover have "drawn s s3" using doc by (simp add: drawn_def) (simp add: rs s2_def s1_def)
  ultimately show ?thesis by blast
qed

section \<open>Sequences of keys\<close>

text \<open>The state between two events: the screen shows the text and the view holds the cursor.\<close>

definition settled :: "edit \<Rightarrow> screen \<Rightarrow> bool" where
  "settled s scr \<longleftrightarrow> edit_ok s \<and> term_ok s \<and> in_view s \<and> shows_text scr s"

lemma key_draw:
  assumes "settled s scr" "key_step s s1"
  shows "\<exists>s' os. edit_draw False s1 = Some (s', os) \<and> settled s' (paint os scr) \<and> drawn s1 s'"
proof -
  have "term_ok s1" "0 \<le> x_vy s1" "0 \<le> x_vx s1" "text_ok s1" "shows_text scr s \<and> in_view s \<and> redraws s s1 \<and> same_view s s1"
    using assms by (simp_all add: settled_def key_step_def same_view_def term_ok_def edit_ok_def)
  then show ?thesis
    using edit_draw_shows [of s1 False scr s] by (auto simp: settled_def drawn_def term_ok_def)
qed

lemma handle_key_any:
  assumes "plenty env" "settled s scr" "key \<notin> {keyCtrl (CHR ''L''), keyCtrl (CHR ''C''), keyCtrl (CHR ''Q'')}"
  shows "\<exists>s' fs. handle_key env key s = Some (s', None, fs) \<and> key_step s s'
    \<and> (key \<notin> {keyPgup, keyPgdn} \<longrightarrow> (doc_of s', x_replace s') = d_key key (doc_of s, x_replace s))"
proof (cases "key \<in> {keyPgup, keyPgdn}")
  case True
  then show ?thesis
    using handle_key_page [of s key env] assms(2) by (auto simp: settled_def in_view_def term_ok_def)
next
  case False
  then show ?thesis using handle_key_ok [OF assms(1) _ False] assms(2,3) by (fastforce simp: settled_def edit_ok_def)
qed

lemma handleEvent_key:
  assumes "plenty env" "settled s scr" "key \<notin> {keyCtrl (CHR ''L''), keyCtrl (CHR ''C''), keyCtrl (CHR ''Q'')}"
  shows "\<exists>x. edit_handleEvent env (EvKey key) s inp = Some x \<and> xr_ev x = EvNone \<and> xr_inp x = inp \<and> settled (xr_state x) (paint (xr_out x) scr)
    \<and> (key \<notin> {keyPgup, keyPgdn} \<longrightarrow> (doc_of (xr_state x), x_replace (xr_state x)) = d_key key (doc_of s, x_replace s))"
proof -
  obtain s1 fs where 1: "handle_key env key s = Some (s1, None, fs)" "key_step s s1"
    "key \<notin> {keyPgup, keyPgdn} \<longrightarrow> (doc_of s1, x_replace s1) = d_key key (doc_of s, x_replace s)"
    using handle_key_any [OF assms] by blast
  obtain s' os where "edit_draw False s1 = Some (s', os)" "settled s' (paint os scr)" "drawn s1 s'" using key_draw [OF assms(2) 1(2)] by blast
  then show ?thesis using 1 by (simp add: edit_handleEvent_def drawn_def)
qed

fun run_keys :: "xenv \<Rightarrow> nat list \<Rightarrow> edit \<Rightarrow> screen \<Rightarrow> (edit \<times> screen) option" where
  "run_keys env [] s scr = Some (s, scr)"
| "run_keys env (k # ks) s scr = do {
     x \<leftarrow> edit_handleEvent env (EvKey k) s [];
     run_keys env ks (xr_state x) (paint (xr_out x) scr) }"

text \<open>
  C4: Any sequence of keys of the editor but those that quit or redraw runs without a fault, and at its end
  the text, the cursor and the mode are those of the document under the same keys: characters and Tab
  insert or replace, Enter splits a line, Backspace and Del join and delete, ^D removes a line, and the
  arrows, Home and End move within the text. Paging is left out here.
\<close>

theorem edit_keys_refine:
  assumes "plenty env" "settled s scr"
    "\<forall>k \<in> set ks. k \<notin> {keyCtrl (CHR ''L''), keyCtrl (CHR ''C''), keyCtrl (CHR ''Q''), keyPgup, keyPgdn}"
  shows "\<exists>s' scr'. run_keys env ks s scr = Some (s', scr') \<and> edit_ok s' \<and> (doc_of s', x_replace s') = fold d_key ks (doc_of s, x_replace s)"
  using assms(2,3)
proof (induction ks arbitrary: s scr)
  case (Cons k ks)
  obtain x where x: "edit_handleEvent env (EvKey k) s [] = Some x" "settled (xr_state x) (paint (xr_out x) scr)"
    "(doc_of (xr_state x), x_replace (xr_state x)) = d_key k (doc_of s, x_replace s)"
    using handleEvent_key [OF assms(1) Cons.prems(1), of k "[]"] Cons.prems(2) by auto
  then show ?case using Cons.IH [OF x(2)] Cons.prems(2) by simp
qed (simp add: settled_def)

text \<open>
  C5: After any sequence of keys, paging included, the lines of the screen are the ones a full drawing of
  the state would put there, although every key draws only the rows it marked; the cursor is inside the
  part of the text shown, at the column the tabs before it give.
\<close>

theorem edit_screen_current:
  assumes "plenty env" "settled s scr" "\<forall>k \<in> set ks. k \<notin> {keyCtrl (CHR ''L''), keyCtrl (CHR ''C''), keyCtrl (CHR ''Q'')}"
  shows "\<exists>s' scr'. run_keys env ks s scr = Some (s', scr') \<and> (\<forall>y < nat (x_rows s'). scr' (y + 1) = Some (line_at s' y)) \<and> in_view s'"
proof -
  have "\<exists>s' scr'. run_keys env ks s scr = Some (s', scr') \<and> settled s' scr'"
    using assms(2,3)
  proof (induction ks arbitrary: s scr)
    case (Cons k ks)
    obtain x where x: "edit_handleEvent env (EvKey k) s [] = Some x" "settled (xr_state x) (paint (xr_out x) scr)"
      using handleEvent_key [OF assms(1) Cons.prems(1), of k "[]"] Cons.prems(2) by auto
    then show ?case using Cons.IH [OF x(2)] Cons.prems(2) by simp
  qed simp
  then show ?thesis by (auto simp: settled_def shows_text_def)
qed

text \<open>An empty document on a terminal of 5 rows, and one where everything can be allocated.\<close>

definition edit0 :: edit where
  "edit0 = \<lparr>x_filename = Some ''f'', x_row = [], x_rows = 3, x_cols = 20, x_hbar = 2, x_cx = 0, x_cy = 0, x_vx = 0, x_vy = 0, x_rx = 0, x_msg = None,
     x_dirty = False, x_replace = False, t_evCnt = 0, t_cols = 20, t_rows = 5, t_ev = EvNone, x_tick = 0\<rparr>"

definition env0 :: xenv where
  "env0 = \<lparr>xe_alloc = (\<lambda>_. True), xe_junk = CHR ''?'', xe_stat = (\<lambda>_. True), xe_file = (\<lambda>_. Some ''one''), xe_fopenw = True, xe_print = (\<lambda>_. True),
     xe_tcget = True, xe_tcset = True\<rparr>"

lemma env0_plenty: "plenty env0"
  by (simp add: plenty_def env0_def)

lemma edit0_settled: "settled edit0 (\<lambda>n. Some (OTilde n))"
  by (simp add: settled_def edit_ok_def text_ok_def doc_ok_def doc_of_def text_of_def edit0_def term_ok_def in_view_def cursor_col_def shows_text_def line_at_def)

theorem edit_keys_refine_witness:
  "\<exists>s' scr'. run_keys env0 [97, keyEnter, keyTab, 98, keyLeft, keyDel, keyUp] edit0 (\<lambda>n. Some (OTilde n)) = Some (s', scr') \<and> edit_ok s'
     \<and> doc_of s' = ([''a'', [CHR 0x09]], 1, 0)"
proof -
  have "fold d_key [97, keyEnter, keyTab, 98, keyLeft, keyDel, keyUp] (doc_of edit0, x_replace edit0) = (([''a'', [CHR 0x09]], 1, 0), False)"
    by (simp add: d_key_def edit0_def doc_of_def text_of_def d_insert_def d_newline_def d_backspace_def d_right_def d_left_def d_cursor_def d_goto_def char_of_def bit_0)
  moreover have "\<forall>k \<in> set [97, keyEnter, keyTab, 98, keyLeft, keyDel, keyUp].
    k \<notin> {keyCtrl (CHR ''L''), keyCtrl (CHR ''C''), keyCtrl (CHR ''Q''), keyPgup, keyPgdn}" by simp
  ultimately show ?thesis using edit_keys_refine [OF env0_plenty edit0_settled] by (metis (no_types, lifting) prod.inject)
qed

theorem edit_screen_current_witness:
  "\<exists>s' scr'. run_keys env0 [97, keyEnter, keyPgup, keyPgdn] edit0 (\<lambda>n. Some (OTilde n)) = Some (s', scr')
     \<and> (\<forall>y < nat (x_rows s'). scr' (y + 1) = Some (line_at s' y)) \<and> in_view s'"
  using edit_screen_current [OF env0_plenty edit0_settled, of "[97, keyEnter, keyPgup, keyPgdn]"] by simp

end
