(* ===== verification/Texteditsession.thy ===== *)
theory Texteditsession
  imports Texteditscreen
begin

text \<open>
  Whole sessions of the editor of \<open>edit.c\<close>: the file read into rows, the text typed, the file written, and
  what the main loop does at the end of its input.
\<close>

section \<open>The text around the cursor\<close>

definition eol :: "string \<Rightarrow> string" where
  "eol l = l @ [CHR 0x0a]"

definition before :: "doc \<Rightarrow> string" where
  "before d = (case d of (ls, x, y) \<Rightarrow> concat (map eol (take y ls)) @ (if y < length ls then take x (ls ! y) else []))"

definition behind :: "doc \<Rightarrow> string" where
  "behind d = (case d of (ls, x, y) \<Rightarrow> if y < length ls then eol (drop x (ls ! y)) @ concat (map eol (drop (y + 1) ls)) else [])"

lemma before_behind: "doc_ok d \<Longrightarrow> before d @ behind d = concat (map eol (fst d))"
proof (cases d)
  case (fields ls x y)
  then show ?thesis
  proof (cases "y < length ls")
    case True
    then have "concat (map eol ls) = concat (map eol (take y ls)) @ eol (ls ! y) @ concat (map eol (drop (y + 1) ls))"
      by (subst id_take_nth_drop [OF True]) simp
    then show ?thesis using fields True by (simp add: before_def behind_def eol_def)
  qed (simp add: before_def behind_def)
qed

lemma typed_char: "doc_ok d \<Longrightarrow> before (d_insert False c d) = before d @ [c] \<and> behind (d_insert False c d) = (if behind d = [] then [CHR 0x0a] else behind d)"
  by (cases d) (auto simp: doc_ok_def d_insert_def before_def behind_def eol_def Let_def nth_append split: if_splits)

lemma typed_newline: "doc_ok d \<Longrightarrow> before (d_newline d) = before d @ [CHR 0x0a] \<and> behind (d_newline d) = behind d"
  by (cases d) (auto simp: doc_ok_def d_newline_def before_def behind_def eol_def nth_append min_def Cons_nth_drop_Suc [symmetric] split: if_splits)

definition d_type :: "char \<Rightarrow> doc \<Rightarrow> doc" where
  "d_type c d = (if c = CHR 0x0a then d_newline d else d_insert False c d)"

text \<open>Typing puts the text before the cursor; the last line of an empty file gets its newline.\<close>

lemma typed_text:
  assumes "doc_ok d"
  shows "doc_ok (fold d_type t d) \<and> before (fold d_type t d) = before d @ t
    \<and> behind (fold d_type t d) = (if behind d = [] \<and> set t \<noteq> {} \<and> \<not> set t \<subseteq> {CHR 0x0a} then [CHR 0x0a] else behind d)"
  using assms
proof (induction t arbitrary: d)
  case (Cons c t)
  have "doc_ok (d_type c d)" using Cons.prems doc_ok_d_newline doc_ok_d_insert by (simp add: d_type_def)
  then show ?case using Cons.IH [of "d_type c d"] Cons.prems typed_char [of d c] typed_newline [of d] by (auto simp: d_type_def)
qed simp

section \<open>Files\<close>

lemma open_loop_ok:
  assumes "plenty env" "\<forall>r \<in> set (x_row s). row_ok r"
  shows "\<exists>rs t b. open_loop env ls s = Some (s\<lparr>x_tick := t, x_row := x_row s @ rs, x_dirty := b\<rparr>) \<and> map line_of rs = map strip_eol ls \<and> (\<forall>r \<in> set rs. row_ok r)"
  using assms(2)
proof (induction ls arbitrary: s)
  case Nil
  then show ?case by (auto intro!: exI [of _ "[]"] exI [of _ "x_tick s"] exI [of _ "x_dirty s"])
next
  case (Cons l ls)
  have pre: "take (length (strip_eol l)) l = strip_eol l" "length (strip_eol l) \<le> length l"
  proof -
    have "l = strip_eol l @ rev (takeWhile (\<lambda>c. c = CHR 0x0a \<or> c = CHR 0x0d) (rev l))"
      unfolding strip_eol_def by (metis rev_append rev_rev_ident takeWhile_dropWhile_id)
    then show "take (length (strip_eol l)) l = strip_eol l" "length (strip_eol l) \<le> length l"
      by (metis append_eq_conv_conj, metis length_append le_add1)
  qed
  define s1 where "s1 = s\<lparr>x_tick := x_tick s + 2, x_row := x_row s @ [new_row env (strip_eol l)], x_dirty := True\<rparr>"
  have ins: "edit_rowInsert env (nrows s) l (length (strip_eol l)) s = Some (1, s1)"
    using rowInsert_ok [OF assms(1), of "nrows s" s "length (strip_eol l)" l] pre by (simp add: s1_def)
  have "\<forall>r \<in> set (x_row s1). row_ok r" using Cons.prems by (auto simp: s1_def)
  then obtain rs t b where rs: "open_loop env ls s1 = Some (s1\<lparr>x_tick := t, x_row := x_row s1 @ rs, x_dirty := b\<rparr>)" "map line_of rs = map strip_eol ls"
    "\<forall>r \<in> set rs. row_ok r" using Cons.IH by blast
  show ?case
    using ins rs by (auto simp: s1_def intro!: exI [of _ "new_row env (strip_eol l) # rs"] exI [of _ t] exI [of _ b])
qed

lemma strip_eol_line: "CHR 0x0a \<notin> set l \<Longrightarrow> CHR 0x0d \<notin> set l \<Longrightarrow> strip_eol (eol l) = l \<and> strip_eol l = l"
proof -
  assume "CHR 0x0a \<notin> set l" "CHR 0x0d \<notin> set l"
  then have "dropWhile (\<lambda>c. c = CHR 0x0a \<or> c = CHR 0x0d) (rev l) = rev l" by (cases l rule: rev_cases) auto
  then show ?thesis by (simp add: strip_eol_def eol_def)
qed

text \<open>A file with a newline at the end of its last line.\<close>

definition closed_text :: "string \<Rightarrow> string" where
  "closed_text c = (if c = [] \<or> last c = CHR 0x0a then c else c @ [CHR 0x0a])"

lemma getlines_line: "CHR 0x0a \<notin> set l \<Longrightarrow> getlines (eol l @ cs) = eol l # getlines cs"
  by (induction l) (auto simp: eol_def)

lemma getlines_last: "CHR 0x0a \<notin> set l \<Longrightarrow> getlines l = (if l = [] then [] else [l])"
  by (induction l) auto

lemma getlines_text: "CHR 0x0d \<notin> set c \<Longrightarrow> concat (map (\<lambda>l. eol (strip_eol l)) (getlines c)) = closed_text c"
proof (induction c rule: length_induct)
  case (1 c)
  show ?case
  proof (cases "CHR 0x0a \<in> set c")
    case True
    then obtain l cs where c: "c = l @ CHR 0x0a # cs" "CHR 0x0a \<notin> set l" by (meson split_list_first)
    then have "c = eol l @ cs" by (simp add: eol_def)
    moreover have "concat (map (\<lambda>l. eol (strip_eol l)) (getlines cs)) = closed_text cs" using 1 c by simp
    moreover have "strip_eol (eol l) = l" using strip_eol_line c 1(2) by simp
    moreover have "closed_text (eol l @ cs) = eol l @ closed_text cs" by (simp add: closed_text_def eol_def)
    ultimately show ?thesis using getlines_line [OF c(2)] by simp
  next
    case False
    then have "last c \<noteq> CHR 0x0a" if "c \<noteq> []" using that last_in_set by metis
    then show ?thesis using False 1(2) strip_eol_line [of c] by (simp add: getlines_last closed_text_def) (simp add: eol_def)
  qed
qed

lemma save_loop_ok:
  assumes "\<forall>n. xe_print env n" "\<forall>r \<in> set rs. row_ok r \<and> NUL \<notin> set (line_of r)"
  shows "save_loop env n rs = (concat (map (\<lambda>r. eol (line_of r)) rs), True)"
  using assms(2)
proof (induction rs arbitrary: n)
  case (Cons r rs)
  have "cstr (take (r_len r) (r_chars r)) = line_of r" using Cons.prems by (simp add: line_of_def [symmetric] cstr_id)
  then show ?case using Cons assms(1) by (simp add: eol_def Let_def)
qed simp
section \<open>Steps of the main loop\<close>

definition prep :: "eout list \<Rightarrow> (string \<times> string) list \<Rightarrow> int \<times> edit \<times> eout list \<times> (string \<times> string) list
    \<Rightarrow> int \<times> edit \<times> eout list \<times> (string \<times> string) list" where
  "prep os fs = (\<lambda>(r, s, os', fs'). (r, s, os @ os', fs @ fs'))"

lemma prep_prep: "map_option (prep os fs) (map_option (prep os' fs') v) = map_option (prep (os @ os') (fs @ fs')) v"
  by (cases v) (auto simp: prep_def)

lemma prep_Nil: "map_option (prep [] []) v = v"
  by (cases v) (auto simp: prep_def)

definition char_event :: "char \<Rightarrow> event_t" where
  "char_event c = (if iscntrl c then term_handleCtrl c else EvKey (code c))"

lemma term_getEvent_char:
  assumes "t_ev s = EvNone" "c \<noteq> CHR 0x1b"
  shows "term_getEvent s EvNone (TIn c # inp) = Some (1, s\<lparr>t_evCnt := 0\<rparr>, char_event c, inp)"
proof -
  have "s\<lparr>t_ev := EvNone\<rparr> = s" using assms(1) by simp
  then show ?thesis using assms by (simp add: term_getEvent_def getEvent_loop.simps [of "[]"] char_event_def Let_def)
qed

lemma edit_loop_char:
  assumes "t_ev s = EvNone" "c \<noteq> CHR 0x1b" "edit_handleEvent env (char_event c) (s\<lparr>t_evCnt := 0\<rparr>) inp = Some x"
  shows "edit_loop env EvNone s (TIn c # inp) = map_option (prep (xr_out x) (xr_files x)) (edit_loop env (xr_ev x) (xr_state x) (xr_inp x))"
  by (subst edit_loop.simps) (simp add: term_getEvent_char [OF assms(1,2)] assms(3) prep_def map_option_case case_prod_beta split: option.split)

text \<open>The editor between two characters, in insert mode and with no event pending.\<close>

definition idle :: "edit \<Rightarrow> screen \<Rightarrow> string \<Rightarrow> bool" where
  "idle s scr f \<longleftrightarrow> settled s scr \<and> t_ev s = EvNone \<and> x_filename s = Some f \<and> \<not> x_replace s"

lemma settled_evCnt [simp]: "settled (s\<lparr>t_evCnt := n\<rparr>) scr = settled s scr" "doc_of (s\<lparr>t_evCnt := n\<rparr>) = doc_of s"
proof -
  have t: "text_of (s\<lparr>t_evCnt := n\<rparr>) = text_of s" by (simp add: text_of_def)
  then show "doc_of (s\<lparr>t_evCnt := n\<rparr>) = doc_of s" by (simp add: doc_of_def)
  then show "settled (s\<lparr>t_evCnt := n\<rparr>) scr = settled s scr"
    using t by (simp add: settled_def edit_ok_def text_ok_def term_ok_def in_view_def cursor_col_def shows_text_def line_at_def Let_def)
qed

lemma idle_step:
  assumes "settled s scr" "t_ev s = EvNone" "handle_key env key s = Some (s1, None, fs)" "key_step s s1" "x_filename s = Some f" "\<not> x_replace s1"
  shows "\<exists>x. edit_handleEvent env (EvKey key) s inp = Some x \<and> xr_ev x = EvNone \<and> xr_inp x = inp \<and> xr_files x = fs
    \<and> idle (xr_state x) (paint (xr_out x) scr) f \<and> doc_of (xr_state x) = doc_of s1 \<and> x_dirty (xr_state x) = x_dirty s1"
proof -
  obtain s' os where d: "edit_draw False s1 = Some (s', os)" "settled s' (paint os scr)" "drawn s1 s'" using key_draw [OF assms(1,4)] by blast
  have "same_view s s1" using assms(4) by (simp add: key_step_def)
  then show ?thesis using d assms by (simp add: edit_handleEvent_def idle_def drawn_def same_view_def)
qed

definition typable :: "char \<Rightarrow> bool" where
  "typable c \<longleftrightarrow> \<not> iscntrl c \<or> c = CHR 0x0a \<or> c = CHR 0x09"

lemma char_of_code: "char_of (code c mod 256) = c"
  using code_less [of c] by (simp add: code_def)

lemma typable_key:
  assumes "typable c"
  shows "\<exists>key. char_event c = EvKey key \<and> (key \<in> {keyEnter, keyDel, keyBksp, keyTab}
      \<or> key \<notin> {keyCtrl (CHR ''L''), keyCtrl (CHR ''X''), keyCtrl (CHR ''C''), keyCtrl (CHR ''Q''), keyCtrl (CHR ''S''), keyCtrl (CHR ''D''), keyIns,
        keyHome, keyEnd, keyPgup, keyPgdn, keyUp, keyDown, keyLeft, keyRight}) \<and> fst (d_key key (d, False)) = d_type c d"
proof -
  consider "c = CHR 0x0a" | "c = CHR 0x09" | "\<not> iscntrl c" using assms by (auto simp: typable_def)
  then show ?thesis
  proof cases
    case 3
    then have "c \<noteq> CHR 0x0a" "code c \<noteq> 13" by (auto simp: iscntrl_def code_def)
    then show ?thesis using 3 code_less [of c] char_of_code [of c] by (auto simp: char_event_def d_key_def d_type_def)
  qed (simp_all add: char_event_def iscntrl_def code_def term_handleCtrl_def d_key_def d_type_def)
qed

lemma type_char:
  assumes "plenty env" "idle s scr f" "typable c"
  shows "\<exists>s' os. idle s' (paint os scr) f \<and> doc_of s' = d_type c (doc_of s)
    \<and> (\<forall>inp. edit_loop env EvNone s (TIn c # inp) = map_option (prep os []) (edit_loop env EvNone s' inp))"
proof -
  define s0 where "s0 = s\<lparr>t_evCnt := 0\<rparr>"
  have s0: "settled s0 scr" "t_ev s0 = EvNone" "x_filename s0 = Some f" "\<not> x_replace s0" "doc_of s0 = doc_of s" using assms(2) by (simp_all add: s0_def idle_def)
  obtain key where key: "char_event c = EvKey key" "key \<in> {keyEnter, keyDel, keyBksp, keyTab}
      \<or> key \<notin> {keyCtrl (CHR ''L''), keyCtrl (CHR ''X''), keyCtrl (CHR ''C''), keyCtrl (CHR ''Q''), keyCtrl (CHR ''S''), keyCtrl (CHR ''D''), keyIns,
        keyHome, keyEnd, keyPgup, keyPgdn, keyUp, keyDown, keyLeft, keyRight}" "fst (d_key key (doc_of s, False)) = d_type c (doc_of s)"
    using typable_key [OF assms(3), of "doc_of s"] by blast
  have ok: "text_ok s0" using s0(1) by (simp add: settled_def edit_ok_def)
  obtain s1 where s1: "handle_key env key s0 = Some (s1, None, [])" "edit_step s0 s1 (d_type c (doc_of s))"
    using handle_key_edit [OF assms(1) ok key(2)] s0 key(3) by auto
  have "doc_ok (d_type c (doc_of s))" using doc_ok_d_newline doc_ok_d_insert ok s0(5) by (simp add: d_type_def text_ok_def)
  then have st: "key_step s0 s1" "doc_of s1 = d_type c (doc_of s)" "\<not> x_replace s1" using edit_step_key [OF s1(2) ok] s0(4) by auto
  have ev: "\<exists>x. edit_handleEvent env (EvKey key) s0 inp = Some x \<and> xr_ev x = EvNone \<and> xr_inp x = inp \<and> xr_files x = []
    \<and> idle (xr_state x) (paint (xr_out x) scr) f \<and> doc_of (xr_state x) = doc_of s1 \<and> x_dirty (xr_state x) = x_dirty s1" for inp
    using idle_step [OF s0(1,2) s1(1) st(1) s0(3) st(3)] by blast
  obtain x where x: "edit_handleEvent env (EvKey key) s0 [] = Some x" "idle (xr_state x) (paint (xr_out x) scr) f" "doc_of (xr_state x) = doc_of s1" "xr_ev x = EvNone" "xr_files x = []"
    using ev [of "[]"] by blast
  have "edit_handleEvent env (EvKey key) s0 inp = Some (x\<lparr>xr_inp := inp\<rparr>)" for inp
    using x(1) s1(1) by (cases "edit_draw False s1") (auto simp: edit_handleEvent_def)
  moreover have "c \<noteq> CHR 0x1b" using assms(3) by (auto simp: typable_def iscntrl_def code_def)
  ultimately have "edit_loop env EvNone s (TIn c # inp) = map_option (prep (xr_out x) []) (edit_loop env EvNone (xr_state x) inp)" for inp
    using edit_loop_char [of s c env inp "x\<lparr>xr_inp := inp\<rparr>"] assms(2) key(1) x(4,5) by (simp add: idle_def s0_def [symmetric])
  then show ?thesis using x(2,3) st(2) by auto
qed

lemma type_text:
  assumes "plenty env" "idle s scr f" "\<forall>c \<in> set t. typable c"
  shows "\<exists>s' os. idle s' (paint os scr) f \<and> doc_of s' = fold d_type t (doc_of s)
    \<and> (\<forall>inp. edit_loop env EvNone s (map TIn t @ inp) = map_option (prep os []) (edit_loop env EvNone s' inp))"
  using assms(2,3)
proof (induction t arbitrary: s scr)
  case Nil
  then show ?case by (auto simp: prep_Nil intro!: exI [of _ s] exI [of _ "[]"])
next
  case (Cons c t)
  obtain s1 os1 where 1: "idle s1 (paint os1 scr) f" "doc_of s1 = d_type c (doc_of s)"
    "\<forall>inp. edit_loop env EvNone s (TIn c # inp) = map_option (prep os1 []) (edit_loop env EvNone s1 inp)"
    using type_char [OF assms(1) Cons.prems(1), of c] Cons.prems(2) by auto
  obtain s' os where 2: "idle s' (paint os (paint os1 scr)) f" "doc_of s' = fold d_type t (doc_of s1)"
    "\<forall>inp. edit_loop env EvNone s1 (map TIn t @ inp) = map_option (prep os []) (edit_loop env EvNone s' inp)"
    using Cons.IH [OF 1(1)] Cons.prems(2) by auto
  show ?case using 1 2 by (auto simp: prep_prep paint_append intro!: exI [of _ s'] exI [of _ "os1 @ os"])
qed

text \<open>Saving writes the lines of the document and leaves the editor clean; then it can be left.\<close>

lemma edit_save_ok:
  assumes "text_ok s" "x_filename s = Some f" "xe_fopenw env" "\<forall>n. xe_print env n" "\<forall>l \<in> set (text_of s). NUL \<notin> set l"
  shows "edit_save env s = (s\<lparr>x_dirty := False, x_msg := Some ''File saved.''\<rparr>, [(f, concat (map eol (text_of s)))])"
proof -
  have "save_loop env 0 (x_row s) = (concat (map eol (text_of s)), True)"
    using save_loop_ok [OF assms(4), of "x_row s" 0] assms(1,5) by (simp add: text_ok_def text_of_def o_def)
  then show ?thesis using assms(2,3) by (simp add: edit_save_def)
qed

lemma save_and_quit:
  assumes "idle s scr f" "xe_fopenw env" "\<forall>n. xe_print env n" "\<forall>l \<in> set (text_of s). NUL \<notin> set l"
  shows "\<exists>s' os. edit_loop env EvNone s (TIn (CHR 0x13) # TIn (CHR 0x11) # inp) = Some (0, s', os, [(f, concat (map eol (text_of s)))])"
proof -
  define s0 where "s0 = s\<lparr>t_evCnt := 0\<rparr>"
  have tx: "text_of s0 = text_of s" by (simp add: s0_def text_of_def)
  have s0: "settled s0 scr" "t_ev s0 = EvNone" "x_filename s0 = Some f" "\<not> x_replace s0" "text_ok s0"
    using assms(1) by (simp_all add: s0_def idle_def) (simp add: settled_def edit_ok_def text_ok_def)
  define s1 where "s1 = s0\<lparr>x_dirty := False, x_msg := Some ''File saved.''\<rparr>"
  have save: "handle_key env (keyCtrl (CHR ''S'')) s0 = Some (s1, None, [(f, concat (map eol (text_of s)))])"
    using edit_save_ok [OF s0(5,3) assms(2,3)] assms(4) tx by (simp add: handle_key_def s1_def Let_def)
  have doc: "doc_of s1 = doc_of s0" by (simp add: s1_def doc_of_def)
  have step: "key_step s0 s1" "\<not> x_replace s1"
    using s0(4,5) doc by (simp_all add: key_step_def text_ok_def redraws_def same_view_def) (simp_all add: s1_def)
  obtain x where x: "edit_handleEvent env (EvKey (keyCtrl (CHR ''S''))) s0 (TIn (CHR 0x11) # inp) = Some x" "xr_ev x = EvNone" "xr_inp x = TIn (CHR 0x11) # inp"
    "xr_files x = [(f, concat (map eol (text_of s)))]" "t_ev (xr_state x) = EvNone" "\<not> x_dirty (xr_state x)"
    using idle_step [OF s0(1,2) save step(1) s0(3) step(2), of "TIn (CHR 0x11) # inp"] by (auto simp: idle_def s1_def)
  have evs: "char_event (CHR 0x13) = EvKey (keyCtrl (CHR ''S''))" "char_event (CHR 0x11) = EvKey (keyCtrl (CHR ''Q''))"
    by (simp_all add: char_event_def iscntrl_def code_def term_handleCtrl_def)
  define s2 where "s2 = (xr_state x)\<lparr>t_evCnt := 0\<rparr>"
  have quit: "edit_handleEvent env (char_event (CHR 0x11)) s2 inp = Some \<lparr>xr_state = s2, xr_ev = EvQuit, xr_inp = inp, xr_out = [], xr_files = []\<rparr>"
    using x(6) unfolding evs by (simp add: edit_handleEvent_def handle_key_def Let_def s2_def)
  have "edit_loop env EvQuit s2 inp = Some (0, s2\<lparr>t_ev := EvNone\<rparr>, [], [])"
    using x(5) by (subst edit_loop.simps) (simp add: term_getEvent_def s2_def Let_def)
  then have "edit_loop env EvNone (xr_state x) (TIn (CHR 0x11) # inp) = Some (0, s2\<lparr>t_ev := EvNone\<rparr>, [], [])"
    using edit_loop_char [OF x(5) _ quit [unfolded s2_def]] by (simp add: s2_def prep_def)
  then show ?thesis
    using edit_loop_char [of s "CHR 0x13" env "TIn (CHR 0x11) # inp" x] assms(1) x(1-4) unfolding evs s0_def [symmetric] by (simp add: idle_def prep_def)
qed

section \<open>The size of the terminal\<close>

definition answer :: "nat \<Rightarrow> nat \<Rightarrow> tin list" where
  "answer r c = map TIn ([CHR 0x1b, CHR ''[''] @ dec r @ '';'' @ dec c @ ''R'')"

lemma getCursor_loop_run:
  assumes "CHR 0x1b \<notin> set w" "CHR ''R'' \<notin> set w" "length buf + length w \<le> 14" "length buf + length w \<ge> 5" "take 2 buf = [CHR 0x1b, CHR ''['']"
  shows "getCursor_loop buf 0 (map TIn (w @ ''R'') @ inp) = Some ((buf @ w, 0, True), inp)"
  using assms
proof (induction w arbitrary: buf)
  case Nil
  obtain b where b: "buf = CHR 0x1b # CHR ''['' # b" using Nil by (cases buf; cases "tl buf") auto
  then show ?case using Nil by (subst getCursor_loop.simps) simp
next
  case (Cons a w)
  obtain b where b: "buf = CHR 0x1b # CHR ''['' # b" using Cons.prems(5) by (cases buf; cases "tl buf") auto
  then show ?case using Cons.IH [of "buf @ [a]"] Cons.prems by (subst getCursor_loop.simps) auto
qed

lemma dec_no: "digit_val c \<ge> 10 \<Longrightarrow> c \<notin> set (dec k)"
  using dec_digits [of k] by fastforce

lemma scan_int_dec:
  assumes "s = [] \<or> digit_val (hd s) \<ge> 10"
  shows "scan_int (dec k @ s) = Some (int k, s)"
proof -
  obtain c cs where d: "dec k = c # cs" using dec_hd [of k] by (cases "dec k") auto
  have c: "digit_val c < 10" using dec_digits [of k] d by simp
  then have "isdigit c" "\<not> isspace c" "c \<noteq> CHR ''-''" "c \<noteq> CHR ''+''" by (auto simp: digit_val_def isdigit_def isspace_def code_def split: if_splits)
  moreover have "digits 10 0 (dec k @ s) = (k, s)" using digits_all [OF dec_digits [of k], of 0 s] assms by (cases s) (auto simp: dec_value)
  ultimately show ?thesis using d by (simp add: scan_int_def)
qed

definition shown_size :: "nat \<Rightarrow> nat \<Rightarrow> bool" where
  "shown_size r c \<longleftrightarrow> length (dec r) + length (dec c) \<le> 11"

lemma term_getCursor_answer:
  assumes "xe_tcget env" "xe_tcset env" "shown_size r c"
  shows "term_getCursor env old (answer r c @ inp) = Some (0, (int c, int r), inp)"
proof -
  define w where "w = dec r @ '';'' @ dec c"
  have semi: "digit_val (CHR '';'') \<ge> 10" "digit_val (CHR ''R'') \<ge> 10" "digit_val (CHR 0x1b) \<ge> 10" by (simp_all add: digit_val_def isdigit_def code_def)
  have w: "CHR 0x1b \<notin> set w" "CHR ''R'' \<notin> set w" using dec_no semi by (simp_all add: w_def)
  have len: "length w + 2 \<le> 14" "length w + 2 \<ge> 5"
    using assms(3) dec_hd [of r] dec_hd [of c] by (auto simp: w_def shown_size_def Suc_le_eq neq_Nil_conv)
  have "getCursor_loop [CHR 0x1b, CHR ''[''] 0 (map TIn (w @ ''R'') @ inp) = Some ((CHR 0x1b # CHR ''['' # w, 0, True), inp)"
    using getCursor_loop_run [OF w, of "[CHR 0x1b, CHR ''['']" inp] len by simp
  then have "getCursor_loop [] 0 (answer r c @ inp) = Some ((CHR 0x1b # CHR ''['' # w, 0, True), inp)"
    by (simp add: answer_def w_def getCursor_loop.simps [of "[]"] getCursor_loop.simps [of "[CHR 0x1b]"])
  moreover have "scan_cursor (CHR 0x1b # CHR ''['' # w) = Some (int c, int r)"
    using scan_int_dec [of "'';'' @ dec c" r] scan_int_dec [of "[]" c] semi by (simp add: scan_cursor_def w_def)
  ultimately show ?thesis using assms(1,2) by (simp add: term_getCursor_def)
qed

lemma term_getSize_answers:
  assumes "xe_tcget env" "xe_tcset env" "shown_size r1 c1" "shown_size r2 c2"
  shows "term_getSize env (answer r1 c1 @ answer r2 c2 @ inp) = Some (Some (int c2, int r2), inp)"
  using term_getCursor_answer [OF assms(1,2,3)] term_getCursor_answer [OF assms(1,2,4)] by (simp add: term_getSize_def)

section \<open>Sessions\<close>

lemma edit_open_ok:
  assumes "plenty env" "xe_stat env f" "xe_file env f = Some c"
  shows "\<exists>rs t. edit_init env [a0, f] s = Some (int (length rs), (edit_clear s)\<lparr>x_tick := t, x_filename := Some f, x_row := rs, x_dirty := False, x_hbar := 2\<rparr>)
    \<and> map line_of rs = map strip_eol (getlines c) \<and> (\<forall>r \<in> set rs. row_ok r)"
proof -
  define s1 where "s1 = (edit_clear s)\<lparr>x_tick := x_tick (edit_clear s) + 1, x_filename := Some f\<rparr>"
  have r: "x_row s1 = []" by (simp add: s1_def edit_clear_def)
  obtain rs t b where "open_loop env (getlines c) s1 = Some (s1\<lparr>x_tick := t, x_row := rs, x_dirty := b\<rparr>)" "map line_of rs = map strip_eol (getlines c)"
    "\<forall>r \<in> set rs. row_ok r"
    using open_loop_ok [OF assms(1), of s1 "getlines c"] r by auto
  then show ?thesis
    using assms by (auto simp: edit_init_def edit_open_def alloc_def s1_def [symmetric] intro!: exI [of _ rs] exI [of _ t]) (simp add: s1_def)
qed

lemma first_redraw:
  assumes "text_ok s" "x_vx s = 0" "x_vy s = 0" "x_hbar s = 2" "t_ev s = EvNone" "t_evCnt s = 0" "\<not> x_replace s" "x_filename s = Some f"
    "term_getSize env inp = Some (Some (int w, int h), inp1)" "3 \<le> h" "h < 2 ^ 31" "1 \<le> w"
  shows "\<exists>s' os scr. idle s' scr f \<and> doc_of s' = doc_of s \<and> edit_loop env EvRedraw s inp = map_option (prep os []) (edit_loop env EvNone s' inp1)"
proof -
  define s1 where "s1 = s\<lparr>t_evCnt := 1, t_cols := int w, t_rows := int h\<rparr>"
  have "s\<lparr>t_ev := EvNone\<rparr> = s" using assms(5) by simp
  then have ev: "term_getEvent s EvRedraw inp = Some (1, s\<lparr>t_evCnt := 1\<rparr>, EvRedraw, inp)" using assms(5,6) by (simp add: term_getEvent_def)
  have doc: "doc_of s1 = doc_of s" by (simp add: s1_def doc_of_def text_of_def)
  have "text_ok s1" using assms(1) doc by (simp add: text_ok_def) (simp add: s1_def)
  moreover have "0 \<le> x_vy s1" "0 \<le> x_vx s1" "term_ok s1" using assms by (simp_all add: s1_def term_ok_def)
  ultimately obtain s' os where d: "edit_draw True s1 = Some (s', os)" "shows_text (paint os (\<lambda>_. None)) s'" "edit_ok s'" "in_view s'" "drawn s1 s'"
    using edit_draw_shows [of s1 True "\<lambda>_. None"] by blast
  have "edit_handleEvent env EvRedraw (s\<lparr>t_evCnt := 1\<rparr>) inp = Some \<lparr>xr_state = s', xr_ev = EvNone, xr_inp = inp1, xr_out = os, xr_files = []\<rparr>"
    using d(1) assms(9) by (simp add: edit_handleEvent_def s1_def)
  then have "edit_loop env EvRedraw s inp = map_option (prep os []) (edit_loop env EvNone s' inp1)"
    by (subst edit_loop.simps) (simp add: ev prep_def map_option_case case_prod_beta split: option.split)
  moreover have "idle s' (paint os (\<lambda>_. None)) f" "doc_of s' = doc_of s"
    using d \<open>term_ok s1\<close> assms(5,7,8) doc by (simp_all add: idle_def settled_def drawn_def term_ok_def) (simp_all add: s1_def)
  ultimately show ?thesis by blast
qed

text \<open>The answers of a terminal with \<open>h\<close> rows and \<open>w\<close> columns to one query of its size.\<close>

definition size_answers :: "nat \<Rightarrow> nat \<Rightarrow> tin list" where
  "size_answers h w = answer 1 1 @ answer h w"

text \<open>
  C6: A session of the editor on a file with no carriage return and no NUL: whatever text of printable
  characters, tabs and newlines is typed, ^S and ^Q then end the editor with 0, and the one file it wrote
  is the typed text followed by the old content, whose last line is closed by a newline; a file that was
  empty gets a newline at its end unless only newlines were typed. The terminal answers the two queries of
  its size and has at least 3 rows; memory and the disk suffice.
\<close>

theorem edit_session_saves:
  assumes "plenty env" "xe_stat env f" "xe_file env f = Some c" "xe_fopenw env" "\<forall>n. xe_print env n" "xe_tcget env" "xe_tcset env"
    "t_ev s = EvNone" "t_evCnt s = 0" "NUL \<notin> set c" "CHR 0x0d \<notin> set c" "\<forall>ch \<in> set t. typable ch"
    "3 \<le> h" "h < 2 ^ 31" "1 \<le> w" "shown_size h w"
  shows "\<exists>s' os. edit_main env [a0, f] s (size_answers h w @ size_answers h w @ map TIn t @ TIn (CHR 0x13) # TIn (CHR 0x11) # inp)
    = Some (0, s', os, [(f, t @ (if c \<noteq> [] then closed_text c else if set t \<subseteq> {CHR 0x0a} then [] else [CHR 0x0a]))])"
proof -
  define rest where "rest = map TIn t @ TIn (CHR 0x13) # TIn (CHR 0x11) # inp"
  have one: "shown_size 1 1" by (simp add: shown_size_def dec.simps)
  have sz: "term_getSize env (size_answers h w @ i) = Some (Some (int w, int h), i)" for i
    using term_getSize_answers [OF assms(6,7) one assms(16)] by (simp add: size_answers_def)
  obtain rs tk where init: "edit_init env [a0, f] s = Some (int (length rs), (edit_clear s)\<lparr>x_tick := tk, x_filename := Some f, x_row := rs, x_dirty := False, x_hbar := 2\<rparr>)"
    and rs: "map line_of rs = map strip_eol (getlines c)" "\<forall>r \<in> set rs. row_ok r" using edit_open_ok [OF assms(1-3)] by blast
  define s1 where "s1 = (edit_clear s)\<lparr>x_tick := tk, x_filename := Some f, x_row := rs, x_dirty := False, x_hbar := 2, t_rows := int w, t_cols := int h\<rparr>"
  have tset: "term_setup env ((edit_clear s)\<lparr>x_tick := tk, x_filename := Some f, x_row := rs, x_dirty := False, x_hbar := 2\<rparr>) (size_answers h w @ size_answers h w @ rest)
    = Some (0, s1, size_answers h w @ rest)"
    using sz assms(6,7,13,15) by (simp add: term_setup_def s1_def)
  have doc1: "doc_of s1 = (map strip_eol (getlines c), 0, 0)" using rs(1) by (simp add: doc_of_def text_of_def s1_def edit_clear_def)
  have "text_ok s1" using rs(2) doc1 by (simp add: text_ok_def doc_ok_def) (simp add: s1_def edit_clear_def)
  then obtain s2 os2 scr where s2: "idle s2 scr f" "doc_of s2 = doc_of s1" "edit_loop env EvRedraw s1 (size_answers h w @ rest) = map_option (prep os2 []) (edit_loop env EvNone s2 rest)"
    using first_redraw [of s1 f env "size_answers h w @ rest" w h rest] sz assms(8,9,13-15) by (auto simp: s1_def edit_clear_def)
  obtain s3 os3 where s3: "idle s3 (paint os3 scr) f" "doc_of s3 = fold d_type t (doc_of s2)"
    "\<forall>inp. edit_loop env EvNone s2 (map TIn t @ inp) = map_option (prep os3 []) (edit_loop env EvNone s3 inp)"
    using type_text [OF assms(1) s2(1) assms(12)] by blast
  define out where "out = t @ (if c \<noteq> [] then closed_text c else if set t \<subseteq> {CHR 0x0a} then [] else [CHR 0x0a])"
  have all: "concat (map eol (map strip_eol (getlines c))) = closed_text c" using getlines_text [OF assms(11)] by (simp add: o_def)
  have ok2: "doc_ok (doc_of s2)" using s2(1) by (simp add: idle_def settled_def edit_ok_def text_ok_def)
  have "before (doc_of s2) = []" by (simp add: s2(2) doc1 before_def)
  moreover have "behind (doc_of s2) = closed_text c" using before_behind [OF ok2] all \<open>before (doc_of s2) = []\<close> by (simp add: s2(2) doc1)
  moreover have "closed_text c = [] \<longleftrightarrow> c = []" by (simp add: closed_text_def)
  ultimately have "before (doc_of s3) @ behind (doc_of s3) = out"
    using typed_text [OF ok2, of t] by (auto simp: s3(2) out_def)
  then have written: "concat (map eol (text_of s3)) = out"
    using before_behind [of "doc_of s3"] typed_text [OF ok2, of t] by (simp add: s3(2) [symmetric])
  have "NUL \<notin> set t" using assms(12) by (auto simp: typable_def iscntrl_def)
  then have "NUL \<notin> set out" using assms(10) by (auto simp: out_def closed_text_def)
  then have "\<forall>l \<in> set (text_of s3). NUL \<notin> set l" unfolding written [symmetric] by (auto simp: eol_def split: if_splits)
  then obtain s4 os4 where "edit_loop env EvNone s3 (TIn (CHR 0x13) # TIn (CHR 0x11) # inp) = Some (0, s4, os4, [(f, out)])"
    using save_and_quit [OF s3(1) assms(4,5), of inp] written by auto
  then have "edit_loop env EvRedraw s1 (size_answers h w @ rest) = Some (0, s4, os2 @ os3 @ os4, [(f, out)])"
    using s2(3) s3(3) by (simp add: rest_def prep_def)
  then show ?thesis
    using init tset unfolding rest_def [symmetric] out_def [symmetric] by (auto simp: edit_main_def)
qed

theorem edit_session_saves_witness:
  "\<exists>s' os. edit_main env0 [''edit'', ''f''] edit0 (size_answers 25 80 @ size_answers 25 80 @ map TIn (''hi'' @ [CHR 0x0a]) @ [TIn (CHR 0x13), TIn (CHR 0x11)])
     = Some (0, s', os, [(''f'', ''hi'' @ [CHR 0x0a] @ ''one'' @ [CHR 0x0a])])"
proof -
  have "shown_size 25 80" by (simp add: shown_size_def dec.simps)
  then show ?thesis
    using edit_session_saves [OF env0_plenty, of "''f''" "''one''" edit0 "''hi'' @ [CHR 0x0a]" 25 80 "''edit''" "[]"]
    by (simp add: env0_def edit0_def typable_def iscntrl_def code_def closed_text_def)
qed

text \<open>
  When the terminal is gone and every read gives the end of the file, the main loop ignores it: it
  takes any number of such reads, draws nothing, and goes on reading, so that the editor never ends on
  such an input.
\<close>

lemma edit_eof_spins:
  assumes "t_ev s = EvNone"
  shows "edit_loop env EvNone s (replicate n TEof @ inp) = edit_loop env EvNone (if n = 0 then s else s\<lparr>t_evCnt := 0\<rparr>) inp
    \<and> edit_loop env EvNone s (replicate n TEof) = None"
proof -
  have upd: "s\<lparr>t_ev := EvNone\<rparr> = s" if "t_ev s = EvNone" for s :: edit using that by simp
  have step: "edit_loop env EvNone s (TEof # i) = edit_loop env EvNone (s\<lparr>t_evCnt := 0\<rparr>) i" if "t_ev s = EvNone" for s i
    by (subst edit_loop.simps) (simp add: term_getEvent_def getEvent_loop.simps [of "[]"] edit_handleEvent_def that upd)
  have eq: "edit_loop env EvNone s (replicate n TEof @ inp) = edit_loop env EvNone (if n = 0 then s else s\<lparr>t_evCnt := 0\<rparr>) inp" for inp
    using assms by (induction n arbitrary: s) (simp_all add: step)
  have "edit_loop env EvNone s' [] = None" if "t_ev s' = EvNone" for s'
    by (subst edit_loop.simps) (simp add: term_getEvent_def getEvent_loop.simps [of "[]"] that)
  then show ?thesis using eq [of inp] eq [of "[]"] assms by simp
qed

text \<open>Without an answer of the terminal the default of 80 columns and 25 rows is stored the other way round.\<close>

lemma term_setup_swaps:
  assumes "xe_tcget env" "xe_tcset env" "term_getSize env inp = Some (None, inp1)"
  shows "\<exists>s'. term_setup env s inp = Some (0, s', inp1) \<and> t_rows s' = 80 \<and> t_cols s' = 25"
  using assms by (simp add: term_setup_def)

end
