(* ===== verification/Ping.thy ===== *)
theory Ping
  imports Ptable Getopt "HOL-Library.Word" "HOL-Library.Monad_Syntax"
begin

text \<open>
  The \<open>ping\<close> applet for IPv4, \<open>src/psh/ping/ping.c\<close>: the checksum, the echo request, the check of a reply
  and the applet. (The functions for IPv6 are compiled only with \<open>PSH_IPV6_SUPPORT\<close> and are left out.)

  Packets are lists of bytes and every access is checked: \<open>None\<close> is an access outside the buffer, or a loop
  that goes on when the list of received packets is used up. Multi-byte fields are written byte by
  byte in network order. What \<open>malloc\<close> leaves in a buffer, the resolver and the socket are parameters.
\<close>

section \<open>Checksum\<close>

function chk_loop :: "8 word list \<Rightarrow> nat \<Rightarrow> nat \<Rightarrow> nat \<Rightarrow> nat option" where
  "chk_loop data len i acc =
     (if i < len then do { a \<leftarrow> peek data i; b \<leftarrow> peek data (i + 1); chk_loop data len (i + 2) ((acc + (256 * unat a + unat b)) mod 2 ^ 32) }
      else Some acc)"
  by pat_completeness auto
termination by (relation "measure (\<lambda>(data, len, i, acc). len - i)") auto

declare chk_loop.simps [simp del]

definition chk_fold :: "nat \<Rightarrow> nat" where
  "chk_fold s = s div 2 ^ 16 + s mod 2 ^ 16"

definition ping_chksum :: "8 word list \<Rightarrow> nat \<Rightarrow> nat option" where
  "ping_chksum data len = do {
     s \<leftarrow> chk_loop data len 0 0;
     s1 \<leftarrow> (if len mod 2 \<noteq> 0 then do { a \<leftarrow> peek data (len - 1); Some ((s + 256 * unat a) mod 2 ^ 32) } else Some s);
     Some (2 ^ 16 - 1 - chk_fold (chk_fold s1) mod 2 ^ 16) }"

section \<open>Requests\<close>

text \<open>Two bytes in network order at \<open>i\<close>.\<close>

definition put16 :: "8 word list \<Rightarrow> nat \<Rightarrow> nat \<Rightarrow> 8 word list option" where
  "put16 data i v = do { d \<leftarrow> poke data i (of_nat (v div 256)); poke d (i + 1) (of_nat v) }"

definition get16 :: "8 word list \<Rightarrow> nat \<Rightarrow> nat option" where
  "get16 data i = do { a \<leftarrow> peek data i; b \<leftarrow> peek data (i + 1); Some (256 * unat a + unat b) }"

abbreviation (input) ICMP_HDR :: nat where "ICMP_HDR \<equiv> 8"
abbreviation (input) IP_HDR :: nat where "IP_HDR \<equiv> 20"
abbreviation (input) ICMP_ECHO :: nat where "ICMP_ECHO \<equiv> 8"
abbreviation (input) ICMP_ECHOREPLY :: nat where "ICMP_ECHOREPLY \<equiv> 0"

definition MAX_ECHO_PAYLOAD :: nat where "MAX_ECHO_PAYLOAD = 2032"

text \<open>The loop that fills the payload; its bound is the \<open>size_t\<close> value of \<open>len - sizeof(struct icmphdr)\<close>.\<close>

function reqinit_loop :: "8 word list \<Rightarrow> nat \<Rightarrow> nat \<Rightarrow> 8 word list option" where
  "reqinit_loop data n i =
     (if i < n then do { d \<leftarrow> poke data (ICMP_HDR + i) (of_nat i); reqinit_loop d n (i + 1) } else Some data)"
  by pat_completeness auto
termination by (relation "measure (\<lambda>(data, n, i). n - i)") auto

declare reqinit_loop.simps [simp del]

definition ping_reqinit :: "nat \<Rightarrow> 8 word list \<Rightarrow> nat \<Rightarrow> 8 word list option" where
  "ping_reqinit myid data len = do {
     d \<leftarrow> poke data 0 (of_nat ICMP_ECHO);
     d \<leftarrow> put16 d 4 myid;
     reqinit_loop d (nat ((int len - int ICMP_HDR) mod 2 ^ 64)) 0 }"

text \<open>\<open>ping_echo\<close> up to the call of \<open>sendto\<close>: the packet; the sequence number is counted by the caller.\<close>

definition ping_echo :: "int \<Rightarrow> 8 word list \<Rightarrow> nat \<Rightarrow> 8 word list option" where
  "ping_echo seq data len = do {
     d \<leftarrow> put16 data 6 (nat (seq mod 2 ^ 16));
     d \<leftarrow> put16 d 2 0;
     c \<leftarrow> ping_chksum d len;
     put16 d 2 c }"

section \<open>Replies\<close>

text \<open>
  What \<open>recvfrom\<close> gives: nothing, or the bytes and the sender. The buffer keeps what earlier packets left
  behind the end of a shorter one. Results that are negative numbers are an \<open>Inl\<close> with that number.
\<close>

datatype recv = RxFail | Rx "8 word list" nat

fun reply_wait :: "nat \<Rightarrow> 8 word list \<Rightarrow> recv list \<Rightarrow> ((int + 8 word list \<times> nat \<times> nat) \<times> recv list) option" where
  "reply_wait myid buf [] = None"
| "reply_wait myid buf (RxFail # rs) = Some (Inl (- EIO), rs)"
| "reply_wait myid buf (Rx d addr # rs) =
     (let bytes = min (length d) (length buf); buf' = take bytes d @ drop bytes buf in
      if bytes = 0 then Some (Inl (- EIO), rs)
      else if bytes < IP_HDR + ICMP_HDR then Some (Inl (- EIO), rs)
      else do { i \<leftarrow> get16 buf' (IP_HDR + 4); t \<leftarrow> peek buf' IP_HDR;
        if i = myid \<and> unat t = ICMP_ECHOREPLY then Some (Inr (buf', bytes - IP_HDR, addr), rs) else reply_wait myid buf' rs })"

abbreviation (input) EFAULT :: int where "EFAULT \<equiv> 14"

text \<open>
  \<open>seq\<close> is the number after the increment; \<open>ntop\<close> says whether \<open>inet_ntop\<close> can print the sender. The header
  is at \<open>data + sizeof(struct iphdr)\<close>.
\<close>

definition ping_reply :: "nat \<Rightarrow> (nat \<Rightarrow> bool) \<Rightarrow> nat \<Rightarrow> int \<Rightarrow> 8 word list \<Rightarrow> recv list \<Rightarrow> ((int + nat) \<times> recv list) option" where
  "ping_reply myid ntop raddr seq buf rs = (case reply_wait myid buf rs of
     None \<Rightarrow> None
   | Some (Inl e, rs') \<Rightarrow> Some (Inl e, rs')
   | Some (Inr (d, bytes, addr), rs') \<Rightarrow>
       if \<not> ntop addr then Some (Inl (- EFAULT), rs')
       else if addr \<noteq> raddr then Some (Inl (- EFAULT), rs')
       else do {
         let icmp = drop IP_HDR d;
         rcvd \<leftarrow> get16 icmp 2;
         icmp \<leftarrow> put16 icmp 2 0;
         cal \<leftarrow> ping_chksum icmp bytes;
         sq \<leftarrow> get16 icmp 6;
         if rcvd \<noteq> cal then Some (Inl (- EIO), rs')
         else if int sq \<noteq> seq - 1 then Some (Inl (- EIO), rs')
         else Some (Inr bytes, rs') })"

section \<open>The applet\<close>

record pingopts =
  pg_cnt :: int
  pg_interval :: int
  pg_timeout :: int
  pg_ttl :: int
  pg_reqsz :: int

definition ping_defaults :: pingopts where
  "ping_defaults = \<lparr>pg_cnt = 5, pg_interval = 1000, pg_timeout = 2000, pg_ttl = 64, pg_reqsz = 56 + int ICMP_HDR\<rparr>"

text \<open>\<open>strtoul\<close> with base 10 on 64 bits, whether it stopped at the end, and the conversion to \<open>int\<close>.\<close>

definition strtoul_dec64 :: "string \<Rightarrow> nat \<times> bool" where
  "strtoul_dec64 s =
     (let s1 = dropWhile isspace s;
          neg = (s1 \<noteq> [] \<and> hd s1 = CHR ''-'');
          s2 = (if s1 \<noteq> [] \<and> (hd s1 = CHR ''-'' \<or> hd s1 = CHR ''+'') then tl s1 else s1)
      in if s2 = [] \<or> \<not> digit_val (hd s2) < 10 then (0, s = [])
         else (case digits 10 0 s2 of (v, rest) \<Rightarrow>
           (if v \<ge> 2 ^ 64 then 2 ^ 64 - 1 else if neg then (2 ^ 64 - v) mod 2 ^ 64 else v, rest = [])))"

definition as_int :: "nat \<Rightarrow> int" where
  "as_int v = (int v + 2 ^ 31) mod 2 ^ 32 - 2 ^ 31"

text \<open>One option; \<open>Inl\<close> is the exit status. The size is compared as \<open>size_t\<close>.\<close>

definition ping_opt :: "optev \<Rightarrow> pingopts \<Rightarrow> int + pingopts" where
  "ping_opt ev g = (case ev of
     OptErr _ \<Rightarrow> Inl 0
   | Opt x None \<Rightarrow> Inl 0
   | Opt x (Some a) \<Rightarrow> (case strtoul_dec64 a of (v, full) \<Rightarrow>
       if x = CHR ''c'' then (if \<not> full \<or> as_int v \<le> 0 then Inl 1 else Inr (g\<lparr>pg_cnt := as_int v\<rparr>))
       else if x = CHR ''t'' then (if \<not> full \<or> as_int v \<le> 0 then Inl 1 else Inr (g\<lparr>pg_ttl := as_int v\<rparr>))
       else if x = CHR ''i'' then (if \<not> full \<or> as_int v < 0 then Inl 1 else Inr (g\<lparr>pg_interval := as_int v\<rparr>))
       else if x = CHR ''W'' then (if \<not> full \<or> as_int v \<le> 100 then Inl 1 else Inr (g\<lparr>pg_timeout := as_int v\<rparr>))
       else if x = CHR ''s'' then
         (let sz = as_int ((v + ICMP_HDR) mod 2 ^ 64) in
          if \<not> full \<or> sz mod 2 ^ 64 > int (MAX_ECHO_PAYLOAD + ICMP_HDR) then Inl 1 else Inr (g\<lparr>pg_reqsz := sz\<rparr>))
       else Inl 0))"

fun ping_opts :: "optev list \<Rightarrow> pingopts \<Rightarrow> int + pingopts" where
  "ping_opts [] g = Inr g"
| "ping_opts (e # es) g = (case ping_opt e g of Inl r \<Rightarrow> Inl r | Inr g' \<Rightarrow> ping_opts es g')"

text \<open>
  The network: \<open>getaddrinfo\<close> (its result, and for each address found whether it is of the family asked for), whether the address can be printed, what \<open>malloc\<close>
  gives for the request and whether the reply buffer and the socket can be had, the process number; for
  each echo the result of \<open>sendto\<close>, the flag \<open>psh_common.sigint\<close> before it and the packets that are received.
\<close>

record pingnet =
  pn_getaddrinfo :: "string \<Rightarrow> int \<times> (bool \<times> nat) list"
  pn_ntop :: "nat \<Rightarrow> bool"
  pn_errno :: int
  pn_malloc :: "nat \<Rightarrow> 8 word list option"
  pn_resp :: bool
  pn_socket :: bool
  pn_pid :: nat

record pingturn =
  pt_sigint :: bool
  pt_sent :: int
  pt_recv :: "recv list"

definition ping_resolveAddress :: "pingnet \<Rightarrow> string \<Rightarrow> int \<times> nat" where
  "ping_resolveAddress net src = (case pn_getaddrinfo net src of (ret, result) \<Rightarrow>
     if ret \<noteq> 0 then (ret, 0) else (case find fst result of None \<Rightarrow> (- EFAULT, 0) | Some (_, addr) \<Rightarrow> (0, addr)))"

definition ping_echoreply :: "pingnet \<Rightarrow> nat \<Rightarrow> int \<Rightarrow> pingturn \<Rightarrow> int \<Rightarrow> 8 word list \<Rightarrow> (int \<times> 8 word list) option" where
  "ping_echoreply net raddr reqsz tn seq req = do {
     req \<leftarrow> ping_echo seq req (nat reqsz);
     if pt_sent tn \<noteq> reqsz then Some (- EIO, req)
     else do {
       (r, rs) \<leftarrow> ping_reply (pn_pid net mod 2 ^ 16) (pn_ntop net) raddr (seq + 1) (replicate (IP_HDR + nat reqsz) 0) (pt_recv tn);
       Some (case r of Inl e \<Rightarrow> - EIO | Inr n \<Rightarrow> 0, req) } }"

text \<open>The loop: its result and how many replies it got; \<open>None\<close> when the turns are used up.\<close>

fun ping_loop :: "pingnet \<Rightarrow> nat \<Rightarrow> int \<Rightarrow> pingturn list \<Rightarrow> int \<Rightarrow> int \<Rightarrow> 8 word list \<Rightarrow> nat \<Rightarrow> (int \<times> nat) option" where
  "ping_loop net raddr reqsz tns cnt seq req got =
     (if cnt > 0 then
        (case tns of
           [] \<Rightarrow> None
         | tn # tns' \<Rightarrow>
             if pt_sigint tn then Some (0, got)
             else (case ping_echoreply net raddr reqsz tn seq req of
                 None \<Rightarrow> None
               | Some (ret, req') \<Rightarrow>
                   if ret \<noteq> 0 then Some (ret, got) else ping_loop net raddr reqsz tns' (cnt - 1) (seq + 1) req' (got + 1)))
      else Some (0, got))"

declare ping_loop.simps [simp del]

definition ping_sendping4 :: "pingnet \<Rightarrow> pingopts \<Rightarrow> pingturn list \<Rightarrow> string \<Rightarrow> (int \<times> nat) option" where
  "ping_sendping4 net g tns src = (case ping_resolveAddress net src of (ret, raddr) \<Rightarrow>
     if ret \<noteq> 0 then Some (ret, 0)
     else if \<not> pn_ntop net raddr then Some (- pn_errno net, 0)
     else (case pn_malloc net (nat (pg_reqsz g)) of
         None \<Rightarrow> Some (- ENOMEM, 0)
       | Some req \<Rightarrow>
           if \<not> pn_resp net then Some (- ENOMEM, 0)
           else if \<not> pn_socket net then Some (- EIO, 0)
           else (case ping_reqinit (pn_pid net mod 2 ^ 16) req (nat (pg_reqsz g)) of
               None \<Rightarrow> None
             | Some req \<Rightarrow> ping_loop net raddr (pg_reqsz g) tns (pg_cnt g) 1 req 0)))"

definition psh_ping :: "pingnet \<Rightarrow> string list \<Rightarrow> pingturn list \<Rightarrow> (int \<times> nat) option" where
  "psh_ping net argv tns = (case getopt_scan ''i:t:c:W:s:h6'' (tl argv) of (evs, args) \<Rightarrow>
     (case ping_opts evs ping_defaults of
        Inl r \<Rightarrow> Some (r, 0)
      | Inr g \<Rightarrow>
          if length args \<noteq> 1 then Some (1, 0)
          else map_option (\<lambda>(ret, got). (if ret \<ge> 0 then 0 else 1, got)) (ping_sendping4 net g tns (hd args))))"

section \<open>The Internet checksum\<close>

text \<open>The reference: 16 bit words in network order, added with the carry brought round at once.\<close>

fun words16 :: "8 word list \<Rightarrow> nat list" where
  "words16 (a # b # r) = (256 * unat a + unat b) # words16 r"
| "words16 [a] = [256 * unat a]"
| "words16 [] = []"

definition oc_add :: "nat \<Rightarrow> nat \<Rightarrow> nat" where
  "oc_add a b = (if a + b < 2 ^ 16 then a + b else a + b - (2 ^ 16 - 1))"

definition rfc1071 :: "8 word list \<Rightarrow> nat" where
  "rfc1071 d = 2 ^ 16 - 1 - fold oc_add (words16 d) 0"

lemma byte_less: "unat (a :: 8 word) < 256"
  using unsigned_less [where ?'a = nat, of a] by simp

lemma words16_bound: "w \<in> set (words16 d) \<Longrightarrow> w < 2 ^ 16"
proof (induction d rule: words16.induct)
  case (1 a b r)
  then show ?case using byte_less [of a] byte_less [of b] by auto
next
  case (2 a)
  then show ?case using byte_less [of a] by simp
qed simp

lemma oc_fold:
  "\<forall>w \<in> set ws. w < 2 ^ 16 \<Longrightarrow> acc < 2 ^ 16 \<Longrightarrow>
     fold oc_add ws acc < 2 ^ 16 \<and> fold oc_add ws acc mod 65535 = (acc + sum_list ws) mod 65535
     \<and> (fold oc_add ws acc = 0 \<longleftrightarrow> acc + sum_list ws = 0)"
proof (induction ws arbitrary: acc)
  case (Cons w ws)
  have "oc_add w acc < 2 ^ 16" "oc_add w acc mod 65535 = (w + acc) mod 65535" "oc_add w acc = 0 \<longleftrightarrow> w + acc = 0"
    using Cons.prems by (auto simp: oc_add_def mod_if)
  moreover have "(oc_add w acc + sum_list ws) mod 65535 = (w + acc + sum_list ws) mod 65535"
    using calculation(2) by (metis mod_add_left_eq)
  ultimately show ?case using Cons.IH [of "oc_add w acc"] Cons.prems(1) by (auto simp: add_ac)
qed simp

lemma chk_fold_small: "t \<le> 131070 \<Longrightarrow> chk_fold t < 2 ^ 16"
  by (cases "t < 65536") (auto simp: chk_fold_def le_mod_geq le_div_geq)

lemma chk_fold_props:
  assumes "s < 2 ^ 32"
  shows "chk_fold (chk_fold s) < 2 ^ 16" "chk_fold (chk_fold s) mod 65535 = s mod 65535" "chk_fold (chk_fold s) = 0 \<longleftrightarrow> s = 0"
proof -
  have m: "chk_fold t mod 65535 = t mod 65535" for t
  proof -
    have "t = t div 65536 * 65535 + chk_fold t" by (simp add: chk_fold_def)
    then show ?thesis by (metis mod_mult_self3)
  qed
  have z: "chk_fold t = 0 \<longleftrightarrow> t = 0" for t by (auto simp: chk_fold_def)
  have "s div 65536 < 65536" using assms by (simp add: less_mult_imp_div_less)
  then have "chk_fold s \<le> 131070" by (simp add: chk_fold_def)
  then show "chk_fold (chk_fold s) < 2 ^ 16" by (rule chk_fold_small)
  show "chk_fold (chk_fold s) mod 65535 = s mod 65535" "chk_fold (chk_fold s) = 0 \<longleftrightarrow> s = 0" by (simp_all add: m z)
qed

lemma same_residue: "a < 2 ^ 16 \<Longrightarrow> b < 2 ^ 16 \<Longrightarrow> a mod 65535 = b mod 65535 \<Longrightarrow> (a = 0 \<longleftrightarrow> b = 0) \<Longrightarrow> a = b" for a b :: nat
  by (cases "a = 65535"; cases "b = 65535") (auto simp: mod_less)

lemma fold_is_rfc:
  assumes "sum_list (words16 d) < 2 ^ 32"
  shows "2 ^ 16 - 1 - chk_fold (chk_fold (sum_list (words16 d))) mod 2 ^ 16 = rfc1071 d"
proof -
  have "\<forall>w \<in> set (words16 d). w < 2 ^ 16" using words16_bound by blast
  note oc = oc_fold [OF this, of 0, OF zero_less_power, OF zero_less_numeral, unfolded add_0]
  have "chk_fold (chk_fold (sum_list (words16 d))) = fold oc_add (words16 d) 0"
    by (rule same_residue) (use chk_fold_props [OF assms] oc in metis)+
  then show ?thesis using chk_fold_props(1) [OF assms] by (simp add: rfc1071_def)
qed

lemma words16_append: "even (length d) \<Longrightarrow> words16 (d @ e) = words16 d @ words16 e"
  by (induction d rule: words16.induct) auto

lemma words16_sum: "sum_list (words16 d) \<le> 65535 * ((length d + 1) div 2)"
proof (induction d rule: words16.induct)
  case (1 a b r)
  then show ?case using byte_less [of a] byte_less [of b] by simp
next
  case (2 a)
  then show ?case using byte_less [of a] by simp
qed simp

lemma peek_mid: "peek (pre @ a # r) (length pre) = Some a" "peek (pre @ a # b # r) (length pre + 1) = Some b"
  by (simp_all add: peek_def nth_append)

lemma chk_loop_even:
  "even (length d) \<Longrightarrow> acc < 2 ^ 32 \<Longrightarrow>
     chk_loop (pre @ d @ r) (length pre + length d) (length pre) acc = Some ((acc + sum_list (words16 d)) mod 2 ^ 32)"
proof (induction d arbitrary: pre acc rule: words16.induct)
  case (1 a b d)
  have "chk_loop (pre @ (a # b # d) @ r) (length pre + length (a # b # d)) (length pre) acc
      = chk_loop ((pre @ [a, b]) @ d @ r) (length (pre @ [a, b]) + length d) (length (pre @ [a, b])) ((acc + (256 * unat a + unat b)) mod 2 ^ 32)"
    using peek_mid(1) [of pre a "b # d @ r"] peek_mid(2) [of pre a b "d @ r"] by (subst chk_loop.simps) simp
  also have "\<dots> = Some (((acc + (256 * unat a + unat b)) mod 2 ^ 32 + sum_list (words16 d)) mod 2 ^ 32)"
    using 1 by (intro "1.IH") auto
  also have "((acc + (256 * unat a + unat b)) mod 2 ^ 32 + sum_list (words16 d)) mod 2 ^ 32
      = (acc + sum_list (words16 (a # b # d))) mod 2 ^ 32" by (simp only: mod_add_left_eq) (simp add: add_ac)
  finally show ?case .
next
  case 3
  then show ?case by (subst chk_loop.simps) simp
qed simp

lemma chksum_even:
  assumes "even (length d)" "length d \<le> 2 ^ 16"
  shows "ping_chksum (d @ r) (length d) = Some (rfc1071 d)"
proof -
  have s: "sum_list (words16 d) < 2 ^ 32" using words16_sum [of d] assms(2) by simp
  then show ?thesis
    using chk_loop_even [OF assms(1), of 0 "[]" r] assms(1) fold_is_rfc [OF s] by (simp add: ping_chksum_def even_iff_mod_2_eq_zero)
qed

text \<open>A packet of odd length: the byte behind it is read, and its last byte is added twice.\<close>

lemma chk_loop_step:
  "i < len \<Longrightarrow> chk_loop data len i acc =
     do { a \<leftarrow> peek data i; b \<leftarrow> peek data (i + 1); chk_loop data len (i + 2) ((acc + (256 * unat a + unat b)) mod 2 ^ 32) }"
  by (subst chk_loop.simps) simp

lemma chk_loop_split:
  "even (length d) \<Longrightarrow> acc < 2 ^ 32 \<Longrightarrow> length pre + length d \<le> len \<Longrightarrow>
     chk_loop (pre @ d @ r) len (length pre) acc
       = chk_loop (pre @ d @ r) len (length pre + length d) ((acc + sum_list (words16 d)) mod 2 ^ 32)"
proof (induction d arbitrary: pre acc rule: words16.induct)
  case (1 a b d)
  have "chk_loop (pre @ (a # b # d) @ r) len (length pre) acc
      = chk_loop ((pre @ [a, b]) @ d @ r) len (length (pre @ [a, b])) ((acc + (256 * unat a + unat b)) mod 2 ^ 32)"
    using 1 peek_mid(1) [of pre a "b # d @ r"] peek_mid(2) [of pre a b "d @ r"] by (subst chk_loop_step) auto
  also have "\<dots> = chk_loop ((pre @ [a, b]) @ d @ r) len (length (pre @ [a, b]) + length d)
      (((acc + (256 * unat a + unat b)) mod 2 ^ 32 + sum_list (words16 d)) mod 2 ^ 32)"
    using 1 by (intro "1.IH") auto
  also have "((acc + (256 * unat a + unat b)) mod 2 ^ 32 + sum_list (words16 d)) mod 2 ^ 32
      = (acc + sum_list (words16 (a # b # d))) mod 2 ^ 32" by (simp only: mod_add_left_eq) (simp add: add_ac)
  finally show ?case by simp
qed auto

lemma chksum_odd_overread:
  assumes "odd (length d)"
  shows "ping_chksum d (length d) = None"
proof -
  obtain e x where d: "d = e @ [x]" using assms by (cases d rule: rev_cases) auto
  then have e: "even (length e)" using assms by simp
  have "chk_loop (e @ [x]) (length d) 0 0 = chk_loop (e @ [x]) (length d) (length e) (sum_list (words16 e) mod 2 ^ 32)"
    using chk_loop_split [OF e, of 0 "[]" "length d" "[x]"] by (simp add: d)
  also have "\<dots> = None" using peek_mid(1) [of e x "[]"] by (subst chk_loop_step) (auto simp: d peek_def)
  finally show ?thesis by (simp add: ping_chksum_def d)
qed

lemma chksum_odd_wrong:
  assumes "even (length e)" "length e \<le> 2 ^ 16"
  shows "ping_chksum (e @ x # y # r) (length e + 1) = Some (rfc1071 (e @ [x, y, x, 0]))"
proof -
  have b: "sum_list (words16 (e @ [x, y, x, 0])) < 2 ^ 32" using words16_sum [of "e @ [x, y, x, 0]"] assms(2) by simp
  have w: "sum_list (words16 (e @ [x, y, x, 0])) = sum_list (words16 e) + (256 * unat x + unat y) + 256 * unat x"
    using words16_append [OF assms(1), of "[x, y, x, 0]"] by simp
  have odd1: "(length e + 1) mod 2 = 1" using assms(1) by presburger
  let ?m = "e @ x # y # r"
  have "chk_loop ?m (length e + 1) 0 0 = chk_loop ?m (length e + 1) (length e) (sum_list (words16 e) mod 2 ^ 32)"
    using chk_loop_split [OF assms(1), of 0 "[]" "length e + 1" "x # y # r"] by simp
  also have "\<dots> = Some (sum_list (words16 e) + (256 * unat x + unat y))"
    using b unfolding w
    by (subst chk_loop_step) (simp_all add: peek_mid(1) peek_mid(2) [simplified] chk_loop.simps [of ?m "Suc (length e)" "Suc (Suc (length e))"])
  finally have "chk_loop ?m (length e + 1) 0 0 = Some (sum_list (words16 e) + (256 * unat x + unat y))" .
  then show ?thesis
    using odd1 b fold_is_rfc [OF b] unfolding w by (simp add: ping_chksum_def peek_mid(1) add_ac)
qed

section \<open>Requests and replies\<close>

abbreviation hi :: "nat \<Rightarrow> 8 word" where "hi v \<equiv> of_nat (v div 256)"
abbreviation lo :: "nat \<Rightarrow> 8 word" where "lo v \<equiv> of_nat v"

lemma hi_lo: "v < 2 ^ 16 \<Longrightarrow> 256 * unat (hi v) + unat (lo v) = v"
  by (simp add: unsigned_of_nat take_bit_eq_mod less_mult_imp_div_less)

text \<open>An echo message with the checksum that belongs to it.\<close>

definition icmp_zero :: "8 word \<Rightarrow> 8 word \<Rightarrow> nat \<Rightarrow> nat \<Rightarrow> 8 word list \<Rightarrow> 8 word list" where
  "icmp_zero t cd id1 sq pl = [t, cd, 0, 0, hi id1, lo id1, hi sq, lo sq] @ pl"

definition icmp_msg :: "8 word \<Rightarrow> 8 word \<Rightarrow> nat \<Rightarrow> nat \<Rightarrow> 8 word list \<Rightarrow> 8 word list" where
  "icmp_msg t cd id1 sq pl =
     (let c = rfc1071 (icmp_zero t cd id1 sq pl) in [t, cd, hi c, lo c, hi id1, lo id1, hi sq, lo sq] @ pl)"

lemma reqinit_loop_fill:
  "length (hdr :: 8 word list) = 8 \<Longrightarrow> i \<le> n \<Longrightarrow> length pl = n \<Longrightarrow>
     reqinit_loop (hdr @ map of_nat [0..<i] @ drop i pl) n i = Some (hdr @ map of_nat [0..<n])"
proof (induction "n - i" arbitrary: i)
  case 0
  then show ?case by (subst reqinit_loop.simps) simp
next
  case (Suc k)
  then have i: "i < n" by simp
  have "(hdr @ map of_nat [0..<i] @ drop i pl)[8 + i := of_nat i] = hdr @ map of_nat [0..<Suc i] @ drop (Suc i) pl"
    using Suc.prems i by (simp add: list_update_append flip: Cons_nth_drop_Suc)
  then have "poke (hdr @ map of_nat [0..<i] @ drop i pl) (8 + i) (of_nat i) = Some (hdr @ map of_nat [0..<Suc i] @ drop (Suc i) pl)"
    using Suc.prems i by (simp add: poke_def)
  then show ?case using Suc.hyps Suc.prems i by (subst reqinit_loop.simps) (simp del: upt_Suc)
qed

lemma hdr_poke:
  "poke (a0 # d) 0 x = Some (x # d)" "poke (a0 # a1 # a2 # d) 2 x = Some (a0 # a1 # x # d)"
  "poke (a0 # a1 # a2 # a3 # d) 3 x = Some (a0 # a1 # a2 # x # d)" "poke (a0 # a1 # a2 # a3 # a4 # d) 4 x = Some (a0 # a1 # a2 # a3 # x # d)"
  "poke (a0 # a1 # a2 # a3 # a4 # a5 # d) 5 x = Some (a0 # a1 # a2 # a3 # a4 # x # d)"
  "poke (a0 # a1 # a2 # a3 # a4 # a5 # a6 # d) 6 x = Some (a0 # a1 # a2 # a3 # a4 # a5 # x # d)"
  "poke (a0 # a1 # a2 # a3 # a4 # a5 # a6 # a7 # d) 7 x = Some (a0 # a1 # a2 # a3 # a4 # a5 # a6 # x # d)"
  by (simp_all add: poke_def numeral_eq_Suc)

lemma hdr_peek:
  "peek (a0 # a1 # a2 # d) 2 = Some a2" "peek (a0 # a1 # a2 # a3 # d) 3 = Some a3"
  "peek (a0 # a1 # a2 # a3 # a4 # a5 # a6 # d) 6 = Some a6" "peek (a0 # a1 # a2 # a3 # a4 # a5 # a6 # a7 # d) 7 = Some a7"
  by (simp_all add: peek_def)

lemma list8: "length d \<ge> 8 \<Longrightarrow> \<exists>a0 a1 a2 a3 a4 a5 a6 a7 pl. d = [a0, a1, a2, a3, a4, a5, a6, a7] @ pl"
  by (auto simp: numeral_eq_Suc Suc_le_length_iff)

lemma reqinit_ok:
  assumes "length data = n" "8 \<le> n" "n < 2 ^ 63"
  shows "\<exists>a2 a3 a6 a7. ping_reqinit myid data n = Some ([8, data ! 1, a2, a3, hi myid, lo myid, a6, a7] @ map of_nat [0..<n - 8])"
proof -
  obtain a0 a1 a2 a3 a4 a5 a6 a7 pl where d: "data = [a0, a1, a2, a3, a4, a5, a6, a7] @ pl" using list8 [of data] assms by auto
  have "(int n - 8) mod 2 ^ 64 = int (n - 8)" using assms(2,3) by (simp add: of_nat_diff)
  then have "ping_reqinit myid data n = reqinit_loop ([8, a1, a2, a3, hi myid, lo myid, a6, a7] @ pl) (n - 8) 0"
    by (simp add: ping_reqinit_def put16_def d hdr_poke)
  also have "\<dots> = Some ([8, a1, a2, a3, hi myid, lo myid, a6, a7] @ map of_nat [0..<n - 8])"
    using reqinit_loop_fill [of "[8, a1, a2, a3, hi myid, lo myid, a6, a7]" 0 "n - 8" pl] assms(1) by (simp add: d)
  finally show ?thesis by (auto simp: d)
qed

lemma echo_ok:
  assumes "data = [t, cd, a2, a3, hi myid, lo myid, a6, a7] @ pl" "even (length data)" "length data \<le> 2 ^ 16"
  shows "ping_echo seq data (length data) = Some (icmp_msg t cd myid (nat (seq mod 2 ^ 16)) pl)"
proof -
  let ?z = "icmp_zero t cd myid (nat (seq mod 2 ^ 16)) pl"
  have "length ?z = length data" by (simp add: assms(1) icmp_zero_def)
  then have "ping_chksum ?z (length data) = Some (rfc1071 ?z)"
    using chksum_even [of ?z "[]"] assms(2,3) by simp
  then show ?thesis
    by (simp add: ping_echo_def assms(1) put16_def icmp_msg_def icmp_zero_def Let_def hdr_poke)
qed

lemma reply_exact:
  assumes "length ip = 20" "icmp = [0, cd, c1, c2, i1, i2, s1, s2] @ pl" "even (length icmp)" "length icmp \<le> 2 ^ 16"
    and "20 + length icmp \<le> length buf" "256 * unat i1 + unat i2 = myid" "ntop raddr"
  shows "ping_reply myid ntop raddr seq buf (Rx (ip @ icmp) raddr # rs) =
    Some (if 256 * unat c1 + unat c2 = rfc1071 ([0, cd, 0, 0, i1, i2, s1, s2] @ pl) \<and> int (256 * unat s1 + unat s2) = seq - 1
          then Inr (length icmp) else Inl (- EIO), rs)"
proof -
  define r where "r = drop (20 + length icmp) buf"
  have wait: "reply_wait myid buf (Rx (ip @ icmp) raddr # rs) = Some (Inr (ip @ icmp @ r, length icmp, raddr), rs)"
    using assms by (simp add: Let_def get16_def peek_def nth_append r_def min_def)
  have "ping_chksum (([0, cd, 0, 0, i1, i2, s1, s2] @ pl) @ r) (length ([0, cd, 0, 0, i1, i2, s1, s2] @ pl))
      = Some (rfc1071 ([0, cd, 0, 0, i1, i2, s1, s2] @ pl))"
    using assms(2-4) by (intro chksum_even) simp_all
  then show ?thesis
    unfolding ping_reply_def wait
    using assms(1,2,7) by (simp add: Let_def get16_def put16_def hdr_peek hdr_poke)
qed

section \<open>Whole runs\<close>

definition answered :: "pingnet \<Rightarrow> nat \<Rightarrow> nat \<Rightarrow> int \<Rightarrow> pingturn \<Rightarrow> bool" where
  "answered net raddr n seq tn \<longleftrightarrow> \<not> pt_sigint tn \<and> pt_sent tn = int n \<and>
     (\<exists>ip cd pl rest. length ip = 20 \<and> length pl = n - 8 \<and>
        pt_recv tn = Rx (ip @ icmp_msg 0 cd (pn_pid net mod 2 ^ 16) (nat (seq mod 2 ^ 16)) pl) raddr # rest)"

definition is_request :: "nat \<Rightarrow> nat \<Rightarrow> 8 word list \<Rightarrow> bool" where
  "is_request myid n req \<longleftrightarrow> length req = n \<and> (\<exists>t cd a2 a3 a6 a7 pl. req = [t, cd, a2, a3, hi myid, lo myid, a6, a7] @ pl)"

lemma rfc1071_less: "rfc1071 d < 2 ^ 16"
  by (simp add: rfc1071_def)

lemma echoreply_answered:
  assumes "is_request (pn_pid net mod 2 ^ 16) n req" "even n" "8 \<le> n" "n \<le> 2 ^ 16" "pn_ntop net raddr" "answered net raddr n seq tn" "0 \<le> seq"
  shows "\<exists>req'. ping_echoreply net raddr (int n) tn seq req = Some (if seq < 2 ^ 16 then 0 else - EIO, req') \<and> is_request (pn_pid net mod 2 ^ 16) n req'"
proof -
  let ?id = "pn_pid net mod 2 ^ 16" and ?sq = "nat (seq mod 2 ^ 16)"
  obtain t cd a2 a3 a6 a7 pl where req: "req = [t, cd, a2, a3, hi ?id, lo ?id, a6, a7] @ pl" "length req = n"
    using assms(1) unfolding is_request_def by blast
  define req' where "req' = icmp_msg t cd ?id ?sq pl"
  have e: "ping_echo seq req n = Some req'" using echo_ok [OF req(1), of seq] req(2) assms(2,4) by (simp add: req'_def)
  obtain ip cd' pl' rest where tn: "\<not> pt_sigint tn" "pt_sent tn = int n" "length ip = 20" "length pl' = n - 8"
    "pt_recv tn = Rx (ip @ icmp_msg 0 cd' ?id ?sq pl') raddr # rest"
    using assms(6) unfolding answered_def by blast
  define c where "c = rfc1071 (icmp_zero 0 cd' ?id ?sq pl')"
  have m: "icmp_msg 0 cd' ?id ?sq pl' = [0, cd', hi c, lo c, hi ?id, lo ?id, hi ?sq, lo ?sq] @ pl'"
    by (simp add: icmp_msg_def Let_def c_def)
  have len: "length (icmp_msg 0 cd' ?id ?sq pl') = n" unfolding m using tn(4) assms(3) by simp
  have sq: "?sq < 2 ^ 16" "int ?sq = seq \<longleftrightarrow> seq < 2 ^ 16"
    using assms(7) pos_mod_bound [of "2 ^ 16" seq] pos_mod_sign [of "2 ^ 16" seq] by (auto simp: nat_less_iff mod_eq_self_iff_div_eq_0)
  have "ping_reply ?id (pn_ntop net) raddr (seq + 1) (replicate (20 + n) 0) (pt_recv tn)
      = Some (if 256 * unat (hi c) + unat (lo c) = rfc1071 ([0, cd', 0, 0, hi ?id, lo ?id, hi ?sq, lo ?sq] @ pl')
            \<and> int (256 * unat (hi ?sq) + unat (lo ?sq)) = seq + 1 - 1 then Inr n else Inl (- EIO), rest)"
    unfolding tn(5) using reply_exact [OF tn(3) m] len assms(2,4,5) hi_lo [of ?id] by simp
  also have "\<dots> = Some (if seq < 2 ^ 16 then Inr n else Inl (- EIO), rest)"
    using hi_lo [OF sq(1)] hi_lo [of c] rfc1071_less sq(2) by (simp add: c_def icmp_zero_def)
  finally have r: "ping_reply ?id (pn_ntop net) raddr (seq + 1) (replicate (20 + n) 0) (pt_recv tn)
      = Some (if seq < 2 ^ 16 then Inr n else Inl (- EIO), rest)" .
  have "is_request ?id n req'"
    unfolding is_request_def req'_def icmp_msg_def Let_def using req by auto
  then show ?thesis using e r tn(2) by (simp add: ping_echoreply_def)
qed

lemma ping_loop_answered:
  assumes "is_request (pn_pid net mod 2 ^ 16) n req" "even n" "8 \<le> n" "n \<le> 2 ^ 16" "pn_ntop net raddr" "1 \<le> seq" "seq \<le> 2 ^ 16"
    and "length tns \<ge> N" "\<forall>i < N. answered net raddr n (seq + int i) (tns ! i)"
  shows "ping_loop net raddr (int n) tns (int N) seq req got
    = Some (if seq + int N \<le> 2 ^ 16 then (0, got + N) else (- EIO, got + nat (2 ^ 16 - seq)))"
  using assms(1,6-9)
proof (induction N arbitrary: tns seq req got)
  case 0
  then show ?case by (simp add: ping_loop.simps)
next
  case (Suc N)
  obtain tn tns' where t: "tns = tn # tns'" using Suc.prems(4) by (cases tns) auto
  have a: "answered net raddr n seq tn" using Suc.prems(5) t by force
  obtain req' where e: "ping_echoreply net raddr (int n) tn seq req = Some (if seq < 2 ^ 16 then 0 else - EIO, req')"
    "is_request (pn_pid net mod 2 ^ 16) n req'"
    using echoreply_answered [OF Suc.prems(1) assms(2-5) a] Suc.prems(2) by auto
  have ns: "\<not> pt_sigint tn" using a by (simp add: answered_def)
  show ?case
  proof (cases "seq < 2 ^ 16")
    case True
    have "\<forall>i < N. answered net raddr n (seq + 1 + int i) (tns' ! i)"
    proof (intro allI impI)
      fix i assume "i < N"
      then show "answered net raddr n (seq + 1 + int i) (tns' ! i)" using Suc.prems(5) [rule_format, of "Suc i"] t by (simp add: add_ac)
    qed
    then have "ping_loop net raddr (int n) tns' (int N) (seq + 1) req' (got + 1)
        = Some (if seq + 1 + int N \<le> 2 ^ 16 then (0, got + 1 + N) else (- EIO, got + 1 + nat (2 ^ 16 - (seq + 1))))"
      using Suc.prems True e(2) t by (intro Suc.IH) auto
    moreover have "got + 1 + nat (2 ^ 16 - (seq + 1)) = got + nat (2 ^ 16 - seq)" using True by simp
    ultimately show ?thesis using e ns True by (subst ping_loop.simps) (simp add: t add_ac)
  next
    case False
    then show ?thesis using e ns Suc.prems(3) by (subst ping_loop.simps) (simp add: t)
  qed
qed

text \<open>
  C31: The checksum is the Internet checksum for every packet of even length: what \<open>ping_chksum\<close> computes
  with a 32 bit sum and two foldings is the complement of the ones' complement sum of the reference, and
  only the bytes of the packet are read.
\<close>

theorem ping_chksum_equiv:
  assumes "even (length d)" "length d \<le> 2 ^ 16"
  shows "ping_chksum d (length d) = Some (rfc1071 d)"
  using chksum_even [OF assms, of "[]"] by simp

theorem ping_chksum_equiv_witness: "ping_chksum [0xff, 0xff, 0x12, 0x34] (length [0xff, 0xff, 0x12, 0x34 :: 8 word]) = Some (rfc1071 [0xff, 0xff, 0x12, 0x34])"
  by (rule ping_chksum_equiv) simp_all

text \<open>
  A defect: for a payload of odd size, as with \<open>ping -s 55\<close>, the checksum reads one byte behind the buffer of
  the request, so that no run gets past its first request; and where a byte follows, as in a reply,
  the sum has that byte in it and the last byte of the packet twice.
\<close>

lemma ping_odd_size_overread:
  assumes "ping_resolveAddress net src = (0, raddr)" "pn_ntop net raddr" "pn_malloc net n = Some req" "length req = n"
    and "pn_resp net" "pn_socket net" "odd n" "9 \<le> n" "n < 2 ^ 63" "pg_reqsz g = int n" "0 < pg_cnt g" "\<not> pt_sigint tn"
  shows "ping_sendping4 net g (tn # tns) src = None
    \<and> (\<forall>e x y r. even (length e) \<and> length e \<le> 2 ^ 16 \<longrightarrow> ping_chksum (e @ x # y # r) (length e + 1) = Some (rfc1071 (e @ [x, y, x, 0])))"
proof -
  obtain a2 a3 a6 a7 where i: "ping_reqinit (pn_pid net mod 2 ^ 16) req n =
      Some ([8, req ! 1, a2, a3, hi (pn_pid net mod 2 ^ 16), lo (pn_pid net mod 2 ^ 16), a6, a7] @ map of_nat [0..<n - 8])" (is "_ = Some ?r")
    using reqinit_ok [OF assms(4)] assms(8,9) by force
  have "ping_echo 1 ?r n = None"
  proof -
    let ?z = "icmp_zero 8 (req ! 1) (pn_pid net mod 2 ^ 16) 1 (map of_nat [0..<n - 8])"
    have "length ?z = n" using assms(8) by (simp add: icmp_zero_def)
    then have "ping_chksum ?z n = None" using chksum_odd_overread [of ?z] assms(7) by metis
    then show ?thesis by (simp add: ping_echo_def put16_def hdr_poke icmp_zero_def)
  qed
  then have "ping_loop net raddr (int n) (tn # tns) (pg_cnt g) 1 ?r 0 = None"
    using assms(11,12) by (subst ping_loop.simps) (simp add: ping_echoreply_def)
  then show ?thesis using assms i chksum_odd_wrong by (auto simp: ping_sendping4_def)
qed

definition net_demo :: pingnet where
  "net_demo = \<lparr>pn_getaddrinfo = \<lambda>_. (0, [(True, 1)]), pn_ntop = \<lambda>_. True, pn_errno = 0, pn_malloc = \<lambda>n. Some (replicate n 0), pn_resp = True,
     pn_socket = True, pn_pid = 77\<rparr>"

text \<open>
  C32: \<open>ping\<close> counts the replies. Against a host that answers every request with a correct reply, for every
  even size, a run of \<open>N\<close> requests gets \<open>N\<close> replies and ends with 0 as long as \<open>N\<close> is below 65536; the
  request number 65536 is sent with sequence number 0 and its reply is refused as out of sequence.
\<close>

theorem ping_counts_replies:
  assumes "ping_resolveAddress net src = (0, raddr)" "pn_ntop net raddr" "pn_malloc net n = Some req" "length req = n"
    and "pn_resp net" "pn_socket net" "even n" "8 \<le> n" "n \<le> 2 ^ 16" "pg_reqsz g = int n" "pg_cnt g = int N"
    and "length tns \<ge> N" "\<forall>i < N. answered net raddr n (1 + int i) (tns ! i)"
  shows "ping_sendping4 net g tns src = Some (if N < 2 ^ 16 then (0, N) else (- EIO, 2 ^ 16 - 1))"
proof -
  obtain r where i: "ping_reqinit (pn_pid net mod 2 ^ 16) req n = Some r" "is_request (pn_pid net mod 2 ^ 16) n r"
    using reqinit_ok [OF assms(4), of "pn_pid net mod 2 ^ 16"] assms(8,9) by (fastforce simp: is_request_def)
  have "ping_loop net raddr (int n) tns (int N) 1 r 0 = Some (if N < 2 ^ 16 then (0, N) else (- EIO, 2 ^ 16 - 1))"
    using ping_loop_answered [OF i(2) assms(7-9,2) _ _ assms(12,13), of 0] by simp
  then show ?thesis using assms i(1) by (simp add: ping_sendping4_def)
qed

theorem ping_counts_replies_witness:
  "ping_sendping4 net_demo (ping_defaults\<lparr>pg_cnt := int 1, pg_reqsz := int 10\<rparr>)
     [\<lparr>pt_sigint = False, pt_sent = 10, pt_recv = [Rx (replicate 20 0 @ icmp_msg 0 0 (pn_pid net_demo mod 2 ^ 16) 1 [7, 9]) 1]\<rparr>] ''host''
   = Some (if (1 :: nat) < 2 ^ 16 then (0, 1) else (- EIO, 2 ^ 16 - 1))"
proof -
  have "answered net_demo 1 10 1 \<lparr>pt_sigint = False, pt_sent = 10, pt_recv = [Rx (replicate 20 0 @ icmp_msg 0 0 (pn_pid net_demo mod 2 ^ 16) 1 [7, 9]) 1]\<rparr>"
    unfolding answered_def
    by (intro conjI, simp, simp, rule exI [of _ "replicate 20 0"], rule exI [of _ 0], rule exI [of _ "[7, 9]"], rule exI [of _ "[]"]) simp
  then show ?thesis
    by (intro ping_counts_replies [where n = 10 and req = "replicate 10 0" and raddr = 1])
      (simp_all add: net_demo_def ping_resolveAddress_def ping_defaults_def)
qed

section \<open>Too small a size\<close>

lemma reqinit_too_small:
  assumes "length data = n" "n < 8"
  shows "ping_reqinit myid data n = None"
proof -
  have big: "nat ((int n - int 8) mod 2 ^ 64) > 0"
  proof -
    have "(int n - 8) mod 2 ^ 64 = int n - 8 + 2 ^ 64" using assms(2) by (intro int_mod_pos_eq [of _ _ "-1"]) auto
    then show ?thesis by simp
  qed
  show ?thesis
    unfolding ping_reqinit_def put16_def
    using assms big by (subst reqinit_loop.simps) (auto simp: poke_def split: bind_splits)
qed

text \<open>
  A defect: a negative payload size is accepted and overruns the buffer. \<open>ping -s -1\<close> to \<open>ping -s -8\<close> pass the
  check of the options, because the header is added before the comparison, and the header and the fill
  pattern are then written behind a buffer of fewer than 8 bytes.
\<close>

lemma ping_negative_size_overrun:
  assumes "k \<in> {1..8}" "ping_resolveAddress net src = (0, raddr)" "pn_ntop net raddr" "pn_malloc net (8 - k) = Some req" "length req = 8 - k"
    and "pn_resp net" "pn_socket net" "CHR ''-'' \<noteq> hd src"
  shows "psh_ping net [''ping'', ''-s'', CHR ''-'' # dec k, src] tns = None"
proof -
  have k: "k = 1 \<or> k = 2 \<or> k = 3 \<or> k = 4 \<or> k = 5 \<or> k = 6 \<or> k = 7 \<or> k = 8" using assms(1) by auto
  then have "8 - k < 8" by auto
  have "dec k = [''0123456789'' ! k]" using k by (subst dec.simps) auto
  then have sz: "strtoul_dec64 (CHR ''-'' # dec k) = (2 ^ 64 - k, True)"
    using k by (auto simp: strtoul_dec64_def digit_val_def cclass code_def)
  have opt: "ping_opt (Opt (CHR ''s'') (Some (CHR ''-'' # dec k))) ping_defaults = Inr (ping_defaults\<lparr>pg_reqsz := int (8 - k)\<rparr>)"
    using k by (auto simp: ping_opt_def sz as_int_def MAX_ECHO_PAYLOAD_def)
  have "\<not> is_opt_word src" "src \<noteq> ''--''" using assms(8) by (auto simp: is_opt_word_def split: list.split)
  then have "getopt_scan ''i:t:c:W:s:h6'' [''-s'', a, src] = ([Opt (CHR ''s'') (Some a)], [src])" for a
    by (simp add: is_opt_word_def [of "''-s''"])
  moreover have "ping_sendping4 net (ping_defaults\<lparr>pg_reqsz := int (8 - k)\<rparr>) tns src = None"
    using assms(2-7) reqinit_too_small [OF assms(5)] \<open>8 - k < 8\<close> by (simp add: ping_sendping4_def)
  ultimately show ?thesis by (simp add: psh_ping_def opt)
qed

end
