(* ===== verification/Lowmemd.thy ===== *)
theory Lowmemd
  imports Ptable Getopt "HOL-Library.Multiset" Complex_Main
begin

text \<open>
  The low memory monitor, \<open>src/lowmemd/lowmemd.c\<close>: the scan of the processes, the choice of the process
  to kill, the reports and the main loop.

  What the kernel answers is a parameter: a \<open>snap\<close> for each scan (\<open>threadsinfo\<close> and \<open>meminfo\<close> of every
  process), a \<open>tick\<close> for each turn of the main loop. Byte counts are \<open>unsigned long long\<close>: naturals, with
  \<open>mod 2 ^ 64\<close> where they could wrap. The clock, a \<open>double\<close>, is a real number; the rounding of its sums is left
  out. What is logged is kept as a value with the numbers the line prints; \<open>lowmemd_line\<close> is the cut that
  the line buffer makes.
\<close>

section \<open>State\<close>

definition LOWMEMD_THREADS :: nat where "LOWMEMD_THREADS = 2048"
definition LOWMEMD_ENTRIES :: nat where "LOWMEMD_ENTRIES = 4096"
definition LOWMEMD_PROTECTED :: nat where "LOWMEMD_PROTECTED = 16"
definition LOWMEMD_TOP_MAX :: nat where "LOWMEMD_TOP_MAX = 16"
definition MIB :: nat where "MIB = 1024 * 1024"

record lowmemd_proc =
  p_pid :: int
  p_anon :: nat
  p_name :: string

record lmopts =
  lo_intervalMs :: nat
  lo_reportSecs :: nat
  lo_warning :: nat
  lo_critical :: nat
  lo_reserve :: nat
  lo_minVictim :: nat
  lo_cooldownSecs :: nat
  lo_ntop :: nat
  lo_spared :: "string list"

record lmstate =
  ls_total :: nat
  ls_free :: nat
  ls_truncThreads :: nat
  ls_truncEntries :: nat
  ls_procs :: "lowmemd_proc list"

text \<open>\<open>threadsinfo\<close>: its result and what it filled in; \<open>meminfo\<close> of a process: \<open>entry.mapsz\<close> and the sizes.\<close>

record snap =
  sn_ret :: int
  sn_threads :: "(int \<times> string) list"
  sn_anon :: "int \<Rightarrow> int \<times> nat list"

text \<open>The build: \<open>getpid()\<close>, \<open>sizeof(threadinfo_t.name)\<close>, \<open>SIZE_MAX\<close>.\<close>

record lmenv =
  lk_self :: int
  lk_namesz :: nat
  lk_sizemax :: nat

section \<open>One line of the log\<close>

definition lowmemd_line :: "string \<Rightarrow> string" where
  "lowmemd_line msg = take (1024 - 2) msg @ ''\<newline>''"

section \<open>Scanning\<close>

text \<open>The free memory: \<open>page.sz\<close>, \<open>page.free\<close> and \<open>page.alloc\<close> of \<open>meminfo\<close>; \<open>None\<close> is the result -1.\<close>

definition lowmemd_readSystem :: "nat \<times> nat \<times> nat \<Rightarrow> lmstate \<Rightarrow> lmstate option" where
  "lowmemd_readSystem mem s = (case mem of (sz, fr, al) \<Rightarrow>
     if sz = 0 then None else Some (s\<lparr>ls_free := fr, ls_total := fr + al\<rparr>))"

fun anon_sum :: "lmenv \<Rightarrow> nat \<Rightarrow> nat list \<Rightarrow> nat" where
  "anon_sum env acc [] = acc"
| "anon_sum env acc (a # as) =
     anon_sum env (if a \<noteq> lk_sizemax env \<and> a \<noteq> (2 ^ 32 - 1) mod (lk_sizemax env + 1) then (acc + a) mod 2 ^ 64 else acc) as"

definition lowmemd_processAnon :: "lmenv \<Rightarrow> snap \<Rightarrow> int \<Rightarrow> lmstate \<Rightarrow> nat \<times> lmstate" where
  "lowmemd_processAnon env sn pid s = (case sn_anon sn pid of (mapsz, as) \<Rightarrow>
     if mapsz < 0 then (0, s)
     else if mapsz > int LOWMEMD_ENTRIES
     then (anon_sum env 0 (take LOWMEMD_ENTRIES as), s\<lparr>ls_truncEntries := ls_truncEntries s + 1\<rparr>)
     else (anon_sum env 0 (take (nat mapsz) as), s))"

definition lowmemd_programName :: "string \<Rightarrow> string" where
  "lowmemd_programName name =
     (let w = takeWhile (\<lambda>c. c \<noteq> CHR '' '') name in rev (takeWhile (\<lambda>c. c \<noteq> CHR ''/'') (rev w)))"

fun scan_loop :: "lmenv \<Rightarrow> snap \<Rightarrow> (int \<times> string) list \<Rightarrow> lmstate \<Rightarrow> lmstate" where
  "scan_loop env sn [] s = s"
| "scan_loop env sn ((pid, nm) # ts) s =
     (if pid \<le> 0 then scan_loop env sn ts s
      else if \<exists>p \<in> set (ls_procs s). p_pid p = pid then scan_loop env sn ts s
      else (case lowmemd_processAnon env sn pid s of (anon, s') \<Rightarrow>
        scan_loop env sn ts (s'\<lparr>ls_procs := ls_procs s' @
          [\<lparr>p_pid = pid, p_anon = anon, p_name = lowmemd_programName (cstr (take (lk_namesz env - 1) nm))\<rparr>]\<rparr>)))"

text \<open>The insertion sort on the array: the inner loop moves smaller elements up, the outer one counts \<open>i\<close>.\<close>

fun sift_loop :: "lowmemd_proc list \<Rightarrow> lowmemd_proc \<Rightarrow> nat \<Rightarrow> lowmemd_proc list" where
  "sift_loop ps tmp j =
     (if j > 0 \<and> p_anon (ps ! (j - 1)) < p_anon tmp then sift_loop (ps[j := ps ! (j - 1)]) tmp (j - 1) else ps[j := tmp])"

declare sift_loop.simps [simp del]

definition sort_procs :: "lowmemd_proc list \<Rightarrow> lowmemd_proc list" where
  "sort_procs ps = fold (\<lambda>i ps. sift_loop ps (ps ! i) i) [1..<length ps] ps"

definition lowmemd_scan :: "lmenv \<Rightarrow> snap \<Rightarrow> lmstate \<Rightarrow> lmstate option" where
  "lowmemd_scan env sn s =
     (if sn_ret sn < 0 then None
      else (let s1 = (if sn_ret sn > int LOWMEMD_THREADS then s\<lparr>ls_truncThreads := ls_truncThreads s + 1\<rparr> else s);
                n = min (nat (sn_ret sn)) LOWMEMD_THREADS;
                s2 = scan_loop env sn (take n (sn_threads sn)) (s1\<lparr>ls_procs := []\<rparr>)
            in Some (s2\<lparr>ls_procs := sort_procs (ls_procs s2)\<rparr>)))"

definition lowmemd_isAlive :: "int \<times> int list \<Rightarrow> int \<Rightarrow> bool" where
  "lowmemd_isAlive ti pid = (case ti of (n, pids) \<Rightarrow> pid \<in> set (take (min (nat n) LOWMEMD_THREADS) pids))"

section \<open>Reports and kills\<close>

datatype lmlog =
    LReport real string nat nat string
  | LKillNoList real
  | LKillNone real nat nat
  | LKillFailed real int string
  | LKill real int string nat nat nat
  | LAfterKill real int bool nat nat real

text \<open>The list of the largest processes in the buffer \<open>top\<close> of 512 characters.\<close>

definition top_entry :: "bool \<Rightarrow> lowmemd_proc \<Rightarrow> string" where
  "top_entry first p = (if first then [] else '','') @ dec (nat (p_pid p)) @ '':'' @ p_name p @ '':'' @ dec (p_anon p div MIB)"

fun top_loop :: "nat \<Rightarrow> string \<Rightarrow> bool \<Rightarrow> lowmemd_proc list \<Rightarrow> string" where
  "top_loop 0 lst first ps = lst"
| "top_loop k lst first [] = lst"
| "top_loop (Suc k) lst first (p # ps) =
     (let e = top_entry first p; room = 512 - length lst in
      if length e \<ge> room then lst @ take (room - 1) e else top_loop k (lst @ e) False ps)"

definition lowmemd_report :: "lmenv \<Rightarrow> lmopts \<Rightarrow> snap \<Rightarrow> real \<Rightarrow> string \<Rightarrow> lmstate \<Rightarrow> lmstate \<times> lmlog" where
  "lowmemd_report env o1 sn t why s =
     (let r = lowmemd_scan env sn s; s' = (case r of None \<Rightarrow> s | Some s' \<Rightarrow> s');
          lst = (case r of None \<Rightarrow> [] | Some s' \<Rightarrow> top_loop (lo_ntop o1) [] True (ls_procs s'))
      in (s', LReport t why (ls_free s' div MIB) (ls_total s' div MIB) (if lst \<noteq> [] then lst else ''-'')))"

definition lowmemd_isSpared :: "lmenv \<Rightarrow> lmopts \<Rightarrow> lowmemd_proc \<Rightarrow> bool" where
  "lowmemd_isSpared env o1 p \<longleftrightarrow> p_pid p = lk_self env \<or> p_pid p = 1 \<or> p_name p \<in> set (lo_spared o1)"

fun pick_victim :: "lmenv \<Rightarrow> lmopts \<Rightarrow> lowmemd_proc list \<Rightarrow> lowmemd_proc option" where
  "pick_victim env o1 [] = None"
| "pick_victim env o1 (p # ps) =
     (if p_anon p < lo_minVictim o1 then None
      else if \<not> lowmemd_isSpared env o1 p then Some p else pick_victim env o1 ps)"

text \<open>The killed process or -1, the line of the log, and the call of \<open>kill\<close>, if any; \<open>kills\<close> says which succeed.\<close>

definition lowmemd_killLargest :: "lmenv \<Rightarrow> lmopts \<Rightarrow> snap \<Rightarrow> (int \<Rightarrow> bool) \<Rightarrow> real \<Rightarrow> lmstate \<Rightarrow> lmstate \<times> int \<times> lmlog \<times> int option" where
  "lowmemd_killLargest env o1 sn kills t s = (case lowmemd_scan env sn s of
     None \<Rightarrow> (s, -1, LKillNoList t, None)
   | Some s' \<Rightarrow> (case pick_victim env o1 (ls_procs s') of
       None \<Rightarrow> (s', -1, LKillNone t (lo_minVictim o1 div MIB) (ls_free s' div MIB), None)
     | Some v \<Rightarrow>
         if \<not> kills (p_pid v) then (s', -1, LKillFailed t (p_pid v) (p_name v), Some (p_pid v))
         else (s', p_pid v, LKill t (p_pid v) (p_name v) (p_anon v div MIB) (ls_free s' div MIB) (lo_reserve o1 div MIB),
           Some (p_pid v))))"

definition lowmemd_level :: "lmopts \<Rightarrow> lmstate \<Rightarrow> string" where
  "lowmemd_level o1 s =
     (if ls_free s < lo_critical o1 then ''critical'' else if ls_free s < lo_warning o1 then ''warning'' else ''normal'')"

section \<open>The main loop\<close>

text \<open>What the kernel answers during one turn of the loop.\<close>

record tick =
  tk_now :: real
  tk_mem :: "nat \<times> nat \<times> nat"
  tk_report :: snap
  tk_alive :: "int \<times> int list"
  tk_kill :: snap
  tk_kills :: "int \<Rightarrow> bool"

record lmloop =
  ll_state :: lmstate
  ll_lastLevel :: "string option"
  ll_nextReport :: real
  ll_victim :: int
  ll_killAt :: real
  ll_cooldownUntil :: real
  ll_freeAtKill :: nat

datatype lmact = Log lmlog | Kill real int

definition report_step :: "lmenv \<Rightarrow> lmopts \<Rightarrow> tick \<Rightarrow> lmloop \<Rightarrow> lmloop \<times> lmact list" where
  "report_step env o1 tk l =
     (let level = lowmemd_level o1 (ll_state l); due = (lo_reportSecs o1 \<noteq> 0 \<and> tk_now tk \<ge> ll_nextReport l);
          r = (if ll_lastLevel l \<noteq> Some level then
                 (case lowmemd_report env o1 (tk_report tk) (tk_now tk) level (ll_state l) of (s, g) \<Rightarrow>
                   (l\<lparr>ll_state := s, ll_lastLevel := Some level\<rparr>, [Log g]))
               else if due then
                 (case lowmemd_report env o1 (tk_report tk) (tk_now tk) ''report'' (ll_state l) of (s, g) \<Rightarrow>
                   (l\<lparr>ll_state := s\<rparr>, [Log g]))
               else (l, []))
      in (if due then (fst r)\<lparr>ll_nextReport := tk_now tk + real (lo_reportSecs o1)\<rparr> else fst r, snd r))"

definition after_step :: "lmopts \<Rightarrow> tick \<Rightarrow> lmloop \<Rightarrow> lmloop \<times> lmact list" where
  "after_step o1 tk l =
     (if ll_victim l > 0 \<and> tk_now tk \<ge> ll_cooldownUntil l then
        (l\<lparr>ll_victim := -1\<rparr>,
         [Log (LAfterKill (tk_now tk) (ll_victim l) (\<not> lowmemd_isAlive (tk_alive tk) (ll_victim l))
           (ls_free (ll_state l) div MIB) (ll_freeAtKill l div MIB) (tk_now tk - ll_killAt l))])
      else (l, []))"

definition kill_step :: "lmenv \<Rightarrow> lmopts \<Rightarrow> tick \<Rightarrow> lmloop \<Rightarrow> lmloop \<times> lmact list" where
  "kill_step env o1 tk l =
     (if lo_reserve o1 \<noteq> 0 \<and> ls_free (ll_state l) < lo_reserve o1 \<and> tk_now tk \<ge> ll_cooldownUntil l then
        (case lowmemd_killLargest env o1 (tk_kill tk) (tk_kills tk) (tk_now tk) (ll_state l) of (s, v, g, k) \<Rightarrow>
          (l\<lparr>ll_freeAtKill := ls_free (ll_state l), ll_state := s, ll_victim := v, ll_killAt := tk_now tk,
             ll_cooldownUntil := tk_now tk + real (lo_cooldownSecs o1)\<rparr>,
           (case k of None \<Rightarrow> [] | Some p \<Rightarrow> [Kill (tk_now tk) p]) @ [Log g]))
      else (l, []))"

definition main_step :: "lmenv \<Rightarrow> lmopts \<Rightarrow> tick \<Rightarrow> lmloop \<Rightarrow> lmloop \<times> lmact list" where
  "main_step env o1 tk l = (case lowmemd_readSystem (tk_mem tk) (ll_state l) of
     None \<Rightarrow> (l, [])
   | Some s \<Rightarrow>
       let (l1, a1) = report_step env o1 tk (l\<lparr>ll_state := s\<rparr>); (l2, a2) = after_step o1 tk l1; (l3, a3) = kill_step env o1 tk l2
       in (l3, a1 @ a2 @ a3))"

fun main_loop :: "lmenv \<Rightarrow> lmopts \<Rightarrow> tick list \<Rightarrow> lmloop \<Rightarrow> lmact list" where
  "main_loop env o1 [] l = []"
| "main_loop env o1 (tk # tks) l = (case main_step env o1 tk l of (l', as) \<Rightarrow> as @ main_loop env o1 tks l')"

section \<open>Options and start\<close>

text \<open>\<open>strtoull\<close> with base 10; the end of the number is not looked at.\<close>

definition strtoull :: "string \<Rightarrow> nat" where
  "strtoull s =
     (let s1 = dropWhile isspace s;
          neg = (s1 \<noteq> [] \<and> hd s1 = CHR ''-'');
          s2 = (if s1 \<noteq> [] \<and> (hd s1 = CHR ''-'' \<or> hd s1 = CHR ''+'') then tl s1 else s1);
          v = fst (digits 10 0 s2)
      in if v \<ge> 2 ^ 64 then 2 ^ 64 - 1 else if neg then (2 ^ 64 - v) mod 2 ^ 64 else v)"

definition mb :: "string \<Rightarrow> nat" where
  "mb s = strtoull s * MIB mod 2 ^ 64"

definition uint_arg :: "string \<Rightarrow> nat" where
  "uint_arg s = strtoull s mod 2 ^ 32"

definition lm_defaults :: lmopts where
  "lm_defaults = \<lparr>lo_intervalMs = 1000, lo_reportSecs = 30, lo_warning = 0, lo_critical = 0, lo_reserve = 0,
     lo_minVictim = 128 * MIB, lo_cooldownSecs = 10, lo_ntop = 5, lo_spared = []\<rparr>"

text \<open>
  One option, with \<open>warningMB\<close> and \<open>criticalMB\<close> beside the options; \<open>Inl\<close> is the exit status. \<open>opens\<close> says which
  log files can be opened.
\<close>

definition lowmemd_opt :: "(string \<Rightarrow> bool) \<Rightarrow> optev \<Rightarrow> lmopts \<times> nat \<times> nat \<Rightarrow> int + lmopts \<times> nat \<times> nat" where
  "lowmemd_opt opens ev st = (case st of (o1, w, c) \<Rightarrow> (case ev of
     OptErr _ \<Rightarrow> Inl 1
   | Opt x None \<Rightarrow> if x = CHR ''h'' then Inl 0 else Inl 1
   | Opt x (Some a) \<Rightarrow>
       if x = CHR ''i'' then Inr (o1\<lparr>lo_intervalMs := uint_arg a\<rparr>, w, c)
       else if x = CHR ''r'' then Inr (o1\<lparr>lo_reportSecs := uint_arg a\<rparr>, w, c)
       else if x = CHR ''w'' then Inr (o1, strtoull a, c)
       else if x = CHR ''c'' then Inr (o1, w, strtoull a)
       else if x = CHR ''k'' then Inr (o1\<lparr>lo_reserve := mb a\<rparr>, w, c)
       else if x = CHR ''m'' then Inr (o1\<lparr>lo_minVictim := mb a\<rparr>, w, c)
       else if x = CHR ''d'' then Inr (o1\<lparr>lo_cooldownSecs := uint_arg a\<rparr>, w, c)
       else if x = CHR ''x'' then
         Inr (if length (lo_spared o1) < LOWMEMD_PROTECTED then o1\<lparr>lo_spared := lo_spared o1 @ [a]\<rparr> else o1, w, c)
       else if x = CHR ''t'' then Inr (o1\<lparr>lo_ntop := min (uint_arg a) LOWMEMD_TOP_MAX\<rparr>, w, c)
       else if x = CHR ''l'' then (if opens a then Inr (o1, w, c) else Inl 1)
       else Inl 1))"

fun lowmemd_opts :: "(string \<Rightarrow> bool) \<Rightarrow> optev list \<Rightarrow> lmopts \<times> nat \<times> nat \<Rightarrow> int + lmopts \<times> nat \<times> nat" where
  "lowmemd_opts opens [] st = Inr st"
| "lowmemd_opts opens (e # es) st = (case lowmemd_opt opens e st of Inl r \<Rightarrow> Inl r | Inr st' \<Rightarrow> lowmemd_opts opens es st')"

definition lm_levels :: "lmopts \<Rightarrow> nat \<Rightarrow> nat \<Rightarrow> nat \<Rightarrow> lmopts" where
  "lm_levels o1 w c tot =
     o1\<lparr>lo_intervalMs := max 100 (lo_intervalMs o1),
        lo_warning := (if w \<noteq> 0 then w * MIB mod 2 ^ 64 else tot div 5),
        lo_critical := (if c \<noteq> 0 then c * MIB mod 2 ^ 64 else max (tot div 10) (300 * MIB))\<rparr>"

text \<open>
  \<open>main\<close>: the exit status when it returns, else the actions over the turns \<open>tks\<close> of its endless loop.
\<close>

definition lowmemd_main :: "lmenv \<Rightarrow> (string \<Rightarrow> bool) \<Rightarrow> string list \<Rightarrow> nat \<times> nat \<times> nat \<Rightarrow> snap \<Rightarrow> tick list \<Rightarrow> int + lmact list" where
  "lowmemd_main env opens argv mem sn tks =
     (case lowmemd_opts opens (fst (getopt_scan ''i:r:w:c:k:m:d:x:t:l:h'' (tl argv))) (lm_defaults, 0, 0) of
        Inl r \<Rightarrow> Inl r
      | Inr (o1, w, c) \<Rightarrow> (case lowmemd_readSystem mem \<lparr>ls_total = 0, ls_free = 0, ls_truncThreads = 0, ls_truncEntries = 0, ls_procs = []\<rparr> of
            None \<Rightarrow> Inl 1
          | Some s \<Rightarrow>
              let s' = (case lowmemd_scan env sn s of None \<Rightarrow> s | Some s' \<Rightarrow> s') in
              Inr (main_loop env (lm_levels o1 w c (ls_total s)) tks
                \<lparr>ll_state = s', ll_lastLevel = None, ll_nextReport = 0, ll_victim = -1, ll_killAt = 0, ll_cooldownUntil = 0, ll_freeAtKill = 0\<rparr>)))"

section \<open>The order of the processes\<close>

abbreviation heavier :: "lowmemd_proc \<Rightarrow> lowmemd_proc \<Rightarrow> bool" where
  "heavier p q \<equiv> p_anon q \<le> p_anon p"

lemma sift_loop_place:
  "sorted_wrt heavier xs \<Longrightarrow>
     sift_loop (xs @ a # ys) tmp (length xs) = takeWhile (\<lambda>p. heavier p tmp) xs @ tmp # dropWhile (\<lambda>p. heavier p tmp) xs @ ys"
proof (induction xs arbitrary: a ys rule: rev_induct)
  case Nil
  then show ?case by (simp add: sift_loop.simps)
next
  case (snoc x xs)
  show ?case
  proof (cases "heavier x tmp")
    case True
    then have "\<forall>p \<in> set (xs @ [x]). heavier p tmp" using snoc.prems by (auto simp: sorted_wrt_append)
    then have "takeWhile (\<lambda>p. heavier p tmp) (xs @ [x]) = xs @ [x]" "dropWhile (\<lambda>p. heavier p tmp) (xs @ [x]) = []"
      by (simp_all add: takeWhile_eq_all_conv dropWhile_eq_Nil_conv)
    then show ?thesis using True by (subst sift_loop.simps) (simp add: nth_append list_update_append)
  next
    case False
    have IH: "sift_loop (xs @ x # x # ys) tmp (length xs)
        = takeWhile (\<lambda>p. heavier p tmp) xs @ tmp # dropWhile (\<lambda>p. heavier p tmp) xs @ x # ys"
      using snoc by (simp add: sorted_wrt_append)
    have "takeWhile (\<lambda>p. heavier p tmp) (xs @ [x]) = takeWhile (\<lambda>p. heavier p tmp) xs"
      "dropWhile (\<lambda>p. heavier p tmp) (xs @ [x]) = dropWhile (\<lambda>p. heavier p tmp) xs @ [x]"
      using False by (simp_all add: takeWhile_tail dropWhile_append3)
    then show ?thesis using False IH by (subst sift_loop.simps) (simp add: nth_append list_update_append)
  qed
qed

lemma place_sorted:
  "sorted_wrt heavier xs \<Longrightarrow> sorted_wrt heavier (takeWhile (\<lambda>p. heavier p tmp) xs @ tmp # dropWhile (\<lambda>p. heavier p tmp) xs)"
proof (induction xs)
  case (Cons x xs)
  have "set (takeWhile (\<lambda>p. heavier p tmp) xs @ tmp # dropWhile (\<lambda>p. heavier p tmp) xs) = insert tmp (set xs)"
    by (metis (no_types, lifting) Un_insert_right list.simps(15) set_append takeWhile_dropWhile_id)
  then show ?case using Cons by (force simp del: set_append)
qed simp

lemma sort_procs_inv:
  assumes "1 \<le> i" "i \<le> length ps"
  defines "r \<equiv> fold (\<lambda>i ps. sift_loop ps (ps ! i) i) [1..<i] ps"
  shows "sorted_wrt heavier (take i r) \<and> drop i r = drop i ps \<and> mset (take i r) = mset (take i ps) \<and> length r = length ps"
  using assms(1,2) unfolding r_def
proof (induction i rule: dec_induct)
  case base
  then show ?case by (cases ps) auto
next
  case (step i)
  let ?r = "fold (\<lambda>i ps. sift_loop ps (ps ! i) i) [1..<i] ps"
  define xs where "xs = take i ?r"
  define t where "t = ps ! i"
  have IH: "sorted_wrt heavier xs" "drop i ?r = drop i ps" "mset xs = mset (take i ps)" "length ?r = length ps"
    using step unfolding xs_def by auto
  have len: "length xs = i" using IH(4) step by (simp add: xs_def)
  have r: "?r = xs @ t # drop (Suc i) ps"
    using IH(2) step.prems append_take_drop_id [of i ?r] Cons_nth_drop_Suc [of i ps] by (simp add: xs_def t_def)
  have "?r ! i = t" by (subst r) (simp add: nth_append len)
  then have f: "fold (\<lambda>i ps. sift_loop ps (ps ! i) i) [1..<Suc i] ps = sift_loop (xs @ t # drop (Suc i) ps) t (length xs)"
    using step.hyps r len by simp
  define m where "m = takeWhile (\<lambda>p. heavier p t) xs @ t # dropWhile (\<lambda>p. heavier p t) xs"
  have n: "sift_loop (xs @ t # drop (Suc i) ps) t (length xs) = m @ drop (Suc i) ps"
    using sift_loop_place [OF IH(1)] by (simp add: m_def)
  have m: "mset m = mset (t # xs)"
    unfolding m_def by (metis (no_types, lifting) mset.simps(2) mset_append takeWhile_dropWhile_id union_mset_add_mset_right)
  then have "length m = Suc i" using len by (metis length_Cons size_mset)
  moreover have "sorted_wrt heavier m" unfolding m_def by (rule place_sorted [OF IH(1)])
  moreover have "mset m = mset (take (Suc i) ps)"
    using m IH(3) step.prems by (simp add: t_def take_Suc_conv_app_nth)
  ultimately show ?case unfolding f n using step.prems by simp
qed

lemma sort_procs_sorted: "sorted_wrt heavier (sort_procs ps)"
  and sort_procs_mset: "mset (sort_procs ps) = mset ps"
proof -
  have "sorted_wrt heavier (sort_procs ps) \<and> mset (sort_procs ps) = mset ps"
  proof (cases "ps = []")
    case False
    then have "1 \<le> length ps" by (simp add: Suc_le_eq)
    from sort_procs_inv [OF this order.refl] show ?thesis by (auto simp: sort_procs_def)
  qed (simp add: sort_procs_def)
  then show "sorted_wrt heavier (sort_procs ps)" "mset (sort_procs ps) = mset ps" by auto
qed

text \<open>
  What a client of an order relies on: the ranking has the members, heaviest first. Then the first one
  that satisfies a condition is a heaviest one that does.
\<close>

locale ranking =
  fixes rank :: "'a list \<Rightarrow> 'a list" and weight :: "'a \<Rightarrow> nat"
  assumes rank_set: "set (rank xs) = set xs"
    and rank_sorted: "sorted_wrt (\<lambda>a b. weight b \<le> weight a) (rank xs)"
begin

lemma first_is_heaviest:
  assumes "find P (rank xs) = Some v"
  shows "v \<in> set xs \<and> P v \<and> (\<forall>u \<in> set xs. P u \<longrightarrow> weight u \<le> weight v)"
proof -
  obtain i where i: "i < length (rank xs)" "P (rank xs ! i)" "v = rank xs ! i" "\<forall>j < i. \<not> P (rank xs ! j)"
    using assms by (auto simp: find_Some_iff)
  have "weight u \<le> weight v" if "u \<in> set xs" "P u" for u
  proof -
    obtain k where "k < length (rank xs)" "u = rank xs ! k" using \<open>u \<in> set xs\<close> rank_set by (metis in_set_conv_nth)
    then show ?thesis
      using i that sorted_wrt_nth_less [OF rank_sorted, of i k xs] by (cases i k rule: linorder_cases) auto
  qed
  then show ?thesis using i rank_set nth_mem by blast
qed

lemma none_satisfies: "find P (rank xs) = None \<longleftrightarrow> (\<forall>u \<in> set xs. \<not> P u)"
  using rank_set [of xs] by (auto simp: find_None_iff)

end

interpretation procs: ranking sort_procs p_anon
  by unfold_locales (metis mset_eq_setD sort_procs_mset, rule sort_procs_sorted)

lemma pick_victim_find:
  "sorted_wrt heavier ps \<Longrightarrow> pick_victim env o1 ps = find (\<lambda>p. \<not> lowmemd_isSpared env o1 p \<and> p_anon p \<ge> lo_minVictim o1) ps"
proof (induction ps)
  case (Cons p ps)
  have "find (\<lambda>p. \<not> lowmemd_isSpared env o1 p \<and> p_anon p \<ge> lo_minVictim o1) ps = None" if "p_anon p < lo_minVictim o1"
    using Cons.prems that by (auto simp: find_None_iff)
  then show ?case using Cons by auto
qed simp

section \<open>What a scan finds\<close>

text \<open>The threads that are looked at, and the process behind a pid as the snapshot shows it.\<close>

definition seen :: "snap \<Rightarrow> (int \<times> string) list" where
  "seen sn = take (min (nat (sn_ret sn)) LOWMEMD_THREADS) (sn_threads sn)"

definition anon_of :: "lmenv \<Rightarrow> snap \<Rightarrow> int \<Rightarrow> nat" where
  "anon_of env sn pid = (case sn_anon sn pid of (mapsz, as) \<Rightarrow> anon_sum env 0 (take (min (nat mapsz) LOWMEMD_ENTRIES) as))"

definition proc_of :: "lmenv \<Rightarrow> snap \<Rightarrow> (int \<times> string) list \<Rightarrow> int \<Rightarrow> lowmemd_proc" where
  "proc_of env sn ts pid = \<lparr>p_pid = pid, p_anon = anon_of env sn pid,
     p_name = lowmemd_programName (cstr (take (lk_namesz env - 1) (the (map_of ts pid))))\<rparr>"

definition procs_of :: "lmenv \<Rightarrow> snap \<Rightarrow> lowmemd_proc set" where
  "procs_of env sn = proc_of env sn (seen sn) ` {pid \<in> fst ` set (seen sn). pid > 0}"

lemma processAnon_eq:
  "\<exists>k. lowmemd_processAnon env sn pid s = (anon_of env sn pid, s\<lparr>ls_truncEntries := k\<rparr>)"
proof -
  obtain mapsz as where a: "sn_anon sn pid = (mapsz, as)" by fastforce
  have s: "\<exists>k. s = s\<lparr>ls_truncEntries := k\<rparr>" by (rule exI [of _ "ls_truncEntries s"]) simp
  consider "mapsz < 0" | "0 \<le> mapsz" "mapsz \<le> int LOWMEMD_ENTRIES" | "mapsz > int LOWMEMD_ENTRIES" by linarith
  then show ?thesis
    by cases (use s in \<open>auto simp: lowmemd_processAnon_def anon_of_def a min_def\<close>)
qed

lemma scan_loop_procs:
  "\<exists>k ps. scan_loop env sn ts s = s\<lparr>ls_truncEntries := k, ls_procs := ls_procs s @ ps\<rparr>
     \<and> distinct (map p_pid ps) \<and> set ps = proc_of env sn ts ` {pid \<in> fst ` set ts. pid > 0 \<and> pid \<notin> p_pid ` set (ls_procs s)}"
proof (induction ts arbitrary: s)
  case Nil
  show ?case by (rule exI [of _ "ls_truncEntries s"], rule exI [of _ "[]"]) simp
next
  case (Cons t ts)
  obtain pid nm where t: "t = (pid, nm)" by fastforce
  have other: "proc_of env sn (t # ts) q = proc_of env sn ts q" if "q \<noteq> pid" for q
    using that by (simp add: proc_of_def t)
  show ?case
  proof (cases "pid \<le> 0 \<or> pid \<in> p_pid ` set (ls_procs s)")
    case True
    then have "scan_loop env sn (t # ts) s = scan_loop env sn ts s" by (auto simp: t)
    moreover have "{q \<in> fst ` set (t # ts). q > 0 \<and> q \<notin> p_pid ` set (ls_procs s)}
        = {q \<in> fst ` set ts. q > 0 \<and> q \<notin> p_pid ` set (ls_procs s)}" (is "_ = ?S") using True by (auto simp: t)
    moreover have "proc_of env sn (t # ts) ` ?S = proc_of env sn ts ` ?S"
      by (intro image_cong refl other) (use True in auto)
    ultimately show ?thesis using Cons.IH [of s] by simp
  next
    case False
    obtain k where a: "lowmemd_processAnon env sn pid s = (anon_of env sn pid, s\<lparr>ls_truncEntries := k\<rparr>)"
      using processAnon_eq by blast
    define p where "p = proc_of env sn (t # ts) pid"
    define s1 where "s1 = s\<lparr>ls_truncEntries := k, ls_procs := ls_procs s @ [p]\<rparr>"
    have step: "scan_loop env sn (t # ts) s = scan_loop env sn ts s1"
      using False a by (auto simp: t s1_def p_def proc_of_def)
    obtain k' ps where IH: "scan_loop env sn ts s1 = s1\<lparr>ls_truncEntries := k', ls_procs := ls_procs s1 @ ps\<rparr>"
      "distinct (map p_pid ps)" "set ps = proc_of env sn ts ` {q \<in> fst ` set ts. q > 0 \<and> q \<notin> p_pid ` set (ls_procs s1)}"
      using Cons.IH [of s1] by blast
    have pid: "p_pid p = pid" by (simp add: p_def proc_of_def)
    have pids: "p_pid ` set (ls_procs s1) = insert pid (p_pid ` set (ls_procs s))" by (simp add: s1_def pid)
    let ?S = "{q \<in> fst ` set ts. q > 0 \<and> q \<notin> p_pid ` set (ls_procs s1)}"
    have "proc_of env sn ts ` ?S = proc_of env sn (t # ts) ` ?S"
      by (intro image_cong refl other [symmetric]) (use pids in auto)
    moreover have "{q \<in> fst ` set (t # ts). q > 0 \<and> q \<notin> p_pid ` set (ls_procs s)} = insert pid ?S"
      unfolding pids using False by (auto simp: t)
    ultimately have set: "set (p # ps) = proc_of env sn (t # ts) ` {q \<in> fst ` set (t # ts). q > 0 \<and> q \<notin> p_pid ` set (ls_procs s)}"
      using IH(3) by (simp add: p_def)
    have "pid \<notin> p_pid ` set ps" unfolding IH(3) pids by (auto simp: proc_of_def)
    then have "distinct (map p_pid (p # ps))" using IH(2) pid by auto
    then show ?thesis using step IH(1) set by (intro exI [of _ k'] exI [of _ "p # ps"]) (simp add: s1_def)
  qed
qed

lemma scan_ok:
  assumes "0 \<le> sn_ret sn"
  shows "\<exists>s' ps. lowmemd_scan env sn s = Some s' \<and> ls_procs s' = sort_procs ps \<and> set ps = procs_of env sn
    \<and> distinct (map p_pid (ls_procs s')) \<and> ls_free s' = ls_free s \<and> ls_total s' = ls_total s"
proof -
  define s1 where "s1 = (if sn_ret sn > int LOWMEMD_THREADS then s\<lparr>ls_truncThreads := ls_truncThreads s + 1\<rparr> else s)"
  obtain k ps where l: "scan_loop env sn (seen sn) (s1\<lparr>ls_procs := []\<rparr>) = s1\<lparr>ls_truncEntries := k, ls_procs := ps\<rparr>"
    "distinct (map p_pid ps)" "set ps = procs_of env sn"
    using scan_loop_procs [of env sn "seen sn" "s1\<lparr>ls_procs := []\<rparr>"] by (auto simp: procs_of_def)
  have "lowmemd_scan env sn s = Some (s1\<lparr>ls_truncEntries := k, ls_procs := sort_procs ps\<rparr>)"
    using assms l(1) by (simp add: lowmemd_scan_def Let_def s1_def seen_def)
  moreover have "distinct (map p_pid (sort_procs ps))"
    using l(2) by (metis mset_map mset_eq_imp_distinct_iff sort_procs_mset)
  moreover have "ls_free s1 = ls_free s" "ls_total s1 = ls_total s" by (simp_all add: s1_def)
  ultimately show ?thesis
    using l(3) by (intro exI [of _ "s1\<lparr>ls_truncEntries := k, ls_procs := sort_procs ps\<rparr>"] exI [of _ ps]) simp
qed

lemma scan_none: "sn_ret sn < 0 \<Longrightarrow> lowmemd_scan env sn s = None"
  by (simp add: lowmemd_scan_def)

text \<open>Who may be killed: a process that is neither spared nor below the minimum, and none of these is heavier.\<close>

definition may_kill :: "lmenv \<Rightarrow> lmopts \<Rightarrow> lowmemd_proc \<Rightarrow> bool" where
  "may_kill env o1 p \<longleftrightarrow> \<not> lowmemd_isSpared env o1 p \<and> p_anon p \<ge> lo_minVictim o1"

definition largest :: "lmenv \<Rightarrow> lmopts \<Rightarrow> snap \<Rightarrow> lowmemd_proc \<Rightarrow> bool" where
  "largest env o1 sn p \<longleftrightarrow> p \<in> procs_of env sn \<and> may_kill env o1 p \<and> (\<forall>q \<in> procs_of env sn. may_kill env o1 q \<longrightarrow> heavier p q)"

lemma pick_largest:
  assumes "set ps = procs_of env sn"
  shows "(\<forall>v. pick_victim env o1 (sort_procs ps) = Some v \<longrightarrow> largest env o1 sn v)
    \<and> (pick_victim env o1 (sort_procs ps) = None \<longleftrightarrow> (\<forall>q \<in> procs_of env sn. \<not> may_kill env o1 q))"
proof -
  have "pick_victim env o1 (sort_procs ps) = find (may_kill env o1) (sort_procs ps)"
    by (simp add: pick_victim_find [OF sort_procs_sorted] may_kill_def [abs_def])
  then show ?thesis
    using procs.first_is_heaviest [of "may_kill env o1" ps] procs.none_satisfies [of "may_kill env o1" ps] assms
    by (simp add: largest_def)
qed

lemma lowmemd_killLargest_choice:
  assumes "0 \<le> sn_ret sn"
  shows "\<exists>s' v g k. lowmemd_killLargest env o1 sn kills t s = (s', v, g, k)
    \<and> (if \<exists>p \<in> procs_of env sn. may_kill env o1 p
       then \<exists>p. largest env o1 sn p \<and> k = Some (p_pid p) \<and> v = (if kills (p_pid p) then p_pid p else -1)
       else k = None \<and> v = -1)"
proof -
  obtain s' ps where s: "lowmemd_scan env sn s = Some s'" "ls_procs s' = sort_procs ps" "set ps = procs_of env sn"
    using scan_ok [OF assms, of env s] by blast
  show ?thesis
  proof (cases "pick_victim env o1 (sort_procs ps)")
    case None
    then show ?thesis using s pick_largest [OF s(3), of o1] by (simp add: lowmemd_killLargest_def)
  next
    case (Some p)
    then have "largest env o1 sn p" using pick_largest [OF s(3), of o1] by simp
    then show ?thesis using s Some by (auto simp: lowmemd_killLargest_def largest_def)
  qed
qed

text \<open>
  C27: \<open>lowmemd_killLargest\<close> kills a process that is heaviest among those it may kill. When the threads
  can be listed: if some process of the snapshot is neither \<open>lowmemd\<close> itself, nor process 1, nor of a spared
  name, and has the minimal size, \<open>kill\<close> is called once, for a process of which none such is heavier, and
  its pid is returned if the call succeeds; otherwise nothing is killed and the result is -1.
\<close>

theorem lowmemd_kills_largest:
  assumes "0 \<le> sn_ret sn"
  shows "\<exists>s' v g k. lowmemd_killLargest env o1 sn kills t s = (s', v, g, k)
    \<and> (if \<exists>p \<in> procs_of env sn. may_kill env o1 p
       then \<exists>p. largest env o1 sn p \<and> k = Some (p_pid p) \<and> v = (if kills (p_pid p) then p_pid p else -1)
       else k = None \<and> v = -1)"
  by (rule lowmemd_killLargest_choice [OF assms])

definition lm_demo :: lmenv where
  "lm_demo = \<lparr>lk_self = 7, lk_namesz = 32, lk_sizemax = 2 ^ 64 - 1\<rparr>"

definition snap_demo :: snap where
  "snap_demo = \<lparr>sn_ret = 4, sn_threads = [(1, ''init''), (7, ''lowmemd -k 64''), (9, ''/bin/web http://a/b''), (9, ''/bin/web http://a/b'')],
     sn_anon = (\<lambda>pid. (1, [if pid = 9 then 2 ^ 28 else 2 ^ 30]))\<rparr>"

theorem lowmemd_kills_largest_witness:
  "\<exists>s' v g k. lowmemd_killLargest lm_demo lm_defaults snap_demo (\<lambda>_. True) 5
      \<lparr>ls_total = 0, ls_free = 0, ls_truncThreads = 0, ls_truncEntries = 0, ls_procs = []\<rparr> = (s', v, g, k)
    \<and> (if \<exists>p \<in> procs_of lm_demo snap_demo. may_kill lm_demo lm_defaults p
       then \<exists>p. largest lm_demo lm_defaults snap_demo p \<and> k = Some (p_pid p) \<and> v = (if True then p_pid p else -1)
       else k = None \<and> v = -1)"
  by (rule lowmemd_kills_largest) (simp add: snap_demo_def)

section \<open>A whole run\<close>

definition kills_of :: "lmact list \<Rightarrow> (real \<times> int) list" where
  "kills_of as = List.map_filter (\<lambda>a. case a of Kill t p \<Rightarrow> Some (t, p) | Log _ \<Rightarrow> None) as"

lemma kills_of_simps [simp]:
  "kills_of [] = []" "kills_of (Kill t p # as) = (t, p) # kills_of as" "kills_of (Log g # as) = kills_of as"
  "kills_of (as @ bs) = kills_of as @ kills_of bs"
  by (simp_all add: kills_of_def map_filter_def)

lemma report_step_keeps:
  assumes "report_step env o1 tk l = (l', as)"
  shows "kills_of as = [] \<and> ls_free (ll_state l') = ls_free (ll_state l) \<and> ll_cooldownUntil l' = ll_cooldownUntil l"
proof -
  have "ls_free (fst (lowmemd_report env o1 sn t why s)) = ls_free s" for sn t why s
    using scan_ok [of sn env s] scan_none [of sn env s]
    by (cases "sn_ret sn < 0") (auto simp: lowmemd_report_def Let_def)
  then have free: "lowmemd_report env o1 sn t why s = (s', g) \<Longrightarrow> ls_free s' = ls_free s" for sn t why s s' g
    by (metis fst_conv)
  show ?thesis
    using assms by (auto simp: report_step_def Let_def dest: free split: prod.splits if_splits)
qed

lemma after_step_keeps:
  "after_step o1 tk l = (l', as) \<Longrightarrow> kills_of as = [] \<and> ll_state l' = ll_state l \<and> ll_cooldownUntil l' = ll_cooldownUntil l"
  by (auto simp: after_step_def split: if_splits)

text \<open>A kill at a tick is allowed: memory is short and the victim is a largest one.\<close>

definition allowed :: "lmenv \<Rightarrow> lmopts \<Rightarrow> tick \<Rightarrow> real \<times> int \<Rightarrow> bool" where
  "allowed env o1 tk k \<longleftrightarrow> fst k = tk_now tk \<and> lo_reserve o1 \<noteq> 0 \<and> fst (snd (tk_mem tk)) < lo_reserve o1
     \<and> (\<exists>p. largest env o1 (tk_kill tk) p \<and> p_pid p = snd k)"

lemma kill_step_ok:
  assumes "kill_step env o1 tk l = (l', as)"
  shows "(kills_of as = [] \<and> (ll_cooldownUntil l' = ll_cooldownUntil l \<or> tk_now tk \<ge> ll_cooldownUntil l \<and> ll_cooldownUntil l' = tk_now tk + real (lo_cooldownSecs o1)))
    \<or> (\<exists>k. kills_of as = [k] \<and> (ls_free (ll_state l) = fst (snd (tk_mem tk)) \<longrightarrow> allowed env o1 tk k) \<and> fst k \<ge> ll_cooldownUntil l
        \<and> ll_cooldownUntil l' = fst k + real (lo_cooldownSecs o1))"
proof (cases "lo_reserve o1 \<noteq> 0 \<and> ls_free (ll_state l) < lo_reserve o1 \<and> tk_now tk \<ge> ll_cooldownUntil l")
  case True
  obtain s v g k where kl: "lowmemd_killLargest env o1 (tk_kill tk) (tk_kills tk) (tk_now tk) (ll_state l) = (s, v, g, k)"
    by (metis prod_cases4)
  show ?thesis
  proof (cases k)
    case None
    then show ?thesis using assms True kl by (auto simp: kill_step_def)
  next
    case (Some pid)
    then have "\<not> sn_ret (tk_kill tk) < 0" using kl by (auto simp: lowmemd_killLargest_def scan_none)
    then have "\<exists>p. largest env o1 (tk_kill tk) p \<and> p_pid p = pid"
      using lowmemd_killLargest_choice [of "tk_kill tk" env o1 "tk_kills tk" "tk_now tk" "ll_state l"] kl Some
      by (auto split: if_splits)
    then show ?thesis using assms True kl Some by (auto simp: kill_step_def allowed_def)
  qed
qed (use assms in \<open>auto simp: kill_step_def\<close>)

lemma main_step_ok:
  assumes "main_step env o1 tk l = (l', as)"
  shows "(kills_of as = [] \<and> ll_cooldownUntil l \<le> ll_cooldownUntil l')
    \<or> (\<exists>k. kills_of as = [k] \<and> allowed env o1 tk k \<and> fst k \<ge> ll_cooldownUntil l \<and> ll_cooldownUntil l' = fst k + real (lo_cooldownSecs o1))"
proof -
  obtain sz fr al where mem: "tk_mem tk = (sz, fr, al)" by (metis prod_cases3)
  show ?thesis
  proof (cases "sz = 0")
    case True
    then show ?thesis using assms by (auto simp: main_step_def lowmemd_readSystem_def mem)
  next
    case False
    define l0 where "l0 = l\<lparr>ll_state := (ll_state l)\<lparr>ls_free := fr, ls_total := fr + al\<rparr>\<rparr>"
    obtain l1 a1 where 1: "report_step env o1 tk l0 = (l1, a1)" by fastforce
    obtain l2 a2 where 2: "after_step o1 tk l1 = (l2, a2)" by fastforce
    obtain a3 where 3: "kill_step env o1 tk l2 = (l', a3)" "as = a1 @ a2 @ a3"
      using assms False 1 2 by (auto simp: main_step_def lowmemd_readSystem_def mem l0_def split: prod.splits)
    show ?thesis
      using report_step_keeps [OF 1] after_step_keeps [OF 2] kill_step_ok [OF 3(1)] 3(2)
      by (auto simp: l0_def mem)
  qed
qed

lemma main_loop_ok:
  "(\<forall>k \<in> set (kills_of (main_loop env o1 tks l)). fst k \<ge> ll_cooldownUntil l \<and> (\<exists>tk \<in> set tks. allowed env o1 tk k))
   \<and> sorted_wrt (\<lambda>k k'. fst k + real (lo_cooldownSecs o1) \<le> fst k') (kills_of (main_loop env o1 tks l))"
proof (induction tks arbitrary: l)
  case (Cons tk tks)
  obtain l' as where m: "main_step env o1 tk l = (l', as)" by fastforce
  show ?case using main_step_ok [OF m] Cons.IH [of l'] by (force simp: m)
qed simp

text \<open>
  C26: A whole run of \<open>lowmemd\<close> kills with restraint. Whatever the kernel answers over any number of turns:
  without \<open>-k\<close> nothing is killed; each kill happens in a turn in which the free memory is below the reserve,
  and its victim is then a largest process that may be killed (never \<open>lowmemd\<close>, process 1 or a spared
  program); and after a kill the next one comes no earlier than the cooldown.
\<close>

theorem lowmemd_run_safe:
  assumes "lowmemd_opts opens (fst (getopt_scan ''i:r:w:c:k:m:d:x:t:l:h'' (tl argv))) (lm_defaults, 0, 0) = Inr (o1, w, c)"
    and "sz \<noteq> 0"
  shows "\<exists>acts. lowmemd_main env opens argv (sz, fr, al) sn tks = Inr acts
    \<and> (\<forall>k \<in> set (kills_of acts). \<exists>tk \<in> set tks. allowed env o1 tk k)
    \<and> sorted_wrt (\<lambda>k k'. fst k + real (lo_cooldownSecs o1) \<le> fst k') (kills_of acts)"
proof -
  define o2 where "o2 = lm_levels o1 w c (fr + al)"
  have "lo_reserve o2 = lo_reserve o1" "lo_cooldownSecs o2 = lo_cooldownSecs o1" "may_kill env o2 = may_kill env o1"
    by (auto simp: o2_def lm_levels_def may_kill_def lowmemd_isSpared_def fun_eq_iff)
  then have "allowed env o2 tk k = allowed env o1 tk k" "lo_cooldownSecs o2 = lo_cooldownSecs o1" for tk k
    by (simp_all add: allowed_def largest_def)
  then show ?thesis
    using assms main_loop_ok [of env o2 tks] by (auto simp: lowmemd_main_def lowmemd_readSystem_def Let_def o2_def)
qed

definition tick_demo :: tick where
  "tick_demo = \<lparr>tk_now = 3, tk_mem = (4096, 2 ^ 20, 2 ^ 30), tk_report = snap_demo, tk_alive = (0, []), tk_kill = snap_demo, tk_kills = (\<lambda>_. True)\<rparr>"

theorem lowmemd_run_safe_witness:
  "\<exists>acts. lowmemd_main lm_demo (\<lambda>_. True) [''lowmemd'', ''-k'', ''64''] (4096, 2 ^ 30, 2 ^ 30) snap_demo [tick_demo] = Inr acts
    \<and> (\<forall>k \<in> set (kills_of acts). \<exists>tk \<in> set [tick_demo]. allowed lm_demo (lm_defaults\<lparr>lo_reserve := 64 * MIB\<rparr>) tk k)
    \<and> sorted_wrt (\<lambda>k k'. fst k + real (lo_cooldownSecs (lm_defaults\<lparr>lo_reserve := 64 * MIB\<rparr>)) \<le> fst k') (kills_of acts)"
  by (rule lowmemd_run_safe [where w = 0 and c = 0])
    (simp_all add: is_opt_word_def lowmemd_opt_def mb_def strtoull_def digit_val_def cclass code_def MIB_def)

section \<open>The list of a report\<close>

text \<open>The buffer of 512 characters cuts the list of the largest processes, and nothing else does.\<close>

lemma top_loop_cut:
  "length lst \<le> 511 \<Longrightarrow> top_loop k lst first ps
     = take 511 (lst @ concat (map2 top_entry (first # replicate k False) (take k ps)))"
proof (induction k lst first ps rule: top_loop.induct)
  case (3 k lst first p ps)
  show ?case
  proof (cases "length (top_entry first p) \<ge> 512 - length lst")
    case True
    then show ?thesis using "3.prems" by (simp add: Let_def)
  next
    case False
    then show ?thesis using 3 by (simp add: Let_def)
  qed
qed (simp_all add: take_all_iff)

end
