(* ===== verification/Profev.thy ===== *)
theory Profev
  imports Prelude "HOL-Library.Word" "HOL-Library.Monad_Syntax"
begin

text \<open>
  The trace events of the profiler, \<open>src/prof/event.c\<close> with \<open>prof.h\<close>: sizes, finding an event boundary in a
  stream that starts in the middle of an event, and the counts per event and processor.

  A stream is a list of bytes. Every read is checked: \<open>None\<close> is a read outside the data. The 64 bit
  counters are natural numbers; they would wrap after 2 to the 64 bytes. The rows that \<open>prof_mixPrint\<close> prints
  are kept as numbers; the conversion to kilobytes and per cent is left out.
\<close>

type_synonym byte = "8 word"

section \<open>Events\<close>

definition prof_rd16 :: "byte list \<Rightarrow> nat \<Rightarrow> nat option" where
  "prof_rd16 p i = do { a \<leftarrow> peek p i; b \<leftarrow> peek p (i + 1); Some (unat a + 256 * unat b) }"

definition prof_rd32 :: "byte list \<Rightarrow> nat \<Rightarrow> nat option" where
  "prof_rd32 p i = do { a \<leftarrow> peek p i; b \<leftarrow> peek p (i + 1); c \<leftarrow> peek p (i + 2); d \<leftarrow> peek p (i + 3);
     Some (unat a + 2 ^ 8 * unat b + 2 ^ 16 * unat c + 2 ^ 24 * unat d) }"

definition ev_sample :: nat where "ev_sample = 0x40"
definition ev_wait :: nat where "ev_wait = 0x41"
definition ev_traceStats :: nat where "ev_traceStats = 0x46"

text \<open>The names by identifier, from \<open>0x20\<close> on; \<open>None\<close> where the table has no entry.\<close>

definition eventNames :: "string option list" where
  "eventNames = map Some [''interrupt_enter'', ''interrupt_exit'', ''thread_scheduling'', ''thread_preempted'', ''thread_enqueued'',
     ''thread_waking'', ''thread_create'', ''thread_end'', ''syscall_enter'', ''syscall_exit'', ''sched_enter'', ''sched_exit'',
     ''lock_name'', ''lock_set_enter'', ''lock_set_acquired'', ''lock_set_exit'', ''lock_clear'', ''thread_priority'',
     ''process_kill'', ''process_exec''] @ replicate 12 None @ map Some [''thread_sample'', ''thread_wait'', ''thread_wakeup'',
     ''msg_send'', ''msg_recv'', ''msg_respond'', ''trace_stats'']"

definition prof_evName :: "nat \<Rightarrow> string" where
  "prof_evName i =
     (let idx = (i + 2 ^ 32 - 0x20) mod 2 ^ 32 in
      if idx < length eventNames then (case eventNames ! idx of Some n \<Rightarrow> n | None \<Rightarrow> ''?'') else ''?'')"

definition prof_exceptionName :: "nat \<Rightarrow> string" where
  "prof_exceptionName c =
     (if c = 0x24 then ''data abort (page fault)'' else if c = 0x20 then ''instruction abort (page fault)''
      else if c = 0 then ''undefined instruction'' else if c = 0x07 then ''FP/SIMD access''
      else if c = 0x22 then ''PC alignment'' else if c = 0x26 then ''SP alignment''
      else if c = 0x2c then ''FP exception'' else if c = 0x3c then ''BRK'' else ''exception'')"

section \<open>Sizes\<close>

text \<open>The end of the user part that starts at \<open>k\<close>; \<open>p\<close> is the payload and \<open>avail\<close> what is left of the stream.\<close>

definition urecEnd :: "byte list \<Rightarrow> nat \<Rightarrow> nat \<Rightarrow> nat option" where
  "urecEnd p avail k =
     (if avail < k + 33 then Some 0
      else do { nf \<leftarrow> peek p (k + 32);
        let k1 = k + 33 + unat nf * 8;
        if avail < k1 + 2 then Some 0
        else do { ns \<leftarrow> prof_rd16 p k1;
          let k2 = k1 + 2 + ns * 8;
          Some (if avail < k2 then 0 else k2) } })"

definition ev_fixed :: "nat \<Rightarrow> nat option" where
  "ev_fixed i =
     (if i \<in> {0x20, 0x21, 0x2a, 0x2b} then Some 1
      else if i \<in> {0x22, 0x23, 0x24, 0x25, 0x32} then Some 2
      else if i \<in> {0x28, 0x29, 0x31} then Some 3
      else if i = 0x27 then Some 4
      else if i = 0x42 then Some 5
      else if i \<in> {0x2d, 0x2e, 0x2f, 0x30} then Some 6
      else if i = 0x46 then Some 8
      else if i = 0x45 then Some 10
      else if i = 0x44 then Some 12
      else if i = 0x43 then Some 14
      else if i = 0x2c then Some 20
      else if i \<in> {0x26, 0x33} then Some 133
      else None)"

definition prof_evSize :: "nat \<Rightarrow> byte list \<Rightarrow> nat \<Rightarrow> nat option" where
  "prof_evSize i p avail =
     (if i = ev_sample then
        (if avail < 32 then Some 0 else do { nk \<leftarrow> peek p 31; urecEnd p avail (32 + unat nk * 8) })
      else if i = ev_wait then
        (if avail < 50 then Some 0 else do { nk \<leftarrow> peek p 49; urecEnd p avail (50 + unat nk * 8) })
      else (case ev_fixed i of None \<Rightarrow> Some 0 | Some sz \<Rightarrow> Some (if avail < sz then 0 else sz)))"

section \<open>Finding a boundary\<close>

definition RESYNC_RUN :: nat where "RESYNC_RUN = 6"

text \<open>The size of the payload of the event at \<open>k\<close>.\<close>

definition ev_at :: "byte list \<Rightarrow> nat \<Rightarrow> nat \<Rightarrow> nat option" where
  "ev_at data sz k = do { i \<leftarrow> peek data (k + 4); prof_evSize (unat i) (drop (k + 5) data) (sz - k - 5) }"

function sync_loop :: "byte list \<Rightarrow> nat \<Rightarrow> nat \<Rightarrow> nat \<Rightarrow> nat \<Rightarrow> bool option" where
  "sync_loop data sz k n prev =
     (if n \<ge> RESYNC_RUN then Some True
      else if k = sz then Some (n > 0)
      else if k + 5 > sz then Some False
      else do { ts \<leftarrow> prof_rd32 data k; psz \<leftarrow> ev_at data sz k;
        if psz = 0 \<or> n > 0 \<and> ts < prev then Some False else sync_loop data sz (k + 5 + psz) (n + 1) ts })"
  by pat_completeness auto
termination by (relation "measure (\<lambda>(data, sz, k, n, prev). RESYNC_RUN - n)") auto

declare sync_loop.simps [simp del]

definition prof_syncAt :: "byte list \<Rightarrow> nat \<Rightarrow> nat \<Rightarrow> bool option" where
  "prof_syncAt data sz k = sync_loop data sz k 0 0"

section \<open>Counting\<close>

definition PROF_MAX_CPUS :: nat where "PROF_MAX_CPUS = 16"

record prof_mix =
  mx_count :: "nat \<Rightarrow> nat \<Rightarrow> nat"
  mx_bytes :: "nat \<Rightarrow> nat \<Rightarrow> nat"
  mx_skipped :: nat
  mx_stats :: bool
  mx_discarded :: nat
  mx_waitsDropped :: nat

text \<open>The inner loop that looks for a boundary: the offset it ends at and how many bytes it skipped.\<close>

function skip_bytes :: "byte list \<Rightarrow> nat \<Rightarrow> nat \<Rightarrow> nat \<Rightarrow> (nat \<times> nat) option" where
  "skip_bytes data sz k sk =
     (if k + 5 \<le> sz then
        do { ok \<leftarrow> prof_syncAt data sz k; if ok then Some (k, sk) else skip_bytes data sz (k + 1) (sk + 1) }
      else Some (k, sk))"
  by pat_completeness auto
termination by (relation "measure (\<lambda>(data, sz, k, sk). sz - k)") auto

declare skip_bytes.simps [simp del]

text \<open>One event counted.\<close>

definition mix_event :: "prof_mix \<Rightarrow> byte list \<Rightarrow> nat \<Rightarrow> nat \<Rightarrow> nat \<Rightarrow> nat \<Rightarrow> prof_mix option" where
  "mix_event mix data k cpu i psz =
     (let mix1 = mix\<lparr>mx_count := (mx_count mix)(i := (mx_count mix i)(cpu := mx_count mix i cpu + 1)),
            mx_bytes := (mx_bytes mix)(i := (mx_bytes mix i)(cpu := mx_bytes mix i cpu + (5 + psz)))\<rparr> in
      if i = ev_traceStats
      then do { d \<leftarrow> prof_rd32 data (k + 5); w \<leftarrow> prof_rd32 data (k + 9);
        Some (mix1\<lparr>mx_stats := True, mx_discarded := mx_discarded mix1 + d, mx_waitsDropped := mx_waitsDropped mix1 + w\<rparr>) }
      else Some mix1)"

lemma skip_bytes_ge: "skip_bytes data sz k sk = Some (k', sk') \<Longrightarrow> k \<le> k' \<and> sk' + k = sk + k' \<and> (k \<le> sz \<longrightarrow> k' \<le> sz)"
proof (induction data sz k sk rule: skip_bytes.induct)
  case (1 data sz k sk)
  show ?case
    using "1.prems" "1.IH" by (subst (asm) skip_bytes.simps) (fastforce split: if_splits bind_splits)
qed

function mix_loop :: "byte list \<Rightarrow> nat \<Rightarrow> nat \<Rightarrow> nat \<Rightarrow> bool \<Rightarrow> prof_mix \<Rightarrow> prof_mix option" where
  "mix_loop data sz cpu k synced mix =
     (if k + 5 \<le> sz then
        do { bad \<leftarrow> (if \<not> synced then Some True else do { psz \<leftarrow> ev_at data sz k; Some (psz = 0) });
          (k1, mix1) \<leftarrow> (if bad then do { (k1, sk) \<leftarrow> skip_bytes data sz k 0; Some (k1, mix\<lparr>mx_skipped := mx_skipped mix + sk\<rparr>) }
                         else Some (k, mix));
          if k1 + 5 > sz then Some mix1
          else do { i \<leftarrow> peek data (k1 + 4); psz \<leftarrow> ev_at data sz k1; mix2 \<leftarrow> mix_event mix1 data k1 cpu (unat i) psz;
            mix_loop data sz cpu (k1 + 5 + psz) True mix2 } }
      else Some mix)"
  by pat_completeness auto
termination
  by (relation "measure (\<lambda>(data, sz, cpu, k, synced, mix). sz - k)")
    (auto simp: bind_eq_Some_conv dest!: skip_bytes_ge split: if_splits)

declare mix_loop.simps [simp del]

definition prof_mixAdd :: "prof_mix \<Rightarrow> byte list \<Rightarrow> nat \<Rightarrow> int \<Rightarrow> prof_mix option" where
  "prof_mixAdd mix data sz cpu =
     (if cpu < 0 \<or> cpu \<ge> int PROF_MAX_CPUS then Some mix else mix_loop data sz (nat cpu) 0 False mix)"

section \<open>Printing\<close>

definition cpu_sum :: "(nat \<Rightarrow> nat \<Rightarrow> nat) \<Rightarrow> nat \<Rightarrow> nat \<Rightarrow> nat" where
  "cpu_sum f ncpus i = sum_list (map (f i) [0..<ncpus])"

text \<open>The inner loop over the events: the one with most bytes that is not shown yet, 256 if there is none.\<close>

fun pick_loop :: "(nat \<Rightarrow> nat) \<Rightarrow> nat list \<Rightarrow> nat list \<Rightarrow> nat \<Rightarrow> nat \<Rightarrow> nat" where
  "pick_loop b shown [] pick best = pick"
| "pick_loop b shown (i # is) pick best =
     (if i \<notin> set shown \<and> b i > best then pick_loop b shown is i (b i) else pick_loop b shown is pick best)"

lemma pick_loop_spec:
  assumes "pick_loop b shown is pick best = r"
  shows "r = pick \<and> (\<forall>i \<in> set is. i \<notin> set shown \<longrightarrow> b i \<le> best)
    \<or> r \<in> set is \<and> r \<notin> set shown \<and> b r > best \<and> (\<forall>i \<in> set is. i \<notin> set shown \<longrightarrow> b i \<le> b r)"
  using assms by (induction "is" arbitrary: pick best) (fastforce split: if_splits)+

definition mix_pick :: "(nat \<Rightarrow> nat) \<Rightarrow> nat list \<Rightarrow> nat" where
  "mix_pick b shown = pick_loop b shown [0..<256] 256 0"

lemma mix_pick_spec:
  "mix_pick b shown = 256 \<and> (\<forall>i < 256. i \<notin> set shown \<longrightarrow> b i = 0)
   \<or> mix_pick b shown < 256 \<and> mix_pick b shown \<notin> set shown \<and> b (mix_pick b shown) > 0
     \<and> (\<forall>i < 256. i \<notin> set shown \<longrightarrow> b i \<le> b (mix_pick b shown))"
  using pick_loop_spec [OF refl, of b shown "[0..<256]" 256 0] by (auto simp: mix_pick_def)

function mix_rows :: "(nat \<Rightarrow> nat) \<Rightarrow> nat list \<Rightarrow> nat list" where
  "mix_rows b shown = (let p = mix_pick b shown in if p = 256 then [] else p # mix_rows b (p # shown))"
  by pat_completeness auto
termination
proof (relation "measure (\<lambda>(b, shown). card ({..<256} - set shown))")
  fix b shown p
  assume "p = mix_pick b shown" "p \<noteq> 256"
  then have "p \<in> {..<256} - set shown" using mix_pick_spec [of b shown] by auto
  then have "card ({..<256} - set (p # shown)) < card ({..<256} - set shown)"
    by (intro psubset_card_mono) auto
  then show "((b, p # shown), (b, shown)) \<in> measure (\<lambda>(b, shown). card ({..<256} - set shown))" by simp
qed simp

declare mix_rows.simps [simp del]

record mix_out =
  mo_total :: nat
  mo_rows :: "(string \<times> nat \<times> nat \<times> nat list) list"
  mo_skipped :: "nat option"
  mo_lost :: "(nat \<times> nat) option"

definition prof_mixPrint :: "prof_mix \<Rightarrow> int \<Rightarrow> mix_out" where
  "prof_mixPrint mix ncpus =
     (let nc = (if ncpus > int PROF_MAX_CPUS then PROF_MAX_CPUS else nat ncpus);
          b = cpu_sum (mx_bytes mix) nc
      in \<lparr>mo_total = sum_list (map b [0..<256]),
          mo_rows = map (\<lambda>i. (prof_evName i, cpu_sum (mx_count mix) nc i, b i, map (mx_bytes mix i) [0..<nc])) (mix_rows b []),
          mo_skipped = (if mx_skipped mix \<noteq> 0 then Some (mx_skipped mix) else None),
          mo_lost = (if mx_stats mix then Some (mx_discarded mix, mx_waitsDropped mix) else None)\<rparr>)"

section \<open>Every byte is accounted for\<close>

lemma rd_Some [memsafe]:
  "i + 2 \<le> length p \<Longrightarrow> \<exists>v. prof_rd16 p i = Some v"
  "i + 4 \<le> length p \<Longrightarrow> \<exists>v. prof_rd32 p i = Some v"
  by (simp_all add: prof_rd16_def prof_rd32_def peek_def)

lemma urecEnd_safe:
  assumes "avail \<le> length p"
  shows "\<exists>n. urecEnd p avail k = Some n \<and> n \<le> avail"
proof (cases "avail < k + 33")
  case False
  define k1 where "k1 = k + 33 + unat (p ! (k + 32)) * 8"
  have nf: "peek p (k + 32) = Some (p ! (k + 32))" using False assms by (simp add: peek_def)
  show ?thesis
  proof (cases "avail < k1 + 2")
    case True
    then show ?thesis using False nf by (simp add: urecEnd_def Let_def k1_def)
  next
    case fits: False
    then obtain ns where "prof_rd16 p k1 = Some ns" using rd_Some(1) [of k1 p] assms by auto
    then show ?thesis using False nf fits by (simp add: urecEnd_def Let_def k1_def)
  qed
qed (simp add: urecEnd_def)

lemma evSize_safe:
  assumes "avail \<le> length p"
  shows "\<exists>n. prof_evSize i p avail = Some n \<and> n \<le> avail"
  using urecEnd_safe [OF assms] assms
  by (auto simp: prof_evSize_def peek_def split: option.split)

lemma ev_at_safe:
  assumes "sz \<le> length data" "k + 5 \<le> sz"
  shows "\<exists>n. ev_at data sz k = Some n \<and> k + 5 + n \<le> sz"
proof -
  obtain n where "prof_evSize (unat (data ! (k + 4))) (drop (k + 5) data) (sz - k - 5) = Some n" "n \<le> sz - k - 5"
    using evSize_safe [of "sz - k - 5" "drop (k + 5) data"] assms(1) by fastforce
  then show ?thesis using assms by (simp add: ev_at_def peek_def)
qed

lemma sync_loop_safe: "sz \<le> length data \<Longrightarrow> sync_loop data sz k n prev \<noteq> None"
proof (induction data sz k n prev rule: sync_loop.induct)
  case (1 data sz k n prev)
  show ?case
  proof (cases "n \<ge> RESYNC_RUN \<or> k = sz \<or> k + 5 > sz")
    case False
    then obtain ts psz where "prof_rd32 data k = Some ts" "ev_at data sz k = Some psz"
      using rd_Some(2) [of k data] ev_at_safe [of sz data k] "1.prems" by fastforce
    then show ?thesis using 1 False by (subst sync_loop.simps) (simp del: not_None_eq)
  qed (subst sync_loop.simps, auto)
qed

lemma syncAt_safe: "sz \<le> length data \<Longrightarrow> \<exists>b. prof_syncAt data sz k = Some b"
  using sync_loop_safe by (auto simp: prof_syncAt_def)

lemma syncAt_event:
  assumes "prof_syncAt data sz k = Some True" "k + 5 \<le> sz" "ev_at data sz k = Some n"
  shows "n > 0"
  using assms by (subst (asm) prof_syncAt_def, subst (asm) sync_loop.simps)
    (auto simp: RESYNC_RUN_def split: if_splits bind_splits)

lemma skip_bytes_safe:
  "sz \<le> length data \<Longrightarrow> \<exists>k' sk'. skip_bytes data sz k sk = Some (k', sk')"
proof (induction data sz k sk rule: skip_bytes.induct)
  case (1 data sz k sk)
  obtain b where b: "prof_syncAt data sz k = Some b" using syncAt_safe [OF "1.prems"] by blast
  show ?case using 1 b by (subst skip_bytes.simps) auto
qed

lemma skip_bytes_sync:
  "skip_bytes data sz k sk = Some (k', sk') \<Longrightarrow> k' + 5 \<le> sz \<Longrightarrow> prof_syncAt data sz k' = Some True"
proof (induction data sz k sk rule: skip_bytes.induct)
  case (1 data sz k sk)
  show ?case using "1.prems" "1.IH" by (subst (asm) skip_bytes.simps) (auto split: if_splits bind_splits)
qed

text \<open>The bytes of all events on all processors.\<close>

definition mix_total :: "prof_mix \<Rightarrow> nat" where
  "mix_total mix = (\<Sum>i<256. \<Sum>c<PROF_MAX_CPUS. mx_bytes mix i c)"

lemma sum_upd:
  fixes f :: "nat \<Rightarrow> nat \<Rightarrow> nat"
  assumes "a < n" "b < m"
  shows "(\<Sum>i<n. \<Sum>c<m. (f(a := (f a)(b := f a b + d))) i c) = (\<Sum>i<n. \<Sum>c<m. f i c) + d"
proof -
  have "(f(a := (f a)(b := f a b + d))) i c = f i c + (if i = a then if c = b then d else 0 else 0)" for i c by simp
  moreover have "(\<Sum>c<m. if i = a then if c = b then d else 0 else 0) = (if i = a then d else 0)" for i
    using assms(2) by simp
  ultimately show ?thesis using assms(1) by (simp only: sum.distrib) simp
qed

lemma mix_event_total:
  assumes "mix_event mix data k cpu i psz = Some mix'" "i < 256" "cpu < PROF_MAX_CPUS"
  shows "mix_total mix' = mix_total mix + (5 + psz) \<and> mx_skipped mix' = mx_skipped mix"
  using assms sum_upd [of i 256 cpu PROF_MAX_CPUS "mx_bytes mix" "5 + psz"]
  by (auto simp: mix_event_def mix_total_def Let_def split: if_splits bind_splits)

lemma traceStats_size: "prof_evSize ev_traceStats p avail = Some n \<Longrightarrow> n = 0 \<or> n = 8"
  by (auto simp: prof_evSize_def ev_traceStats_def ev_sample_def ev_wait_def ev_fixed_def split: if_splits)

lemma mix_event_safe:
  assumes "sz \<le> length data" "k + 5 \<le> sz" "ev_at data sz k = Some psz" "psz > 0"
  shows "\<exists>i mix'. peek data (k + 4) = Some i \<and> mix_event mix data k cpu (unat i) psz = Some mix'"
proof -
  have i: "peek data (k + 4) = Some (data ! (k + 4))" using assms by (simp add: peek_def)
  have "k + 5 + psz \<le> sz" using ev_at_safe [OF assms(1,2)] assms(3) by auto
  moreover have "psz = 8" if "unat (data ! (k + 4)) = ev_traceStats"
    using assms(3,4) i that by (auto simp: ev_at_def dest: traceStats_size)
  ultimately have "unat (data ! (k + 4)) = ev_traceStats \<Longrightarrow> k + 9 + 4 \<le> length data" using assms(1) by fastforce
  then show ?thesis
    using i rd_Some(2) [of "k + 5" data] rd_Some(2) [of "k + 9" data] by (fastforce simp: mix_event_def Let_def)
qed

lemma mix_loop_accounts:
  assumes "sz \<le> length data" "k \<le> sz" "cpu < PROF_MAX_CPUS"
  shows "\<exists>mix'. mix_loop data sz cpu k synced mix = Some mix'
    \<and> (\<exists>r < 5. mix_total mix' + mx_skipped mix' + k + r = mix_total mix + mx_skipped mix + sz)"
  using assms
proof (induction data sz cpu k synced mix rule: mix_loop.induct)
  case (1 data sz cpu k synced mix)
  show ?case
  proof (cases "k + 5 \<le> sz")
    case True
    obtain psz where psz: "ev_at data sz k = Some psz" "k + 5 + psz \<le> sz" using ev_at_safe True "1.prems" by blast
    define bad where "bad = (\<not> synced \<or> psz = 0)"
    have b: "(if \<not> synced then Some True else do { psz \<leftarrow> ev_at data sz k; Some (psz = 0) }) = Some bad"
      using psz by (simp add: bad_def)
    obtain k1 sk where sk: "(if bad then skip_bytes data sz k 0 else Some (k, 0)) = Some (k1, sk)"
      using skip_bytes_safe [OF "1.prems"(1), of k 0] by (cases bad) auto
    have k1: "k \<le> k1" "sk + k = k1" "k1 \<le> sz"
      using sk skip_bytes_ge [of data sz k 0 k1 sk] "1.prems"(2) by (auto split: if_splits)
    define mix1 where "mix1 = mix\<lparr>mx_skipped := mx_skipped mix + sk\<rparr>"
    have m1: "(if bad then do { (k1, sk) \<leftarrow> skip_bytes data sz k 0; Some (k1, mix\<lparr>mx_skipped := mx_skipped mix + sk\<rparr>) }
        else Some (k, mix)) = Some (k1, mix1)" using sk by (auto simp: mix1_def)
    have t1: "mix_total mix1 = mix_total mix" "mx_skipped mix1 = mx_skipped mix + sk" by (simp_all add: mix1_def mix_total_def)
    show ?thesis
    proof (cases "k1 + 5 > sz")
      case end1: True
      then have "mix_loop data sz cpu k synced mix = Some mix1" using True b m1 by (subst mix_loop.simps) simp
      then show ?thesis using end1 t1 k1 by (intro exI [of _ mix1] conjI exI [of _ "sz - k1"]) auto
    next
      case False
      obtain p1 where p1: "ev_at data sz k1 = Some p1" "k1 + 5 + p1 \<le> sz" using ev_at_safe False "1.prems" by (metis not_le)
      have "p1 > 0"
      proof (cases bad)
        case True
        then have "prof_syncAt data sz k1 = Some True" using sk False skip_bytes_sync by simp
        then show ?thesis using syncAt_event False p1 by simp
      next
        case nb: False
        then show ?thesis using sk psz p1 by (simp add: bad_def)
      qed
      then obtain i mix2 where e: "peek data (k1 + 4) = Some i" "mix_event mix1 data k1 cpu (unat i) p1 = Some mix2"
        using mix_event_safe [of sz data k1 p1 mix1 cpu] p1 False "1.prems" by auto
      have t2: "mix_total mix2 = mix_total mix1 + (5 + p1)" "mx_skipped mix2 = mx_skipped mix1"
        using mix_event_total [OF e(2)] "1.prems"(3) unsigned_less [where ?'a = nat, of i] by auto
      have step: "mix_loop data sz cpu k synced mix = mix_loop data sz cpu (k1 + 5 + p1) True mix2"
        using True b m1 False e p1 by (subst mix_loop.simps) simp
      from "1.IH" [OF True b m1 refl False e(1) p1(1) e(2) "1.prems"(1) p1(2) "1.prems"(3)] obtain mix' r where
        "mix_loop data sz cpu (k1 + 5 + p1) True mix2 = Some mix'" "r < 5"
        "mix_total mix' + mx_skipped mix' + (k1 + 5 + p1) + r = mix_total mix2 + mx_skipped mix2 + sz" by blast
      then show ?thesis using step t1 t2 k1 by (intro exI [of _ mix'] conjI exI [of _ r]) auto
    qed
  next
    case False
    then show ?thesis using "1.prems" by (subst mix_loop.simps) (auto intro!: exI [of _ "sz - k"])
  qed
qed

section \<open>A stream of whole events\<close>

type_synonym event = "nat \<times> byte \<times> byte list"

definition le32 :: "nat \<Rightarrow> byte list" where
  "le32 n = [of_nat n, of_nat (n div 2 ^ 8), of_nat (n div 2 ^ 16), of_nat (n div 2 ^ 24)]"

fun enc :: "event \<Rightarrow> byte list" where
  "enc (ts, i, p) = le32 ts @ i # p"

fun ev_wf :: "event \<Rightarrow> bool" where
  "ev_wf (ts, i, p) \<longleftrightarrow> ts < 2 ^ 32 \<and> p \<noteq> [] \<and> prof_evSize (unat i) p (length p) = Some (length p)"

lemma rd32_le32:
  assumes "n < 2 ^ 32"
  shows "prof_rd32 (pre @ le32 n @ r) (length pre) = Some n"
proof -
  have "unat (of_nat m :: byte) = m mod 256" for m by (simp add: unsigned_of_nat take_bit_eq_mod)
  moreover have "n mod 256 + 256 * (n div 256 mod 256) + 65536 * (n div 65536 mod 256) + 16777216 * (n div 16777216 mod 256) = n"
  proof -
    have d: "n div 65536 = n div 256 div 256" "n div 16777216 = n div 256 div 256 div 256"
      by (simp_all flip: div_mult2_eq)
    have "n div 256 div 256 div 256 < 256" using assms by (simp add: less_mult_imp_div_less flip: div_mult2_eq)
    then show ?thesis
      unfolding d mod_less [OF \<open>n div 256 div 256 div 256 < 256\<close>]
      using div_mult_mod_eq [of n 256] div_mult_mod_eq [of "n div 256" 256] div_mult_mod_eq [of "n div 256 div 256" 256] by linarith
  qed
  moreover have "n div 16777216 mod 256 = n div 16777216" using assms by (simp add: less_mult_imp_div_less)
  ultimately show ?thesis by (simp add: prof_rd32_def peek_def le32_def nth_append)
qed

lemma peek_append: "i < length p \<Longrightarrow> peek (p @ r) i = peek p i"
  by (simp add: peek_def nth_append)

lemma urecEnd_extend:
  assumes "urecEnd p (length p) k = Some (length p)" "p \<noteq> []"
  shows "urecEnd (p @ r) (length p + m) k = Some (length p)"
proof -
  have k: "k + 33 \<le> length p" using assms by (auto simp: urecEnd_def not_less split: if_splits)
  define k1 where "k1 = k + 33 + unat (p ! (k + 32)) * 8"
  have nf: "peek p (k + 32) = Some (p ! (k + 32))" "peek (p @ r) (k + 32) = Some (p ! (k + 32))"
    using k by (simp_all add: peek_def nth_append)
  have k1: "k1 + 2 \<le> length p" using assms k nf by (auto simp: urecEnd_def k1_def Let_def not_less split: if_splits)
  have rd: "prof_rd16 (p @ r) k1 = prof_rd16 p k1" using k1 by (simp add: prof_rd16_def peek_append)
  obtain ns where ns: "prof_rd16 p k1 = Some ns" using rd_Some(1) k1 by blast
  have "k1 + 2 + ns * 8 = length p"
    using assms k nf k1 ns by (auto simp: urecEnd_def k1_def [symmetric] Let_def split: if_splits)
  then show ?thesis using k nf k1 rd ns unfolding k1_def by (simp add: urecEnd_def Let_def)
qed

lemma evSize_extend:
  assumes "prof_evSize i p (length p) = Some (length p)" "p \<noteq> []"
  shows "prof_evSize i (p @ r) (length p + m) = Some (length p)"
proof -
  consider "i = ev_sample" | "i \<noteq> ev_sample" "i = ev_wait" | "i \<noteq> ev_sample" "i \<noteq> ev_wait" by blast
  then show ?thesis
  proof cases
    case 1
    then have "32 \<le> length p" using assms by (auto simp: prof_evSize_def not_less split: if_splits)
    then show ?thesis
      using assms 1 urecEnd_extend [of p _ r m] by (auto simp: prof_evSize_def peek_def nth_append)
  next
    case 2
    then have "50 \<le> length p" using assms by (auto simp: prof_evSize_def not_less split: if_splits)
    then show ?thesis
      using assms 2 urecEnd_extend [of p _ r m] by (auto simp: prof_evSize_def peek_def nth_append)
  next
    case 3
    then show ?thesis using assms by (auto simp: prof_evSize_def split: option.splits if_splits)
  qed
qed

lemma length_le32 [simp]: "length (le32 n) = 4"
  by (simp add: le32_def)

lemma at_event:
  assumes "ev_wf (ts, i, p)" and "data = pre @ enc (ts, i, p) @ r" and "sz = length data"
  shows "ev_at data sz (length pre) = Some (length p)" "prof_rd32 data (length pre) = Some ts"
    "peek data (length pre + 4) = Some i" "length pre + 5 + length p \<le> sz" "drop (length pre + 5) data = p @ r"
proof -
  show d: "drop (length pre + 5) data = p @ r" by (simp add: assms(2))
  show i: "peek data (length pre + 4) = Some i" by (simp add: assms(2) peek_def nth_append)
  have "sz - length pre - 5 = length p + length r" by (simp add: assms(2,3))
  then show "ev_at data sz (length pre) = Some (length p)"
    using i d assms(1) evSize_extend [of "unat i" p r "length r"] by (simp add: ev_at_def)
  show "prof_rd32 data (length pre) = Some ts"
    using assms(1) rd32_le32 [of ts pre "i # p @ r"] by (simp add: assms(2))
  show "length pre + 5 + length p \<le> sz" by (simp add: assms(2,3))
qed

lemma sync_loop_events:
  assumes "\<forall>e \<in> set evs. ev_wf e" "sorted (map fst evs)" "n > 0 \<or> evs \<noteq> []" "n > 0 \<longrightarrow> (\<forall>e \<in> set evs. prev \<le> fst e)"
  shows "sync_loop (pre @ concat (map enc evs)) (length (pre @ concat (map enc evs))) (length pre) n prev = Some True"
  using assms
proof (induction evs arbitrary: pre n prev)
  case Nil
  then show ?case by (simp add: sync_loop.simps)
next
  case (Cons e evs)
  obtain ts i p where e: "e = (ts, i, p)" by (metis prod_cases3)
  define d where "d = pre @ concat (map enc (e # evs))"
  have d': "d = pre @ enc (ts, i, p) @ concat (map enc evs)" by (simp add: d_def e)
  have wf: "ev_wf (ts, i, p)" using Cons.prems(1) e by simp
  note a = at_event [OF wf d' refl]
  have IH: "sync_loop ((pre @ enc e) @ concat (map enc evs)) (length ((pre @ enc e) @ concat (map enc evs)))
      (length (pre @ enc e)) (Suc n) ts = Some True"
    using Cons.prems e by (intro Cons.IH) auto
  have "length (pre @ enc e) = length pre + 5 + length p" by (simp add: e)
  then have "sync_loop d (length d) (length pre + 5 + length p) (n + 1) ts = Some True" using IH by (simp add: d_def add.assoc)
  moreover have "length p > 0" "\<not> (n > 0 \<and> ts < prev)" using wf Cons.prems(4) e by auto
  ultimately show ?case unfolding d_def [symmetric] using a by (subst sync_loop.simps) auto
qed

text \<open>What a list of events adds on a processor.\<close>

definition of_id :: "nat \<Rightarrow> event list \<Rightarrow> event list" where
  "of_id i evs = filter (\<lambda>(ts, j, p). unat j = i) evs"

definition le_at :: "byte list \<Rightarrow> nat \<Rightarrow> nat" where
  "le_at p k = unat (p ! k) + 2 ^ 8 * unat (p ! (k + 1)) + 2 ^ 16 * unat (p ! (k + 2)) + 2 ^ 24 * unat (p ! (k + 3))"

definition mix_sum :: "nat \<Rightarrow> prof_mix \<Rightarrow> event list \<Rightarrow> prof_mix" where
  "mix_sum cpu mix evs = mix
     \<lparr>mx_count := \<lambda>i c. mx_count mix i c + (if c = cpu then length (of_id i evs) else 0),
      mx_bytes := \<lambda>i c. mx_bytes mix i c + (if c = cpu then length (concat (map enc (of_id i evs))) else 0),
      mx_stats := (mx_stats mix \<or> of_id ev_traceStats evs \<noteq> []),
      mx_discarded := mx_discarded mix + sum_list (map (\<lambda>(ts, j, p). le_at p 0) (of_id ev_traceStats evs)),
      mx_waitsDropped := mx_waitsDropped mix + sum_list (map (\<lambda>(ts, j, p). le_at p 4) (of_id ev_traceStats evs))\<rparr>"

lemma mix_sum_Nil: "mix_sum cpu mix [] = mix"
  by (simp add: mix_sum_def of_id_def cong: if_cong)

lemma mix_sum_Cons: "mix_sum cpu mix (e # evs) = mix_sum cpu (mix_sum cpu mix [e]) evs"
  by (cases e) (auto simp: mix_sum_def of_id_def fun_eq_iff)

lemma rd32_at:
  assumes "drop k data = p @ r" "m + 4 \<le> length p"
  shows "prof_rd32 data (k + m) = Some (le_at p m)"
proof -
  have "peek data (k + j) = Some (p ! j)" if "j < length p" for j
  proof -
    have "(p @ r) ! j = data ! (k + j)" "k + j < length data"
      using that nth_drop [of k data j] length_drop [of k data] unfolding assms(1) by (auto simp del: length_drop)
    then show ?thesis using that by (simp add: peek_def nth_append)
  qed
  from this [of m] this [of "m + 1"] this [of "m + 2"] this [of "m + 3"] show ?thesis
    using assms(2) by (simp add: prof_rd32_def le_at_def add.assoc)
qed

lemma mix_event_sum:
  assumes "ev_wf (ts, j, p)" "drop (k + 5) data = p @ r"
  shows "mix_event mix data k cpu (unat j) (length p) = Some (mix_sum cpu mix [(ts, j, p)])"
proof -
  have "length p = 8" if "unat j = ev_traceStats"
    using assms(1) that by (auto dest: traceStats_size)
  then have "prof_rd32 data (k + 5) = Some (le_at p 0)" "prof_rd32 data (k + 9) = Some (le_at p 4)" if "unat j = ev_traceStats"
    using that rd32_at [OF assms(2), of 0] rd32_at [OF assms(2), of 4] by (simp_all add: add.assoc)
  then show ?thesis by (auto simp: mix_event_def mix_sum_def of_id_def Let_def fun_eq_iff)
qed

lemma mix_loop_events:
  assumes "\<forall>e \<in> set evs. ev_wf e" "sorted (map fst evs)"
  shows "mix_loop (pre @ concat (map enc evs)) (length (pre @ concat (map enc evs))) cpu (length pre) synced mix = Some (mix_sum cpu mix evs)"
  using assms
proof (induction evs arbitrary: pre synced mix)
  case Nil
  then show ?case by (simp add: mix_loop.simps mix_sum_Nil)
next
  case (Cons e evs)
  obtain ts i p where e: "e = (ts, i, p)" by (metis prod_cases3)
  define d where "d = pre @ concat (map enc (e # evs))"
  have d': "d = pre @ enc (ts, i, p) @ concat (map enc evs)" by (simp add: d_def e)
  have wf: "ev_wf (ts, i, p)" "length p > 0" using Cons.prems(1) e by auto
  note a = at_event [OF wf(1) d' refl]
  have "prof_syncAt d (length d) (length pre) = Some True"
    unfolding prof_syncAt_def d_def using Cons.prems by (intro sync_loop_events) auto
  then have sk: "skip_bytes d (length d) (length pre) 0 = Some (length pre, 0)"
    using a(4) by (subst skip_bytes.simps) simp
  have "mix_loop ((pre @ enc e) @ concat (map enc evs)) (length ((pre @ enc e) @ concat (map enc evs))) cpu (length (pre @ enc e)) True
      (mix_sum cpu mix [e]) = Some (mix_sum cpu (mix_sum cpu mix [e]) evs)"
    using Cons.prems by (intro Cons.IH) auto
  moreover have "length (pre @ enc e) = length pre + 5 + length p" "(pre @ enc e) @ concat (map enc evs) = d" by (simp_all add: e d')
  ultimately have IH: "mix_loop d (length d) cpu (length pre + 5 + length p) True (mix_sum cpu mix [e]) = Some (mix_sum cpu mix (e # evs))"
    unfolding mix_sum_Cons [of _ _ e evs] by metis
  have "mix_event mix d (length pre) cpu (unat i) (length p) = Some (mix_sum cpu mix [e])"
    using mix_event_sum [OF wf(1) a(5)] e by simp
  then show ?case unfolding d_def [symmetric] using a IH sk wf(2) by (subst mix_loop.simps) auto
qed

lemma mix_rows_ranked:
  "set (mix_rows b shown) = {i. i < 256 \<and> i \<notin> set shown \<and> b i > 0} \<and> distinct (mix_rows b shown)
   \<and> sorted_wrt (\<lambda>i j. b j \<le> b i) (mix_rows b shown)"
proof (induction b shown rule: mix_rows.induct)
  case (1 b shown)
  show ?case
  proof (cases "mix_pick b shown = 256")
    case True
    then show ?thesis using mix_pick_spec [of b shown] by (subst (1 2 3) mix_rows.simps) auto
  next
    case False
    then have p: "mix_pick b shown < 256" "mix_pick b shown \<notin> set shown" "b (mix_pick b shown) > 0"
      "\<forall>i < 256. i \<notin> set shown \<longrightarrow> b i \<le> b (mix_pick b shown)" using mix_pick_spec [of b shown] by auto
    have "mix_rows b shown = mix_pick b shown # mix_rows b (mix_pick b shown # shown)"
      using False by (subst mix_rows.simps) (simp add: Let_def)
    then show ?thesis using "1.IH" [OF refl False] p by auto
  qed
qed

text \<open>
  C28: \<open>prof_mixAdd\<close> accounts for every byte of any stream. Whatever the bytes, also when the stream starts or
  ends inside an event or holds garbage, it reads only inside the stream, ends, and the bytes of the
  events it counted, the bytes it reports as skipped and at most 4 at the end make up the whole stream.
\<close>

theorem prof_mixAdd_accounts:
  assumes "sz \<le> length data" "0 \<le> cpu" "cpu < int PROF_MAX_CPUS"
  shows "\<exists>mix' r. prof_mixAdd mix data sz cpu = Some mix' \<and> r < 5
    \<and> mix_total mix' + mx_skipped mix' + r = mix_total mix + mx_skipped mix + sz"
  using mix_loop_accounts [of sz data 0 "nat cpu" False mix] assms by (auto simp: prof_mixAdd_def)

definition mix0 :: prof_mix where
  "mix0 = \<lparr>mx_count = \<lambda>_ _. 0, mx_bytes = \<lambda>_ _. 0, mx_skipped = 0, mx_stats = False, mx_discarded = 0, mx_waitsDropped = 0\<rparr>"

theorem prof_mixAdd_accounts_witness:
  "\<exists>mix' r. prof_mixAdd mix0 [1, 2, 3, 4, 5, 6, 7, 8, 9] 9 3 = Some mix' \<and> r < 5
    \<and> mix_total mix' + mx_skipped mix' + r = mix_total mix0 + mx_skipped mix0 + 9"
  by (rule prof_mixAdd_accounts) (simp_all add: PROF_MAX_CPUS_def)

text \<open>
  C29: A stream of whole events is read back exactly: for every list of well-formed events in the order of
  their times, the counts, the bytes and what was lost grow by what the events say, and no byte is
  skipped.
\<close>

theorem prof_mixAdd_exact:
  assumes "\<forall>e \<in> set evs. ev_wf e" "sorted (map fst evs)" "0 \<le> cpu" "cpu < int PROF_MAX_CPUS"
  shows "prof_mixAdd mix (concat (map enc evs)) (length (concat (map enc evs))) cpu = Some (mix_sum (nat cpu) mix evs)"
  using mix_loop_events [OF assms(1,2), of "[]" "nat cpu" False mix] assms(3,4) by (simp add: prof_mixAdd_def)

theorem prof_mixAdd_exact_witness:
  "let evs = [(5, 0x20, [9]), (6, 0x22, [1, 2]), (6, 0x46, [1, 0, 0, 0, 2, 0, 0, 0])] in
   prof_mixAdd mix0 (concat (map enc evs)) (length (concat (map enc evs))) 3 = Some (mix_sum (nat 3) mix0 evs)"
  unfolding Let_def
  by (rule prof_mixAdd_exact) (auto simp: PROF_MAX_CPUS_def prof_evSize_def ev_sample_def ev_wait_def ev_fixed_def)

text \<open>
  C30: \<open>prof_mixPrint\<close> ends, and prints a row for exactly the events that have bytes, each once, those with
  most bytes first; its total is the sum of the rows.
\<close>

theorem prof_mixPrint_ranked:
  assumes "nc = min (nat ncpus) PROF_MAX_CPUS"
  shows "\<exists>is. mo_rows (prof_mixPrint mix ncpus) = map (\<lambda>i. (prof_evName i, cpu_sum (mx_count mix) nc i, cpu_sum (mx_bytes mix) nc i,
        map (mx_bytes mix i) [0..<nc])) is
    \<and> distinct is \<and> set is = {i. i < 256 \<and> cpu_sum (mx_bytes mix) nc i > 0}
    \<and> sorted_wrt (\<lambda>i j. cpu_sum (mx_bytes mix) nc j \<le> cpu_sum (mx_bytes mix) nc i) is
    \<and> mo_total (prof_mixPrint mix ncpus) = sum_list (map (cpu_sum (mx_bytes mix) nc) is)"
proof -
  let ?b = "cpu_sum (mx_bytes mix) nc"
  have nc: "(if ncpus > int PROF_MAX_CPUS then PROF_MAX_CPUS else nat ncpus) = nc" using assms by auto
  have s: "distinct (mix_rows ?b [])" "set (mix_rows ?b []) = {i. i < 256 \<and> ?b i > 0}" "sorted_wrt (\<lambda>i j. ?b j \<le> ?b i) (mix_rows ?b [])"
    using mix_rows_ranked [of ?b "[]"] by auto
  have "sum_list (map ?b [0..<256]) = (\<Sum>i \<in> {0..<256}. ?b i)" by (simp add: interv_sum_list_conv_sum_set_nat)
  also have "\<dots> = (\<Sum>i \<in> {i. i < 256 \<and> ?b i > 0}. ?b i)" by (rule sum.mono_neutral_right) auto
  also have "\<dots> = sum_list (map ?b (mix_rows ?b []))" by (simp add: sum_list_distinct_conv_sum_set s)
  finally show ?thesis using s by (intro exI [of _ "mix_rows ?b []"]) (simp add: prof_mixPrint_def Let_def nc)
qed

theorem prof_mixPrint_ranked_witness:
  "\<exists>is. mo_rows (prof_mixPrint mix0 4) = map (\<lambda>i. (prof_evName i, cpu_sum (mx_count mix0) 4 i, cpu_sum (mx_bytes mix0) 4 i,
        map (mx_bytes mix0 i) [0..<4])) is
    \<and> distinct is \<and> set is = {i. i < 256 \<and> cpu_sum (mx_bytes mix0) 4 i > 0}
    \<and> sorted_wrt (\<lambda>i j. cpu_sum (mx_bytes mix0) 4 j \<le> cpu_sum (mx_bytes mix0) 4 i) is
    \<and> mo_total (prof_mixPrint mix0 4) = sum_list (map (cpu_sum (mx_bytes mix0) 4) is)"
  by (rule prof_mixPrint_ranked) (simp add: PROF_MAX_CPUS_def)

end
