(* ===== verification/Ls.thy ===== *)
theory Ls
  imports Ptable Getopt "HOL-Library.Monad_Syntax" "HOL-Library.Multiset"
begin

text \<open>
  The \<open>ls\<close> applet, \<open>src/psh/ls/ls.c\<close>: its options, the entries collected in a growing array, sorting, the
  layout in columns, the long format and the listing that needs no memory.

  The array \<open>psh_ls_common.files\<close> is a list of its allocated length, and a use of an index outside it, of a name
  buffer that is too short or of a division by 0 is \<open>None\<close>. Which allocations succeed, the file system, the
  password and group files, the size of the window and the local time are parameters. Only the standard
  output is kept.
\<close>

section \<open>Files\<close>

datatype ftype = FReg | FDir | FChr | FBlk | FLnk | FFifo | FSock | FOther

record fstat =
  st_mtime :: int
  st_size :: nat
  st_nlink :: nat
  st_type :: ftype
  st_perm :: nat
  st_uid :: nat
  st_gid :: nat

record fileinfo =
  fi_name :: string
  fi_namelen :: nat
  fi_memlen :: nat
  fi_mtime :: int
  fi_size :: nat
  fi_nlink :: nat
  fi_type :: ftype
  fi_perm :: nat
  fi_pw :: "string option"
  fi_gr :: "string option"

record lsenv =
  le_winsize :: "nat option"
  le_lstat :: "string \<Rightarrow> fstat option"
  le_dir :: "string \<Rightarrow> string list option"
  le_pw :: "nat \<Rightarrow> string option"
  le_gr :: "nat \<Rightarrow> string option"
  le_odir :: bool
  le_expand :: "nat \<Rightarrow> bool"
  le_namebuf :: "nat \<Rightarrow> bool"
  le_fullname :: "nat \<Rightarrow> bool"
  le_colsz :: bool
  le_time :: "int \<Rightarrow> string \<times> nat \<times> int \<times> string"
  le_now :: int

datatype lsmode = MODE_NORMAL | MODE_ONEPERLINE | MODE_LONG

datatype lscmp = CmpName | CmpMtime | CmpSize

record lsopts =
  lo_mode :: lsmode
  lo_all :: bool
  lo_rev :: int
  lo_dir :: bool
  lo_cmp :: "lscmp option"

text \<open>The comparisons; a difference is cut to the 32 bits of \<open>int\<close>.\<close>

definition to_int :: "int \<Rightarrow> int" where
  "to_int v = (v + 2 ^ 31) mod 2 ^ 32 - 2 ^ 31"

definition lowcase :: "char \<Rightarrow> char" where
  "lowcase c = (if 65 \<le> code c \<and> code c \<le> 90 then char_of (code c + 32) else c)"

definition psh_ls_cmpname :: "int \<Rightarrow> fileinfo \<Rightarrow> fileinfo \<Rightarrow> int" where
  "psh_ls_cmpname rv f g = strcmp (map lowcase (fi_name f)) (map lowcase (fi_name g)) * rv"

definition psh_ls_cmpmtime :: "int \<Rightarrow> fileinfo \<Rightarrow> fileinfo \<Rightarrow> int" where
  "psh_ls_cmpmtime rv f g = to_int ((fi_mtime g - fi_mtime f) * rv)"

definition psh_ls_cmpsize :: "int \<Rightarrow> fileinfo \<Rightarrow> fileinfo \<Rightarrow> int" where
  "psh_ls_cmpsize rv f g = to_int ((int (fi_size g) - int (fi_size f)) * rv)"

definition ls_cmp :: "lscmp \<Rightarrow> int \<Rightarrow> fileinfo \<Rightarrow> fileinfo \<Rightarrow> int" where
  "ls_cmp c = (case c of CmpName \<Rightarrow> psh_ls_cmpname | CmpMtime \<Rightarrow> psh_ls_cmpmtime | CmpSize \<Rightarrow> psh_ls_cmpsize)"

text \<open>\<open>qsort\<close>, here by insertion.\<close>

fun place :: "('a \<Rightarrow> 'a \<Rightarrow> int) \<Rightarrow> 'a \<Rightarrow> 'a list \<Rightarrow> 'a list" where
  "place cmp x [] = [x]"
| "place cmp x (y # ys) = (if cmp x y \<le> 0 then x # y # ys else y # place cmp x ys)"

definition qsort :: "('a \<Rightarrow> 'a \<Rightarrow> int) \<Rightarrow> 'a list \<Rightarrow> 'a list" where
  "qsort cmp xs = foldr (place cmp) xs []"

section \<open>Columns\<close>

text \<open>\<open>ws_col - 1\<close> in a comparison with a \<open>size_t\<close>.\<close>

definition cut :: "nat \<Rightarrow> nat" where
  "cut w = (if w = 0 then 2 ^ 64 - 1 else w - 1)"

text \<open>The widths for \<open>nrows\<close> rows; the last column has no space behind it. \<open>cap\<close> is what was allocated.\<close>

definition col_widths :: "nat \<Rightarrow> nat list \<Rightarrow> nat \<Rightarrow> nat \<Rightarrow> nat list" where
  "col_widths w lens nrows ncols =
     (let cs = fold (\<lambda>i cs. cs[i div nrows := max (cs ! (i div nrows)) (min (lens ! i + 2) (cut w))]) [0..<length lens] (replicate ncols 0)
      in cs[ncols - 1 := (cs ! (ncols - 1) + (2 ^ 64 - 2)) mod 2 ^ 64])"

definition ncols_of :: "nat \<Rightarrow> nat \<Rightarrow> nat" where
  "ncols_of n nrows = n div nrows + (if n mod nrows \<noteq> 0 then 1 else 0)"

function rows_loop :: "nat \<Rightarrow> nat list \<Rightarrow> nat \<Rightarrow> nat \<Rightarrow> nat \<Rightarrow> nat list \<Rightarrow> (nat \<times> nat \<times> nat list) option" where
  "rows_loop w lens cap nrows ncols colsz =
     (if nrows \<le> length lens then
        (let nc = ncols_of (length lens) nrows; cs = col_widths w lens nrows nc in
         if nc > cap \<or> nc = 0 then None
         else if sum_list cs < w then Some (nrows, nc, cs)
         else rows_loop w lens cap (nrows + 1) nc cs)
      else Some (nrows, ncols, colsz))"
  by pat_completeness auto
termination by (relation "measure (\<lambda>(w, lens, cap, nrows, ncols, colsz). length lens + 1 - nrows)") auto

declare rows_loop.simps [simp del]

text \<open>The rows, the columns and their widths.\<close>

definition psh_ls_computerows :: "nat \<Rightarrow> nat list \<Rightarrow> (nat \<times> nat \<times> nat list) option" where
  "psh_ls_computerows w lens =
     (if w = 0 then None
      else (let nrows = sum_list (map (\<lambda>l. min l (cut w)) lens) div w + 1; ncols = length lens div nrows + 1
        in rows_loop w lens ncols nrows ncols (replicate ncols 0)))"

text \<open>The cells of a row: the file and the width it is printed with.\<close>

definition ls_cells :: "nat \<Rightarrow> fileinfo list \<Rightarrow> nat \<times> nat \<times> nat list \<Rightarrow> (fileinfo \<times> nat) list list" where
  "ls_cells w files lay = (case lay of (nrows, ncols, colsz) \<Rightarrow>
     map (\<lambda>row. map (\<lambda>col. let f = files ! (col * nrows + row) in (f, max (fi_namelen f) (min (colsz ! col) w)))
        (filter (\<lambda>col. col * nrows + row < length files) [0..<ncols])) [0..<nrows])"

definition esc :: "string \<Rightarrow> string" where
  "esc s = [CHR 0x1b, CHR ''[''] @ s @ ''m''"

definition psh_ls_printfile :: "fileinfo \<Rightarrow> nat \<Rightarrow> string" where
  "psh_ls_printfile f width =
     (let col = (if fi_type f = FReg \<and> (bit (fi_perm f) 6 \<or> bit (fi_perm f) 3 \<or> bit (fi_perm f) 0) then Some (esc ''32'')
         else if fi_type f = FDir then Some (esc ''34'') else if fi_type f = FChr \<or> fi_type f = FBlk then Some (esc ''33;40'')
         else if fi_type f = FLnk then Some (esc ''36'') else None)
      in (case col of None \<Rightarrow> padr width (fi_name f) | Some c \<Rightarrow> c @ padr width (fi_name f) @ esc ''0''))"

abbreviation (input) nl :: string where "nl \<equiv> [CHR 0x0a]"

text \<open>The result and the output.\<close>

definition psh_ls_printmultiline :: "lsenv \<Rightarrow> nat \<Rightarrow> fileinfo list \<Rightarrow> (int \<times> string) option" where
  "psh_ls_printmultiline env w files =
     (if w = 0 then None
      else if \<not> le_colsz env then Some (- ENOMEM, [])
      else map_option (\<lambda>lay. (0, concat (map (\<lambda>cells. concat (map (\<lambda>(f, k). psh_ls_printfile f k) cells) @ nl) (ls_cells w files lay))))
        (psh_ls_computerows w (map fi_namelen files)))"

section \<open>The long format\<close>

fun psh_ls_numplaces :: "nat \<Rightarrow> nat" where
  "psh_ls_numplaces n = (if n div 10 = 0 then 1 else psh_ls_numplaces (n div 10) + 1)"

declare psh_ls_numplaces.simps [simp del]

definition ls_perms :: "fileinfo \<Rightarrow> string" where
  "ls_perms f =
     (case fi_type f of FDir \<Rightarrow> CHR ''d'' | FChr \<Rightarrow> CHR ''c'' | FBlk \<Rightarrow> CHR ''b'' | FLnk \<Rightarrow> CHR ''l'' | FFifo \<Rightarrow> CHR ''p'' | FSock \<Rightarrow> CHR ''s'' | _ \<Rightarrow> CHR ''-'')
     # map (\<lambda>(b, c). if bit (fi_perm f) b then c else CHR ''-'') (zip [8, 7, 6, 5, 4, 3, 2, 1, 0] ''rwxrwxrwx'')"

definition ls_owner :: "string option \<Rightarrow> string" where
  "ls_owner o1 = (case o1 of Some n \<Rightarrow> n | None \<Rightarrow> ''---'')"

text \<open>The widths of the columns: links, user, group, size, day. The size is cut to \<open>unsigned int\<close> for its width.\<close>

definition long_widths :: "lsenv \<Rightarrow> fileinfo list \<Rightarrow> nat \<times> nat \<times> nat \<times> nat \<times> nat" where
  "long_widths env files = fold (\<lambda>f (l, u, g, s, d).
     (max (psh_ls_numplaces (fi_nlink f mod 2 ^ 32)) l, (case fi_pw f of Some n \<Rightarrow> max (length n) u | None \<Rightarrow> u),
      (case fi_gr f of Some n \<Rightarrow> max (length n) g | None \<Rightarrow> g), max (psh_ls_numplaces (fi_size f mod 2 ^ 32)) s,
      (if fst (snd (le_time env (fi_mtime f))) \<ge> 10 then 2 else d))) files (1, 3, 3, 1, 1)"

definition long_date :: "lsenv \<Rightarrow> nat \<Rightarrow> int \<Rightarrow> string" where
  "long_date env daysz t = (case le_time env t of (mon, mday, year, hm) \<Rightarrow>
     mon @ '' '' @ padleft daysz (dec mday) @ '' ''
     @ (if year = fst (snd (snd (le_time env (le_now env)))) then hm else padleft 5 (dec (nat (year + 1900)))))"

definition psh_ls_printlong :: "lsenv \<Rightarrow> fileinfo list \<Rightarrow> string" where
  "psh_ls_printlong env files = (case long_widths env files of (linksz, usersz, grpsz, sizesz, daysz) \<Rightarrow>
     concat (map (\<lambda>f. ls_perms f @ '' '' @ padleft linksz (dec (fi_nlink f)) @ '' '' @ padr usersz (ls_owner (fi_pw f)) @ '' ''
       @ padr grpsz (ls_owner (fi_gr f)) @ '' '' @ padleft sizesz (dec (fi_size f)) @ '' '' @ long_date env daysz (fi_mtime f) @ '' ''
       @ psh_ls_printfile f (fi_namelen f) @ nl) files))"

definition psh_ls_printfiles :: "lsenv \<Rightarrow> lsopts \<Rightarrow> nat \<Rightarrow> fileinfo list \<Rightarrow> (int \<times> string) option" where
  "psh_ls_printfiles env o1 w files = (case lo_mode o1 of
     MODE_LONG \<Rightarrow> Some (0, psh_ls_printlong env files)
   | MODE_ONEPERLINE \<Rightarrow> Some (0, concat (map (\<lambda>f. psh_ls_printfile f (fi_namelen f) @ nl) files))
   | MODE_NORMAL \<Rightarrow> psh_ls_printmultiline env w files)"
section \<open>Entries\<close>

definition psh_ls_statentry :: "lsenv \<Rightarrow> lsopts \<Rightarrow> fileinfo \<Rightarrow> string \<Rightarrow> fileinfo option" where
  "psh_ls_statentry env o1 f path = (case le_lstat env path of
     None \<Rightarrow> None
   | Some st \<Rightarrow>
       let f1 = f\<lparr>fi_mtime := st_mtime st, fi_size := st_size st, fi_nlink := st_nlink st, fi_type := st_type st, fi_perm := st_perm st\<rparr>
       in Some (if lo_mode o1 = MODE_LONG then f1\<lparr>fi_pw := le_pw env (st_uid st), fi_gr := le_gr env (st_gid st)\<rparr> else f1))"

text \<open>The buffer of the name is grown when it is too short; a copy beyond its size is \<open>None\<close>.\<close>

definition psh_ls_copyname :: "lsenv \<Rightarrow> fileinfo \<Rightarrow> string \<Rightarrow> (int \<times> fileinfo) option" where
  "psh_ls_copyname env f name =
     (let grow = fi_memlen f \<le> length name; f1 = (if grow then f\<lparr>fi_memlen := length name + 1\<rparr> else f) in
      if grow \<and> \<not> le_namebuf env (length name + 1) then Some (- ENOMEM, f)
      else if length name + 1 \<le> fi_memlen f1 then Some (0, f1\<lparr>fi_name := name, fi_namelen := length name\<rparr>) else None)"

definition full_name :: "string \<Rightarrow> string \<Rightarrow> string" where
  "full_name path name = (if last path \<noteq> CHR ''/'' then path @ ''/'' @ name else path @ name)"

definition psh_ls_readentry :: "lsenv \<Rightarrow> lsopts \<Rightarrow> fileinfo \<Rightarrow> string \<Rightarrow> string \<Rightarrow> (int \<times> fileinfo) option" where
  "psh_ls_readentry env o1 f name path = do {
     (r, f1) \<leftarrow> psh_ls_copyname env f name;
     (if r < 0 then Some (r, f1)
      else if \<not> le_fullname env (fi_namelen f1 + length path + 2) then Some (- ENOMEM, f1)
      else if path = [] then None
      else (case psh_ls_statentry env o1 f1 (full_name path name) of None \<Rightarrow> Some (-1, f1) | Some f2 \<Rightarrow> Some (0, f2))) }"

text \<open>An entry with cleared name; the memory of the other fields is arbitrary and is set before it is used.\<close>

definition no_file :: fileinfo where
  "no_file = \<lparr>fi_name = [], fi_namelen = 0, fi_memlen = 0, fi_mtime = 0, fi_size = 0, fi_nlink = 0, fi_type = FOther, fi_perm = 0, fi_pw = None, fi_gr = None\<rparr>"

definition psh_ls_expandbuff :: "lsenv \<Rightarrow> nat \<Rightarrow> fileinfo list \<Rightarrow> fileinfo list option" where
  "psh_ls_expandbuff env n files = (if le_expand env n then Some (take n files @ replicate (n - length files) no_file) else None)"

definition hidden :: "lsopts \<Rightarrow> string \<Rightarrow> bool" where
  "hidden o1 name \<longleftrightarrow> name \<noteq> [] \<and> hd name = CHR ''.'' \<and> \<not> lo_all o1"

section \<open>The listing without memory\<close>

text \<open>The entries of one directory: the result, the output and the width used of the line.\<close>

fun lowmem_entries :: "lsenv \<Rightarrow> lsopts \<Rightarrow> nat \<Rightarrow> string \<Rightarrow> fileinfo \<Rightarrow> nat \<Rightarrow> string list \<Rightarrow> (int \<times> string \<times> nat) option" where
  "lowmem_entries env o1 w path f colsz [] = Some (0, [], colsz)"
| "lowmem_entries env o1 w path f colsz (d # ds) =
     (if hidden o1 d then lowmem_entries env o1 w path f colsz ds
      else do {
        (r, f1) \<leftarrow> psh_ls_readentry env o1 f d path;
        (if r < 0 then Some (r, [], colsz)
         else (let brk = colsz + fi_namelen f1 + 1 > w; used = (if brk then 0 else colsz) in do {
           (r, out, c) \<leftarrow> lowmem_entries env o1 w path f1 (used + fi_namelen f1 + 1) ds;
           Some (r, (if brk then nl else []) @ psh_ls_printfile f1 (fi_namelen f1) @ '' '' @ out, c) })) })"

fun lowmem_paths :: "lsenv \<Rightarrow> lsopts \<Rightarrow> nat \<Rightarrow> bool \<Rightarrow> nat \<Rightarrow> string list \<Rightarrow> (int \<times> string) option" where
  "lowmem_paths env o1 w many colsz [] = Some (0, [])"
| "lowmem_paths env o1 w many colsz (p # ps) = (case psh_ls_statentry env o1 no_file p of
     None \<Rightarrow> Some (-1, [])
   | Some f \<Rightarrow>
       if fi_type f \<noteq> FDir then lowmem_paths env o1 w many colsz ps
       else (case le_dir env p of
           None \<Rightarrow> Some (0, [])
         | Some ds \<Rightarrow> do {
             (r, out, c) \<leftarrow> lowmem_entries env o1 w p f colsz ds;
             let out1 = (if many then p @ '':'' @ nl else []) @ out;
             (if r < 0 then Some (r, out1)
              else do { (r2, out2) \<leftarrow> lowmem_paths env o1 w many c ps; Some (r2, out1 @ nl @ out2) }) }))"

definition psh_ls_lowmem :: "lsenv \<Rightarrow> lsopts \<Rightarrow> nat \<Rightarrow> string list \<Rightarrow> (int \<times> string) option" where
  "psh_ls_lowmem env o1 w paths = (let ps = (if paths = [] then [''.''] else paths) in lowmem_paths env o1 w (length ps > 1) 0 ps)"

section \<open>The applet\<close>

text \<open>
  The paths: the array of files, how many are in it, which paths are directories to list, and \<open>ret\<close>; \<open>Inl\<close>
  is a return with its output.
\<close>

fun stat_loop :: "lsenv \<Rightarrow> lsopts \<Rightarrow> nat \<Rightarrow> string list \<Rightarrow> fileinfo list \<Rightarrow> nat \<Rightarrow> bool list \<Rightarrow> int \<Rightarrow> string list
    \<Rightarrow> ((int \<times> string) + fileinfo list \<times> nat \<times> bool list \<times> int) option" where
  "stat_loop env o1 w all files nfiles odir ret [] = Some (Inr (files, nfiles, odir, ret))"
| "stat_loop env o1 w all files nfiles odir ret (p # ps) = do {
     f0 \<leftarrow> peek files nfiles;
     (case psh_ls_statentry env o1 f0 p of
        None \<Rightarrow> stat_loop env o1 w all files nfiles (odir @ [False]) (-1) ps
      | Some f \<Rightarrow>
          let files1 = files[nfiles := f] in
          if p = [] then None
          else if last p = CHR ''/'' \<and> fi_type f \<noteq> FDir then stat_loop env o1 w all files1 nfiles (odir @ [False]) 0 ps
          else if fi_type f \<noteq> FDir \<or> lo_dir o1 then do {
            (r, f2) \<leftarrow> psh_ls_copyname env f p;
            (if r < 0 then Some (Inl (r, []))
             else (let files2 = files1[nfiles := f2]; n = nfiles + 1 in
               if n = length files2 then
                 (case psh_ls_expandbuff env (length files2 * 2) files2 of
                    None \<Rightarrow> map_option Inl (psh_ls_lowmem env o1 w all)
                  | Some fs \<Rightarrow> stat_loop env o1 w all fs n (odir @ [False]) 0 ps)
               else stat_loop env o1 w all files2 n (odir @ [False]) 0 ps)) }
          else stat_loop env o1 w all files1 nfiles (odir @ [True]) 0 ps) }"

text \<open>The entries of a directory; \<open>Inr\<close> of \<open>Inl\<close> is a return that keeps the output so far, see \<open>list_dir\<close>.\<close>

fun read_loop :: "lsenv \<Rightarrow> lsopts \<Rightarrow> nat \<Rightarrow> string list \<Rightarrow> string \<Rightarrow> fileinfo list \<Rightarrow> nat \<Rightarrow> int \<Rightarrow> string list
    \<Rightarrow> ((int \<times> string) + fileinfo list \<times> nat \<times> int) option" where
  "read_loop env o1 w all path files nfiles ret [] = Some (Inr (files, nfiles, ret))"
| "read_loop env o1 w all path files nfiles ret (d # ds) =
     (if hidden o1 d then read_loop env o1 w all path files nfiles ret ds
      else do {
        f0 \<leftarrow> peek files nfiles;
        (r, f) \<leftarrow> psh_ls_readentry env o1 f0 d path;
        (if r < 0 then Some (Inl (r, []))
         else (let files1 = files[nfiles := f]; n = nfiles + 1 in
           if n = length files1 then
             (case psh_ls_expandbuff env (length files1 * 2) files1 of
                None \<Rightarrow> map_option Inl (psh_ls_lowmem env o1 w all)
              | Some fs \<Rightarrow> read_loop env o1 w all path fs n 0 ds)
           else read_loop env o1 w all path files1 n r ds)) })"

definition sort_files :: "lsopts \<Rightarrow> nat \<Rightarrow> fileinfo list \<Rightarrow> fileinfo list" where
  "sort_files o1 n files = (case lo_cmp o1 of None \<Rightarrow> files | Some c \<Rightarrow> qsort (ls_cmp c (lo_rev o1)) (take n files) @ drop n files)"

text \<open>One directory; \<open>Inl\<close> is a return from the applet, the \<open>bool\<close> of \<open>Inr\<close> says whether it could be opened.\<close>

definition list_dir :: "lsenv \<Rightarrow> lsopts \<Rightarrow> nat \<Rightarrow> string list \<Rightarrow> string \<Rightarrow> fileinfo list \<Rightarrow> nat \<Rightarrow> int
    \<Rightarrow> ((int \<times> string) + bool \<times> fileinfo list \<times> nat \<times> int \<times> string) option" where
  "list_dir env o1 w all path files nfiles ret = (case le_dir env path of
     None \<Rightarrow> Some (Inr (False, files, nfiles, ret, []))
   | Some ds \<Rightarrow>
       let head = (if length all > 1 then (if nfiles > 0 then nl else []) @ path @ '':'' @ nl else []) in
       (case read_loop env o1 w all path files 0 ret ds of
          None \<Rightarrow> None
        | Some (Inl (r, out)) \<Rightarrow> Some (Inl (r, head @ out))
        | Some (Inr (fs, n, r)) \<Rightarrow>
            if n > 0 then (let fs1 = sort_files o1 n fs in
              map_option (\<lambda>(_, out). Inr (True, fs1, n, r, head @ out)) (psh_ls_printfiles env o1 w (take n fs1)))
            else Some (Inr (True, fs, 0, r, head))))"

text \<open>The \<open>do\<close> loop. A path that is not listed increments \<open>i\<close> once more before the \<open>continue\<close>, which goes to the condition.\<close>

function dirs_loop :: "lsenv \<Rightarrow> lsopts \<Rightarrow> nat \<Rightarrow> string list \<Rightarrow> bool list \<Rightarrow> nat \<Rightarrow> fileinfo list \<Rightarrow> nat \<Rightarrow> int \<Rightarrow> (int \<times> string) option" where
  "dirs_loop env o1 w paths odir i files nfiles ret =
     (if paths \<noteq> [] \<and> i \<ge> length odir then None
      else if paths = [] \<or> odir ! i then
        (case list_dir env o1 w paths (if paths = [] then ''.'' else paths ! i) files nfiles ret of
           None \<Rightarrow> None
         | Some (Inl (r, out)) \<Rightarrow> Some (r, out)
         | Some (Inr (opened, fs, n, r, out)) \<Rightarrow>
             if \<not> opened then Some (r, out)
             else if i + 1 < length paths then map_option (\<lambda>(r2, out2). (r2, out @ out2)) (dirs_loop env o1 w paths odir (i + 1) fs n r)
             else Some (r, out))
      else if i + 2 < length paths then dirs_loop env o1 w paths odir (i + 2) files nfiles ret
      else Some (ret, []))"
  by pat_completeness auto
termination by (relation "measure (\<lambda>(env, o1, w, paths, odir, i, files, nfiles, ret). length paths - i)") auto

declare dirs_loop.simps [simp del]

definition ls_defaults :: lsopts where
  "ls_defaults = \<lparr>lo_mode = MODE_NORMAL, lo_all = False, lo_rev = 1, lo_dir = False, lo_cmp = Some CmpName\<rparr>"

fun ls_options :: "optev list \<Rightarrow> lsopts \<Rightarrow> lsopts option" where
  "ls_options [] o1 = Some o1"
| "ls_options (e # es) o1 = (case e of
     OptErr _ \<Rightarrow> None
   | Opt x _ \<Rightarrow>
       if x = CHR ''l'' then ls_options es (o1\<lparr>lo_mode := MODE_LONG\<rparr>)
       else if x = CHR ''a'' then ls_options es (o1\<lparr>lo_all := True\<rparr>)
       else if x = CHR ''1'' then ls_options es (if lo_mode o1 = MODE_NORMAL then o1\<lparr>lo_mode := MODE_ONEPERLINE\<rparr> else o1)
       else if x = CHR ''t'' then ls_options es (o1\<lparr>lo_cmp := Some CmpMtime\<rparr>)
       else if x = CHR ''f'' then ls_options es (o1\<lparr>lo_cmp := None\<rparr>)
       else if x = CHR ''S'' then ls_options es (o1\<lparr>lo_cmp := Some CmpSize\<rparr>)
       else if x = CHR ''r'' then ls_options es (o1\<lparr>lo_rev := -1\<rparr>)
       else if x = CHR ''d'' then ls_options es (o1\<lparr>lo_dir := True\<rparr>)
       else None)"

definition psh_ls :: "lsenv \<Rightarrow> string list \<Rightarrow> (int \<times> string) option" where
  "psh_ls env argv =
     (let w = (case le_winsize env of Some c \<Rightarrow> c | None \<Rightarrow> 80) in
      case getopt_scan ''lad1htfSr'' (tl argv) of (evs, args) \<Rightarrow>
        (case ls_options evs ls_defaults of
           None \<Rightarrow> Some (0, [])
         | Some o1 \<Rightarrow>
             let paths = (if lo_dir o1 \<and> args = [] then [''.''] else args) in
             if paths \<noteq> [] \<and> \<not> le_odir env then psh_ls_lowmem env o1 w paths
             else (case psh_ls_expandbuff env 32 [] of
                 None \<Rightarrow> psh_ls_lowmem env o1 w paths
               | Some files \<Rightarrow> (case stat_loop env o1 w paths files 0 [] 0 paths of
                     None \<Rightarrow> None
                   | Some (Inl res) \<Rightarrow> Some res
                   | Some (Inr (fs, n, odir, ret)) \<Rightarrow>
                       if n > 0 then (let fs1 = sort_files o1 n fs in
                         (case psh_ls_printfiles env o1 w (take n fs1) of
                            None \<Rightarrow> None
                          | Some (r, out) \<Rightarrow>
                              if r < 0 then Some (r, out)
                              else map_option (\<lambda>(r2, out2). (r2, out @ out2)) (dirs_loop env o1 w paths odir 0 fs1 n r)))
                       else dirs_loop env o1 w paths odir 0 fs n ret))))"

end
