(* ===== verification/Lsproofs.thy ===== *)
theory Lsproofs
  imports Ls
begin

text \<open>
  What the \<open>ls\<close> applet of \<open>ls.c\<close> prints: the order of the entries, the layout in columns, the directories that
  are listed, and the defects found.
\<close>

section \<open>Sorting\<close>

text \<open>What \<open>qsort\<close> relies on: on the elements of \<open>A\<close> the comparison is a total preorder.\<close>

locale comparison =
  fixes cmp :: "'a \<Rightarrow> 'a \<Rightarrow> int" and A :: "'a set"
  assumes cmp_total: "x \<in> A \<Longrightarrow> y \<in> A \<Longrightarrow> cmp x y \<le> 0 \<or> cmp y x \<le> 0"
    and cmp_trans: "x \<in> A \<Longrightarrow> y \<in> A \<Longrightarrow> z \<in> A \<Longrightarrow> cmp x y \<le> 0 \<Longrightarrow> cmp y z \<le> 0 \<Longrightarrow> cmp x z \<le> 0"
begin

lemma mset_place: "mset (place cmp x ys) = add_mset x (mset ys)"
  by (induction ys) auto

lemma set_place: "set (place cmp x ys) = insert x (set ys)"
  by (induction ys) auto

lemma sorted_place:
  assumes "x \<in> A" "set ys \<subseteq> A" "sorted_wrt (\<lambda>a b. cmp a b \<le> 0) ys"
  shows "sorted_wrt (\<lambda>a b. cmp a b \<le> 0) (place cmp x ys)"
  using assms(2,3)
proof (induction ys)
  case (Cons y ys)
  then show ?case
  proof (cases "cmp x y \<le> 0")
    case True
    then have "cmp x z \<le> 0" if "z \<in> set ys" for z using cmp_trans [of x y z] Cons.prems that assms(1) by auto
    then show ?thesis using True Cons.prems by simp
  next
    case False
    then have "cmp y x \<le> 0" using cmp_total [of x y] Cons.prems assms(1) by auto
    then show ?thesis using False Cons by (auto simp: set_place)
  qed
qed simp

lemma qsort_sorts: "set xs \<subseteq> A \<Longrightarrow> mset (qsort cmp xs) = mset xs \<and> sorted_wrt (\<lambda>a b. cmp a b \<le> 0) (qsort cmp xs)"
proof (induction xs)
  case (Cons x xs)
  then have IH: "mset (qsort cmp xs) = mset xs" "sorted_wrt (\<lambda>a b. cmp a b \<le> 0) (qsort cmp xs)" by auto
  have "set (qsort cmp xs) = set xs" using IH(1) by (metis mset_eq_setD)
  then show ?case using sorted_place [of x "qsort cmp xs"] IH Cons.prems by (simp add: qsort_def mset_place)
qed (simp add: qsort_def)

end

definition sign :: "int \<Rightarrow> bool" where
  "sign rv \<longleftrightarrow> rv = 1 \<or> rv = -1"

text \<open>Files whose sizes and times are within 31 bits of each other.\<close>

definition close_files :: "fileinfo set" where
  "close_files = {f. fi_size f < 2 ^ 31 \<and> 0 \<le> fi_mtime f \<and> fi_mtime f < 2 ^ 31}"

lemma to_int_id: "- (2 ^ 31) \<le> v \<Longrightarrow> v < 2 ^ 31 \<Longrightarrow> to_int v = v"
  by (simp add: to_int_def)

lemma strcmp_total: "strcmp xs ys \<le> 0 \<or> strcmp ys xs \<le> 0"
  using strcmp_antisym [of ys xs] by auto

interpretation by_name: comparison "psh_ls_cmpname 1" UNIV
  by unfold_locales (auto simp: psh_ls_cmpname_def strcmp_total intro: strcmp_le_trans)

interpretation by_name_reverse: comparison "psh_ls_cmpname (-1)" UNIV
proof
  fix x y z :: fileinfo
  define s where "s = (\<lambda>(f :: fileinfo) (g :: fileinfo). strcmp (map lowcase (fi_name f)) (map lowcase (fi_name g)))"
  have anti: "s f g = - s g f" for f g unfolding s_def by (rule strcmp_antisym)
  have tr: "s f g \<le> 0 \<Longrightarrow> s g h \<le> 0 \<Longrightarrow> s f h \<le> 0" for f g h unfolding s_def by (rule strcmp_le_trans)
  have eq: "psh_ls_cmpname (-1) f g = - s f g" for f g by (simp add: psh_ls_cmpname_def s_def)
  show "psh_ls_cmpname (-1) x y \<le> 0 \<or> psh_ls_cmpname (-1) y x \<le> 0" using anti [of x y] by (auto simp: eq)
  show "psh_ls_cmpname (-1) x y \<le> 0 \<Longrightarrow> psh_ls_cmpname (-1) y z \<le> 0 \<Longrightarrow> psh_ls_cmpname (-1) x z \<le> 0"
    using anti [of x y] anti [of y z] anti [of x z] tr [of z y x] by (simp add: eq)
qed

lemma close_diff:
  assumes "f \<in> close_files" "g \<in> close_files" "sign rv"
  shows "psh_ls_cmpsize rv f g = (int (fi_size g) - int (fi_size f)) * rv" "psh_ls_cmpmtime rv f g = (fi_mtime g - fi_mtime f) * rv"
  using assms by (auto simp: psh_ls_cmpsize_def psh_ls_cmpmtime_def close_files_def sign_def intro!: to_int_id)

interpretation by_size: comparison "psh_ls_cmpsize 1" close_files
  by unfold_locales (auto simp: close_diff sign_def)

interpretation by_size_reverse: comparison "psh_ls_cmpsize (-1)" close_files
  by unfold_locales (auto simp: close_diff sign_def)

interpretation by_mtime: comparison "psh_ls_cmpmtime 1" close_files
  by unfold_locales (auto simp: close_diff sign_def)

interpretation by_mtime_reverse: comparison "psh_ls_cmpmtime (-1)" close_files
  by unfold_locales (auto simp: close_diff sign_def)

lemmas qsort_all = by_name.qsort_sorts by_name_reverse.qsort_sorts by_size.qsort_sorts by_size_reverse.qsort_sorts
  by_mtime.qsort_sorts by_mtime_reverse.qsort_sorts

text \<open>The order an option asks for.\<close>

definition in_order :: "lscmp \<Rightarrow> fileinfo \<Rightarrow> fileinfo \<Rightarrow> bool" where
  "in_order c f g = (case c of
     CmpName \<Rightarrow> strcmp (map lowcase (fi_name f)) (map lowcase (fi_name g)) \<le> 0
   | CmpMtime \<Rightarrow> fi_mtime f \<ge> fi_mtime g
   | CmpSize \<Rightarrow> fi_size f \<ge> fi_size g)"

lemma ls_sorted:
  assumes "set files \<subseteq> close_files" "sign rv"
  shows "mset (qsort (ls_cmp c rv) files) = mset files
    \<and> sorted_wrt (\<lambda>f g. if rv = 1 then in_order c f g else in_order c g f) (qsort (ls_cmp c rv) files)"
proof -
  have srt: "mset (qsort (ls_cmp c rv) files) = mset files \<and> sorted_wrt (\<lambda>f g. ls_cmp c rv f g \<le> 0) (qsort (ls_cmp c rv) files)"
    using assms qsort_all [of files] by (cases c) (auto simp: ls_cmp_def sign_def)
  have "(if rv = 1 then in_order c f g else in_order c g f)" if "f \<in> set files" "g \<in> set files" "ls_cmp c rv f g \<le> 0" for f g
    using that assms strcmp_antisym [of "map lowcase (fi_name f)" "map lowcase (fi_name g)"]
    by (cases c) (auto simp: ls_cmp_def in_order_def sign_def psh_ls_cmpname_def close_diff subset_iff)
  moreover have "set (qsort (ls_cmp c rv) files) = set files" using srt by (metis mset_eq_setD)
  ultimately show ?thesis using srt by (auto intro: sorted_wrt_mono_rel [rotated])
qed

text \<open>A file of 3 GB comes behind an empty one in \<open>ls -S\<close>: the difference of the sizes is cut to 32 bits.\<close>

lemma ls_large_files_misplaced:
  assumes "fi_size f = 0" "fi_size g = 3 * 2 ^ 30"
  shows "qsort (ls_cmp CmpSize 1) [g, f] = [f, g]"
  using assms by (simp add: qsort_def ls_cmp_def psh_ls_cmpsize_def to_int_def)
section \<open>Columns\<close>

text \<open>The widest name of a column, with the two spaces behind it.\<close>

definition col_max :: "nat \<Rightarrow> nat list \<Rightarrow> nat \<Rightarrow> nat \<Rightarrow> nat" where
  "col_max w lens r c = fold max (map (\<lambda>i. min (lens ! i + 2) (cut w)) (filter (\<lambda>i. i div r = c) [0..<length lens])) 0"

lemma fold_max_start: "a \<le> fold max xs (a :: nat)"
proof (induction xs arbitrary: a)
  case (Cons x xs)
  show ?case using Cons.IH [of "max x a"] by simp
qed simp

lemma fold_max_ge: "x \<in> set xs \<Longrightarrow> x \<le> fold max xs (a :: nat)"
proof (induction xs arbitrary: a)
  case (Cons y xs)
  then show ?case using fold_max_start [of "max y a" xs] by auto
qed simp

lemma fold_max_le: "\<forall>x \<in> set xs. x \<le> b \<Longrightarrow> a \<le> b \<Longrightarrow> fold max xs (a :: nat) \<le> b"
  by (induction xs arbitrary: a) auto

lemma fold_widths:
  fixes v :: "nat \<Rightarrow> nat"
  assumes "\<forall>i < n. g i < m"
  defines "cs \<equiv> fold (\<lambda>i cs. cs[g i := max (cs ! g i) (v i)]) [0..<n] (replicate m 0)"
  shows "length cs = m \<and> (\<forall>c < m. cs ! c = fold max (map v (filter (\<lambda>i. g i = c) [0..<n])) 0)"
  using assms(1) unfolding cs_def
proof (induction n)
  case (Suc n)
  then show ?case by (auto simp: nth_list_update max.commute)
qed simp

lemma ncols_bound:
  assumes "1 \<le> r" "i < n"
  shows "i div r < ncols_of n r"
proof (cases "n mod r = 0")
  case True
  then have "n = n div r * r" by (metis add.right_neutral div_mult_mod_eq)
  then have "i < n div r * r" using assms(2) by simp
  then show ?thesis using True assms(1) by (simp add: ncols_of_def less_mult_imp_div_less)
next
  case False
  have "i div r \<le> n div r" using assms(2) by (simp add: div_le_mono)
  then show ?thesis using False by (simp add: ncols_of_def)
qed

lemma ncols_cover: "1 \<le> r \<Longrightarrow> n \<le> ncols_of n r * r"
proof -
  assume r: "1 \<le> r"
  define q k where "q = n div r" and "k = n mod r"
  have "n = q * r + k" "k < r" using r by (simp_all add: q_def k_def)
  then show ?thesis by (cases "k = 0") (simp_all add: ncols_of_def add_mult_distrib q_def [symmetric] k_def [symmetric])
qed

definition fits :: "nat \<Rightarrow> nat list \<Rightarrow> nat \<Rightarrow> bool" where
  "fits w lens r \<longleftrightarrow> sum_list (col_widths w lens r (ncols_of (length lens) r)) < w"

lemma col_widths_spec:
  assumes "1 \<le> r" "lens \<noteq> []" "3 \<le> w" "w < 2 ^ 16"
  defines "m \<equiv> ncols_of (length lens) r"
  shows "m \<ge> 1" "length (col_widths w lens r m) = m"
    "\<forall>c < m. col_widths w lens r m ! c = (if c = m - 1 then col_max w lens r c - 2 else col_max w lens r c)"
    "\<forall>i < length lens. min (lens ! i + 2) (w - 1) \<le> col_max w lens r (i div r)" "\<forall>c. col_max w lens r c < w"
proof -
  let ?cs = "fold (\<lambda>i cs. cs[i div r := max (cs ! (i div r)) (min (lens ! i + 2) (cut w))]) [0..<length lens] (replicate m 0)"
  have fw: "length ?cs = m" "\<forall>c < m. ?cs ! c = col_max w lens r c"
    using fold_widths [of "length lens" "\<lambda>i. i div r" m "\<lambda>i. min (lens ! i + 2) (cut w)"] ncols_bound [OF assms(1)]
    by (simp_all add: m_def col_max_def)
  show m: "m \<ge> 1" using ncols_bound [OF assms(1), of 0 "length lens"] assms(2) by (simp add: m_def Suc_le_eq)
  show ge: "\<forall>i < length lens. min (lens ! i + 2) (w - 1) \<le> col_max w lens r (i div r)"
    using assms(3) by (auto simp: col_max_def cut_def intro!: fold_max_ge)
  show lt: "\<forall>c. col_max w lens r c < w"
  proof
    fix c
    have "col_max w lens r c \<le> w - 1" using assms(3) unfolding col_max_def by (intro fold_max_le) (auto simp: cut_def)
    then show "col_max w lens r c < w" using assms(3) by linarith
  qed
  show "length (col_widths w lens r m) = m" using fw by (simp add: col_widths_def Let_def)
  have last: "(col_max w lens r (m - 1) + (2 ^ 64 - 2)) mod 2 ^ 64 = col_max w lens r (m - 1) - 2"
  proof -
    have "m - 1 = (length lens - 1) div r"
    proof (cases "length lens mod r = 0")
      case True
      then obtain q where q: "length lens = q * r" by (metis div_mult_mod_eq add.right_neutral)
      then have "q \<ge> 1" using assms(2) by (cases q) auto
      then have "length lens - 1 = (q - 1) * r + (r - 1)" using q assms(1) by (cases q) auto
      moreover have "((q - 1) * r + (r - 1)) div r = q - 1" using assms(1) by (subst div_mult_self3) auto
      ultimately show ?thesis using q assms(1) by (simp only: m_def ncols_of_def) simp
    next
      case False
      define q k where "q = length lens div r" and "k = length lens mod r"
      have "length lens = q * r + k" "k < r" "k \<noteq> 0" using False assms(1) by (simp_all add: q_def k_def)
      then have "length lens - 1 = q * r + (k - 1)" "k - 1 < r" by simp_all
      then have "(length lens - 1) div r = q" by simp
      then show ?thesis using \<open>k \<noteq> 0\<close> by (simp add: m_def ncols_of_def q_def [symmetric] k_def [symmetric])
    qed
    moreover have "min (lens ! (length lens - 1) + 2) (w - 1) \<le> col_max w lens r ((length lens - 1) div r)" using ge assms(2) by simp
    ultimately have "2 \<le> col_max w lens r (m - 1)" using assms(3) by simp
    moreover have "col_max w lens r (m - 1) < 2 ^ 16" using lt assms(4) by (meson less_trans)
    ultimately show ?thesis by (simp add: mod_if)
  qed
  show "\<forall>c < m. col_widths w lens r m ! c = (if c = m - 1 then col_max w lens r c - 2 else col_max w lens r c)"
    using fw last m by (auto simp: col_widths_def Let_def nth_list_update)
qed

lemma fits_one_column:
  assumes "lens \<noteq> []" "3 \<le> w" "w < 2 ^ 16"
  shows "fits w lens (length lens)"
proof -
  let ?cs = "col_widths w lens (length lens) 1"
  have m: "ncols_of (length lens) (length lens) = 1" using assms(1) by (simp add: ncols_of_def)
  have "1 \<le> length lens" using assms(1) by (simp add: Suc_le_eq)
  note spec = col_widths_spec [OF this assms, unfolded m]
  have "?cs = [?cs ! 0]" using spec(2) by (cases ?cs) auto
  moreover have "?cs ! 0 < w" using spec(3,5) by (simp add: less_imp_diff_less)
  ultimately have "sum_list ?cs < w" by (metis sum_list.Cons sum_list.Nil add.right_neutral)
  then show ?thesis by (simp add: fits_def m)
qed

text \<open>Names that fit the screen are not cut.\<close>

definition short :: "nat \<Rightarrow> nat list \<Rightarrow> bool" where
  "short w lens \<longleftrightarrow> (\<forall>l \<in> set lens. l + 3 \<le> w)"

lemma width_ge:
  assumes "1 \<le> r" "lens \<noteq> []" "3 \<le> w" "w < 2 ^ 16" "short w lens" "i < length lens"
  shows "lens ! i \<le> col_widths w lens r (ncols_of (length lens) r) ! (i div r)"
proof -
  note spec = col_widths_spec [OF assms(1-4)]
  have "lens ! i + 3 \<le> w" using assms(5,6) by (simp add: short_def)
  then have "min (lens ! i + 2) (w - 1) = lens ! i + 2" by simp
  then have "lens ! i + 2 \<le> col_max w lens r (i div r)" using spec(4) assms(6) by metis
  then show ?thesis using spec(3) ncols_bound [OF assms(1,6)] by auto
qed

lemma sum_blocks: "(\<Sum>i < m * r. f (i div r)) = r * (\<Sum>c < m. f c :: nat)" if "1 \<le> r"
proof (induction m)
  case (Suc m)
  have "(\<Sum>i = m * r..<m * r + r. f (i div r)) = (\<Sum>i = m * r..<m * r + r. f m)"
  proof (rule sum.cong)
    fix i
    assume "i \<in> {m * r..<m * r + r}"
    then have "i div r = m" using that by (intro div_nat_eqI) (auto simp: mult.commute)
    then show "f (i div r) = f m" by simp
  qed simp
  moreover have "(\<Sum>i < Suc m * r. f (i div r)) = (\<Sum>i < m * r. f (i div r)) + (\<Sum>i = m * r..<m * r + r. f (i div r))"
    using sum.atLeastLessThan_concat [of 0 "m * r" "m * r + r" "\<lambda>i. f (i div r)"] by (simp add: lessThan_atLeast0 add.commute)
  ultimately show ?case using Suc by (simp add: algebra_simps)
qed simp

lemma fits_lower_bound:
  assumes "1 \<le> r" "lens \<noteq> []" "3 \<le> w" "w < 2 ^ 16" "short w lens" "fits w lens r"
  shows "sum_list lens div w + 1 \<le> r"
proof -
  define m where "m = ncols_of (length lens) r"
  define W where "W = (\<lambda>c. col_widths w lens r m ! c)"
  have len: "length (col_widths w lens r m) = m" using col_widths_spec [OF assms(1-4)] by (simp add: m_def)
  have "sum_list lens = (\<Sum>i < length lens. lens ! i)" by (simp add: sum_list_sum_nth lessThan_atLeast0)
  also have "\<dots> \<le> (\<Sum>i < length lens. W (i div r))" using width_ge [OF assms(1-5)] by (intro sum_mono) (simp add: W_def m_def)
  also have "\<dots> \<le> (\<Sum>i < m * r. W (i div r))" using ncols_cover [OF assms(1)] by (intro sum_mono2) (auto simp: m_def intro: less_le_trans)
  also have "\<dots> = r * (\<Sum>c < m. W c)" by (rule sum_blocks [OF assms(1)])
  also have "(\<Sum>c < m. W c) = sum_list (col_widths w lens r m)" using len by (simp add: sum_list_sum_nth W_def lessThan_atLeast0)
  also have "r * \<dots> < r * w" using assms(1,6) by (simp add: fits_def m_def)
  finally have "sum_list lens div w < r" using assms(3) by (simp add: div_less_iff_less_mult mult.commute)
  then show ?thesis by simp
qed

lemma rows_loop_least:
  assumes "lens \<noteq> []" "3 \<le> w" "w < 2 ^ 16" "1 \<le> r0" "r0 \<le> length lens" "length lens div r0 + 1 \<le> cap"
  shows "\<exists>r. rows_loop w lens cap r0 nc cs = Some (r, ncols_of (length lens) r, col_widths w lens r (ncols_of (length lens) r))
    \<and> r0 \<le> r \<and> r \<le> length lens \<and> fits w lens r \<and> (\<forall>r'. r0 \<le> r' \<longrightarrow> r' < r \<longrightarrow> \<not> fits w lens r')"
  using assms(4-6)
proof (induction "length lens - r0" arbitrary: r0 nc cs rule: less_induct)
  case less
  have nc: "ncols_of (length lens) r0 \<le> cap" "ncols_of (length lens) r0 \<noteq> 0"
    using less.prems ncols_bound [OF less.prems(1), of 0 "length lens"] assms(1) by (auto simp: ncols_of_def)
  show ?case
  proof (cases "fits w lens r0")
    case True
    then show ?thesis using less.prems nc by (subst rows_loop.simps) (auto simp: fits_def Let_def intro!: exI [of _ r0])
  next
    case False
    then have lt: "r0 < length lens" using fits_one_column [OF assms(1-3)] less.prems(2) by (cases "r0 = length lens") auto
    have "length lens div (r0 + 1) \<le> length lens div r0" using less.prems(1) by (simp add: div_le_mono2)
    then have prems: "length lens - (r0 + 1) < length lens - r0" "1 \<le> r0 + 1" "r0 + 1 \<le> length lens" "length lens div (r0 + 1) + 1 \<le> cap"
      using lt less.prems(3) by auto
    obtain r where "rows_loop w lens cap (r0 + 1) (ncols_of (length lens) r0) (col_widths w lens r0 (ncols_of (length lens) r0))
        = Some (r, ncols_of (length lens) r, col_widths w lens r (ncols_of (length lens) r))"
      "r0 + 1 \<le> r" "r \<le> length lens" "fits w lens r" "\<forall>r'. r0 + 1 \<le> r' \<longrightarrow> r' < r \<longrightarrow> \<not> fits w lens r'"
      using less.hyps [OF prems, of "ncols_of (length lens) r0" "col_widths w lens r0 (ncols_of (length lens) r0)"] by blast
    moreover from this(5) False have "\<forall>r'. r0 \<le> r' \<longrightarrow> r' < r \<longrightarrow> \<not> fits w lens r'" by (metis Suc_eq_plus1 Suc_leI le_neq_implies_less)
    ultimately show ?thesis using False less.prems nc by (subst rows_loop.simps) (auto simp: fits_def Let_def)
  qed
qed

lemma computerows_least:
  assumes "lens \<noteq> []" "3 \<le> w" "w < 2 ^ 16" "short w lens"
  shows "\<exists>r. psh_ls_computerows w lens = Some (r, ncols_of (length lens) r, col_widths w lens r (ncols_of (length lens) r))
    \<and> 1 \<le> r \<and> r \<le> length lens \<and> fits w lens r \<and> (\<forall>r'. 1 \<le> r' \<longrightarrow> r' < r \<longrightarrow> \<not> fits w lens r')"
proof -
  define r0 where "r0 = sum_list lens div w + 1"
  have "map (\<lambda>l. min l (cut w)) lens = map (\<lambda>l. l) lens"
    using assms(2,4) by (intro map_cong) (auto simp: short_def cut_def min_def)
  then have mn: "sum_list (map (\<lambda>l. min l (cut w)) lens) = sum_list lens" by simp
  have "1 \<le> length lens" using assms(1) by (simp add: Suc_le_eq)
  then have r0: "r0 \<le> length lens" "1 \<le> r0"
    using fits_lower_bound [OF _ assms fits_one_column [OF assms(1-3)]] by (simp_all add: r0_def)
  obtain r where "rows_loop w lens (length lens div r0 + 1) r0 (length lens div r0 + 1) (replicate (length lens div r0 + 1) 0)
      = Some (r, ncols_of (length lens) r, col_widths w lens r (ncols_of (length lens) r))"
    "r0 \<le> r" "r \<le> length lens" "fits w lens r" "\<forall>r'. r0 \<le> r' \<longrightarrow> r' < r \<longrightarrow> \<not> fits w lens r'"
    using rows_loop_least [OF assms(1-3) r0(2,1) le_refl, of "length lens div r0 + 1" "replicate (length lens div r0 + 1) 0"] by blast
  moreover have "\<not> fits w lens r'" if "1 \<le> r'" "r' < r0" for r'
    using fits_lower_bound [OF that(1) assms] that(2) by (auto simp: r0_def)
  moreover have "psh_ls_computerows w lens
      = rows_loop w lens (length lens div r0 + 1) r0 (length lens div r0 + 1) (replicate (length lens div r0 + 1) 0)"
    using assms(2) by (simp only: psh_ls_computerows_def Let_def mn r0_def) simp
  ultimately show ?thesis using r0(2) by (intro exI [of _ r]) (metis le_trans not_less)
qed

text \<open>The places of the grid: every file is at one of them.\<close>

definition row_places :: "nat \<Rightarrow> nat \<Rightarrow> nat \<Rightarrow> nat list" where
  "row_places n r row = map (\<lambda>c. c * r + row) (filter (\<lambda>c. c * r + row < n) [0..<ncols_of n r])"

lemma places_all:
  assumes "1 \<le> r"
  shows "mset (concat (map (row_places n r) [0..<r])) = mset [0..<n]"
proof -
  have mod: "i mod r = row" if "i \<in> set (row_places n r row)" "row < r" for i row using that by (auto simp: row_places_def)
  have "distinct (concat (map (row_places n r) [0..<k]))" if "k \<le> r" for k
    using that
  proof (induction k)
    case (Suc k)
    have "distinct (row_places n r k)" using assms by (auto simp: row_places_def distinct_map inj_on_def)
    moreover have "set (concat (map (row_places n r) [0..<k])) \<inter> set (row_places n r k) = {}"
    proof (intro Int_emptyI)
      fix i
      assume "i \<in> set (concat (map (row_places n r) [0..<k]))" "i \<in> set (row_places n r k)"
      then obtain row where "row < k" "i \<in> set (row_places n r row)" by auto
      then have "row = k" using mod [of i row] mod [of i k] \<open>i \<in> set (row_places n r k)\<close> Suc.prems by auto
      then show False using \<open>row < k\<close> by simp
    qed
    ultimately show ?case using Suc by auto
  qed simp
  then have "distinct (concat (map (row_places n r) [0..<r]))" by simp
  moreover have "set (concat (map (row_places n r) [0..<r])) = {0..<n}"
  proof
    show "{0..<n} \<subseteq> set (concat (map (row_places n r) [0..<r]))"
    proof
      fix i
      assume "i \<in> {0..<n}"
      then have "i div r < ncols_of n r" "i mod r < r" "i = i div r * r + i mod r" "i < n" using ncols_bound [OF assms] assms by auto
      then show "i \<in> set (concat (map (row_places n r) [0..<r]))" by (force simp: row_places_def)
    qed
  qed (auto simp: row_places_def)
  ultimately show ?thesis by (metis distinct_upt set_eq_iff_mset_eq_distinct set_upt)
qed

lemma cells_places:
  assumes "lay = (r, ncols_of (length files) r, cs)"
  shows "map (map fst) (ls_cells w files lay) = map (\<lambda>row. map ((!) files) (row_places (length files) r row)) [0..<r]"
  using assms by (simp add: ls_cells_def row_places_def Let_def o_def)

lemma cells_mset:
  assumes "1 \<le> r"
  shows "mset (concat (map (map fst) (ls_cells w files (r, ncols_of (length files) r, W)))) = mset files"
proof -
  define cells where "cells = ls_cells w files (r, ncols_of (length files) r, W)"
  have "concat (map (map fst) cells) = map ((!) files) (concat (map (row_places (length files) r) [0..<r]))"
    using cells_places [of "(r, ncols_of (length files) r, W)" r files W w] by (simp add: cells_def map_concat o_def)
  then have "mset (concat (map (map fst) cells)) = image_mset ((!) files) (mset [0..<length files])" using places_all [OF assms] by simp
  also have "\<dots> = mset (map ((!) files) [0..<length files])" by simp
  finally show ?thesis by (simp only: map_nth cells_def)
qed

lemma sum_filter_le: "sum_list (map g (filter P xs)) \<le> sum_list (map g xs)" for g :: "'a \<Rightarrow> nat"
  by (induction xs) auto

definition named :: "fileinfo \<Rightarrow> bool" where
  "named f \<longleftrightarrow> fi_namelen f = length (fi_name f)"

text \<open>
  C19: In columns \<open>ls\<close> prints every file exactly once, down the columns, each name whole and in a field at least as
  wide as it, no line reaches the last column of the window, and no smaller number of rows would do. This
  holds for windows of 3 columns and more, when no name is wider than the window less 3.
\<close>

theorem ls_columns:
  assumes "files \<noteq> []" "3 \<le> w" "w < 2 ^ 16" "le_colsz env" "\<forall>f \<in> set files. named f \<and> length (fi_name f) + 3 \<le> w"
  shows "\<exists>r cells. psh_ls_printmultiline env w files = Some (0, concat (map (\<lambda>cs. concat (map (\<lambda>(f, k). psh_ls_printfile f k) cs) @ nl) cells))
    \<and> length cells = r \<and> (\<forall>row < r. map fst (cells ! row) = map ((!) files) (row_places (length files) r row))
    \<and> mset (concat (map (map fst) cells)) = mset files
    \<and> (\<forall>cs \<in> set cells. (\<forall>(f, k) \<in> set cs. length (fi_name f) \<le> k) \<and> sum_list (map snd cs) < w)
    \<and> (\<forall>r'. 1 \<le> r' \<longrightarrow> r' < r \<longrightarrow> \<not> fits w (map fi_namelen files) r')"
proof -
  define lens where "lens = map fi_namelen files"
  have lens: "lens \<noteq> []" "length lens = length files" "short w lens" using assms(1,5) by (auto simp: lens_def short_def named_def)
  obtain r where r: "psh_ls_computerows w lens = Some (r, ncols_of (length files) r, col_widths w lens r (ncols_of (length files) r))"
    "1 \<le> r" "r \<le> length files" "fits w lens r" "\<forall>r'. 1 \<le> r' \<longrightarrow> r' < r \<longrightarrow> \<not> fits w lens r'"
    using computerows_least [OF lens(1) assms(2,3) lens(3)] lens(2) by auto
  define m where "m = ncols_of (length files) r"
  define W where "W = col_widths w lens r m"
  define cells where "cells = ls_cells w files (r, m, W)"
  have len: "length W = m" using col_widths_spec(2) [OF r(2) lens(1) assms(2,3)] by (simp add: W_def m_def lens(2))
  have sumW: "sum_list W < w" using r(4) by (simp add: fits_def W_def m_def lens(2))
  have wide: "fi_namelen (files ! i) \<le> W ! (i div r)" if "i < length files" for i
    using width_ge [OF r(2) lens(1) assms(2,3) lens(3), of i] that by (simp add: lens(2) W_def m_def) (simp add: lens_def)
  have Wlt: "W ! c < w" if "c < m" for c using member_le_sum_list [of "W ! c" W] that len sumW by auto
  have cell: "cells ! row = map (\<lambda>c. (files ! (c * r + row), W ! c)) (filter (\<lambda>c. c * r + row < length files) [0..<m])" if "row < r" for row
  proof -
    have "max (fi_namelen (files ! (c * r + row))) (min (W ! c) w) = W ! c" if "c < m" "c * r + row < length files" for c
    proof -
      have "(c * r + row) div r = c" using \<open>row < r\<close> by simp
      then show ?thesis using wide [OF that(2)] Wlt [OF that(1)] by simp
    qed
    then show ?thesis using that by (simp add: cells_def ls_cells_def Let_def)
  qed
  have lc: "length cells = r" by (simp add: cells_def ls_cells_def)
  have "(\<forall>(f, k) \<in> set cs. length (fi_name f) \<le> k) \<and> sum_list (map snd cs) < w" if "cs \<in> set cells" for cs
  proof -
    obtain row where row: "row < r" "cs = cells ! row" using \<open>cs \<in> set cells\<close> lc by (auto simp: in_set_conv_nth)
    have "length (fi_name (files ! (c * r + row))) \<le> W ! c" if "c * r + row < length files" for c
      using wide [OF that] row(1) assms(5) that by (simp add: named_def)
    moreover have "sum_list (map snd cs) \<le> sum_list (map ((!) W) [0..<m])"
      using sum_filter_le [of "(!) W" "\<lambda>c. c * r + row < length files" "[0..<m]"] by (simp add: row(2) cell [OF row(1)] o_def)
    moreover have "map ((!) W) [0..<m] = W" using len map_nth [of W] by simp
    ultimately show ?thesis using sumW by (auto simp: row(2) cell [OF row(1)])
  qed
  moreover have "map fst (cells ! row) = map ((!) files) (row_places (length files) r row)" if "row < r" for row
    using cell [OF that] by (simp add: row_places_def m_def o_def)
  moreover have "mset (concat (map (map fst) cells)) = mset files"
    using cells_mset [OF r(2), of w files W] by (simp add: cells_def m_def)
  moreover have "psh_ls_printmultiline env w files = Some (0, concat (map (\<lambda>cs. concat (map (\<lambda>(f, k). psh_ls_printfile f k) cs) @ nl) cells))"
    using assms(2,4) r(1) by (simp add: psh_ls_printmultiline_def lens_def [symmetric] cells_def m_def W_def)
  ultimately show ?thesis using lc r(5) unfolding lens_def by blast
qed

definition demo_file :: "string \<Rightarrow> fileinfo" where
  "demo_file n = no_file\<lparr>fi_name := n, fi_namelen := length n, fi_memlen := length n + 1, fi_type := FReg\<rparr>"

definition demo_env :: lsenv where
  "demo_env = \<lparr>le_winsize = Some 20,
     le_lstat = (\<lambda>p. Some \<lparr>st_mtime = 0, st_size = 5, st_nlink = 1, st_type = (if p = ''d'' then FDir else FReg), st_perm = 0, st_uid = 0, st_gid = 0\<rparr>),
     le_dir = (\<lambda>p. Some [''b'', ''.x'', ''A'']), le_pw = (\<lambda>_. None), le_gr = (\<lambda>_. None), le_odir = True, le_expand = (\<lambda>_. True), le_namebuf = (\<lambda>_. True),
     le_fullname = (\<lambda>_. True), le_colsz = True, le_time = (\<lambda>_. (''Jan'', 1, 70, ''00:00'')), le_now = 0\<rparr>"

definition demo_files :: "fileinfo list" where
  "demo_files = [demo_file ''one'', demo_file ''two'', demo_file ''three'']"

theorem ls_columns_witness:
  "\<exists>cells. psh_ls_printmultiline demo_env 10 demo_files = Some (0, concat (map (\<lambda>cs. concat (map (\<lambda>(f, k). psh_ls_printfile f k) cs) @ nl) cells))
    \<and> mset (concat (map (map fst) cells)) = mset demo_files \<and> (\<forall>cs \<in> set cells. sum_list (map snd cs) < 10)"
proof -
  have files: "demo_files \<noteq> []" "\<forall>f \<in> set demo_files. named f \<and> length (fi_name f) + 3 \<le> 10" by (simp_all add: demo_files_def demo_file_def named_def)
  have env: "(3 :: nat) \<le> 10" "(10 :: nat) < 2 ^ 16" "le_colsz demo_env" by (simp_all add: demo_env_def)
  show ?thesis using ls_columns [OF files(1) env files(2)] by blast
qed

section \<open>Directories\<close>

text \<open>What the output depends on in an entry: not on the size of its buffer, and on the owners only in the long format.\<close>

definition view :: "lsopts \<Rightarrow> fileinfo \<Rightarrow> fileinfo" where
  "view o1 f = (if lo_mode o1 = MODE_LONG then f\<lparr>fi_memlen := 0\<rparr> else f\<lparr>fi_memlen := 0, fi_pw := None, fi_gr := None\<rparr>)"

definition entry :: "lsenv \<Rightarrow> lsopts \<Rightarrow> string \<Rightarrow> string \<Rightarrow> fileinfo" where
  "entry env o1 path name =
     (case psh_ls_statentry env o1 (no_file\<lparr>fi_name := name, fi_namelen := length name\<rparr>) (full_name path name) of Some f \<Rightarrow> f | None \<Rightarrow> no_file)"

lemma view_simps [simp]: "fi_name (view o1 f) = fi_name f" "fi_namelen (view o1 f) = fi_namelen f" "fi_mtime (view o1 f) = fi_mtime f"
  "fi_size (view o1 f) = fi_size f" "fi_nlink (view o1 f) = fi_nlink f" "fi_type (view o1 f) = fi_type f" "fi_perm (view o1 f) = fi_perm f"
  by (simp_all add: view_def)

lemma printfile_view [simp]: "psh_ls_printfile (view o1 f) k = psh_ls_printfile f k"
  by (simp only: psh_ls_printfile_def view_simps)

lemma map_qsort:
  assumes "\<forall>x y. cmp (h x) (h y) = cmp x y"
  shows "map h (qsort cmp xs) = qsort cmp (map h xs)"
proof -
  have "map h (place cmp x ys) = place cmp (h x) (map h ys)" for x ys using assms by (induction ys) auto
  then show ?thesis by (induction xs) (simp_all add: qsort_def)
qed

lemma length_qsort [simp]: "length (qsort cmp xs) = length xs"
proof -
  have "length (place cmp x ys) = length ys + 1" for x ys by (induction ys) auto
  then show ?thesis by (induction xs) (simp_all add: qsort_def)
qed

lemma sort_view: "map (view o1) (qsort (ls_cmp c rv) xs) = qsort (ls_cmp c rv) (map (view o1) xs)"
  by (rule map_qsort) (cases c; simp add: ls_cmp_def psh_ls_cmpname_def psh_ls_cmpmtime_def psh_ls_cmpsize_def)

lemma cells_view: "ls_cells w (map (view o1) xs) lay = map (map (\<lambda>(f, k). (view o1 f, k))) (ls_cells w xs lay)"
  by (cases lay) (simp add: ls_cells_def Let_def)

lemma printfiles_view: "psh_ls_printfiles env o1 w (map (view o1) xs) = psh_ls_printfiles env o1 w xs"
proof (cases "lo_mode o1")
  case MODE_NORMAL
  then show ?thesis by (simp add: psh_ls_printfiles_def psh_ls_printmultiline_def cells_view o_def split_def)
next
  case MODE_ONEPERLINE
  then show ?thesis by (simp add: psh_ls_printfiles_def o_def)
next
  case MODE_LONG
  then have v: "view o1 = (\<lambda>f. f\<lparr>fi_memlen := 0\<rparr>)" by (simp add: view_def fun_eq_iff)
  have "psh_ls_printfile (f\<lparr>fi_memlen := 0\<rparr>) k = psh_ls_printfile f k" for f k by (auto simp: psh_ls_printfile_def)
  moreover have "ls_perms (f\<lparr>fi_memlen := 0\<rparr>) = ls_perms f" for f by (simp add: ls_perms_def)
  ultimately show ?thesis using MODE_LONG by (simp add: psh_ls_printfiles_def psh_ls_printlong_def long_widths_def v o_def fold_map)
qed

definition ample :: "lsenv \<Rightarrow> bool" where
  "ample env \<longleftrightarrow> le_odir env \<and> le_colsz env \<and> (\<forall>n. le_expand env n \<and> le_namebuf env n \<and> le_fullname env n)"

lemma readentry_ok:
  assumes "ample env" "path \<noteq> []" "le_lstat env (full_name path d) \<noteq> None"
  shows "\<exists>f'. psh_ls_readentry env o1 f d path = Some (0, f') \<and> view o1 f' = view o1 (entry env o1 path d)"
  using assms by (auto simp: psh_ls_readentry_def psh_ls_copyname_def psh_ls_statentry_def ample_def entry_def view_def Let_def no_file_def)

lemma read_loop_ok:
  assumes "ample env" "path \<noteq> []"
  shows "\<lbrakk>\<forall>d \<in> set ds. le_lstat env (full_name path d) \<noteq> None; nfiles < length files\<rbrakk> \<Longrightarrow>
    \<exists>fs r. read_loop env o1 w all path files nfiles ret ds = Some (Inr (fs, nfiles + length (filter (\<lambda>d. \<not> hidden o1 d) ds), r))
      \<and> map (view o1) (take (nfiles + length (filter (\<lambda>d. \<not> hidden o1 d) ds)) fs)
        = map (view o1) (take nfiles files) @ map (\<lambda>d. view o1 (entry env o1 path d)) (filter (\<lambda>d. \<not> hidden o1 d) ds)
      \<and> (ret = 0 \<longrightarrow> r = 0) \<and> nfiles + length (filter (\<lambda>d. \<not> hidden o1 d) ds) < length fs"
proof (induction ds arbitrary: files nfiles ret)
  case Nil
  then show ?case by simp
next
  case (Cons d ds)
  show ?case
  proof (cases "hidden o1 d")
    case True
    then show ?thesis using Cons by simp
  next
    case False
    obtain f where f: "psh_ls_readentry env o1 (files ! nfiles) d path = Some (0, f)" "view o1 f = view o1 (entry env o1 path d)"
      using readentry_ok [OF assms, of d o1 "files ! nfiles"] Cons.prems(1) by auto
    define fs1 where "fs1 = (if nfiles + 1 = length files then files[nfiles := f] @ replicate (length files) no_file else files[nfiles := f])"
    have fs1: "nfiles + 1 < length fs1" "take (nfiles + 1) fs1 = take nfiles files @ [f]"
      using Cons.prems(2) by (auto simp: fs1_def take_Suc_conv_app_nth nth_append)
    have "read_loop env o1 w all path files nfiles ret (d # ds) = read_loop env o1 w all path fs1 (nfiles + 1) 0 ds"
      using False f(1) Cons.prems(2) assms(1) by (simp add: peek_def fs1_def psh_ls_expandbuff_def ample_def Let_def mult_2_right)
    then show ?thesis using Cons.IH [of "nfiles + 1" fs1 0] Cons.prems(1) fs1 False f(2) by (auto simp del: read_loop.simps)
  qed
qed

text \<open>The listing of a directory, as it should be: the visible entries in the order asked for.\<close>

definition listing :: "lsenv \<Rightarrow> lsopts \<Rightarrow> string \<Rightarrow> string list \<Rightarrow> fileinfo list" where
  "listing env o1 path ds =
     (let fs = map (\<lambda>d. view o1 (entry env o1 path d)) (filter (\<lambda>d. \<not> hidden o1 d) ds)
      in case lo_cmp o1 of None \<Rightarrow> fs | Some c \<Rightarrow> qsort (ls_cmp c (lo_rev o1)) fs)"

lemma length_sort_files [simp]: "n \<le> length fs \<Longrightarrow> length (sort_files o1 n fs) = length fs"
  by (simp add: sort_files_def split: option.split)

lemma list_dir_ok:
  assumes "ample env" "path \<noteq> []" "le_dir env path = Some ds" "\<forall>d \<in> set ds. le_lstat env (full_name path d) \<noteq> None" "files \<noteq> []" "length all \<le> 1"
    "if listing env o1 path ds = [] then out = [] else psh_ls_printfiles env o1 w (listing env o1 path ds) = Some (r0, out)"
  shows "\<exists>fs n. list_dir env o1 w all path files nfiles 0 = Some (Inr (True, fs, n, 0, out))"
proof -
  define vs where "vs = map (\<lambda>d. view o1 (entry env o1 path d)) (filter (\<lambda>d. \<not> hidden o1 d) ds)"
  obtain fs where fs: "read_loop env o1 w all path files 0 0 ds = Some (Inr (fs, length vs, 0))" "map (view o1) (take (length vs) fs) = vs" "length vs < length fs"
    using read_loop_ok [OF assms(1,2,4), of 0 files o1 w all 0] assms(5) by (auto simp: vs_def)
  show ?thesis
  proof (cases "vs = []")
    case True
    then have "listing env o1 path ds = []" by (simp add: listing_def vs_def [symmetric] qsort_def split: option.split)
    then show ?thesis using fs(1) True assms(3,6,7) by (auto simp: list_dir_def)
  next
    case False
    have "map (view o1) (take (length vs) (sort_files o1 (length vs) fs)) = listing env o1 path ds"
    proof (cases "lo_cmp o1")
      case None
      then show ?thesis using fs(2) by (simp add: sort_files_def listing_def vs_def)
    next
      case (Some c)
      have "length (qsort (ls_cmp c (lo_rev o1)) (take (length vs) fs)) = length vs" using fs(3) by simp
      then show ?thesis using Some fs(2) sort_view [of o1 c "lo_rev o1" "take (length vs) fs"]
        by (simp add: sort_files_def listing_def vs_def [symmetric])
    qed
    moreover from arg_cong [OF this, of length] False have "listing env o1 path ds \<noteq> []" using fs(3) by auto
    ultimately have "psh_ls_printfiles env o1 w (take (length vs) (sort_files o1 (length vs) fs)) = Some (r0, out)"
      using assms(7) printfiles_view [of env o1 w "take (length vs) (sort_files o1 (length vs) fs)"] by simp
    then show ?thesis using False fs(1) assms(3,6) by (simp add: list_dir_def Let_def)
  qed
qed

lemma computerows_total:
  assumes "lens \<noteq> []" "3 \<le> w" "w < 2 ^ 16"
  shows "\<exists>lay. psh_ls_computerows w lens = Some lay"
proof -
  define r0 where "r0 = sum_list (map (\<lambda>l. min l (cut w)) lens) div w + 1"
  have "sum_list (map (\<lambda>l. min l (cut w)) lens) \<le> sum_list (map (\<lambda>_. w - 1) lens)" using assms(2) by (intro sum_list_mono) (auto simp: cut_def)
  also have "\<dots> = length lens * (w - 1)" by (simp add: sum_list_triv)
  also have "\<dots> < length lens * w" using assms(1,2) by simp
  finally have "r0 \<le> length lens" using assms(2) by (simp add: r0_def div_less_iff_less_mult Suc_le_eq)
  then obtain lay where "rows_loop w lens (length lens div r0 + 1) r0 (length lens div r0 + 1) (replicate (length lens div r0 + 1) 0) = Some lay"
    using rows_loop_least [OF assms _ _ le_refl, of r0] by (metis r0_def le_add2)
  then show ?thesis using assms(2) unfolding psh_ls_computerows_def Let_def r0_def by (cases lay) simp
qed

lemma ls_printfiles_total:
  assumes "ample env" "3 \<le> w" "w < 2 ^ 16" "fs \<noteq> []"
  shows "\<exists>out. psh_ls_printfiles env o1 w fs = Some (0, out)"
  using computerows_total [OF _ assms(2,3), of "map fi_namelen fs"] assms by (auto simp: psh_ls_printfiles_def psh_ls_printmultiline_def ample_def split: lsmode.split)

lemma ls_options_sign: "ls_options evs o1 = Some o2 \<Longrightarrow> sign (lo_rev o1) \<Longrightarrow> sign (lo_rev o2)"
  by (induction evs arbitrary: o1) (auto simp: sign_def split: optev.splits if_splits)

definition window :: "lsenv \<Rightarrow> nat" where
  "window env = (case le_winsize env of Some c \<Rightarrow> c | None \<Rightarrow> 80)"

text \<open>
  C18: \<open>ls\<close> with any options but \<open>-d\<close> and no path, or one directory, prints the listing of that directory and returns 0:
  exactly its entries, those that begin with a dot only with \<open>-a\<close>, in the format asked for, and sorted by name,
  time or size, in reverse with \<open>-r\<close>, unless \<open>-f\<close> is given. (Sizes and times are less than 2^31; memory suffices.)
\<close>

theorem ls_lists_directory:
  assumes "ample env" "getopt_scan ''lad1htfSr'' args = (evs, rest)" "ls_options evs ls_defaults = Some o1" "\<not> lo_dir o1"
    "rest = [] \<and> path = ''.'' \<or> rest = [path] \<and> path \<noteq> [] \<and> (\<exists>st. le_lstat env path = Some st \<and> st_type st = FDir)"
    "le_dir env path = Some ds" "\<forall>d \<in> set ds. le_lstat env (full_name path d) \<noteq> None" "3 \<le> window env" "window env < 2 ^ 16"
    "\<forall>d \<in> set ds. entry env o1 path d \<in> close_files"
  shows "\<exists>out fs. psh_ls env (a0 # args) = Some (0, out) \<and> (if fs = [] then out = [] else psh_ls_printfiles env o1 (window env) fs = Some (0, out))
    \<and> mset fs = mset (map (\<lambda>d. view o1 (entry env o1 path d)) (filter (\<lambda>d. \<not> hidden o1 d) ds))
    \<and> (\<forall>c. lo_cmp o1 = Some c \<longrightarrow> sorted_wrt (\<lambda>f g. if lo_rev o1 = 1 then in_order c f g else in_order c g f) fs)"
proof -
  define fs where "fs = listing env o1 path ds"
  define vs where "vs = map (\<lambda>d. view o1 (entry env o1 path d)) (filter (\<lambda>d. \<not> hidden o1 d) ds)"
  obtain out where out: "if fs = [] then out = [] else psh_ls_printfiles env o1 (window env) fs = Some (0, out)"
    using ls_printfiles_total [OF assms(1,8,9), of fs o1] by (cases "fs = []") auto
  have path: "path \<noteq> []" "length rest \<le> 1" using assms(5) by auto
  have "\<exists>fs n. list_dir env o1 (window env) rest path files nfiles 0 = Some (Inr (True, fs, n, 0, out))" if "files \<noteq> []" for files nfiles
    using list_dir_ok [OF assms(1) path(1) assms(6,7) that path(2), of o1 out "window env" 0] out [unfolded fs_def] by blast
  then have dirs: "dirs_loop env o1 (window env) rest (if rest = [] then [] else [True]) 0 files 0 0 = Some (0, out)" if "files \<noteq> []" for files
  proof -
    obtain fs' n' where l: "list_dir env o1 (window env) rest path files 0 0 = Some (Inr (True, fs', n', 0, out))"
      using \<open>files \<noteq> []\<close> \<open>\<And>nfiles files. files \<noteq> [] \<Longrightarrow> \<exists>fs n. list_dir env o1 (window env) rest path files nfiles 0 = Some (Inr (True, fs, n, 0, out))\<close> by blast
    have pe: "(if rest = [] then ''.'' else rest ! 0) = path" "\<not> 1 < length rest" using assms(5) by auto
    show ?thesis unfolding dirs_loop.simps [of env o1 _ rest _ 0] pe(1) l using pe(2) by simp
  qed
  have "psh_ls env (a0 # args) = Some (0, out)"
    using assms(1-5) dirs by (auto simp: psh_ls_def window_def [symmetric] psh_ls_expandbuff_def ample_def peek_def psh_ls_statentry_def Let_def)
  moreover have "mset fs = mset vs \<and> (\<forall>c. lo_cmp o1 = Some c \<longrightarrow> sorted_wrt (\<lambda>f g. if lo_rev o1 = 1 then in_order c f g else in_order c g f) fs)"
  proof -
    have "set vs \<subseteq> close_files" using assms(10) by (auto simp: vs_def close_files_def)
    moreover have "sign (lo_rev o1)" using ls_options_sign [OF assms(3)] by (simp add: ls_defaults_def sign_def)
    ultimately show ?thesis using ls_sorted [of vs "lo_rev o1"]
      by (cases "lo_cmp o1") (auto simp: fs_def listing_def vs_def [symmetric])
  qed
  ultimately show ?thesis using out unfolding vs_def by blast
qed

theorem ls_lists_directory_witness:
  "\<exists>out fs. psh_ls demo_env [''ls'', ''-r'', ''d''] = Some (0, out)
    \<and> mset fs = mset (map (\<lambda>d. view (ls_defaults\<lparr>lo_rev := -1\<rparr>) (entry demo_env (ls_defaults\<lparr>lo_rev := -1\<rparr>) ''d'' d)) [''b'', ''A''])
    \<and> sorted_wrt (\<lambda>f g. in_order CmpName g f) fs"
proof -
  have opts: "getopt_scan ''lad1htfSr'' [''-r'', ''d''] = ([Opt (CHR ''r'') None], [''d''])" "ls_options [Opt (CHR ''r'') None] ls_defaults = Some (ls_defaults\<lparr>lo_rev := -1\<rparr>)"
    by (simp_all add: is_opt_word_def Let_def)
  have env: "ample demo_env" "3 \<le> window demo_env" "window demo_env < 2 ^ 16" by (simp_all add: ample_def demo_env_def window_def)
  let ?o = "ls_defaults\<lparr>lo_rev := -1\<rparr>"
  let ?ds = "[''b'', ''.x'', ''A'']"
  have o: "\<not> lo_dir ?o" "lo_cmp ?o = Some CmpName" "lo_rev ?o \<noteq> 1" "filter (\<lambda>d. \<not> hidden ?o d) ?ds = [''b'', ''A'']"
    by (simp_all add: ls_defaults_def hidden_def)
  have dir: "le_dir demo_env ''d'' = Some ?ds" "\<forall>d \<in> set ?ds. le_lstat demo_env (full_name ''d'' d) \<noteq> None"
    "[''d''] = [] \<and> ''d'' = ''.'' \<or> [''d''] = [''d''] \<and> ''d'' \<noteq> [] \<and> (\<exists>st. le_lstat demo_env ''d'' = Some st \<and> st_type st = FDir)"
    "\<forall>d \<in> set ?ds. entry demo_env ?o ''d'' d \<in> close_files"
    by (simp_all add: demo_env_def entry_def psh_ls_statentry_def close_files_def Let_def no_file_def ls_defaults_def)
  show ?thesis using ls_lists_directory [OF env(1) opts o(1) dir(3,1,2) env(2,3) dir(4), of "''ls''"] o(2-4) by auto
qed

text \<open>
  A defect: a directory behind a file is not listed. For a file \<open>f\<close> and a directory \<open>d\<close>, \<open>ls f d\<close> prints what
  \<open>ls f\<close> prints and returns 0: the loop over the directories counts a path that it skips twice.
\<close>

lemma ls_skips_directory:
  assumes "ample env" "le_lstat env f = Some st" "st_type st \<noteq> FDir" "f \<noteq> []" "hd f \<noteq> CHR ''-''" "last f \<noteq> CHR ''/''"
    "le_lstat env d = Some st'" "st_type st' = FDir" "d \<noteq> []" "3 \<le> window env" "window env < 2 ^ 16"
  shows "psh_ls env [a0, f, d] = psh_ls env [a0, f] \<and> (\<exists>out. psh_ls env [a0, f] = Some (0, out))"
proof -
  have gets: "getopt_scan os (f # r) = ([], f # r)" for os r using assms(4,5) by (cases f) (auto simp: is_opt_word_def split: list.split)
  define w where "w = window env"
  define g where "g = no_file\<lparr>fi_mtime := st_mtime st, fi_size := st_size st, fi_nlink := st_nlink st, fi_type := st_type st, fi_perm := st_perm st,
    fi_memlen := length f + 1, fi_name := f, fi_namelen := length f\<rparr>"
  obtain out where out: "psh_ls_printfiles env ls_defaults w [g] = Some (0, out)" using ls_printfiles_total [OF assms(1,10,11), of "[g]"] by (auto simp: w_def)
  have one: "take 1 (sort_files ls_defaults 1 (g # files)) = [g]" for files by (simp add: sort_files_def ls_defaults_def qsort_def)
  have rep: "replicate 32 no_file = no_file # no_file # replicate 30 no_file" by (simp add: numeral_eq_Suc)
  have stat: "psh_ls_statentry env ls_defaults no_file f
      = Some (no_file\<lparr>fi_mtime := st_mtime st, fi_size := st_size st, fi_nlink := st_nlink st, fi_type := st_type st, fi_perm := st_perm st\<rparr>)"
    using assms(2) by (simp add: psh_ls_statentry_def ls_defaults_def)
  have copy: "psh_ls_copyname env (no_file\<lparr>fi_mtime := st_mtime st, fi_size := st_size st, fi_nlink := st_nlink st, fi_type := st_type st, fi_perm := st_perm st\<rparr>) f
      = Some (0, g)"
    using assms(1) by (simp add: psh_ls_copyname_def ample_def g_def no_file_def)
  obtain g' where g': "psh_ls_statentry env ls_defaults no_file d = Some g'" "fi_type g' = FDir"
    using assms(7,8) by (simp add: psh_ls_statentry_def ls_defaults_def)
  have loop: "stat_loop env ls_defaults w all (no_file # no_file # replicate 30 no_file) 0 [] 0 (f # ps)
      = stat_loop env ls_defaults w all (g # no_file # replicate 30 no_file) 1 [False] 0 ps" for all ps
    using stat copy assms(3,4,6) by (simp add: peek_def)
  have dir: "stat_loop env ls_defaults w all (g # no_file # replicate 30 no_file) 1 [False] 0 [d]
      = Some (Inr (g # g' # replicate 30 no_file, 1, [False, True], 0))" for all
    using g' assms(9) by (simp add: peek_def ls_defaults_def)
  have "psh_ls env [a0, f] = Some (0, out)" "psh_ls env [a0, f, d] = Some (0, out)"
    using assms(1) out one loop dir gets
    by (simp_all add: psh_ls_def window_def [symmetric] w_def [symmetric] psh_ls_expandbuff_def ample_def rep dirs_loop.simps del: stat_loop.simps(2))
  then show ?thesis by simp
qed

end
