(* ===== verification/Wget.thy ===== *)
theory Wget
  imports Ls
begin

text \<open>
  The \<open>wget\<close> applet, \<open>src/psh/wget/wget.c\<close>: the parts of a URL, the request, the response read line by line
  through a buffer of 4096 bytes, the \<open>Content-Length\<close> and the body copied to a file.

  The connection gives the list of segments that the calls of \<open>read\<close> return; a segment longer than the room
  asked for is split, and an empty one is the end or an error. \<open>w_buf\<close> holds the \<open>common.len\<close> bytes received; the
  rest of the buffer is never read. An access before the buffer is \<open>None\<close>. What the other calls return is
  a parameter. Output on the terminal is left out.
\<close>

section \<open>State\<close>

record wenv =
  we_strndup :: "string \<Rightarrow> bool"
  we_fopen :: "string \<Rightarrow> bool"
  we_getaddrinfo :: "string \<Rightarrow> bool"
  we_ntop :: bool
  we_socket :: bool
  we_connect :: bool
  we_write :: "nat \<Rightarrow> nat \<Rightarrow> int"
  we_fwrite :: "nat \<Rightarrow> nat \<Rightarrow> nat"
  we_in :: "string list"

record wget =
  w_buf :: string
  w_ptr :: nat
  w_in :: "string list"
  w_path :: string
  w_host :: "string option"
  w_filename :: string
  w_output :: string
  w_file :: string
  w_sent :: string
  w_outopen :: bool
  w_sockopen :: bool

abbreviation (input) BUFSZ :: nat where "BUFSZ \<equiv> 4096"
abbreviation (input) LF :: char where "LF \<equiv> CHR 0x0a"
abbreviation (input) CRLF :: string where "CRLF \<equiv> [CHR 0x0d, CHR 0x0a]"

section \<open>The URL\<close>

fun strstr :: "string \<Rightarrow> string \<Rightarrow> string option" where
  "strstr [] pat = (if pat = [] then Some [] else None)"
| "strstr (c # cs) pat = (if take (length pat) (c # cs) = pat then Some (c # cs) else strstr cs pat)"

text \<open>The path, the host and the name of the file.\<close>

definition wget_parseUrl :: "wenv \<Rightarrow> string \<Rightarrow> (string \<times> string \<times> string) option" where
  "wget_parseUrl env url =
     (let bare = (if strstr url ''://'' = None then Some url
         else if take 7 url = ''http://'' then Some (drop 7 url) else None) in
      case bare of
        None \<Rightarrow> None
      | Some b \<Rightarrow>
          if CHR ''/'' \<notin> set b \<or> last b = CHR ''/'' then None
          else (let host = takeWhile (\<lambda>c. c \<noteq> CHR ''/'') b in
            if \<not> we_strndup env host then None
            else Some (tl (dropWhile (\<lambda>c. c \<noteq> CHR ''/'') b), host, rev (takeWhile (\<lambda>c. c \<noteq> CHR ''/'') (rev b)))))"

section \<open>The request\<close>

text \<open>Whether there is a connection; a socket that fails to connect is closed again.\<close>

definition wget_connect :: "wenv \<Rightarrow> string \<Rightarrow> bool" where
  "wget_connect env host \<longleftrightarrow> we_getaddrinfo env host \<and> we_ntop env \<and> we_socket env \<and> we_connect env"

definition request :: "string \<Rightarrow> string \<Rightarrow> string" where
  "request path host = ''GET /'' @ path @ '' HTTP/1.1'' @ CRLF @ ''Host: '' @ host @ CRLF @ ''User-Agent: Wget'' @ CRLF @ CRLF"

function send_loop :: "wenv \<Rightarrow> string \<Rightarrow> nat \<Rightarrow> string \<Rightarrow> int \<times> string" where
  "send_loop env req i sent =
     (if i < length req then
        (let r = we_write env i (length req - i) in
         if r \<le> 0 then (-1, sent) else send_loop env req (i + nat r) (sent @ take (nat r) (drop i req)))
      else (0, sent))"
  by pat_completeness auto
termination by (relation "measure (\<lambda>(env, req, i, sent). length req - i)") auto

declare send_loop.simps [simp del]

definition wget_request :: "wenv \<Rightarrow> wget \<Rightarrow> int \<times> wget" where
  "wget_request env st = (case w_host st of
     None \<Rightarrow> (-1, st)
   | Some host \<Rightarrow>
       let req = request (w_path st) host in
       if length req \<ge> 256 then (-1, st)
       else (case send_loop env req 0 [] of (r, s) \<Rightarrow> (r, st\<lparr>w_sent := w_sent st @ s\<rparr>)))"

section \<open>The response\<close>

text \<open>One \<open>read\<close> of at most \<open>n\<close> bytes.\<close>

fun sread :: "nat \<Rightarrow> string list \<Rightarrow> string \<times> string list" where
  "sread n [] = ([], [])"
| "sread n (s # ss) = (take n s, if length s \<le> n then ss else drop n s # ss)"

lemma sread_concat: "fst (sread n ss) @ concat (snd (sread n ss)) = concat ss"
  by (cases ss) auto

lemma sread_shrinks: "sread n ss = (bs, rest) \<Longrightarrow> bs \<noteq> [] \<Longrightarrow> length (concat rest) < length (concat ss)"
  using arg_cong [OF sread_concat [of n ss], of length] by (cases bs) auto

definition memchr_lf :: "string \<Rightarrow> nat \<Rightarrow> nat option" where
  "memchr_lf b p = (let t = p + length (takeWhile (\<lambda>c. c \<noteq> LF) (drop p b)) in if t < length b then Some t else None)"

text \<open>The status behind the first blank of the first line.\<close>

definition status_of :: "string \<Rightarrow> string option" where
  "status_of b = (case strstr (cstr b) ''HTTP'' of
     None \<Rightarrow> None
   | Some t \<Rightarrow> if CHR '' '' \<in> set t then Some (tl (dropWhile (\<lambda>c. c \<noteq> CHR '' '') t)) else None)"

function response_loop :: "wget \<Rightarrow> (string option \<times> wget) option" where
  "response_loop st = (case sread (BUFSZ - length (w_buf st)) (w_in st) of (bs, rest) \<Rightarrow>
     if bs = [] then Some (None, st\<lparr>w_in := rest\<rparr>)
     else (let b = w_buf st @ bs in
       case memchr_lf b 0 of
         None \<Rightarrow> response_loop (st\<lparr>w_buf := b, w_ptr := length bs, w_in := rest\<rparr>)
       | Some t \<Rightarrow>
           if t = 0 then None
           else (let b1 = b[t - 1 := NUL] in Some (status_of b1, st\<lparr>w_buf := b1, w_ptr := t + 1, w_in := rest\<rparr>))))"
  by pat_completeness auto
termination by (relation "measure (\<lambda>st. length (concat (w_in st)))") (auto dest: sread_shrinks [OF sym])

declare response_loop.simps [simp del]

definition wget_response :: "wget \<Rightarrow> (string option \<times> wget) option" where
  "wget_response st = response_loop (st\<lparr>w_buf := [], w_ptr := 0\<rparr>)"

definition wget_buf :: "wget \<Rightarrow> int \<times> wget" where
  "wget_buf st = (let b = drop (w_ptr st) (w_buf st) in
     case sread (BUFSZ - length b) (w_in st) of (bs, rest) \<Rightarrow>
       (if bs = [] then -1 else 0, st\<lparr>w_buf := b @ bs, w_ptr := 0, w_in := rest\<rparr>))"

lemma wget_buf_shrinks: "wget_buf st = (r, st') \<Longrightarrow> r = 0 \<Longrightarrow> length (concat (w_in st')) < length (concat (w_in st))"
  by (auto simp: wget_buf_def Let_def split: prod.splits if_splits dest: sread_shrinks)

text \<open>The next line: the place where it starts. The character before its line feed is cleared.\<close>

function wget_hdrnext :: "wget \<Rightarrow> (nat option \<times> wget) option" where
  "wget_hdrnext st = (case memchr_lf (w_buf st) (w_ptr st) of
     None \<Rightarrow> (case wget_buf st of (r, st1) \<Rightarrow> if r \<noteq> 0 then Some (None, st1) else wget_hdrnext st1)
   | Some t \<Rightarrow>
       if t = 0 then None
       else Some (Some (w_ptr st), st\<lparr>w_buf := (w_buf st)[t - 1 := NUL], w_ptr := t + 1\<rparr>))"
  by pat_completeness auto
termination by (relation "measure (\<lambda>st. length (concat (w_in st)))") (auto dest: wget_buf_shrinks [OF sym])

declare wget_hdrnext.simps [simp del]

definition unread :: "wget \<Rightarrow> string" where
  "unread st = drop (w_ptr st) (w_buf st) @ concat (w_in st)"

lemma unread_buf: "unread (snd (wget_buf st)) = unread st"
  using sread_concat [of "BUFSZ - length (drop (w_ptr st) (w_buf st))" "w_in st"]
  by (auto simp: wget_buf_def unread_def Let_def split: prod.splits)

lemma memchr_lf_Some: "memchr_lf b p = Some t \<longleftrightarrow> t < length b \<and> t = p + length (takeWhile (\<lambda>c. c \<noteq> LF) (drop p b))"
  by (auto simp: memchr_lf_def Let_def)

lemma hdrnext_shrinks: "wget_hdrnext st = Some (Some p, st') \<Longrightarrow> length (unread st') < length (unread st)"
proof (induction st rule: wget_hdrnext.induct)
  case (1 st)
  show ?case
  proof (cases "memchr_lf (w_buf st) (w_ptr st)")
    case None
    obtain r st1 where b: "wget_buf st = (r, st1)" by force
    then have "r = 0" "wget_hdrnext st1 = Some (Some p, st')" using 1(2) None by (subst (asm) wget_hdrnext.simps, simp split: if_splits)+
    then show ?thesis using 1(1) [OF None b [symmetric]] unread_buf [of st] b by simp
  next
    case (Some t)
    then have "st' = st\<lparr>w_buf := (w_buf st)[t - 1 := NUL], w_ptr := t + 1\<rparr>" using 1(2) by (subst (asm) wget_hdrnext.simps) (simp split: if_splits)
    moreover have "t < length (w_buf st)" "w_ptr st \<le> t" using Some by (auto simp: memchr_lf_Some)
    ultimately show ?thesis by (simp add: unread_def)
  qed
qed

section \<open>Headers\<close>

definition is_length :: "string \<Rightarrow> bool" where
  "is_length hdr \<longleftrightarrow> take 15 (map lowcase hdr) = ''content-length:''"

definition number_at :: "string \<Rightarrow> string" where
  "number_at hdr = dropWhile (\<lambda>c. c = CHR '' '' \<or> c = CHR 0x09) (drop 15 hdr)"

text \<open>The \<open>do\<close> loop; \<open>-1\<close> as a \<open>size_t\<close> when the headers do not end.\<close>

function hdrs_loop :: "nat \<Rightarrow> wget \<Rightarrow> (nat \<times> wget) option" where
  "hdrs_loop len st = (case wget_hdrnext st of
     None \<Rightarrow> None
   | Some (None, st1) \<Rightarrow> Some (2 ^ 64 - 1, st1)
   | Some (Some p, st1) \<Rightarrow>
       let hdr = cstr_at (w_buf st1) p in
       if is_length hdr then
         (let num = number_at hdr in
          if num = [] then Some (len, st1)
          else (case strtoul_w (2 ^ 64) num of (v, e) \<Rightarrow> if e \<noteq> [] then Some (v, st1) else hdrs_loop v st1))
       else if hdr = [] then Some (len, st1)
       else hdrs_loop len st1)"
  by pat_completeness auto
termination by (relation "measure (\<lambda>(len, st). length (unread st))") (auto dest: hdrnext_shrinks)

declare hdrs_loop.simps [simp del]

definition wget_parsehdrs :: "wget \<Rightarrow> (nat \<times> wget) option" where
  "wget_parsehdrs st = hdrs_loop 0 st"

section \<open>The body\<close>

definition fwrite :: "wenv \<Rightarrow> string \<Rightarrow> string \<Rightarrow> bool \<times> string" where
  "fwrite env file bs = (let k = we_fwrite env (length file) (length bs) in (k = length bs, file @ take k bs))"

function file_loop :: "wenv \<Rightarrow> nat \<Rightarrow> string \<Rightarrow> string list \<Rightarrow> int \<times> string \<times> string list" where
  "file_loop env left file ss =
     (if left > 0 then
        (case sread (min BUFSZ left) ss of (bs, rest) \<Rightarrow>
           if bs = [] then (-1, file, rest)
           else (case fwrite env file bs of (ok, file1) \<Rightarrow>
             if ok then file_loop env (left - length bs) file1 rest else (-1, file1, rest)))
      else (0, file, ss))"
  by pat_completeness auto
termination by (relation "measure (\<lambda>(env, left, file, ss). length (concat ss))") (auto dest: sread_shrinks [OF sym])

declare file_loop.simps [simp del]

text \<open>What is in the buffer is written first; \<open>left -= bytes\<close> wraps around.\<close>

definition wget_file :: "wenv \<Rightarrow> nat \<Rightarrow> wget \<Rightarrow> int \<times> wget" where
  "wget_file env len st =
     (let bs = drop (w_ptr st) (w_buf st); (ok, file1) = (if bs \<noteq> [] then fwrite env (w_file st) bs else (True, w_file st));
          left = (if bs \<noteq> [] then (len + 2 ^ 64 - length bs) mod 2 ^ 64 else len) in
      if \<not> ok then (-1, st\<lparr>w_file := file1\<rparr>)
      else (case file_loop env left file1 (w_in st) of (r, f, ss) \<Rightarrow> (r, st\<lparr>w_file := f, w_in := ss\<rparr>)))"

section \<open>The applet\<close>

definition wget_cleanup :: "wget \<Rightarrow> wget" where
  "wget_cleanup st = st\<lparr>w_host := None, w_outopen := False, w_sockopen := False\<rparr>"

text \<open>\<open>strtol\<close> with base 10, and its conversion to \<open>int\<close>.\<close>

definition strtol10 :: "string \<Rightarrow> int \<times> string" where
  "strtol10 s =
     (let s1 = dropWhile isspace s;
          neg = (s1 \<noteq> [] \<and> hd s1 = CHR ''-'');
          s2 = (if s1 \<noteq> [] \<and> (hd s1 = CHR ''-'' \<or> hd s1 = CHR ''+'') then tl s1 else s1)
      in if s2 = [] \<or> \<not> digit_val (hd s2) < 10 then (0, s)
         else (case digits 10 0 s2 of (v, rest) \<Rightarrow>
           (if neg then max (- int v) (- (2 ^ 63)) else min (int v) (2 ^ 63 - 1), rest)))"

text \<open>The options: the output, or \<open>None\<close> for the help.\<close>

fun wget_options :: "optev list \<Rightarrow> string option \<Rightarrow> string option option" where
  "wget_options [] out = Some out"
| "wget_options (e # es) out = (case e of
     Opt x a \<Rightarrow> if x = CHR ''O'' then wget_options es a else if x = CHR ''d'' then wget_options es out else None
   | OptErr _ \<Rightarrow> None)"

definition wget_init :: "wenv \<Rightarrow> wget" where
  "wget_init env = \<lparr>w_buf = [], w_ptr = 0, w_in = we_in env, w_path = [], w_host = None, w_filename = [], w_output = [], w_file = [],
     w_sent = [], w_outopen = False, w_sockopen = False\<rparr>"

text \<open>From the response on.\<close>

definition wget_receive :: "wenv \<Rightarrow> wget \<Rightarrow> (int \<times> wget) option" where
  "wget_receive env st = (case wget_response st of
     None \<Rightarrow> None
   | Some (None, st1) \<Rightarrow> Some (1, wget_cleanup st1)
   | Some (Some status, st1) \<Rightarrow> (case strtol10 status of (v, e) \<Rightarrow>
       if e = [] \<or> hd e \<noteq> CHR '' '' then Some (1, wget_cleanup st1)
       else if to_int v < 200 \<or> to_int v \<ge> 300 then Some (1, wget_cleanup st1)
       else (case wget_parsehdrs st1 of
           None \<Rightarrow> None
         | Some (len, st2) \<Rightarrow>
             if len = 0 then Some (0, wget_cleanup st2)
             else (case wget_file env len st2 of (r, st3) \<Rightarrow> Some (if r = 0 then 0 else 1, wget_cleanup st3)))))"

definition psh_wget :: "wenv \<Rightarrow> string list \<Rightarrow> (int \<times> wget) option" where
  "psh_wget env argv = (let st = wget_init env in
     case getopt_scan ''O:dh'' (tl argv) of (evs, args) \<Rightarrow>
       (case wget_options evs None of
          None \<Rightarrow> Some (0, st)
        | Some out \<Rightarrow>
            if length args \<noteq> 1 then Some (2, st)
            else (case wget_parseUrl env (hd args) of
                None \<Rightarrow> Some (2, st)
              | Some (path, host, fname) \<Rightarrow>
                  let output = (case out of Some n \<Rightarrow> n | None \<Rightarrow> fname);
                      st1 = st\<lparr>w_path := path, w_host := Some host, w_filename := fname, w_output := output\<rparr> in
                  if \<not> we_fopen env output then Some (2, st1)
                  else if \<not> wget_connect env host then Some (1, st1)
                  else (case wget_request env (st1\<lparr>w_outopen := True, w_sockopen := True\<rparr>) of (r, st2) \<Rightarrow>
                    if r < 0 then Some (1, wget_cleanup st2) else wget_receive env st2))))"

end
