(* ===== verification/Wgetproofs.thy ===== *)
theory Wgetproofs
  imports Wget
begin

text \<open>
  What \<open>wget\<close> does with a response in the form of HTTP/1.1: however the bytes are divided into segments, the
  lines are found, and the file holds the body. The defects shown are about bytes beyond the announced
  length and about a line feed at the start of the buffer.
\<close>

section \<open>Lines\<close>

definition rx_ok :: "wget \<Rightarrow> bool" where
  "rx_ok st \<longleftrightarrow> length (w_buf st) \<le> BUFSZ \<and> w_ptr st \<le> length (w_buf st) \<and> [] \<notin> set (w_in st)"

text \<open>The state may differ in the buffer, and a stream at its end stays there.\<close>

definition received :: "wget \<Rightarrow> wget \<Rightarrow> bool" where
  "received st st' \<longleftrightarrow> st' = st\<lparr>w_buf := w_buf st', w_ptr := w_ptr st', w_in := w_in st'\<rparr> \<and> (w_in st = [] \<longrightarrow> w_in st' = [])"

lemma received_refl: "received st st"
  by (simp add: received_def)

lemma received_trans: "received st st' \<Longrightarrow> received st' st'' \<Longrightarrow> received st st''"
  unfolding received_def by (cases st; cases st'; cases st'') simp

lemma received_file: "received st st' \<Longrightarrow> w_file st' = w_file st"
  unfolding received_def by (cases st; cases st') simp

lemma sread_some:
  assumes "0 < n" "ss \<noteq> []" "[] \<notin> set ss" "sread n ss = (bs, rest)"
  shows "bs \<noteq> [] \<and> length bs \<le> n \<and> [] \<notin> set rest"
  using assms by (cases ss) (auto split: if_splits)

lemma memchr_lf_at: "LF \<notin> set line \<Longrightarrow> b = pre @ line @ LF # rest \<Longrightarrow> memchr_lf b (length pre) = Some (length pre + length line)"
  by (simp add: memchr_lf_Some) (subst takeWhile_append2, auto)

lemma memchr_lf_None: "p \<le> length b \<Longrightarrow> memchr_lf b p = None \<longleftrightarrow> LF \<notin> set (drop p b)"
proof -
  assume p: "p \<le> length b"
  have "length (takeWhile (\<lambda>c. c \<noteq> LF) (drop p b)) < length (drop p b) \<longleftrightarrow> LF \<in> set (drop p b)"
    using length_takeWhile_le [of "\<lambda>c. c \<noteq> LF" "drop p b"] takeWhile_eq_all_conv [of "\<lambda>c. c \<noteq> LF" "drop p b"]
    by (metis le_neq_implies_less less_irrefl takeWhile_eq_take take_all)
  then show ?thesis using p by (auto simp: memchr_lf_def Let_def)
qed

text \<open>What is in the buffer is either a part of the line or holds all of it.\<close>

lemma line_cases:
  assumes "d @ later = line @ CRLF @ rest" "LF \<notin> set line"
  obtains (part) "LF \<notin> set d" "length d \<le> length line + 1" "later \<noteq> []"
  | (whole) d' where "d = line @ CRLF @ d'" "rest = d' @ later"
proof (cases "length d \<le> length line + 1")
  case True
  have "take (length d) (d @ later) = take (length d) ((line @ [CHR 0x0d]) @ LF # rest)" using assms(1) by simp
  then have "d = take (length d) (line @ [CHR 0x0d])" unfolding take_append [of _ "line @ [CHR 0x0d]"] using True by simp
  then have "set d \<subseteq> set (line @ [CHR 0x0d])" using set_take_subset by metis
  then have "LF \<notin> set d" using assms(2) by auto
  moreover have "later \<noteq> []" using arg_cong [OF assms(1), of length] True by auto
  ultimately show thesis using part True by blast
next
  case False
  then have "d = line @ CRLF @ drop (length line + 2) d" using arg_cong [OF assms(1), of "take (length line + 2)"]
    append_take_drop_id [of "length line + 2" d] by simp
  then show thesis using whole assms(1) by (metis append.assoc same_append_eq)
qed

lemma cstr_cut: "cstr (line @ NUL # r) = cstr line"
  unfolding cstr_def by (induction line) auto

lemma cut_line:
  assumes "b = pre @ line @ CRLF @ d"
  shows "b[length pre + length line := NUL] = pre @ line @ NUL # LF # d"
  using assms by (simp add: list_update_append)

lemma hdrnext_line:
  assumes "rx_ok st" "unread st = line @ CRLF @ rest" "LF \<notin> set line" "length line + 2 \<le> BUFSZ"
  shows "\<exists>p st'. wget_hdrnext st = Some (Some p, st') \<and> cstr_at (w_buf st') p = cstr line \<and> rx_ok st' \<and> unread st' = rest \<and> received st st'"
  using assms
proof (induction st rule: wget_hdrnext.induct)
  case (1 st)
  define d where "d = drop (w_ptr st) (w_buf st)"
  have u: "d @ concat (w_in st) = line @ CRLF @ rest" using 1(3) by (simp add: d_def unread_def)
  have wfs: "length (w_buf st) \<le> BUFSZ" "w_ptr st \<le> length (w_buf st)" "[] \<notin> set (w_in st)" using 1(2) by (auto simp: rx_ok_def)
  from u 1(4) show ?case
  proof (cases rule: line_cases)
    case part
    have none: "memchr_lf (w_buf st) (w_ptr st) = None" using memchr_lf_None [OF wfs(2)] part(1) by (simp add: d_def)
    obtain bs ss where rd: "sread (BUFSZ - length d) (w_in st) = (bs, ss)" by force
    have bs: "bs \<noteq> []" "length bs \<le> BUFSZ - length d" "[] \<notin> set ss"
      using sread_some [OF _ _ wfs(3) rd] part(2,3) 1(5) by fastforce+
    define st1 where "st1 = st\<lparr>w_buf := d @ bs, w_ptr := 0, w_in := ss\<rparr>"
    have b: "wget_buf st = (0, st1)" using rd bs(1) by (simp add: wget_buf_def d_def [symmetric] st1_def Let_def)
    have "rx_ok st1" "unread st1 = line @ CRLF @ rest" using bs unread_buf [of st] b 1(3,5) part(2) by (auto simp: rx_ok_def st1_def)
    then obtain p st' where r: "wget_hdrnext st1 = Some (Some p, st')" "cstr_at (w_buf st') p = cstr line" "rx_ok st'" "unread st' = rest" "received st1 st'"
      using 1(1) [OF none b [symmetric]] 1(4,5) by auto
    have "received st st1" using part(3) by (auto simp: received_def st1_def)
    then show ?thesis using r received_trans none b by (subst wget_hdrnext.simps) auto
  next
    case (whole d')
    define pre where "pre = take (w_ptr st) (w_buf st)"
    have "w_buf st = pre @ d" by (simp add: pre_def d_def)
    then have buf: "w_buf st = pre @ line @ CRLF @ d'" "length pre = w_ptr st" using whole(1) wfs(2) by (simp_all add: pre_def)
    have m: "memchr_lf (w_buf st) (w_ptr st) = Some (w_ptr st + length line + 1)"
      using memchr_lf_at [of "line @ [CHR 0x0d]" "w_buf st" pre d'] 1(4) buf by simp
    define st' where "st' = st\<lparr>w_buf := pre @ line @ NUL # LF # d', w_ptr := w_ptr st + length line + 2\<rparr>"
    have "wget_hdrnext st = Some (Some (w_ptr st), st')"
      using m cut_line [OF buf(1)] buf(2) by (subst wget_hdrnext.simps) (simp add: st'_def)
    moreover have "cstr_at (w_buf st') (w_ptr st) = cstr line"
      using buf(2) by (simp add: st'_def cstr_at_def cstr_cut)
    moreover have "rx_ok st'" "unread st' = rest" "received st st'"
      using wfs buf whole(2) by (auto simp: rx_ok_def st'_def unread_def received_def)
    ultimately show ?thesis by blast
  qed
qed

section \<open>The response\<close>

lemma status_of_cstr: "cstr b = cstr line \<Longrightarrow> status_of b = status_of line"
  by (simp add: status_of_def)

lemma response_line:
  assumes "length (w_buf st) \<le> BUFSZ" "[] \<notin> set (w_in st)" "LF \<notin> set (w_buf st)"
    "w_buf st @ concat (w_in st) = line @ CRLF @ rest" "LF \<notin> set line" "length line + 2 \<le> BUFSZ"
  shows "\<exists>st'. response_loop st = Some (status_of line, st') \<and> rx_ok st' \<and> unread st' = rest
    \<and> st' = st\<lparr>w_buf := w_buf st', w_ptr := w_ptr st', w_in := w_in st'\<rparr> \<and> (length (w_in st) = 1 \<longrightarrow> length (concat (w_in st)) \<le> BUFSZ - length (w_buf st) \<longrightarrow> w_in st' = [])"
  using assms
proof (induction st rule: response_loop.induct)
  case (1 st)
  obtain bs ss where rd: "sread (BUFSZ - length (w_buf st)) (w_in st) = (bs, ss)" by force
  have room: "length (w_buf st) \<le> length line + 1" "concat (w_in st) \<noteq> []"
    by (rule line_cases [OF 1(5) 1(6)]; use 1(4) in auto)+
  have bs: "bs \<noteq> []" "length bs \<le> BUFSZ - length (w_buf st)" "[] \<notin> set ss"
    using sread_some [OF _ _ 1(3) rd] room 1(7) by fastforce+
  have cc: "bs @ concat ss = concat (w_in st)" using sread_concat [of "BUFSZ - length (w_buf st)" "w_in st"] rd by simp
  define b where "b = w_buf st @ bs"
  have lb: "length b \<le> BUFSZ" using bs(2) 1(2) by (simp add: b_def)
  have u: "b @ concat ss = line @ CRLF @ rest" using 1(5) cc by (simp add: b_def)
  from u 1(6) show ?case
  proof (cases rule: line_cases)
    case part
    define st1 where "st1 = st\<lparr>w_buf := b, w_ptr := length bs, w_in := ss\<rparr>"
    have none: "memchr_lf b 0 = None" using memchr_lf_None [of 0 b] part(1) by simp
    have eq: "response_loop st = response_loop st1"
      using rd bs(1) none by (subst response_loop.simps) (simp add: b_def [symmetric] st1_def Let_def)
    have "\<exists>st'. response_loop st1 = Some (status_of line, st') \<and> rx_ok st' \<and> unread st' = rest
        \<and> st' = st1\<lparr>w_buf := w_buf st', w_ptr := w_ptr st', w_in := w_in st'\<rparr>"
      using 1(1) [OF rd [symmetric] bs(1) b_def none, folded st1_def] lb bs(3) part(1) u 1(6,7) by (auto simp: st1_def)
    moreover have "\<not> (length (w_in st) = 1 \<and> length (concat (w_in st)) \<le> BUFSZ - length (w_buf st))"
      using rd part(3) by (cases "w_in st") (auto split: if_splits)
    ultimately show ?thesis unfolding eq by (auto simp: st1_def)
  next
    case (whole d')
    have m: "memchr_lf b 0 = Some (length line + 1)"
      using memchr_lf_at [of "line @ [CHR 0x0d]" b "[]" d'] whole(1) 1(6) by simp
    define st' where "st' = st\<lparr>w_buf := line @ NUL # LF # d', w_ptr := length line + 2, w_in := ss\<rparr>"
    have "status_of (line @ NUL # LF # d') = status_of line" by (rule status_of_cstr) (rule cstr_cut)
    then have "response_loop st = Some (status_of line, st')"
      using rd bs(1) m cut_line [of b "[]" line d'] whole(1)
      by (subst response_loop.simps) (simp add: b_def [symmetric] st'_def Let_def)
    moreover have "rx_ok st'" "unread st' = rest" using lb bs(3) whole by (auto simp: rx_ok_def st'_def unread_def)
    moreover have "length (w_in st) = 1 \<longrightarrow> length (concat (w_in st)) \<le> BUFSZ - length (w_buf st) \<longrightarrow> ss = []"
      using rd by (cases "w_in st") (auto split: if_splits)
    ultimately show ?thesis by (auto simp: st'_def)
  qed
qed

section \<open>Headers\<close>

definition header_ok :: "string \<Rightarrow> bool" where
  "header_ok l \<longleftrightarrow> l \<noteq> [] \<and> NUL \<notin> set l \<and> LF \<notin> set l \<and> length l + 2 \<le> BUFSZ"

definition crlf_lines :: "string list \<Rightarrow> string" where
  "crlf_lines ls = concat (map (\<lambda>l. l @ CRLF) ls)"

lemma hdrs_plain:
  assumes "rx_ok st" "unread st = crlf_lines hs @ rest" "\<forall>l \<in> set hs. header_ok l \<and> \<not> is_length l"
  shows "\<exists>st'. hdrs_loop len st = hdrs_loop len st' \<and> rx_ok st' \<and> unread st' = rest \<and> received st st'"
  using assms
proof (induction hs arbitrary: st)
  case Nil
  then show ?case using received_refl by (auto simp: crlf_lines_def)
next
  case (Cons l hs)
  have l: "l \<noteq> []" "LF \<notin> set l" "length l + 2 \<le> BUFSZ" "cstr l = l" "\<not> is_length l" using Cons(4) by (auto simp: header_ok_def cstr_id)
  obtain p st1 where s: "wget_hdrnext st = Some (Some p, st1)" "cstr_at (w_buf st1) p = l" "rx_ok st1" "unread st1 = crlf_lines hs @ rest" "received st st1"
    using hdrnext_line [OF Cons(2), of l "crlf_lines hs @ rest"] Cons(3) l by (auto simp: crlf_lines_def)
  have "hdrs_loop len st = hdrs_loop len st1" using s(1,2) l by (subst hdrs_loop.simps) simp
  then show ?case using Cons(1) [OF s(3,4)] Cons(4) received_trans [OF s(5)] by auto
qed

lemma hdrs_length:
  assumes "rx_ok st" "unread st = l @ CRLF @ rest" "header_ok l" "is_length l" "number_at l = dec n" "n < 2 ^ 64"
  shows "\<exists>st'. hdrs_loop len st = hdrs_loop n st' \<and> rx_ok st' \<and> unread st' = rest \<and> received st st'"
proof -
  have l: "LF \<notin> set l" "length l + 2 \<le> BUFSZ" "cstr l = l" using assms(3) by (auto simp: header_ok_def cstr_id)
  obtain p st1 where s: "wget_hdrnext st = Some (Some p, st1)" "cstr_at (w_buf st1) p = l" "rx_ok st1" "unread st1 = rest" "received st st1"
    using hdrnext_line [OF assms(1,2) l(1,2)] l(3) by auto
  have "strtoul_w (2 ^ 64) (dec n) = (n, [])" using strtoul_w_dec [OF assms(6), of "[]"] by simp
  then have "hdrs_loop len st = hdrs_loop n st1" using s(1,2) assms(4,5) dec_hd [of n] by (subst hdrs_loop.simps) simp
  then show ?thesis using s by blast
qed

lemma hdrs_end:
  assumes "rx_ok st" "unread st = CRLF @ rest"
  shows "\<exists>st'. hdrs_loop len st = Some (len, st') \<and> rx_ok st' \<and> unread st' = rest \<and> received st st'"
proof -
  obtain p st1 where s: "wget_hdrnext st = Some (Some p, st1)" "cstr_at (w_buf st1) p = []" "rx_ok st1" "unread st1 = rest" "received st st1"
    using hdrnext_line [of st "[]" rest] assms by (auto simp: cstr_def)
  have "\<not> is_length []" by (simp add: is_length_def)
  then show ?thesis using s by (subst hdrs_loop.simps) simp
qed

text \<open>The headers of a message, with one that announces the length.\<close>

definition length_header :: "nat \<Rightarrow> string \<Rightarrow> bool" where
  "length_header n l \<longleftrightarrow> is_length l \<and> number_at l = dec n"

lemma hdrs_message:
  assumes "rx_ok st" "unread st = crlf_lines (as @ l # bs) @ CRLF @ body" "\<forall>x \<in> set (as @ l # bs). header_ok x"
    "\<forall>x \<in> set (as @ bs). \<not> is_length x" "length_header n l" "n < 2 ^ 64"
  shows "\<exists>st'. wget_parsehdrs st = Some (n, st') \<and> rx_ok st' \<and> unread st' = body \<and> received st st'"
proof -
  have u: "unread st = crlf_lines as @ l @ CRLF @ crlf_lines bs @ CRLF @ body" using assms(2) by (simp add: crlf_lines_def)
  obtain s1 where s1: "hdrs_loop 0 st = hdrs_loop 0 s1" "rx_ok s1" "unread s1 = l @ CRLF @ crlf_lines bs @ CRLF @ body" "received st s1"
    using hdrs_plain [OF assms(1) u, of 0] assms(3,4) by auto
  obtain s2 where s2: "hdrs_loop 0 s1 = hdrs_loop n s2" "rx_ok s2" "unread s2 = crlf_lines bs @ CRLF @ body" "received s1 s2"
    using hdrs_length [OF s1(2,3), of n 0] assms(3,5,6) by (auto simp: length_header_def)
  obtain s3 where s3: "hdrs_loop n s2 = hdrs_loop n s3" "rx_ok s3" "unread s3 = CRLF @ body" "received s2 s3"
    using hdrs_plain [OF s2(2,3), of n] assms(3,4) by auto
  obtain s4 where "hdrs_loop n s3 = Some (n, s4)" "rx_ok s4" "unread s4 = body" "received s3 s4"
    using hdrs_end [OF s3(2,3)] by blast
  then show ?thesis using s1 s2 s3 received_trans by (metis wget_parsehdrs_def)
qed


section \<open>The body\<close>

lemma sread_prefix: "sread n ss = (bs, rest) \<Longrightarrow> length bs \<le> n \<and> bs @ concat rest = concat ss"
  using sread_concat [of n ss] by (cases ss) (auto split: if_splits)

definition writes_all :: "wenv \<Rightarrow> bool" where
  "writes_all env \<longleftrightarrow> (\<forall>i n. we_fwrite env i n = n)"

lemma file_loop_copies:
  assumes "writes_all env" "[] \<notin> set ss" "length (concat ss) = left"
  shows "\<exists>ss'. file_loop env left file ss = (0, file @ concat ss, ss')"
  using assms
proof (induction env left "file" ss rule: file_loop.induct)
  case (1 env left out ss)
  show ?case
  proof (cases "left = 0")
    case True
    then show ?thesis using 1(4) by (subst file_loop.simps) auto
  next
    case False
    obtain bs rest where rd: "sread (min BUFSZ left) ss = (bs, rest)" by force
    have "ss \<noteq> []" using False 1(4) by auto
    then have bs: "bs \<noteq> []" "[] \<notin> set rest" using sread_some [OF _ _ 1(3) rd] False by auto
    have cc: "bs @ concat rest = concat ss" using sread_prefix [OF rd] by simp
    have fw: "fwrite env out bs = (True, out @ bs)" using 1(2) by (simp add: fwrite_def writes_all_def)
    have "length (concat rest) = left - length bs" using arg_cong [OF cc, of length] 1(4) by simp
    then obtain ss' where "file_loop env (left - length bs) (out @ bs) rest = (0, (out @ bs) @ concat rest, ss')"
      using 1(1) [OF _ rd [symmetric] bs(1) fw [symmetric]] False 1(2) bs(2) by auto
    then show ?thesis using False rd bs(1) fw cc by (subst file_loop.simps) auto
  qed
qed

lemma wget_file_copies:
  assumes "writes_all env" "rx_ok st" "length (unread st) < 2 ^ 64"
  shows "\<exists>ss. wget_file env (length (unread st)) st = (0, st\<lparr>w_file := w_file st @ unread st, w_in := ss\<rparr>)"
proof -
  define d where "d = drop (w_ptr st) (w_buf st)"
  have u: "unread st = d @ concat (w_in st)" by (simp add: unread_def d_def)
  have left: "(if d \<noteq> [] then (length (unread st) + 2 ^ 64 - length d) mod 2 ^ 64 else length (unread st)) = length (concat (w_in st))"
    using assms(3) by (simp add: u)
  have fw: "(if d \<noteq> [] then fwrite env (w_file st) d else (True, w_file st)) = (True, w_file st @ d)"
    using assms(1) by (simp add: fwrite_def writes_all_def)
  obtain ss where "file_loop env (length (concat (w_in st))) (w_file st @ d) (w_in st) = (0, (w_file st @ d) @ concat (w_in st), ss)"
    using file_loop_copies [OF assms(1), of "w_in st" _ "w_file st @ d"] assms(2) by (auto simp: rx_ok_def)
  then show ?thesis unfolding wget_file_def d_def [symmetric] Let_def left fw by (auto simp: u)
qed

text \<open>More in the buffer than was announced.\<close>

lemma wget_file_surplus:
  assumes "writes_all env" "w_in st = []" "unread st = body @ extra" "extra \<noteq> []" "length (body @ extra) < 2 ^ 64"
  shows "wget_file env (length body) st = (-1, st\<lparr>w_file := w_file st @ body @ extra\<rparr>)"
proof -
  have d: "drop (w_ptr st) (w_buf st) = body @ extra" using assms(2,3) by (simp add: unread_def)
  have "(length body + 2 ^ 64 - length (body @ extra)) mod 2 ^ 64 = 2 ^ 64 - length extra"
    using assms(4,5) by simp
  moreover have "file_loop env (2 ^ 64 - length extra) f [] = (-1, f, [])" for f
    using assms(5) by (subst file_loop.simps) simp
  ultimately show ?thesis using assms(1,2,4) by (simp add: wget_file_def d fwrite_def writes_all_def)
qed


section \<open>A download\<close>

text \<open>The calls of the system succeed, \<open>write\<close> possibly in parts.\<close>

definition sends :: "wenv \<Rightarrow> bool" where
  "sends env \<longleftrightarrow> (\<forall>i n. 0 < n \<longrightarrow> 0 < we_write env i n \<and> we_write env i n \<le> int n)"

definition online :: "wenv \<Rightarrow> string \<Rightarrow> string \<Rightarrow> bool" where
  "online env host name \<longleftrightarrow> we_strndup env host \<and> we_fopen env name \<and> we_getaddrinfo env host \<and> we_ntop env
     \<and> we_socket env \<and> we_connect env \<and> sends env \<and> writes_all env"

definition basename :: "string \<Rightarrow> string" where
  "basename p = rev (takeWhile (\<lambda>c. c \<noteq> CHR ''/'') (rev p))"

lemma send_loop_all:
  assumes "sends env" "i \<le> length req"
  shows "send_loop env req i sent = (0, sent @ drop i req)"
  using assms
proof (induction env req i sent rule: send_loop.induct)
  case (1 env req i sent)
  show ?case
  proof (cases "i < length req")
    case True
    define k where "k = nat (we_write env i (length req - i))"
    have w: "0 < we_write env i (length req - i) \<and> we_write env i (length req - i) \<le> int (length req - i)"
      using 1(2) True unfolding sends_def by (metis zero_less_diff)
    then have k: "0 < we_write env i (length req - i)" "k \<le> length req - i" by (auto simp: k_def nat_le_iff)
    have "send_loop env req (i + k) (sent @ take k (drop i req)) = (0, (sent @ take k (drop i req)) @ drop (i + k) req)"
      using 1(1) [OF True refl] k True 1(2) by (simp add: k_def)
    moreover have "take k (drop i req) @ drop (i + k) req = drop i req" by (metis append_take_drop_id drop_drop add.commute)
    ultimately show ?thesis using True k(1) by (subst send_loop.simps) (simp add: k_def [symmetric] Let_def)
  next
    case False
    then show ?thesis using 1(3) by (subst send_loop.simps) simp
  qed
qed

lemma parseUrl_http:
  assumes "CHR ''/'' \<notin> set host" "path \<noteq> []" "last path \<noteq> CHR ''/''" "we_strndup env host"
  shows "wget_parseUrl env (''http://'' @ host @ ''/'' @ path) = Some (path, host, basename path)"
proof -
  define b where "b = host @ ''/'' @ path"
  have "takeWhile (\<lambda>c. c \<noteq> CHR ''/'') b = host" "dropWhile (\<lambda>c. c \<noteq> CHR ''/'') b = ''/'' @ path"
    using assms(1) unfolding b_def by (subst takeWhile_append2 dropWhile_append2; auto)+
  moreover have "takeWhile (\<lambda>c. c \<noteq> CHR ''/'') (rev path @ CHR ''/'' # r) = takeWhile (\<lambda>c. c \<noteq> CHR ''/'') (rev path)" for r
    by (induction path rule: rev_induct) auto
  then have "rev (takeWhile (\<lambda>c. c \<noteq> CHR ''/'') (rev b)) = basename path" by (simp add: b_def basename_def)
  moreover have "last b \<noteq> CHR ''/''" "CHR ''/'' \<in> set b" using assms(2,3) by (auto simp: b_def)
  moreover have "strstr (''http://'' @ b) ''://'' \<noteq> None" by simp
  ultimately have "wget_parseUrl env (''http://'' @ b) = Some (path, host, basename path)"
    using assms(4) by (simp add: wget_parseUrl_def Let_def)
  then show ?thesis by (simp only: b_def)
qed

lemma strtol10_dec: "n < 2 ^ 31 \<Longrightarrow> strtol10 (dec n @ CHR '' '' # r) = (int n, CHR '' '' # r)"
proof -
  assume n: "n < 2 ^ 31"
  obtain c cs where d: "dec n = c # cs" using dec_hd [of n] by (cases "dec n") auto
  have c: "digit_val c < 10" using dec_digits [of n] d by auto
  have "digit_val (CHR '' '') = 36" by (simp add: digit_val_def cclass code_def)
  then have "digits 10 0 (dec n @ CHR '' '' # r) = (n, CHR '' '' # r)"
    using digits_all [OF dec_digits [of n], of 0 "CHR '' '' # r"] by (simp add: dec_value)
  then show ?thesis using c digit_not_blank [OF c] n unfolding d strtol10_def by (simp add: Let_def)
qed

definition status_line :: "nat \<Rightarrow> string \<Rightarrow> string" where
  "status_line n reason = ''HTTP/1.1 '' @ dec n @ '' '' @ reason"

lemma status_of_line: "header_ok (status_line n reason) \<Longrightarrow> status_of (status_line n reason) = Some (dec n @ '' '' @ reason)"
  by (simp add: status_of_def header_ok_def cstr_id) (simp add: status_line_def)

text \<open>A message of HTTP/1.1.\<close>

definition message :: "string \<Rightarrow> string list \<Rightarrow> string \<Rightarrow> string" where
  "message status hs body = crlf_lines (status # hs) @ CRLF @ body"

definition ok_message :: "nat \<Rightarrow> string \<Rightarrow> string list \<Rightarrow> string \<Rightarrow> string list \<Rightarrow> nat \<Rightarrow> bool" where
  "ok_message k reason as l bs n \<longleftrightarrow> 200 \<le> k \<and> k < 300 \<and> (\<forall>x \<in> set (status_line k reason # as @ l # bs). header_ok x)
     \<and> (\<forall>x \<in> set (as @ bs). \<not> is_length x) \<and> length_header n l \<and> n < 2 ^ 64"

text \<open>Status line and headers are read, whatever the segments.\<close>

lemma receive_head:
  assumes "ok_message k reason as l bs n" "[] \<notin> set (w_in st)" "concat (w_in st) = message (status_line k reason) (as @ l # bs) body"
  shows "\<exists>st'. wget_receive env st = (if n = 0 then Some (0, wget_cleanup st')
      else (case wget_file env n st' of (r, st2) \<Rightarrow> Some (if r = 0 then 0 else 1, wget_cleanup st2)))
    \<and> rx_ok st' \<and> unread st' = body \<and> st' = st\<lparr>w_buf := w_buf st', w_ptr := w_ptr st', w_in := w_in st'\<rparr>
    \<and> (length (w_in st) = 1 \<longrightarrow> length (concat (w_in st)) \<le> BUFSZ \<longrightarrow> w_in st' = [])"
proof -
  define s where "s = status_line k reason"
  define rest where "rest = crlf_lines (as @ l # bs) @ CRLF @ body"
  have hs: "header_ok s" "LF \<notin> set s" "length s + 2 \<le> BUFSZ" using assms(1) by (auto simp: ok_message_def s_def header_ok_def)
  obtain s1 where s1: "wget_response st = Some (status_of s, s1)" "rx_ok s1" "unread s1 = rest"
      "s1 = st\<lparr>w_buf := w_buf s1, w_ptr := w_ptr s1, w_in := w_in s1\<rparr>"
      "length (w_in st) = 1 \<longrightarrow> length (concat (w_in st)) \<le> BUFSZ \<longrightarrow> w_in s1 = []"
    using response_line [of "st\<lparr>w_buf := [], w_ptr := 0\<rparr>" s rest] hs assms(2,3)
    by (auto simp: wget_response_def message_def crlf_lines_def rest_def s_def)
  obtain s2 where s2: "wget_parsehdrs s1 = Some (n, s2)" "rx_ok s2" "unread s2 = body" "received s1 s2"
    using hdrs_message [OF s1(2,3) [unfolded rest_def]] assms(1) unfolding ok_message_def by (metis list.set_intros(2))
  have "k < 2 ^ 31" "to_int (int k) = int k" using assms(1) by (auto simp: ok_message_def to_int_def)
  then have "wget_receive env st = (if n = 0 then Some (0, wget_cleanup s2)
      else (case wget_file env n s2 of (r, st2) \<Rightarrow> Some (if r = 0 then 0 else 1, wget_cleanup st2)))"
    using s1(1) s2(1) status_of_line [of k reason] hs(1) strtol10_dec [of k reason] assms(1)
    by (simp add: wget_receive_def s_def ok_message_def)
  moreover have "s2 = st\<lparr>w_buf := w_buf s2, w_ptr := w_ptr s2, w_in := w_in s2\<rparr>"
    using s1(4) s2(4) unfolding received_def by (cases s1; cases s2; cases st) simp
  ultimately show ?thesis using s1(5) s2 by (auto simp: received_def)
qed


text \<open>The way to the response.\<close>

lemma psh_wget_receives:
  assumes "CHR ''/'' \<notin> set host" "path \<noteq> []" "last path \<noteq> CHR ''/''" "online env host (basename path)" "length (request path host) < 256"
  shows "psh_wget env [a0, ''http://'' @ host @ ''/'' @ path] = wget_receive env ((wget_init env)\<lparr>w_path := path, w_host := Some host,
    w_filename := basename path, w_output := basename path, w_outopen := True, w_sockopen := True, w_sent := request path host\<rparr>)"
proof -
  define url where "url = ''http://'' @ host @ ''/'' @ path"
  have "getopt_scan ''O:dh'' [url] = ([], [url])" by (simp add: url_def is_opt_word_def)
  moreover have "wget_parseUrl env url = Some (path, host, basename path)"
    using parseUrl_http [OF assms(1-3)] assms(4) unfolding url_def online_def by blast
  moreover have "send_loop env (request path host) 0 [] = (0, request path host)"
    using send_loop_all [of env 0 "request path host" "[]"] assms(4) by (simp add: online_def)
  ultimately have "psh_wget env [a0, url] = wget_receive env ((wget_init env)\<lparr>w_path := path, w_host := Some host,
      w_filename := basename path, w_output := basename path, w_outopen := True, w_sockopen := True, w_sent := request path host\<rparr>)"
    using assms(4,5) by (simp add: psh_wget_def online_def wget_connect_def wget_request_def wget_init_def Let_def)
  then show ?thesis by (simp only: url_def)
qed

text \<open>
  C23: \<open>wget http://host/path\<close> against a server that answers with a status between 200 and 299, headers of which
  exactly one announces the length, and the body of that length returns 0, however the network divides the answer:
  it has sent the request for the path, the file named like the last part of the path holds exactly the body, and the
  file, the socket and the host's name are released.
\<close>

theorem wget_downloads:
  assumes "CHR ''/'' \<notin> set host" "path \<noteq> []" "last path \<noteq> CHR ''/''" "online env host (basename path)" "length (request path host) < 256"
    "ok_message k reason as l bs (length body)" "[] \<notin> set (we_in env)" "concat (we_in env) = message (status_line k reason) (as @ l # bs) body"
  shows "\<exists>st. psh_wget env [a0, ''http://'' @ host @ ''/'' @ path] = Some (0, st) \<and> w_output st = basename path \<and> w_file st = body
    \<and> w_sent st = request path host \<and> \<not> w_outopen st \<and> \<not> w_sockopen st \<and> w_host st = None"
proof -
  define s0 where "s0 = (wget_init env)\<lparr>w_path := path, w_host := Some host, w_filename := basename path, w_output := basename path,
    w_outopen := True, w_sockopen := True, w_sent := request path host\<rparr>"
  have s0: "w_in s0 = we_in env" "w_file s0 = []" "w_output s0 = basename path" "w_sent s0 = request path host" by (simp_all add: s0_def wget_init_def)
  have run: "psh_wget env [a0, ''http://'' @ host @ ''/'' @ path] = wget_receive env s0"
    unfolding s0_def by (rule psh_wget_receives [OF assms(1-5)])
  obtain st' where st': "wget_receive env s0 = (if length body = 0 then Some (0, wget_cleanup st')
      else (case wget_file env (length body) st' of (r, st2) \<Rightarrow> Some (if r = 0 then 0 else 1, wget_cleanup st2)))"
      "rx_ok st'" "unread st' = body" "st' = s0\<lparr>w_buf := w_buf st', w_ptr := w_ptr st', w_in := w_in st'\<rparr>"
    using receive_head [OF assms(6), of s0 body env] assms(7,8) s0(1) by auto
  have f: "w_file st' = []" "w_output st' = basename path" "w_sent st' = request path host" by (subst st'(4), simp add: s0)+
  have "length body < 2 ^ 64" using assms(6) by (simp add: ok_message_def)
  then obtain ss where "wget_file env (length body) st' = (0, st'\<lparr>w_file := body, w_in := ss\<rparr>)"
    using wget_file_copies [of env st'] assms(4) st'(2,3) f(1) by (auto simp: online_def)
  then show ?thesis using run st'(1) f by (cases "length body = 0") (auto simp: wget_cleanup_def)
qed

definition demo_net :: wenv where
  "demo_net = \<lparr>we_strndup = (\<lambda>_. True), we_fopen = (\<lambda>_. True), we_getaddrinfo = (\<lambda>_. True), we_ntop = True, we_socket = True, we_connect = True,
     we_write = (\<lambda>i n. min 20 (int n)), we_fwrite = (\<lambda>i n. n),
     we_in = [''HTTP/1.1 200 O'', ''K'' @ CRLF @ ''Server: x'' @ [CHR 0x0d], LF # ''Content-Length:  5'' @ CRLF @ CRLF @ ''he'', ''llo'']\<rparr>"

lemma demo_dec: "dec 200 = ''200''" "dec 5 = ''5''"
  by (simp_all add: dec.simps)

lemma demo_message: "ok_message 200 ''OK'' [''Server: x''] ''Content-Length:  5'' [] 5"
  by (simp add: ok_message_def header_ok_def status_line_def is_length_def length_header_def number_at_def lowcase_def code_def demo_dec char_of_def bit_0)

theorem wget_downloads_witness:
  "\<exists>st. psh_wget demo_net [''wget'', ''http://'' @ ''h'' @ ''/'' @ ''d/f''] = Some (0, st) \<and> w_output st = basename ''d/f'' \<and> w_file st = ''hello''
    \<and> w_sent st = request ''d/f'' ''h'' \<and> \<not> w_outopen st \<and> \<not> w_sockopen st \<and> w_host st = None"
proof (rule wget_downloads)
  show "online demo_net ''h'' (basename ''d/f'')" by (auto simp: online_def sends_def writes_all_def demo_net_def)
  show "ok_message 200 ''OK'' [''Server: x''] ''Content-Length:  5'' [] (length ''hello'')" using demo_message by (simp add: numeral_eq_Suc)
  show "concat (we_in demo_net) = message (status_line 200 ''OK'') ([''Server: x''] @ ''Content-Length:  5'' # []) ''hello''"
    by (simp add: demo_net_def message_def crlf_lines_def status_line_def demo_dec)
qed (simp_all add: request_def demo_net_def)

text \<open>
  A server that sends more than it announced: when the surplus is in the buffer with the headers, the count of what is
  left wraps around, the surplus is written to the file and \<open>wget\<close> waits for more until the connection ends, then fails.
\<close>

lemma wget_surplus_fails:
  assumes "CHR ''/'' \<notin> set host" "path \<noteq> []" "last path \<noteq> CHR ''/''" "online env host (basename path)" "length (request path host) < 256"
    "ok_message k reason as l bs (length body)" "body \<noteq> []" "extra \<noteq> []"
    "we_in env = [message (status_line k reason) (as @ l # bs) (body @ extra)]" "length (hd (we_in env)) \<le> BUFSZ"
  shows "\<exists>st. psh_wget env [a0, ''http://'' @ host @ ''/'' @ path] = Some (1, st) \<and> w_file st = body @ extra"
proof -
  define s0 where "s0 = (wget_init env)\<lparr>w_path := path, w_host := Some host, w_filename := basename path, w_output := basename path,
    w_outopen := True, w_sockopen := True, w_sent := request path host\<rparr>"
  have s0: "w_in s0 = we_in env" "w_file s0 = []" by (simp_all add: s0_def wget_init_def)
  have run: "psh_wget env [a0, ''http://'' @ host @ ''/'' @ path] = wget_receive env s0"
    unfolding s0_def by (rule psh_wget_receives [OF assms(1-5)])
  have ne: "[] \<notin> set (w_in s0)" using assms(9) s0(1) by (simp add: message_def)
  obtain st' where st': "wget_receive env s0 = (case wget_file env (length body) st' of (r, st2) \<Rightarrow> Some (if r = 0 then 0 else 1, wget_cleanup st2))"
      "unread st' = body @ extra" "st' = s0\<lparr>w_buf := w_buf st', w_ptr := w_ptr st', w_in := w_in st'\<rparr>" "w_in st' = []"
    using receive_head [OF assms(6) ne, of "body @ extra" env] assms(7,9,10) s0(1) by auto
  have "length (body @ extra) < 2 ^ 64" using assms(9,10) by (simp add: message_def)
  moreover have "w_file st' = []" by (subst st'(3)) (simp add: s0)
  ultimately show ?thesis
    using run st'(1) wget_file_surplus [OF _ st'(4,2) assms(8)] assms(4) by (simp add: online_def wget_cleanup_def)
qed

text \<open>An answer that starts with a line feed makes \<open>wget\<close> write in front of its buffer.\<close>

lemma wget_line_feed_underflow:
  assumes "w_in st = (LF # s) # ss"
  shows "wget_receive env st = None"
proof -
  have "memchr_lf (LF # r) 0 = Some 0" for r by (simp add: memchr_lf_def)
  then show ?thesis using assms by (simp add: wget_receive_def wget_response_def) (subst response_loop.simps, simp)
qed


end
