(* ===== verification/Ntp.thy ===== *)
theory Ntp
  imports Dd Getopt "HOL-Library.Word"
begin

text \<open>
  The \<open>ntpclient\<close> applet, \<open>src/psh/ntpclient/ntpclient.c\<close>: the server from the configuration, the exchange of one
  packet, the conversion of the time and the retries over the addresses of a host.

  The results of the system's calls are parameters that depend on the address and on the number of the attempt.
  Calls that are repeated after \<open>EINTR\<close> have a list of results; \<open>None\<close> means that the call does not
  return when the list is used up. \<open>time_t\<close> and \<open>unsigned long\<close> have 64 bits. Messages are left out.
\<close>

abbreviation (input) EPROTO :: int where "EPROTO \<equiv> 71"
abbreviation (input) ETIMEDOUT :: int where "ETIMEDOUT \<equiv> 110"

datatype wresult = WCount nat | WErr int
datatype rresult = RData "8 word list" | RErr int

record ntpenv =
  ne_conf :: "string option"
  ne_addrs :: "string \<Rightarrow> nat \<Rightarrow> int + string list"
  ne_ntop :: "string \<Rightarrow> nat \<Rightarrow> int"
  ne_socket :: "string \<Rightarrow> nat \<Rightarrow> int"
  ne_rcvtimeo :: "string \<Rightarrow> nat \<Rightarrow> int"
  ne_sndtimeo :: "string \<Rightarrow> nat \<Rightarrow> int"
  ne_connect :: "string \<Rightarrow> nat \<Rightarrow> int"
  ne_write :: "string \<Rightarrow> nat \<Rightarrow> wresult list"
  ne_read :: "string \<Rightarrow> nat \<Rightarrow> rresult list"
  ne_gettime :: int
  ne_settime :: int
  ne_start :: int
  ne_time :: "nat \<Rightarrow> int"

text \<open>The clock, when it was set, the sockets that are open and the packets sent, with their addresses.\<close>

record ntp =
  nt_clock :: "(int \<times> nat) option"
  nt_open :: nat
  nt_sent :: "(string \<times> 8 word list) list"

section \<open>Connecting\<close>

text \<open>The address of the attempt, or an error.\<close>

definition ntpclient_connect :: "ntpenv \<Rightarrow> string \<Rightarrow> nat \<Rightarrow> (int + string) option" where
  "ntpclient_connect env host attempt = (case ne_addrs env host attempt of
     Inl e \<Rightarrow> Some (Inl e)
   | Inr as \<Rightarrow>
       if as = [] then None
       else (let a = as ! (attempt mod 2 ^ 32 mod length as) in
         if ne_ntop env a attempt < 0 then Some (Inl (ne_ntop env a attempt))
         else if ne_socket env a attempt < 0 then Some (Inl (ne_socket env a attempt))
         else if ne_rcvtimeo env a attempt < 0 then Some (Inl (ne_rcvtimeo env a attempt))
         else if ne_sndtimeo env a attempt < 0 then Some (Inl (ne_sndtimeo env a attempt))
         else if ne_connect env a attempt < 0 then Some (Inl (ne_connect env a attempt))
         else Some (Inr a)))"

section \<open>The packet\<close>

definition NTP_LI_VN_MODE :: "nat \<Rightarrow> nat \<Rightarrow> nat \<Rightarrow> nat" where
  "NTP_LI_VN_MODE li vn mode = (li mod 4) * 64 + (vn mod 8) * 8 + mode mod 8"

definition request_pkt :: "8 word list" where
  "request_pkt = [of_nat (NTP_LI_VN_MODE 0 4 3), 16, 3, - 6] @ replicate 44 0"

text \<open>The loop of \<open>write\<close>: the result and what was sent.\<close>

fun pkt_send :: "wresult list \<Rightarrow> 8 word list \<Rightarrow> (int \<times> 8 word list) option" where
  "pkt_send [] p = (if p = [] then Some (0, []) else None)"
| "pkt_send (w # ws) p =
     (if p = [] then Some (0, [])
      else (case w of
          WCount k \<Rightarrow> map_option (\<lambda>(r, s). (r, take k p @ s)) (pkt_send ws (drop k p))
        | WErr e \<Rightarrow> if e = EAGAIN then Some (- ETIMEDOUT, []) else if e \<noteq> EINTR then Some (- e, []) else pkt_send ws p))"

text \<open>One datagram; what does not fit is cut off.\<close>

fun pkt_recv :: "rresult list \<Rightarrow> (int + 8 word list) option" where
  "pkt_recv [] = None"
| "pkt_recv (x # xs) = (case x of
     RData b \<Rightarrow> if length (take 48 b) = 48 then Some (Inr (take 48 b)) else Some (Inl (- EPROTO))
   | RErr e \<Rightarrow> if e = EAGAIN then Some (Inl (- ETIMEDOUT)) else if e \<noteq> EINTR then Some (Inl (- e)) else pkt_recv xs)"

definition NTP_MODE :: "8 word \<Rightarrow> nat" where
  "NTP_MODE b = unat b mod 8"

definition reply_valid :: "8 word list \<Rightarrow> bool" where
  "reply_valid p \<longleftrightarrow> (NTP_MODE (p ! 0) = 4 \<or> NTP_MODE (p ! 0) = 2) \<and> unat (p ! 1) < 16"

definition ntpclient_gettimepacket :: "ntpenv \<Rightarrow> string \<Rightarrow> nat \<Rightarrow> ((int + 8 word list) \<times> 8 word list) option" where
  "ntpclient_gettimepacket env a attempt = do {
     (r, sent) \<leftarrow> pkt_send (ne_write env a attempt) request_pkt;
     (if r < 0 then Some (Inl r, sent)
      else do {
        x \<leftarrow> pkt_recv (ne_read env a attempt);
        (case x of
           Inl e \<Rightarrow> Some (Inl e, sent)
         | Inr p \<Rightarrow> Some (if reply_valid p then Inr p else Inl (- EPROTO), sent)) }) }"

section \<open>The time\<close>

definition NTP_JAN1970_DELTA :: int where
  "NTP_JAN1970_DELTA = 2208988800"

definition FRAC_TO_USEC :: "32 word \<Rightarrow> 32 word" where
  "FRAC_TO_USEC x = drop_bit 12 x - 759 * drop_bit 16 (drop_bit 10 x + 32768)"

text \<open>\<open>ntohl\<close> of the four bytes at an offset.\<close>

definition be32 :: "8 word list \<Rightarrow> nat \<Rightarrow> 32 word" where
  "be32 p i = of_nat (foldl (\<lambda>a b. a * 256 + unat b) 0 (take 4 (drop i p)))"

definition new_time :: "8 word list \<Rightarrow> int \<times> nat" where
  "new_time p = (int (unat (be32 p 40)) - NTP_JAN1970_DELTA, unat (FRAC_TO_USEC (be32 p 44)))"

definition ntpclient_settime :: "ntpenv \<Rightarrow> 8 word list \<Rightarrow> ntp \<Rightarrow> int \<times> ntp" where
  "ntpclient_settime env p st =
     (if ne_gettime env < 0 then (ne_gettime env, st)
      else if ne_settime env < 0 then (ne_settime env, st)
      else (0, st\<lparr>nt_clock := Some (new_time p)\<rparr>))"

text \<open>The socket is opened by \<open>ntpclient_connect\<close> and closed behind the exchange.\<close>

definition ntpclient_syncOnce :: "ntpenv \<Rightarrow> string \<Rightarrow> nat \<Rightarrow> ntp \<Rightarrow> (int \<times> ntp) option" where
  "ntpclient_syncOnce env host attempt st = do {
     c \<leftarrow> ntpclient_connect env host attempt;
     (case c of
        Inl e \<Rightarrow> Some (e, st)
      | Inr a \<Rightarrow> do {
          let st1 = st\<lparr>nt_open := nt_open st + 1\<rparr>;
          (x, sent) \<leftarrow> ntpclient_gettimepacket env a attempt;
          let st2 = st1\<lparr>nt_open := nt_open st1 - 1, nt_sent := nt_sent st1 @ [(a, sent)]\<rparr>;
          (case x of Inl e \<Rightarrow> Some (e, st2) | Inr p \<Rightarrow> Some (ntpclient_settime env p st2)) }) }"

section \<open>The configuration\<close>

text \<open>The lines that \<open>fgets\<close> gives with a buffer of 160 bytes: a longer line comes in pieces.\<close>

function conf_lines :: "string \<Rightarrow> string list" where
  "conf_lines s =
     (if s = [] then []
      else (let k = min 159 (length (takeWhile (\<lambda>c. c \<noteq> CHR 0x0a) s) + 1) in take k s # conf_lines (drop k s)))"
  by pat_completeness auto
termination by (relation "measure length") auto

declare conf_lines.simps [simp del]

definition conf_blank :: "char \<Rightarrow> bool" where
  "conf_blank c \<longleftrightarrow> c = CHR '' '' \<or> c = CHR 0x09"

definition strip_end :: "string \<Rightarrow> string" where
  "strip_end v = rev (dropWhile (\<lambda>c. conf_blank c \<or> c = CHR 0x0a \<or> c = CHR 0x0d) (rev v))"

fun conf_scan :: "string list \<Rightarrow> string option" where
  "conf_scan [] = None"
| "conf_scan (line # ls) =
     (let p = dropWhile conf_blank line in
      if p = [] \<or> hd p = CHR ''#'' \<or> hd p = CHR 0x0a then conf_scan ls
      else (let v = strip_end (dropWhile conf_blank (if CHR ''='' \<in> set p then tl (dropWhile (\<lambda>c. c \<noteq> CHR ''='') p) else p)) in
        if v \<noteq> [] \<and> length v < 128 then Some v else None))"

definition ntpclient_confServer :: "ntpenv \<Rightarrow> string option" where
  "ntpclient_confServer env = (case ne_conf env of None \<Rightarrow> None | Some s \<Rightarrow> conf_scan (conf_lines s))"

section \<open>The applet\<close>

text \<open>\<open>Inl\<close> is a return; otherwise the host of \<open>-s\<close> and the window of \<open>-w\<close>.\<close>

fun ntp_options :: "optev list \<Rightarrow> string option \<Rightarrow> nat \<Rightarrow> int + string option \<times> nat" where
  "ntp_options [] host window = Inr (host, window)"
| "ntp_options (e # es) host window = (case e of
     OptErr _ \<Rightarrow> Inl 0
   | Opt x a \<Rightarrow>
       if x = CHR ''s'' then ntp_options es a window
       else if x = CHR ''t'' \<or> x = CHR ''w'' then
         (case strtoul10 (case a of Some s \<Rightarrow> s | None \<Rightarrow> []) of (v, rest) \<Rightarrow>
            let val = nat (v mod 2 ^ 64) in
            if rest \<noteq> [] \<or> val > 3600 then Inl 1
            else ntp_options es host (if x = CHR ''w'' then val else window))
       else Inl 0)"

partial_function (option) retry_loop :: "ntpenv \<Rightarrow> string \<Rightarrow> int \<Rightarrow> nat \<Rightarrow> ntp \<Rightarrow> (int \<times> ntp) option" where
  "retry_loop env host deadline attempt st = (case ntpclient_syncOnce env host attempt st of
     None \<Rightarrow> None
   | Some (r, st1) \<Rightarrow>
       if r = 0 then Some (0, st1)
       else if ne_time env attempt \<ge> deadline then Some (1, st1)
       else retry_loop env host deadline (attempt + 1) st1)"

definition psh_ntpclientMain :: "ntpenv \<Rightarrow> string list \<Rightarrow> (int \<times> ntp) option" where
  "psh_ntpclientMain env argv = (let st = \<lparr>nt_clock = None, nt_open = 0, nt_sent = []\<rparr> in
     case ntp_options (fst (getopt_scan ''s:t:w:h'' (tl argv))) None 0 of
       Inl r \<Rightarrow> Some (r, st)
     | Inr (host, window) \<Rightarrow>
         let h = (case host of Some h \<Rightarrow> h | None \<Rightarrow> (case ntpclient_confServer env of Some h \<Rightarrow> h | None \<Rightarrow> ''pool.ntp.org''))
         in retry_loop env h (ne_start env + int window) 0 st)"

section \<open>Microseconds\<close>

lemma unat_drop: "unat (drop_bit k w) = unat w div 2 ^ k"
  unfolding unat_drop_bit_eq by (rule drop_bit_eq_div)

text \<open>The conversion is a number of microseconds, and differs from the exact one by less than 381.\<close>

lemma frac_to_usec:
  "unat (FRAC_TO_USEC x) < 10 ^ 6"
  "\<bar>int (unat (FRAC_TO_USEC x)) * 2 ^ 32 - int (unat x) * 10 ^ 6\<bar> < 381 * 2 ^ 32"
proof -
  define n where "n = unat x"
  have n: "n < 4294967296" using unsigned_less [of x] unfolding n_def by simp
  define a where "a = n div 4096"
  define k where "k = (n div 1024 + 32768) div 65536"
  have bounds: "4096 * a \<le> n" "n < 4096 * a + 4096" by (simp_all add: a_def)
  define m where "m = n div 1024"
  have m: "1024 * m \<le> n" "n < 1024 * m + 1024" by (simp_all add: m_def)
  have k: "65536 * k \<le> m + 32768" "m + 32768 < 65536 * k + 65536" unfolding k_def m_def [symmetric]
    by simp_all
  have "unat (drop_bit 10 x + 32768) = m + 32768"
    using m n by (simp add: unat_word_ariths unat_drop n_def [symmetric] m_def [symmetric])
  then have "unat (drop_bit 16 (drop_bit 10 x + 32768)) = k" by (simp add: unat_drop k_def m_def)
  moreover have k64: "k \<le> 64" using k(1) m n by linarith
  ultimately have b: "unat (759 * drop_bit 16 (drop_bit 10 x + 32768)) = 759 * k" by (simp add: unat_word_ariths)
  have ua: "unat (drop_bit 12 x) = a" by (simp add: unat_drop a_def n_def)
  have le: "759 * k \<le> a" using k m bounds by (cases "k = 0") linarith+
  have u: "unat (FRAC_TO_USEC x) = a - 759 * k"
    unfolding FRAC_TO_USEC_def using le b ua by (subst unat_sub) (simp_all add: word_le_nat_alt)
  show "unat (FRAC_TO_USEC x) < 10 ^ 6" unfolding u using k m bounds n by (cases "k \<le> 63"; simp; linarith)
  have e: "int (unat (FRAC_TO_USEC x)) = int a - 759 * int k" unfolding u using le by simp
  have "65536 * int k \<le> int m + 32768" "int m + 32768 < 65536 * int k + 65536" "1024 * int m \<le> int n" "int n < 1024 * int m + 1024"
    "4096 * int a \<le> int n" "int n < 4096 * int a + 4096" using k m bounds by linarith+
  then have "\<bar>(int a - 759 * int k) * 4294967296 - int n * 1000000\<bar> < 381 * 4294967296" unfolding abs_less_iff by (intro conjI; simp; linarith)
  then show "\<bar>int (unat (FRAC_TO_USEC x)) * 2 ^ 32 - int (unat x) * 10 ^ 6\<bar> < 381 * 2 ^ 32"
    unfolding e n_def [symmetric] by simp
qed

text \<open>The conversion is not monotonic.\<close>

lemma frac_to_usec_decreases: "unat (FRAC_TO_USEC 0x1ffffff) = 8191 \<and> unat (FRAC_TO_USEC 0x2000000) = 7433"
  by (simp add: FRAC_TO_USEC_def)

text \<open>A time behind the end of the first era of NTP, which is in February 2036, is set as one before 1970.\<close>

lemma second_era_negative: "uint (be32 p 40) < 2208988800 \<Longrightarrow> fst (new_time p) < 0"
  by (simp add: new_time_def NTP_JAN1970_DELTA_def)

section \<open>Setting the clock\<close>

text \<open>The calls before the exchange succeed and the request is sent, possibly after interruptions.\<close>

definition reachable :: "ntpenv \<Rightarrow> string \<Rightarrow> nat \<Rightarrow> bool" where
  "reachable env a i \<longleftrightarrow> 0 \<le> ne_ntop env a i \<and> 0 \<le> ne_socket env a i \<and> 0 \<le> ne_rcvtimeo env a i \<and> 0 \<le> ne_sndtimeo env a i
     \<and> 0 \<le> ne_connect env a i \<and> (\<exists>n. ne_write env a i = replicate n (WErr EINTR) @ [WCount 48])"

definition gives :: "ntpenv \<Rightarrow> string \<Rightarrow> nat \<Rightarrow> rresult \<Rightarrow> bool" where
  "gives env a i x \<longleftrightarrow> (\<exists>n. ne_read env a i = replicate n (RErr EINTR) @ [x])"

lemma length_request: "length request_pkt = 48"
  by (simp add: request_pkt_def)

lemma send_all: "pkt_send (replicate n (WErr EINTR) @ [WCount 48]) request_pkt = Some (0, request_pkt)"
proof (induction n)
  case 0
  have "request_pkt \<noteq> []" using length_request by auto
  then show ?case using length_request by simp
next
  case (Suc n)
  have "request_pkt \<noteq> []" using length_request by auto
  then show ?case using Suc by simp
qed

lemma recv_last: "pkt_recv (replicate n (RErr EINTR) @ [x]) = pkt_recv [x]"
  by (induction n) (simp_all split: rresult.split)

lemma exchange:
  assumes "ne_addrs env host i = Inr as" "i < length as" "length as < 2 ^ 32" "reachable env (as ! i) i" "gives env (as ! i) i x" "pkt_recv [x] = Some r"
  shows "ntpclient_syncOnce env host i st = (let st2 = st\<lparr>nt_sent := nt_sent st @ [(as ! i, request_pkt)]\<rparr> in
    case r of Inl e \<Rightarrow> Some (e, st2) | Inr p \<Rightarrow> Some (if reply_valid p then ntpclient_settime env p st2 else (- EPROTO, st2)))"
proof -
  have "ntpclient_connect env host i = Some (Inr (as ! i))"
    using assms(1-4) by (auto simp: ntpclient_connect_def reachable_def)
  moreover have "ntpclient_gettimepacket env (as ! i) i =
      Some (case r of Inl e \<Rightarrow> Inl e | Inr p \<Rightarrow> if reply_valid p then Inr p else Inl (- EPROTO), request_pkt)"
    using assms(4-6) send_all recv_last
    by (auto simp: ntpclient_gettimepacket_def reachable_def gives_def split: sum.split)
  ultimately show ?thesis by (simp add: ntpclient_syncOnce_def Let_def split: sum.split)
qed

lemma retry_loop_reaches:
  assumes "\<And>i. i \<le> j \<Longrightarrow> ne_addrs env host i = Inr as" "j < length as" "length as < 2 ^ 32" "\<And>i. i \<le> j \<Longrightarrow> reachable env (as ! i) i"
    "\<And>i. i < j \<Longrightarrow> gives env (as ! i) i (RErr EAGAIN) \<and> ne_time env i < dl"
    "gives env (as ! j) j (RData p)" "length p = 48" "reply_valid p" "0 \<le> ne_gettime env" "0 \<le> ne_settime env" "i \<le> j"
  shows "retry_loop env host dl i st = Some (0, st\<lparr>nt_clock := Some (new_time p), nt_sent := nt_sent st @ map (\<lambda>a. (a, request_pkt)) (drop i (take (j + 1) as))\<rparr>)"
  using assms(11)
proof (induction "j - i" arbitrary: i st)
  case 0
  then have i: "i = j" by simp
  have "pkt_recv [RData p] = Some (Inr p)" using assms(7) by simp
  then have "ntpclient_syncOnce env host j st = Some (0, st\<lparr>nt_clock := Some (new_time p), nt_sent := nt_sent st @ [(as ! j, request_pkt)]\<rparr>)"
    using exchange [OF assms(1) assms(2,3) assms(4) assms(6)] assms(8-10) by (simp add: ntpclient_settime_def Let_def)
  moreover have "drop j (take (j + 1) as) = [as ! j]" using assms(2) by (simp add: take_Suc_conv_app_nth)
  ultimately show ?case unfolding i by (subst retry_loop.simps) simp
next
  case (Suc n)
  define st2 where "st2 = st\<lparr>nt_sent := nt_sent st @ [(as ! i, request_pkt)]\<rparr>"
  have i: "i < j" using Suc(2) by simp
  have "ntpclient_syncOnce env host i st = Some (- ETIMEDOUT, st2)"
    using exchange [OF assms(1) _ assms(3) assms(4), of i "RErr EAGAIN" "Inl (- ETIMEDOUT)"] assms(2,5) i by (simp add: st2_def Let_def)
  then have "retry_loop env host dl i st = retry_loop env host dl (i + 1) st2" using assms(5) [OF i] by (subst retry_loop.simps) simp
  moreover have "drop i (take (j + 1) as) = as ! i # drop (i + 1) (take (j + 1) as)"
    using i assms(2) Cons_nth_drop_Suc [of i "take (j + 1) as"] by simp
  ultimately show ?case using Suc(1) [of "i + 1" st2] Suc(2) i by (simp add: st2_def)
qed

text \<open>
  When every attempt fails and the pauses of 3 seconds pass, the loop ends: the window is spent.
\<close>

lemma retry_loop_gives_up:
  assumes "\<And>i st. \<exists>r st'. ntpclient_syncOnce env host i st = Some (r, st') \<and> r \<noteq> 0" "\<And>i. ne_start env + 3 * int i \<le> ne_time env i"
  shows "\<exists>st'. retry_loop env host (ne_start env + int w) i st = Some (1, st')"
proof (induction "w - i" arbitrary: i st)
  case 0
  obtain r st' where r: "ntpclient_syncOnce env host i st = Some (r, st')" "r \<noteq> 0" using assms(1) by blast
  have "ne_time env i \<ge> ne_start env + int w" using assms(2) [of i] 0 by linarith
  then show ?case using r by (subst retry_loop.simps) simp
next
  case (Suc n)
  obtain r st' where r: "ntpclient_syncOnce env host i st = Some (r, st')" "r \<noteq> 0" using assms(1) by blast
  then show ?case using Suc(1) [of "i + 1" st'] Suc(2) by (subst retry_loop.simps) simp
qed

text \<open>
  C24: \<open>ntpclient -w w -s host\<close>, where the name has several addresses of which the first \<open>j\<close> are silent: as long as
  the window of \<open>w\<close> seconds is not spent, each attempt asks the next address, the first valid answer sets the clock to
  its seconds since 1970 and to a number of microseconds that is off by less than 381, and no socket is left open.
\<close>

theorem ntpclient_sets_clock:
  assumes "w \<le> 3600" "\<And>i. i \<le> j \<Longrightarrow> ne_addrs env host i = Inr as" "j < length as" "length as < 2 ^ 32" "\<And>i. i \<le> j \<Longrightarrow> reachable env (as ! i) i"
    "\<And>i. i < j \<Longrightarrow> gives env (as ! i) i (RErr EAGAIN) \<and> ne_time env i < ne_start env + int w"
    "gives env (as ! j) j (RData p)" "length p = 48" "reply_valid p" "0 \<le> ne_gettime env" "0 \<le> ne_settime env"
  shows "\<exists>us. psh_ntpclientMain env [a0, ''-w'', dec w, ''-s'', host] = Some (0, \<lparr>nt_clock = Some (int (unat (be32 p 40)) - 2208988800, us),
      nt_open = 0, nt_sent = map (\<lambda>a. (a, request_pkt)) (take (j + 1) as)\<rparr>)
    \<and> us < 10 ^ 6 \<and> \<bar>int us * 2 ^ 32 - int (unat (be32 p 44)) * 10 ^ 6\<bar> < 381 * 2 ^ 32"
proof -
  have go: "getopt_scan ''s:t:w:h'' [''-w'', dec w, ''-s'', host] = ([Opt (CHR ''w'') (Some (dec w)), Opt (CHR ''s'') (Some host)], [])"
    by (simp add: is_opt_word_def)
  have "strtoul10 (dec w) = (int w, [])" using strtoul10_dec [of w "[]"] assms(1) by simp
  then have opts: "ntp_options [Opt (CHR ''w'') (Some (dec w)), Opt (CHR ''s'') (Some host)] None 0 = Inr (Some host, w)" using assms(1) by simp
  have "retry_loop env host (ne_start env + int w) 0 \<lparr>nt_clock = None, nt_open = 0, nt_sent = []\<rparr>
      = Some (0, \<lparr>nt_clock = Some (new_time p), nt_open = 0, nt_sent = map (\<lambda>a. (a, request_pkt)) (take (j + 1) as)\<rparr>)"
    using retry_loop_reaches [OF assms(2-11) le0, of "\<lparr>nt_clock = None, nt_open = 0, nt_sent = []\<rparr>"] by simp
  moreover have "psh_ntpclientMain env [a0, ''-w'', dec w, ''-s'', host] = retry_loop env host (ne_start env + int w) 0 \<lparr>nt_clock = None, nt_open = 0, nt_sent = []\<rparr>"
    unfolding psh_ntpclientMain_def Let_def list.sel go fst_conv opts by simp
  ultimately show ?thesis
    using frac_to_usec [of "be32 p 44"] unfolding new_time_def NTP_JAN1970_DELTA_def by (intro exI [of _ "unat (FRAC_TO_USEC (be32 p 44))"] conjI) simp_all
qed


definition demo_reply :: "8 word list" where
  "demo_reply = [0x24, 1, 3, 0] @ replicate 36 0 @ [0xe9, 0, 0, 0, 0x80, 0, 0, 0]"

definition demo_ntp :: ntpenv where
  "demo_ntp = \<lparr>ne_conf = None, ne_addrs = (\<lambda>h i. Inr [''a'', ''b'']), ne_ntop = (\<lambda>a i. 0), ne_socket = (\<lambda>a i. 3), ne_rcvtimeo = (\<lambda>a i. 0),
     ne_sndtimeo = (\<lambda>a i. 0), ne_connect = (\<lambda>a i. 0), ne_write = (\<lambda>a i. [WErr EINTR, WCount 48]),
     ne_read = (\<lambda>a i. if a = ''b'' then [RErr EINTR, RData demo_reply] else [RErr EAGAIN]), ne_gettime = 0, ne_settime = 0, ne_start = 100,
     ne_time = (\<lambda>i. 105 + 8 * int i)\<rparr>"

lemma demo_ntp_calls: "reachable demo_ntp a i" "gives demo_ntp ''a'' i (RErr EAGAIN)" "gives demo_ntp ''b'' i (RData demo_reply)"
proof -
  show "reachable demo_ntp a i" unfolding reachable_def by (intro conjI exI [of _ 1]) (simp_all add: demo_ntp_def)
  show "gives demo_ntp ''a'' i (RErr EAGAIN)" unfolding gives_def by (rule exI [of _ 0]) (simp add: demo_ntp_def)
  show "gives demo_ntp ''b'' i (RData demo_reply)" unfolding gives_def by (rule exI [of _ 1]) (simp add: demo_ntp_def)
qed

theorem ntpclient_sets_clock_witness:
  "\<exists>us. psh_ntpclientMain demo_ntp [''ntpclient'', ''-w'', dec 10, ''-s'', ''pool''] = Some (0, \<lparr>nt_clock = Some (int (unat (be32 demo_reply 40)) - 2208988800, us),
      nt_open = 0, nt_sent = map (\<lambda>a. (a, request_pkt)) (take (1 + 1) [''a'', ''b''])\<rparr>)
    \<and> us < 10 ^ 6 \<and> \<bar>int us * 2 ^ 32 - int (unat (be32 demo_reply 44)) * 10 ^ 6\<bar> < 381 * 2 ^ 32"
proof (rule ntpclient_sets_clock)
  show "reply_valid demo_reply" "length demo_reply = 48" by (simp_all add: reply_valid_def NTP_MODE_def demo_reply_def)
qed (use demo_ntp_calls in \<open>auto simp: demo_ntp_def [THEN arg_cong, of ne_addrs] demo_ntp_def [THEN arg_cong, of ne_time]
  demo_ntp_def [THEN arg_cong, of ne_start] demo_ntp_def [THEN arg_cong, of ne_gettime] demo_ntp_def [THEN arg_cong, of ne_settime]\<close>)

text \<open>The server is found behind comments and blank lines.\<close>

definition conf_ignored :: "string \<Rightarrow> bool" where
  "conf_ignored l \<longleftrightarrow> CHR 0x0a \<notin> set l \<and> length l < 159 \<and> (dropWhile conf_blank l = [] \<or> hd (dropWhile conf_blank l) = CHR ''#'')"

lemma conf_lines_Nil [simp]: "conf_lines [] = []"
  by (simp add: conf_lines.simps)

lemma conf_lines_line: "CHR 0x0a \<notin> set l \<Longrightarrow> length l < 159 \<Longrightarrow> conf_lines (l @ CHR 0x0a # r) = (l @ [CHR 0x0a]) # conf_lines r"
  by (subst conf_lines.simps) (subst takeWhile_append2, auto simp: Let_def)

lemma conf_scan_ignored: "conf_ignored l \<Longrightarrow> conf_scan ((l @ [CHR 0x0a]) # ls) = conf_scan ls"
proof -
  assume l: "conf_ignored l"
  have "dropWhile conf_blank (l @ [CHR 0x0a]) = dropWhile conf_blank l @ [CHR 0x0a]"
    using l by (induction l) (auto simp: conf_ignored_def conf_blank_def)
  then show ?thesis using l by (cases "dropWhile conf_blank l") (auto simp: conf_ignored_def Let_def)
qed

lemma graph_not_blank: "isgraph c \<Longrightarrow> \<not> conf_blank c \<and> c \<noteq> CHR 0x0a \<and> c \<noteq> CHR 0x0d"
  by (auto simp: conf_blank_def isgraph_def code_def)

lemma ntpclient_confServer_finds:
  assumes "\<forall>l \<in> set ls. conf_ignored l" "host \<noteq> []" "\<forall>c \<in> set host. isgraph c \<and> c \<noteq> CHR ''=''" "length host < 128"
    "ne_conf env = Some (concat (map (\<lambda>l. l @ [CHR 0x0a]) ls) @ ''server='' @ host @ CHR 0x0a # rest)"
  shows "ntpclient_confServer env = Some host"
proof -
  have h: "\<not> conf_blank c" "c \<noteq> CHR 0x0a" "c \<noteq> CHR 0x0d" if "c \<in> set host" for c
    using assms(3) that graph_not_blank by blast+
  have "conf_lines (''server='' @ host @ CHR 0x0a # rest) = (''server='' @ host @ [CHR 0x0a]) # conf_lines rest"
    using conf_lines_line [of "''server='' @ host" rest] h assms(4) by auto
  moreover have "strip_end (dropWhile conf_blank (host @ [CHR 0x0a])) = host"
  proof -
    obtain c cs where c: "host = c # cs" using assms(2) by (cases host) auto
    obtain d ds where d: "host = ds @ [d]" using assms(2) by (cases host rule: rev_cases) auto
    have "dropWhile conf_blank (host @ [CHR 0x0a]) = host @ [CHR 0x0a]" using h [of c] by (simp add: c)
    moreover have "strip_end (host @ [CHR 0x0a]) = host" using h [of d] by (simp add: d strip_end_def)
    ultimately show ?thesis by simp
  qed
  ultimately have "conf_scan (conf_lines (''server='' @ host @ CHR 0x0a # rest)) = Some host"
    using assms(2,4) by (simp add: conf_blank_def Let_def)
  moreover have "conf_scan (conf_lines (concat (map (\<lambda>l. l @ [CHR 0x0a]) ls) @ r)) = conf_scan (conf_lines r)" for r
    using assms(1)
  proof (induction ls)
    case (Cons l ls)
    then show ?case using conf_lines_line [of l] conf_scan_ignored [of l] by (simp add: conf_ignored_def)
  qed simp
  ultimately show ?thesis using assms(5) by (simp add: ntpclient_confServer_def)
qed

text \<open>The rest of a comment that is longer than the buffer is taken for a line of its own.\<close>

lemma long_comment_is_server:
  "conf_scan (conf_lines (CHR ''#'' # replicate 158 (CHR ''-'') @ ''end'' @ [CHR 0x0a])) = Some ''end''"
proof -
  define l where "l = CHR ''#'' # replicate 158 (CHR ''-'')"
  have l: "length l = 159" "CHR 0x0a \<notin> set l" by (simp_all add: l_def)
  have "length (takeWhile (\<lambda>c. c \<noteq> CHR 0x0a) (l @ ''end'' @ [CHR 0x0a])) = 162" using l by (subst takeWhile_append2) auto
  then have "conf_lines (l @ ''end'' @ [CHR 0x0a]) = l # conf_lines (''end'' @ [CHR 0x0a])" using l by (subst conf_lines.simps) (simp add: Let_def)
  moreover have "conf_lines (''end'' @ [CHR 0x0a]) = [''end'' @ [CHR 0x0a]]" using conf_lines_line [of "''end''" "[]"] by simp
  ultimately have "conf_scan (conf_lines (l @ ''end'' @ [CHR 0x0a])) = Some ''end''" by (simp add: l_def conf_blank_def strip_end_def Let_def)
  then show ?thesis by (simp add: l_def)
qed


end
