(* ===== verification/Hd.thy ===== *)
theory Hd
  imports Dd Getopt
begin

text \<open>
  The \<open>hd\<close> applet, \<open>src/psh/hd/hd.c\<close>: the lines of a dump, the options and the loop that reads the file. The
  output is the list of its lines. The results of \<open>read\<close> are a list, each with the flag \<open>psh_common.sigint\<close> before
  it; \<open>None\<close> means that the loop reads on behind the list. \<open>size_t\<close> and \<open>off_t\<close> have 64 bits.
\<close>

section \<open>Lines\<close>

abbreviation (input) LINE_WIDTH :: nat where "LINE_WIDTH \<equiv> 16"

fun hex :: "nat \<Rightarrow> string" where
  "hex n = (if n < 16 then [''0123456789abcdef'' ! n] else hex (n div 16) @ [''0123456789abcdef'' ! (n mod 16)])"

declare hex.simps [simp del]

text \<open>\<open>%0wx\<close>.\<close>

definition hexw :: "nat \<Rightarrow> nat \<Rightarrow> string" where
  "hexw w n = replicate (w - length (hex n)) (CHR ''0'') @ hex n"

definition hd_cell :: "nat \<Rightarrow> string \<Rightarrow> string" where
  "hd_cell i s = (if i mod 8 = 0 then '' '' else []) @ s @ '' ''"

definition hd_line :: "nat \<Rightarrow> string \<Rightarrow> string" where
  "hd_line ofs bs = hexw 8 ofs @ '' '' @ concat (map (\<lambda>i. hd_cell i (hexw 2 (code (bs ! i)))) [0..<length bs])
     @ concat (map (\<lambda>i. hd_cell i ''  '') [length bs..<LINE_WIDTH]) @ '' |'' @ map (\<lambda>c. if isprint c then c else CHR ''.'') bs @ ''|''"

function psh_hexdump :: "string \<Rightarrow> nat \<Rightarrow> string list" where
  "psh_hexdump data ofs =
     (if data = [] then []
      else (let k = min (length data) LINE_WIDTH in hd_line ofs (take k data) # psh_hexdump (drop k data) ((ofs + k) mod 2 ^ 64)))"
  by pat_completeness auto
termination by (relation "measure (\<lambda>(data, ofs). length data)") auto

declare psh_hexdump.simps [simp del]

section \<open>The applet\<close>

datatype hdread = HData string | HErr int

record hdenv =
  he_open :: "string \<Rightarrow> bool"
  he_isdir :: "string option \<Rightarrow> bool"
  he_lseek :: "int \<Rightarrow> bool"
  he_reads :: "(bool \<times> hdread) list"

text \<open>\<open>Inl\<close> is a return; otherwise offset and length.\<close>

definition hd_number :: "string \<Rightarrow> nat option" where
  "hd_number s = (case strtoul_w (2 ^ 64) s of (v, e) \<Rightarrow> if e = s \<or> e \<noteq> [] \<or> \<not> isdigit (hd s) then None else Some v)"

fun hd_options :: "optev list \<Rightarrow> int \<Rightarrow> nat \<Rightarrow> int + int \<times> nat" where
  "hd_options [] ofs len = Inr (ofs, len)"
| "hd_options (e # es) ofs len = (case e of
     OptErr _ \<Rightarrow> Inl 1
   | Opt x a \<Rightarrow>
       if x = CHR ''s'' \<or> x = CHR ''n'' then
         (case hd_number (case a of Some s \<Rightarrow> s | None \<Rightarrow> []) of
            None \<Rightarrow> Inl 1
          | Some v \<Rightarrow> if x = CHR ''s'' then hd_options es (to_ssize v) len else hd_options es ofs v)
       else if x = CHR ''h'' then Inl 0 else Inl 1)"

text \<open>The bytes still to print, the offset and the lines.\<close>

fun hd_loop :: "(bool \<times> hdread) list \<Rightarrow> nat \<Rightarrow> int \<Rightarrow> (nat \<times> int \<times> string list) option" where
  "hd_loop [] len ofs = (if len = 0 then Some (len, ofs, []) else None)"
| "hd_loop (x # xs) len ofs =
     (if len = 0 \<or> fst x then Some (len, ofs, [])
      else (case snd x of
          HData b \<Rightarrow> (let d = take (min len 32) b in
            if d = [] then Some (len, ofs, [])
            else map_option (\<lambda>(l, o1, out). (l, o1, psh_hexdump d (nat (ofs mod 2 ^ 64)) @ out)) (hd_loop xs (len - length d) (wrap64 (ofs + int (length d)))))
        | HErr e \<Rightarrow> if e = EAGAIN \<or> e = EINTR then hd_loop xs len ofs else Some (len, ofs, [])))"

definition psh_hd :: "hdenv \<Rightarrow> string list \<Rightarrow> (int \<times> string list) option" where
  "psh_hd env argv = (case getopt_scan ''hn:s:'' (tl argv) of (evs, args) \<Rightarrow>
     (case hd_options evs 0 (2 ^ 64 - 1) of
        Inl r \<Rightarrow> Some (r, [])
      | Inr (ofs, len) \<Rightarrow>
          let file = (if args = [] then None else Some (hd args)) in
          if len = 0 then Some (0, [])
          else if (case file of Some f \<Rightarrow> \<not> he_open env f | None \<Rightarrow> False) then Some (1, [])
          else if he_isdir env file then Some (1, [])
          else if ofs > 0 \<and> \<not> he_lseek env ofs then Some (1, [])
          else (case hd_loop (he_reads env) len ofs of
              None \<Rightarrow> None
            | Some (l, o1, out) \<Rightarrow> Some (if l \<noteq> 0 then 1 else 0, out @ (if o1 \<noteq> 0 then [hexw 8 (nat (o1 mod 2 ^ 64))] else [])))))"

section \<open>Reading a dump\<close>

text \<open>The bytes of a line, from the 50 columns behind the offset.\<close>

definition hex_val :: "char \<Rightarrow> nat" where
  "hex_val c = (if isdigit c then code c - 48 else code c - 87)"

fun hex_pairs :: "string \<Rightarrow> string" where
  "hex_pairs (a # b # r) = char_of (hex_val a * 16 + hex_val b) # hex_pairs r"
| "hex_pairs _ = []"

definition undump :: "string \<Rightarrow> string" where
  "undump line = hex_pairs (filter (\<lambda>c. c \<noteq> CHR '' '') (take 50 (drop 1 (dropWhile (\<lambda>c. c \<noteq> CHR '' '') line))))"

lemma hex_digit: "n < 16 \<Longrightarrow> ''0123456789abcdef'' ! n \<noteq> CHR '' '' \<and> hex_val (''0123456789abcdef'' ! n) = n"
  by (auto simp: less_Suc_eq numeral_eq_Suc hex_val_def cclass code_def)

lemma hexw_no_blank: "CHR '' '' \<notin> set (hexw w n)"
proof -
  have "CHR '' '' \<notin> set (hex n)"
  proof (induction n rule: hex.induct)
    case (1 n)
    then show ?case using hex_digit [of n] hex_digit [of "n mod 16"] by (subst hex.simps) auto
  qed
  then show ?thesis by (auto simp: hexw_def)
qed

lemma hexw_2: "n < 256 \<Longrightarrow> hexw 2 n = [''0123456789abcdef'' ! (n div 16), ''0123456789abcdef'' ! (n mod 16)]"
proof -
  assume n: "n < 256"
  have "hex (n div 16) = [''0123456789abcdef'' ! (n div 16)]" using n by (subst hex.simps) simp
  then show ?thesis using n by (simp add: hexw_def hex.simps [of n])
qed

lemma hex_pairs_bytes: "hex_pairs (concat (map (\<lambda>c. hexw 2 (code c)) bs) @ r) = bs @ hex_pairs r"
proof (induction bs)
  case (Cons c bs)
  have "code c div 16 < 16" using code_less [of c] by auto
  then show ?case using Cons hex_digit [of "code c div 16"] hex_digit [of "code c mod 16"]
    by (simp add: hexw_2 [OF code_less]) (simp add: code_def)
qed simp

lemma length_cells: "(\<And>i. length (f i) = 2) \<Longrightarrow> length (concat (map (\<lambda>i. hd_cell i (f i)) is)) = sum_list (map (\<lambda>i. if i mod 8 = 0 then 4 else 3) is)"
  by (induction "is") (auto simp: hd_cell_def)

lemma filter_cells: "filter (\<lambda>c. c \<noteq> CHR '' '') (concat (map (\<lambda>i. hd_cell i (f i)) is)) = concat (map (\<lambda>i. filter (\<lambda>c. c \<noteq> CHR '' '') (f i)) is)"
  by (induction "is") (auto simp: hd_cell_def)

lemma undump_line:
  assumes "length bs \<le> LINE_WIDTH"
  shows "undump (hd_line ofs bs) = bs"
proof -
  define A where "A = concat (map (\<lambda>i. hd_cell i (hexw 2 (code (bs ! i)))) [0..<length bs])"
  define B where "B = concat (map (\<lambda>i. hd_cell i ''  '') [length bs..<LINE_WIDTH])"
  define C where "C = '' |'' @ map (\<lambda>c. if isprint c then c else CHR ''.'') bs @ ''|''"
  define wd where "wd = (\<lambda>i :: nat. if i mod 8 = 0 then 4 else 3 :: nat)"
  have "[0..<LINE_WIDTH] = [0..<length bs] @ [length bs..<LINE_WIDTH]" using assms upt_add_eq_append [of 0 "length bs" "LINE_WIDTH - length bs"] by simp
  moreover have "sum_list (map wd [0..<LINE_WIDTH]) = 50" by (simp add: wd_def upt_rec)
  ultimately have "length (A @ B) = 50"
    using length_cells [of "\<lambda>i. hexw 2 (code (bs ! i))" "[0..<length bs]"] length_cells [of "\<lambda>i. ''  ''" "[length bs..<LINE_WIDTH]"]
    by (simp add: A_def B_def wd_def hexw_2 [OF code_less])
  moreover have "dropWhile (\<lambda>c. c \<noteq> CHR '' '') (hd_line ofs bs) = '' '' @ (A @ B) @ C"
    unfolding hd_line_def A_def [symmetric] B_def [symmetric] C_def using hexw_no_blank [of 8 ofs] by (subst dropWhile_append2) auto
  ultimately have "undump (hd_line ofs bs) = hex_pairs (filter (\<lambda>c. c \<noteq> CHR '' '') (A @ B))" by (simp add: undump_def)
  moreover have "filter (\<lambda>c. c \<noteq> CHR '' '') A = concat (map (\<lambda>i. hexw 2 (code (bs ! i))) [0..<length bs])"
    using hexw_no_blank filter_id_conv [of "\<lambda>c. c \<noteq> CHR '' ''"] unfolding A_def filter_cells by (metis (mono_tags, lifting))
  moreover have "filter (\<lambda>c. c \<noteq> CHR '' '') B = []" unfolding B_def filter_cells by simp
  moreover have "map (\<lambda>i. hexw 2 (code (bs ! i))) [0..<length bs] = map (\<lambda>c. hexw 2 (code c)) bs"
    using map_nth [of bs] by (metis (no_types, lifting) map_map comp_apply map_cong)
  ultimately show ?thesis using hex_pairs_bytes [of bs "[]"] by simp
qed

lemma undump_hexdump: "concat (map undump (psh_hexdump data ofs)) = data"
proof (induction data ofs rule: psh_hexdump.induct)
  case (1 data ofs)
  then show ?case by (subst psh_hexdump.simps) (simp add: undump_line Let_def)
qed

lemma undump_offset: "undump (hexw w n) = []"
proof -
  have "dropWhile (\<lambda>c. c \<noteq> CHR '' '') (hexw w n) = []" using hexw_no_blank by (auto simp: dropWhile_eq_Nil_conv)
  then show ?thesis unfolding undump_def by (simp only: drop_Nil take_Nil filter.simps hex_pairs.simps)
qed

lemma hd_loop_dumps:
  assumes "\<forall>b \<in> set bs. b \<noteq> [] \<and> length b \<le> 32" "length (concat bs) < len"
  shows "\<exists>o1 out. hd_loop (map (\<lambda>b. (False, HData b)) bs @ [(False, HData [])]) len ofs = Some (len - length (concat bs), o1, out)
    \<and> concat (map undump out) = concat bs"
  using assms
proof (induction bs arbitrary: len ofs)
  case (Cons b bs)
  have d: "take (min len 32) b = b" "b \<noteq> []" using Cons(2,3) by auto
  have less: "length (concat bs) < len - length b" using Cons(3) by simp
  obtain o1 out where "hd_loop (map (\<lambda>b. (False, HData b)) bs @ [(False, HData [])]) (len - length b) (wrap64 (ofs + int (length b)))
      = Some (len - length b - length (concat bs), o1, out)" "concat (map undump out) = concat bs"
    using Cons(1) [of "len - length b" "wrap64 (ofs + int (length b))"] less Cons(2) by auto
  then show ?case using d Cons(3) by (auto simp: undump_hexdump Let_def)
qed simp

text \<open>
  C25: \<open>hd file\<close>: whatever the sizes of the pieces that \<open>read\<close> gives, the hexadecimal columns of the lines that are printed
  are the bytes of the file in their order. The result is \<open>EXIT_FAILURE\<close>, although everything was printed.
\<close>

theorem hd_dumps_file:
  assumes "\<not> is_opt_word name" "name \<noteq> ''--''" "he_open env name" "\<not> he_isdir env (Some name)" "\<forall>b \<in> set bs. b \<noteq> [] \<and> length b \<le> 32"
    "length (concat bs) < 2 ^ 64 - 1" "he_reads env = map (\<lambda>b. (False, HData b)) bs @ [(False, HData [])]"
  shows "\<exists>out. psh_hd env [a0, name] = Some (1, out) \<and> concat (map undump out) = concat bs"
proof -
  obtain o1 out where "hd_loop (he_reads env) (2 ^ 64 - 1) 0 = Some (2 ^ 64 - 1 - length (concat bs), o1, out)" "concat (map undump out) = concat bs"
    using hd_loop_dumps [OF assms(5,6)] assms(7) by metis
  then show ?thesis using assms(1-4,6) undump_offset by (auto simp: psh_hd_def Let_def)
qed

definition demo_hd :: hdenv where
  "demo_hd = \<lparr>he_open = (\<lambda>_. True), he_isdir = (\<lambda>_. False), he_lseek = (\<lambda>_. True), he_reads = [(False, HData ''abc''), (False, HData [])]\<rparr>"

theorem hd_dumps_file_witness: "\<exists>out. psh_hd demo_hd [''hd'', ''f''] = Some (1, out) \<and> concat (map undump out) = concat [''abc'']"
  by (rule hd_dumps_file) (simp_all add: demo_hd_def is_opt_word_def)

end
