(* ===== verification/Fileops.thy ===== *)
theory Fileops
  imports Getopt "HOL-Library.Monad_Syntax"
begin

text \<open>
  The applets \<open>cp\<close>, \<open>mv\<close>, \<open>mkdir\<close>, \<open>rmdir\<close>, \<open>rm\<close> and \<open>ln\<close> (\<open>src/psh/cp/cp.c\<close> and so on). What the system's calls
  return is a parameter. \<open>cp\<close> and \<open>mv\<close> have the content of the destination as their state; \<open>mkdir\<close>, \<open>rmdir\<close>, \<open>rm\<close>
  and \<open>ln\<close> work over any state \<open>'f\<close> of a file system with the calls as functions on it, which give an error
  number, 0 for success. Calls repeated by a loop have a list of results; \<open>None\<close> means that the loop goes on when it is used up.
\<close>

abbreviation (input) EEXIST :: int where "EEXIST \<equiv> 17"
abbreviation (input) EXDEV :: int where "EXDEV \<equiv> 18"
abbreviation (input) EISDIR :: int where "EISDIR \<equiv> 21"

text \<open>\<open>basename\<close> of the C library.\<close>

definition is_slash :: "char \<Rightarrow> bool" where
  "is_slash c \<longleftrightarrow> c = CHR ''/''"

definition strip_slash :: "string \<Rightarrow> string" where
  "strip_slash s = rev (dropWhile is_slash (rev s))"

definition libc_basename :: "string \<Rightarrow> string" where
  "libc_basename s =
     (if s = [] then ''.''
      else if strip_slash s = [] then ''/''
      else rev (takeWhile (\<lambda>c. \<not> is_slash c) (rev (strip_slash s))))"

fun only_help :: "optev list \<Rightarrow> char \<Rightarrow> bool \<Rightarrow> int + bool" where
  "only_help [] flag b = Inr b"
| "only_help (e # es) flag b = (case e of
     OptErr _ \<Rightarrow> Inl 1
   | Opt x _ \<Rightarrow> if x = CHR ''h'' then Inl 0 else if x = flag then only_help es flag True else Inl 1)"

section \<open>cp\<close>

record cpenv =
  ce_opensrc :: bool
  ce_fstat :: bool
  ce_isreg :: bool
  ce_fdopensrc :: bool
  ce_setvbufsrc :: bool
  ce_open :: "string \<Rightarrow> int"
  ce_malloc :: bool
  ce_fdopendst :: bool
  ce_setvbufdst :: bool
  ce_reads :: "string list"
  ce_readerr :: bool
  ce_fwrite :: "nat \<Rightarrow> nat \<Rightarrow> nat"
  ce_writeerr :: bool
  ce_chown :: bool
  ce_chmod :: bool
  ce_utimes :: bool
  ce_old :: "string \<Rightarrow> string"

text \<open>The destination: the path itself, or the file of the same name in the directory.\<close>

definition cp_dest :: "cpenv \<Rightarrow> string \<Rightarrow> string \<Rightarrow> string option" where
  "cp_dest env src target =
     (if ce_open env target = 0 then Some target
      else if ce_open env target = EISDIR \<and> ce_malloc env then
        (let p = target @ ''/'' @ libc_basename src in if ce_open env p = 0 then Some p else None)
      else None)"

definition overwrite :: "string \<Rightarrow> nat \<Rightarrow> string \<Rightarrow> string" where
  "overwrite s pos b = take pos s @ b @ drop (pos + length b) s"

fun cp_loop :: "cpenv \<Rightarrow> string list \<Rightarrow> nat \<Rightarrow> string \<Rightarrow> int \<times> string" where
  "cp_loop env [] pos s = (if ce_readerr env then 1 else 0, s)"
| "cp_loop env (b # bs) pos s =
     (if b = [] then (if ce_readerr env then 1 else 0, s)
      else (let k = ce_fwrite env pos (length b) in
        if k \<noteq> length b then (if ce_writeerr env then 1 else 0, overwrite s pos (take k b))
        else cp_loop env bs (pos + length b) (overwrite s pos b)))"

text \<open>The result and the destination with its content. It is opened without being cut to length 0.\<close>

definition psh_cp :: "cpenv \<Rightarrow> string list \<Rightarrow> int \<times> (string \<times> string) option" where
  "psh_cp env argv = (case getopt_scan ''hp'' (tl argv) of (evs, args) \<Rightarrow>
     (case only_help evs (CHR ''p'') False of
        Inl r \<Rightarrow> (r, None)
      | Inr preserve \<Rightarrow>
          if length args \<noteq> 2 then (1, None)
          else if \<not> (ce_opensrc env \<and> ce_fstat env \<and> ce_isreg env \<and> ce_fdopensrc env \<and> ce_setvbufsrc env) then (1, None)
          else (case cp_dest env (args ! 0) (args ! 1) of
              None \<Rightarrow> (1, None)
            | Some p \<Rightarrow>
                if \<not> (ce_fdopendst env \<and> ce_setvbufdst env) then (1, Some (p, ce_old env p))
                else (case cp_loop env (ce_reads env) 0 (ce_old env p) of (r, s) \<Rightarrow>
                  (if r = 0 \<and> preserve \<and> \<not> (ce_chown env \<and> ce_chmod env \<and> ce_utimes env) then 1 else r, Some (p, s))))))"

section \<open>mv\<close>

record mvenv =
  me_isdir :: "string \<Rightarrow> bool"
  me_malloc :: bool
  me_rename :: int
  me_opensrc :: bool
  me_isreg :: bool
  me_opendst :: bool
  me_reads :: "(string + int) list"
  me_writes :: "(nat + int) list"
  me_unlink :: bool

text \<open>Whether the source is gone, the name it was given, or the copy made of it.\<close>

record mvres =
  mr_ret :: int
  mr_removed :: bool
  mr_renamed :: "string option"
  mr_copy :: "(string \<times> string) option"

text \<open>The inner loop: success, what was written and the results left.\<close>

fun mv_write :: "(nat + int) list \<Rightarrow> string \<Rightarrow> (bool \<times> string \<times> (nat + int) list) option" where
  "mv_write [] b = (if b = [] then Some (True, [], []) else None)"
| "mv_write (w # ws) b =
     (if b = [] then Some (True, [], w # ws)
      else (case w of
          Inl k \<Rightarrow> map_option (\<lambda>(ok, s, r). (ok, take k b @ s, r)) (mv_write ws (drop k b))
        | Inr e \<Rightarrow> if e = EINTR then mv_write ws b else Some (False, [], ws)))"

fun mv_loop :: "(string + int) list \<Rightarrow> (nat + int) list \<Rightarrow> (bool \<times> string) option" where
  "mv_loop [] ws = None"
| "mv_loop (x # xs) ws = (case x of
     Inr e \<Rightarrow> if e = EINTR then mv_loop xs ws else Some (False, [])
   | Inl b \<Rightarrow>
       if b = [] then Some (True, [])
       else (case mv_write ws b of
           None \<Rightarrow> None
         | Some (ok, s, ws1) \<Rightarrow> if ok then map_option (\<lambda>(ok2, s2). (ok2, s @ s2)) (mv_loop xs ws1) else Some (False, s)))"

definition psh_mv_copy :: "mvenv \<Rightarrow> string \<Rightarrow> mvres option" where
  "psh_mv_copy env dst =
     (let fail = \<lparr>mr_ret = 1, mr_removed = False, mr_renamed = None, mr_copy = None\<rparr> in
      if \<not> me_opensrc env \<or> \<not> me_isreg env \<or> \<not> me_opendst env then Some fail
      else map_option (\<lambda>(ok, s). \<lparr>mr_ret = (if ok \<and> me_unlink env then 0 else 1), mr_removed = (ok \<and> me_unlink env), mr_renamed = None,
          mr_copy = Some (dst, s)\<rparr>) (mv_loop (me_reads env) (me_writes env)))"

definition mv_dest :: "mvenv \<Rightarrow> string \<Rightarrow> string \<Rightarrow> string" where
  "mv_dest env src target = (if me_isdir env target then target @ ''/'' @ libc_basename src else target)"

definition psh_mv :: "mvenv \<Rightarrow> string list \<Rightarrow> mvres option" where
  "psh_mv env argv = (let res = (\<lambda>r. \<lparr>mr_ret = r, mr_removed = False, mr_renamed = None, mr_copy = None\<rparr>) in
     case getopt_scan ''h'' (tl argv) of (evs, args) \<Rightarrow>
       (case only_help evs NUL False of
          Inl r \<Rightarrow> Some (res r)
        | Inr _ \<Rightarrow>
            if length args \<noteq> 2 then Some (res 1)
            else if me_isdir env (args ! 1) \<and> \<not> me_malloc env then Some (res 1)
            else (let dst = mv_dest env (args ! 0) (args ! 1) in
              if me_rename env = 0 then Some \<lparr>mr_ret = 0, mr_removed = True, mr_renamed = Some dst, mr_copy = None\<rparr>
              else if me_rename env = EXDEV then psh_mv_copy env dst
              else Some (res 1))))"

section \<open>mkdir\<close>

definition span :: "(char \<Rightarrow> bool) \<Rightarrow> string \<Rightarrow> nat \<Rightarrow> nat" where
  "span P s p = p + length (takeWhile P (drop p s))"

lemma span_props:
  assumes "p \<le> length s"
  shows "p \<le> span P s p" "span P s p \<le> length s" "\<And>i. p \<le> i \<Longrightarrow> i < span P s p \<Longrightarrow> P (s ! i)" "span P s p < length s \<Longrightarrow> \<not> P (s ! span P s p)"
proof -
  show "p \<le> span P s p" by (simp add: span_def)
  show le: "span P s p \<le> length s" using length_takeWhile_le [of P "drop p s"] assms by (simp add: span_def)
  show "P (s ! i)" if "p \<le> i" "i < span P s p" for i
  proof -
    have "takeWhile P (drop p s) ! (i - p) = drop p s ! (i - p)" using that by (intro takeWhile_nth) (simp add: span_def)
    moreover have "takeWhile P (drop p s) ! (i - p) \<in> set (takeWhile P (drop p s))" using that by (intro nth_mem) (simp add: span_def)
    ultimately show ?thesis using set_takeWhileD [of _ P "drop p s"] that le by (fastforce simp: nth_append)
  qed
  show "\<not> P (s ! span P s p)" if "span P s p < length s"
  proof -
    have "length (takeWhile P (drop p s)) < length (drop p s)" using that by (simp add: span_def)
    then have "\<not> P (drop p s ! length (takeWhile P (drop p s)))" by (rule nth_length_takeWhile)
    then show ?thesis using assms by (simp add: span_def)
  qed
qed

text \<open>The loop of \<open>psh_mkdir_parents\<close> from a position on.\<close>

function mkdir_parents :: "(string \<Rightarrow> 'f \<Rightarrow> int \<times> 'f) \<Rightarrow> (string \<Rightarrow> 'f \<Rightarrow> bool) \<Rightarrow> string \<Rightarrow> nat \<Rightarrow> 'f \<Rightarrow> int \<times> 'f" where
  "mkdir_parents mk isdir path p fs =
     (let p2 = span (\<lambda>c. \<not> is_slash c) path (span is_slash path p) in
      case mk (take p2 path) fs of (e, fs1) \<Rightarrow>
        if e \<noteq> 0 \<and> (e \<noteq> EEXIST \<or> \<not> isdir (take p2 path) fs1) then (-1, fs1)
        else (let p3 = span is_slash path p2 in if p3 \<ge> length path then (0, fs1) else mkdir_parents mk isdir path p3 fs1))"
  by pat_completeness auto

lemma span_progress:
  assumes "span is_slash path (span (\<lambda>c. \<not> is_slash c) path (span is_slash path p)) < length path"
  shows "p < span is_slash path (span (\<lambda>c. \<not> is_slash c) path (span is_slash path p))"
proof (cases "p < length path")
  case True
  define p1 where "p1 = span is_slash path p"
  define p2 where "p2 = span (\<lambda>c. \<not> is_slash c) path p1"
  have "p \<le> p1" "p1 \<le> length path" "p1 \<le> p2" "p2 \<le> length path" using True span_props(1,2) by (simp_all add: p1_def p2_def)
  moreover have "p2 \<le> span is_slash path p2" using span_props(1) \<open>p2 \<le> length path\<close> by blast
  moreover have "p < p2"
  proof (rule ccontr)
    assume "\<not> p < p2"
    then have eq: "p1 = p" "p2 = p" using \<open>p \<le> p1\<close> \<open>p1 \<le> p2\<close> by auto
    have "\<not> is_slash (path ! p)" using span_props(4) [of p path is_slash, folded p1_def] True eq(1) by simp
    moreover have "is_slash (path ! p)"
      using span_props(4) [of p1 path "\<lambda>c. \<not> is_slash c", folded p2_def] True eq by simp
    ultimately show False by simp
  qed
  ultimately show ?thesis by (simp add: p1_def p2_def)
qed (use assms in \<open>simp add: span_def\<close>)

lemma span_measure:
  "span is_slash path (span (\<lambda>c. \<not> is_slash c) path (span is_slash path p)) < length path \<Longrightarrow>
     length path - span is_slash path (span (\<lambda>c. \<not> is_slash c) path (span is_slash path p)) < length path - p"
  using span_progress [of path p] by linarith

termination mkdir_parents
  by (relation "measure (\<lambda>(mk, isdir, path, p, fs). length path - p)") (auto simp: not_le intro: span_measure)

declare mkdir_parents.simps [simp del]

definition psh_mkdir_parents :: "(string \<Rightarrow> 'f \<Rightarrow> int \<times> 'f) \<Rightarrow> (string \<Rightarrow> 'f \<Rightarrow> bool) \<Rightarrow> string \<Rightarrow> 'f \<Rightarrow> int \<times> 'f" where
  "psh_mkdir_parents mk isdir path fs = mkdir_parents mk isdir path 0 fs"

fun mkdir_all :: "(string \<Rightarrow> 'f \<Rightarrow> int \<times> 'f) \<Rightarrow> string list \<Rightarrow> int \<Rightarrow> 'f \<Rightarrow> int \<times> 'f" where
  "mkdir_all f [] err fs = (err, fs)"
| "mkdir_all f (a # as) err fs = (case f a fs of (e, fs1) \<Rightarrow> mkdir_all f as (if e \<noteq> 0 then 1 else err) fs1)"

definition psh_mkdir :: "(string \<Rightarrow> 'f \<Rightarrow> int \<times> 'f) \<Rightarrow> (string \<Rightarrow> 'f \<Rightarrow> bool) \<Rightarrow> string list \<Rightarrow> 'f \<Rightarrow> int \<times> 'f" where
  "psh_mkdir mk isdir argv fs = (case getopt_scan ''ph'' (tl argv) of (evs, args) \<Rightarrow>
     (case only_help evs (CHR ''p'') False of
        Inl r \<Rightarrow> (r, fs)
      | Inr parents \<Rightarrow> if args = [] then (1, fs) else mkdir_all (if parents then psh_mkdir_parents mk isdir else mk) args 0 fs))"

section \<open>rmdir\<close>

text \<open>Result, and the state.\<close>

function removedir :: "(string \<Rightarrow> 'f \<Rightarrow> int \<times> 'f) \<Rightarrow> bool \<Rightarrow> string \<Rightarrow> int \<Rightarrow> bool \<Rightarrow> 'f \<Rightarrow> int \<times> 'f" where
  "removedir rd parents name err suppress fs =
     (let n = strip_slash name in
      if n = [] then (if err \<noteq> 0 \<and> \<not> suppress then 1 else 0, fs)
      else (case rd n fs of (e, fs1) \<Rightarrow>
        if e \<noteq> 0 \<or> CHR ''/'' \<notin> set n \<or> \<not> parents then (if e \<noteq> 0 \<and> \<not> suppress then 1 else 0, fs1)
        else removedir rd parents (rev (tl (dropWhile (\<lambda>c. \<not> is_slash c) (rev n)))) e True fs1))"
  by pat_completeness auto
termination
proof (relation "measure (\<lambda>(rd, parents, name, err, suppress, fs). length name)")
  fix rd :: "string \<Rightarrow> 'f \<Rightarrow> int \<times> 'f" and parents name err suppress fs n x e and fs1 :: 'f
  assume a: "n = strip_slash name" "n \<noteq> []"
  have "length n \<le> length name" using length_dropWhile_le [of is_slash "rev name"] by (simp add: a(1) strip_slash_def)
  moreover have "length (tl (dropWhile (\<lambda>c. \<not> is_slash c) (rev n))) < length n"
  proof -
    have "length (dropWhile (\<lambda>c. \<not> is_slash c) (rev n)) \<le> length n" using length_dropWhile_le [of "\<lambda>c. \<not> is_slash c" "rev n"] by simp
    moreover have "0 < length n" using a(2) by simp
    ultimately show ?thesis unfolding length_tl by linarith
  qed
  ultimately show "((rd, parents, rev (tl (dropWhile (\<lambda>c. \<not> is_slash c) (rev n))), e, True, fs1), rd, parents, name, err, suppress, fs)
    \<in> measure (\<lambda>(rd, parents, name, err, suppress, fs). length name)" by simp
qed simp

declare removedir.simps [simp del]

fun rmdir_all :: "(string \<Rightarrow> 'f \<Rightarrow> int \<times> 'f) \<Rightarrow> (string \<Rightarrow> bool) \<Rightarrow> bool \<Rightarrow> string list \<Rightarrow> int \<Rightarrow> 'f \<Rightarrow> int \<times> 'f" where
  "rmdir_all rd mem parent [] ret fs = (ret, fs)"
| "rmdir_all rd mem parent (a # as) ret fs =
     (if a \<noteq> [] \<and> hd a = CHR ''-'' then (1, fs)
      else if \<not> mem a then (1, fs)
      else (case removedir rd parent a (-1) False fs of (e, fs1) \<Rightarrow> rmdir_all rd mem parent as (if e \<noteq> 0 then 1 else ret) fs1))"

definition psh_rmdir :: "(string \<Rightarrow> 'f \<Rightarrow> int \<times> 'f) \<Rightarrow> (string \<Rightarrow> bool) \<Rightarrow> string list \<Rightarrow> 'f \<Rightarrow> int \<times> 'f" where
  "psh_rmdir rd mem argv fs =
     (let parent = (length argv > 1 \<and> argv ! 1 = ''-p''); args = drop (if parent then 2 else 1) argv in
      if args = [] then (1, fs) else rmdir_all rd mem parent args 0 fs)"

section \<open>rm\<close>

text \<open>\<open>st\<close> says whether a path exists and is a directory.\<close>

fun rm_all :: "(string \<Rightarrow> 'f \<Rightarrow> bool option) \<Rightarrow> (string \<Rightarrow> 'f \<Rightarrow> int \<times> 'f) \<Rightarrow> (string \<Rightarrow> 'f \<Rightarrow> int \<times> 'f) \<Rightarrow> bool \<Rightarrow> string list \<Rightarrow> int \<Rightarrow> 'f \<Rightarrow> int \<times> 'f" where
  "rm_all st rd ul rdir [] ret fs = (ret, fs)"
| "rm_all st rd ul rdir (a # as) ret fs =
     (if a \<noteq> [] \<and> hd a = CHR ''-'' then (1, fs)
      else (case st a fs of
          None \<Rightarrow> rm_all st rd ul rdir as 1 fs
        | Some dir \<Rightarrow>
            if dir \<and> \<not> rdir then rm_all st rd ul rdir as 1 fs
            else (case (if dir then rd a fs else ul a fs) of (e, fs1) \<Rightarrow> rm_all st rd ul rdir as (if e \<noteq> 0 then 1 else ret) fs1)))"

definition psh_rm :: "(string \<Rightarrow> 'f \<Rightarrow> bool option) \<Rightarrow> (string \<Rightarrow> 'f \<Rightarrow> int \<times> 'f) \<Rightarrow> (string \<Rightarrow> 'f \<Rightarrow> int \<times> 'f) \<Rightarrow> string list \<Rightarrow> 'f \<Rightarrow> int \<times> 'f" where
  "psh_rm st rd ul argv fs =
     (let rdir = (length argv > 1 \<and> argv ! 1 = ''-d''); args = drop (if rdir then 2 else 1) argv in
      if args = [] then (1, fs) else rm_all st rd ul rdir args 0 fs)"

section \<open>ln\<close>

definition pathconcat :: "string \<Rightarrow> string \<Rightarrow> string" where
  "pathconcat dir file = (if dir = [] then file else dir @ ''/'' @ rev (takeWhile (\<lambda>c. \<not> is_slash c) (rev file)))"

record 'f lncalls =
  ln_stat :: "string \<Rightarrow> 'f \<Rightarrow> bool option"
  ln_access :: "string \<Rightarrow> 'f \<Rightarrow> bool"
  ln_link :: "string \<Rightarrow> string \<Rightarrow> 'f \<Rightarrow> int \<times> 'f"
  ln_symlink :: "string \<Rightarrow> string \<Rightarrow> 'f \<Rightarrow> int \<times> 'f"
  ln_mem :: "nat \<Rightarrow> bool"

fun ln_all :: "'f lncalls \<Rightarrow> string \<Rightarrow> bool \<Rightarrow> string list \<Rightarrow> 'f \<Rightarrow> int \<times> 'f" where
  "ln_all c lastarg dir [] fs = (0, fs)"
| "ln_all c lastarg dir (s # ss) fs =
     (if \<not> ln_access c s fs then ln_all c lastarg dir ss fs
      else if dir \<and> lastarg \<noteq> [] \<and> \<not> ln_mem c (length (pathconcat lastarg s) + 1) then (1, fs)
      else ln_all c lastarg dir ss (snd (ln_link c s (if dir then pathconcat lastarg s else lastarg) fs)))"

definition psh_ln :: "'f lncalls \<Rightarrow> string list \<Rightarrow> 'f \<Rightarrow> int \<times> 'f" where
  "psh_ln c argv fs =
     (if length argv < 3 then (1, fs)
      else if argv ! 1 \<noteq> [] \<and> hd (argv ! 1) = CHR ''-'' then
        (if argv ! 1 \<noteq> ''-s'' then (1, fs)
         else if length argv \<noteq> 4 then (1, fs)
         else (case ln_symlink c (argv ! 2) (argv ! 3) fs of (e, fs1) \<Rightarrow> (if e \<noteq> 0 then 1 else 0, fs1)))
      else (let lastarg = last argv; dir = (ln_stat c lastarg fs = Some True) in
        if length argv > 3 \<and> \<not> dir then (1, fs) else ln_all c lastarg dir (butlast (tl argv)) fs))"

section \<open>What cp leaves in the destination\<close>

lemma length_overwrite: "pos \<le> length s \<Longrightarrow> pos + length b \<le> length (overwrite s pos b)"
  by (simp add: overwrite_def)

lemma take_overwrite: "pos \<le> length s \<Longrightarrow> take (pos + length b) (overwrite s pos b) = take pos s @ b"
  by (simp add: overwrite_def)

lemma drop_overwrite: "pos \<le> length s \<Longrightarrow> pos + length b \<le> n \<Longrightarrow> drop n (overwrite s pos b) = drop n s"
  by (simp add: overwrite_def)

lemma cp_loop_copies:
  assumes "\<forall>b \<in> set bs. b \<noteq> []" "\<forall>p n. ce_fwrite env p n = n" "\<not> ce_readerr env" "pos \<le> length s"
  shows "cp_loop env (bs @ [[]]) pos s = (0, take pos s @ concat bs @ drop (pos + length (concat bs)) s)"
  using assms(1,4)
proof (induction bs arbitrary: pos s)
  case Nil
  then show ?case using assms(3) by simp
next
  case (Cons b bs)
  have "cp_loop env ((b # bs) @ [[]]) pos s = cp_loop env (bs @ [[]]) (pos + length b) (overwrite s pos b)" using Cons(2) assms(2) by simp
  also have "\<dots> = (0, (take pos s @ b) @ concat bs @ drop (pos + length b + length (concat bs)) s)"
    using Cons(1) [of "pos + length b" "overwrite s pos b"] Cons(2,3) length_overwrite take_overwrite drop_overwrite by simp
  finally show ?case by (simp add: add.assoc)
qed

text \<open>Every call of \<open>cp\<close> succeeds.\<close>

definition cp_calls_ok :: "cpenv \<Rightarrow> bool" where
  "cp_calls_ok env \<longleftrightarrow> ce_opensrc env \<and> ce_fstat env \<and> ce_isreg env \<and> ce_fdopensrc env \<and> ce_setvbufsrc env \<and> ce_malloc env
     \<and> ce_fdopendst env \<and> ce_setvbufdst env \<and> \<not> ce_readerr env \<and> (\<forall>p n. ce_fwrite env p n = n)"

definition operand :: "string \<Rightarrow> bool" where
  "operand a \<longleftrightarrow> \<not> is_opt_word a \<and> a \<noteq> ''--''"

text \<open>
  C22: \<open>cp source target\<close>, when no call fails, returns 0 and leaves in the target, or in the file of the source's name when
  the target is a directory, the source's bytes followed by what the old file had behind that length: the
  destination is not cut, so it is a copy only if it was not longer before.
\<close>

theorem cp_leaves_tail:
  assumes "operand src" "cp_calls_ok env" "\<forall>b \<in> set bs. b \<noteq> []" "ce_reads env = bs @ [[]]"
    "ce_open env target = 0 \<and> dst = target \<or> ce_open env target = EISDIR \<and> dst = target @ ''/'' @ libc_basename src \<and> ce_open env dst = 0"
  shows "\<exists>content. psh_cp env [a0, src, target] = (0, Some (dst, content)) \<and> content = concat bs @ drop (length (concat bs)) (ce_old env dst)
    \<and> (content = concat bs \<longleftrightarrow> length (ce_old env dst) \<le> length (concat bs))"
proof -
  have "cp_dest env src target = Some dst" using assms(2,5) by (auto simp: cp_dest_def cp_calls_ok_def)
  moreover have "cp_loop env (ce_reads env) 0 (ce_old env dst) = (0, concat bs @ drop (length (concat bs)) (ce_old env dst))"
    using cp_loop_copies [OF assms(3), of env 0 "ce_old env dst"] assms(2,4) by (simp add: cp_calls_ok_def)
  ultimately show ?thesis using assms(1,2) by (simp add: psh_cp_def operand_def cp_calls_ok_def)
qed

definition demo_cp :: cpenv where
  "demo_cp = \<lparr>ce_opensrc = True, ce_fstat = True, ce_isreg = True, ce_fdopensrc = True, ce_setvbufsrc = True, ce_open = (\<lambda>p. if p = ''d'' then 21 else 0),
     ce_malloc = True, ce_fdopendst = True, ce_setvbufdst = True, ce_reads = [''new'', []], ce_readerr = False, ce_fwrite = (\<lambda>p n. n), ce_writeerr = False,
     ce_chown = True, ce_chmod = True, ce_utimes = True, ce_old = (\<lambda>p. ''longer'')\<rparr>"

theorem cp_leaves_tail_witness:
  "\<exists>content. psh_cp demo_cp [''cp'', ''a/b'', ''d''] = (0, Some (''d/b'', content)) \<and> content = concat [''new''] @ drop (length (concat [''new''])) (ce_old demo_cp ''d/b'')
    \<and> (content = concat [''new''] \<longleftrightarrow> length (ce_old demo_cp ''d/b'') \<le> length (concat [''new'']))"
  by (rule cp_leaves_tail)
    (simp_all add: operand_def is_opt_word_def cp_calls_ok_def demo_cp_def libc_basename_def strip_slash_def is_slash_def)

section \<open>mv does not lose data\<close>

text \<open>The bytes of the source: what \<open>read\<close> gives before its end.\<close>

fun read_data :: "(string + int) list \<Rightarrow> string" where
  "read_data [] = []"
| "read_data (x # xs) = (case x of Inl b \<Rightarrow> if b = [] then [] else b @ read_data xs | Inr e \<Rightarrow> read_data xs)"

lemma mv_write_whole: "mv_write ws b = Some (True, s, ws') \<Longrightarrow> s = b"
  by (induction ws b arbitrary: s rule: mv_write.induct) (auto split: sum.splits if_splits, metis append_take_drop_id)

lemma mv_write_Nil [simp]: "mv_write ws [] = Some (True, [], ws)"
  by (cases ws) auto

lemma mv_loop_whole: "mv_loop xs ws = Some (True, s) \<Longrightarrow> s = read_data xs"
proof (induction xs arbitrary: ws s)
  case (Cons x xs)
  show ?case
  proof (cases x)
    case (Inl b)
    show ?thesis
    proof (cases "b = []")
      case False
      then obtain s1 ws1 s2 where "mv_write ws b = Some (True, s1, ws1)" "mv_loop xs ws1 = Some (True, s2)" "s = s1 @ s2"
        using Cons(2) Inl by (auto split: option.splits if_splits)
      then show ?thesis using mv_write_whole Cons(1) Inl False by auto
    qed (use Cons(2) Inl in simp)
  next
    case (Inr e)
    then show ?thesis using Cons by (simp split: if_splits)
  qed
qed simp

text \<open>
  C20: Whatever the calls return, when \<open>mv\<close> has removed the source, then the source was renamed to its destination, or the
  destination holds every byte read from the source up to its end; and \<open>mv\<close> returns 0 exactly when the source is gone.
\<close>

theorem mv_keeps_data:
  assumes "operand src" "psh_mv env [a0, src, target] = Some res"
  shows "(mr_ret res = 0 \<longleftrightarrow> mr_removed res)
    \<and> (mr_removed res \<longrightarrow> mr_renamed res = Some (mv_dest env src target) \<or> mr_copy res = Some (mv_dest env src target, read_data (me_reads env)))"
proof -
  have "mr_removed res \<longrightarrow> mr_copy res = Some (dst, read_data (me_reads env))" "mr_ret res = 0 \<longleftrightarrow> mr_removed res"
    if "psh_mv_copy env dst = Some res" for dst
    using that mv_loop_whole by (auto simp: psh_mv_copy_def Let_def split: if_splits)
  then show ?thesis using assms by (auto simp: psh_mv_def operand_def Let_def split: if_splits)
qed

text \<open>Over devices, with short and interrupted calls, the file is moved.\<close>

lemma mv_loop_moves:
  assumes "\<forall>b \<in> set bs. b \<noteq> []"
  shows "mv_loop (map Inl bs @ [Inl []]) (map Inl (map length bs)) = Some (True, concat bs)"
  using assms
proof (induction bs)
  case (Cons b bs)
  have "mv_write (Inl (length b) # map Inl (map length bs)) b = Some (True, b, map Inl (map length bs))" using Cons(2) by simp
  then show ?case using Cons by simp
qed simp

definition demo_mv :: mvenv where
  "demo_mv = \<lparr>me_isdir = (\<lambda>p. p = ''d''), me_malloc = True, me_rename = EXDEV, me_opensrc = True, me_isreg = True, me_opendst = True,
     me_reads = [Inl ''ab'', Inr EINTR, Inl ''c'', Inl []], me_writes = [Inl 1, Inr EINTR, Inl 1, Inl 1], me_unlink = True\<rparr>"

definition demo_moved :: mvres where
  "demo_moved = \<lparr>mr_ret = 0, mr_removed = True, mr_renamed = None, mr_copy = Some (''d/f'', ''abc'')\<rparr>"

theorem mv_keeps_data_witness:
  "psh_mv demo_mv [''mv'', ''f'', ''d''] = Some demo_moved \<and> mr_removed demo_moved
    \<and> (mr_renamed demo_moved = Some (mv_dest demo_mv ''f'' ''d'') \<or> mr_copy demo_moved = Some (mv_dest demo_mv ''f'' ''d'', read_data (me_reads demo_mv)))"
proof -
  have op: "operand ''f''" by (simp add: operand_def is_opt_word_def)
  have run: "psh_mv demo_mv [''mv'', ''f'', ''d''] = Some demo_moved"
    by (simp add: psh_mv_def is_opt_word_def demo_mv_def mv_dest_def psh_mv_copy_def demo_moved_def libc_basename_def strip_slash_def is_slash_def)
  have "mr_ret demo_moved = 0" by (simp add: demo_moved_def)
  then show ?thesis using run mv_keeps_data [OF op run] by blast
qed

section \<open>mkdir -p\<close>

text \<open>A place where a component of the path ends.\<close>

definition comp_end :: "string \<Rightarrow> nat \<Rightarrow> bool" where
  "comp_end path k \<longleftrightarrow> 0 < k \<and> k \<le> length path \<and> \<not> is_slash (path ! (k - 1)) \<and> (k = length path \<or> is_slash (path ! k))"

definition mkdir_law :: "(string \<Rightarrow> 'f \<Rightarrow> int \<times> 'f) \<Rightarrow> (string \<Rightarrow> 'f \<Rightarrow> bool) \<Rightarrow> bool" where
  "mkdir_law mk isdir \<longleftrightarrow> (\<forall>p fs. fst (mk p fs) = 0 \<longrightarrow> isdir p (snd (mk p fs))) \<and> (\<forall>p q fs. isdir q fs \<longrightarrow> isdir q (snd (mk p fs)))"

lemma mkdir_parents_keeps:
  assumes "mkdir_law mk isdir" "isdir q fs"
  shows "isdir q (snd (mkdir_parents mk isdir path p fs))"
  using assms
proof (induction mk isdir path p fs rule: mkdir_parents.induct)
  case (1 mk isdir path p fs)
  define p2 where "p2 = span (\<lambda>c. \<not> is_slash c) path (span is_slash path p)"
  obtain e fs1 where mk: "mk (take p2 path) fs = (e, fs1)" by force
  then have "isdir q fs1" using 1(2,3) unfolding mkdir_law_def by (metis snd_conv)
  then show ?case using 1(1) [OF p2_def mk [symmetric]] 1(2) mk by (subst mkdir_parents.simps) (auto simp: p2_def [symmetric] Let_def)
qed

lemma next_comp_end:
  assumes "p \<le> length path" "comp_end path k" "p < k" "k \<le> span is_slash path (span (\<lambda>c. \<not> is_slash c) path (span is_slash path p))"
  shows "k = span (\<lambda>c. \<not> is_slash c) path (span is_slash path p)"
proof -
  define p1 where "p1 = span is_slash path p"
  define p2 where "p2 = span (\<lambda>c. \<not> is_slash c) path p1"
  define p3 where "p3 = span is_slash path p2"
  have le: "p \<le> p1" "p1 \<le> length path" "p1 \<le> p2" "p2 \<le> length path" using assms(1) span_props(1,2) by (simp_all add: p1_def p2_def)
  have k: "0 < k" "\<not> is_slash (path ! (k - 1))" "k = length path \<or> is_slash (path ! k)" "k \<le> p3"
    using assms(2,4) by (simp_all add: comp_end_def p1_def p2_def p3_def)
  have "p \<le> k - 1" using assms(3) by simp
  then have "\<not> k - 1 < p1" using span_props(3) [OF assms(1), of "k - 1" is_slash, folded p1_def] k(2) by blast
  moreover have "\<not> p2 \<le> k - 1" using span_props(3) [OF le(4), of "k - 1" is_slash, folded p3_def] k(1,2,4) by fastforce
  moreover have "p1 \<le> k" using calculation(1) by simp
  then have "\<not> k < p2" using span_props(3) [OF le(2), of k "\<lambda>c. \<not> is_slash c", folded p2_def] k(3) le(4) by auto
  ultimately show ?thesis by (simp add: p1_def p2_def)
qed

lemma mkdir_parents_creates:
  assumes "mkdir_law mk isdir" "p \<le> length path" "mkdir_parents mk isdir path p fs = (0, fs')" "comp_end path k" "p < k"
  shows "isdir (take k path) fs'"
  using assms
proof (induction mk isdir path p fs rule: mkdir_parents.induct)
  case (1 mk isdir path p fs)
  define p2 where "p2 = span (\<lambda>c. \<not> is_slash c) path (span is_slash path p)"
  define p3 where "p3 = span is_slash path p2"
  obtain e fs1 where mk: "mk (take p2 path) fs = (e, fs1)" by force
  have step: "(if e \<noteq> 0 \<and> (e \<noteq> EEXIST \<or> \<not> isdir (take p2 path) fs1) then (-1, fs1)
      else if p3 \<ge> length path then (0, fs1) else mkdir_parents mk isdir path p3 fs1) = (0, fs')"
    using 1(4) unfolding mkdir_parents.simps [of mk isdir path p fs] Let_def p2_def [symmetric] p3_def [symmetric] mk by simp
  have made: "isdir (take p2 path) fs1"
  proof (cases "e = 0")
    case True
    then show ?thesis using 1(2) mk unfolding mkdir_law_def by (metis fst_conv snd_conv)
  qed (use step in \<open>auto split: if_splits\<close>)
  have run: "(if p3 \<ge> length path then (0, fs1) else mkdir_parents mk isdir path p3 fs1) = (0, fs')" using step made by (auto split: if_splits)
  show ?case
  proof (cases "k \<le> p3")
    case True
    then have "k = p2" using next_comp_end [OF 1(3,5,6)] by (simp add: p2_def p3_def)
    then show ?thesis using made run mkdir_parents_keeps [OF 1(2), of "take p2 path" fs1 path p3] by (auto split: if_splits)
  next
    case False
    then have "p3 < length path" using 1(5) by (simp add: comp_end_def)
    moreover have "e = 0 \<or> e = EEXIST" using step by (auto split: if_splits)
    ultimately show ?thesis using 1(1) [OF p2_def mk [symmetric] _ p3_def] 1(2,5) False run made by auto
  qed
qed

text \<open>
  C21: When \<open>mkdir -p\<close> reports success for a path, every prefix of the path that ends with a component is a
  directory; of the system it is used that a successful \<open>mkdir\<close> makes a directory and that directories stay.
\<close>

theorem mkdir_p_creates:
  assumes "mkdir_law mk isdir" "operand path" "psh_mkdir mk isdir [a0, ''-p'', path] fs = (0, fs')" "comp_end path k"
  shows "isdir (take k path) fs'"
proof -
  have "getopt_scan ''ph'' [''-p'', path] = ([Opt (CHR ''p'') None], [path])" using assms(2) by (simp add: is_opt_word_def operand_def)
  then have "mkdir_parents mk isdir path 0 fs = (0, fs')"
    using assms(3) by (auto simp: psh_mkdir_def psh_mkdir_parents_def split: prod.splits if_splits)
  then show ?thesis using mkdir_parents_creates [OF assms(1) le0 _ assms(4)] assms(4) by (simp add: comp_end_def)
qed

definition demo_mkdir :: "string \<Rightarrow> string list \<Rightarrow> int \<times> string list" where
  "demo_mkdir p fs = (if p \<in> set fs then (EEXIST, fs) else (0, p # fs))"

theorem mkdir_p_creates_witness:
  "psh_mkdir demo_mkdir (\<lambda>p fs. p \<in> set fs) [''mkdir'', ''-p'', ''a//b''] [''a''] = (0, [''a//b'', ''a''])
    \<and> (\<lambda>p fs. p \<in> set fs) (take 4 ''a//b'') [''a//b'', ''a'']"
proof -
  have law: "mkdir_law demo_mkdir (\<lambda>p fs. p \<in> set fs)" by (auto simp: mkdir_law_def demo_mkdir_def)
  have op: "operand ''a//b''" by (simp add: operand_def is_opt_word_def)
  have run: "psh_mkdir demo_mkdir (\<lambda>p fs. p \<in> set fs) [''mkdir'', ''-p'', ''a//b''] [''a''] = (0, [''a//b'', ''a''])"
    by (simp add: psh_mkdir_def psh_mkdir_parents_def mkdir_parents.simps span_def is_slash_def is_opt_word_def demo_mkdir_def)
  have "comp_end ''a//b'' 4" by (simp add: comp_end_def is_slash_def)
  then show ?thesis using run mkdir_p_creates [OF law op run] by simp
qed

text \<open>\<open>ln\<close> reports success for links that could not be made.\<close>

lemma ln_ignores_errors:
  assumes "\<And>n. ln_mem c n"
  shows "fst (ln_all c lastarg dir ss fs) = 0"
  using assms by (induction ss arbitrary: fs) auto


end
