(* ===== verification/Migrate.thy ===== *)
theory Migrate
  imports Fileops "HOL-Library.Word"
begin

unbundle bit_operations_syntax

text \<open>
  The tool \<open>src/meterfs-migrate/migrate.c\<close>, which converts a meterfs partition in place: two sectors are freed behind the
  headers, files get the sectors that records with checksums need, and the records are converted.

  The stream is a device of a fixed size with a position; an access behind its end fails, which is how errors of the
  stream enter the model. \<open>None\<close> is such an error, or a fault: a division by 0 or a failed allocation of a
  record, which the caller treats alike. \<open>uint32_t\<close> values are \<open>nat\<close> with their wrap-around written out.
\<close>

type_synonym bytes = "8 word list"

abbreviation (input) SIZE_SECTOR :: nat where "SIZE_SECTOR \<equiv> 4096"
abbreviation (input) HGRAIN :: nat where "HGRAIN \<equiv> 32"
abbreviation (input) HEADER_SECTOR_CNT :: nat where "HEADER_SECTOR_CNT \<equiv> 2"

section \<open>The stream\<close>

record mdev =
  md_data :: bytes
  md_pos :: nat

definition mseek :: "nat \<Rightarrow> mdev \<Rightarrow> mdev" where
  "mseek p d = d\<lparr>md_pos := p\<rparr>"

definition mread :: "nat \<Rightarrow> mdev \<Rightarrow> (bytes \<times> mdev) option" where
  "mread n d = (if md_pos d + n \<le> length (md_data d) then Some (take n (drop (md_pos d) (md_data d)), d\<lparr>md_pos := md_pos d + n\<rparr>) else None)"

definition patch :: "'a list \<Rightarrow> nat \<Rightarrow> 'a list \<Rightarrow> 'a list" where
  "patch s p b = take p s @ b @ drop (p + length b) s"

definition mwrite :: "bytes \<Rightarrow> mdev \<Rightarrow> mdev option" where
  "mwrite b d = (if md_pos d + length b \<le> length (md_data d) then Some \<lparr>md_data = patch (md_data d) (md_pos d) b, md_pos = md_pos d + length b\<rparr> else None)"

text \<open>Writing in whole sectors: the first one when the position is inside of it, whole ones, and the last one.\<close>

definition write_head :: "bytes \<Rightarrow> mdev \<Rightarrow> (bytes \<times> mdev) option" where
  "write_head b d = (let mis = md_pos d mod SIZE_SECTOR; tmp = md_pos d - mis in
     if mis = 0 then Some (b, d)
     else do {
       (chunk, d1) \<leftarrow> mread SIZE_SECTOR (mseek tmp d);
       let k = min (SIZE_SECTOR - mis) (length b);
       d2 \<leftarrow> mwrite (patch chunk mis (take k b)) (mseek tmp d1);
       Some (drop k b, d2) })"

function write_sectors :: "bytes \<Rightarrow> mdev \<Rightarrow> (bytes \<times> mdev) option" where
  "write_sectors b d =
     (if length b \<ge> SIZE_SECTOR then (case mwrite (take SIZE_SECTOR b) d of None \<Rightarrow> None | Some d1 \<Rightarrow> write_sectors (drop SIZE_SECTOR b) d1)
      else Some (b, d))"
  by pat_completeness auto
termination by (relation "measure (\<lambda>(b, d). length b)") auto

declare write_sectors.simps [simp del]

definition write_tail :: "bytes \<Rightarrow> mdev \<Rightarrow> mdev option" where
  "write_tail b d =
     (if b = [] then Some d
      else do { (chunk, d1) \<leftarrow> mread SIZE_SECTOR d; mwrite (patch chunk 0 b) (mseek (md_pos d) d1) })"

definition fwrite_workaround :: "bytes \<Rightarrow> mdev \<Rightarrow> mdev option" where
  "fwrite_workaround b d = do {
     (b1, d1) \<leftarrow> write_head b d;
     (b2, d2) \<leftarrow> write_sectors b1 d1;
     d3 \<leftarrow> write_tail b2 d2;
     Some (mseek (md_pos d + length b) d3) }"

section \<open>Headers\<close>

fun le_bytes :: "nat \<Rightarrow> nat \<Rightarrow> bytes" where
  "le_bytes 0 n = []"
| "le_bytes (Suc k) n = of_nat n # le_bytes k (n div 256)"

definition le_val :: "bytes \<Rightarrow> nat" where
  "le_val b = foldr (\<lambda>x a. unat x + 256 * a) b 0"

text \<open>\<open>index_t\<close>: the lowest bit is \<open>nvalid\<close>.\<close>

definition ix_nvalid :: "nat \<Rightarrow> nat" where "ix_nvalid i = i mod 2"
definition ix_no :: "nat \<Rightarrow> nat" where "ix_no i = i div 2"

record header_old =
  ho_id :: nat
  ho_filecnt :: nat
  ho_magic :: bytes

record fileheader =
  fh_sector :: nat
  fh_sectorcnt :: nat
  fh_filesz :: nat
  fh_recordsz :: nat
  fh_name :: bytes

definition magicConst :: bytes where "magicConst = [0x66, 0x41, 0x4b, 0xbb]"
definition oldMagicConst :: bytes where "oldMagicConst = [0xaa, 0x41, 0x4b, 0x55]"

definition header_old_of :: "bytes \<Rightarrow> header_old" where
  "header_old_of b = \<lparr>ho_id = le_val (take 4 b), ho_filecnt = le_val (take 4 (drop 4 b)), ho_magic = take 4 (drop 8 b)\<rparr>"

definition fileheader_of :: "bytes \<Rightarrow> fileheader" where
  "fileheader_of b = \<lparr>fh_sector = le_val (take 4 b), fh_sectorcnt = le_val (take 4 (drop 4 b)), fh_filesz = le_val (take 4 (drop 8 b)),
     fh_recordsz = le_val (take 4 (drop 12 b)), fh_name = take 8 (drop 16 b)\<rparr>"

definition fileheader_bytes :: "fileheader \<Rightarrow> bytes" where
  "fileheader_bytes f = le_bytes 4 (fh_sector f) @ le_bytes 4 (fh_sectorcnt f) @ le_bytes 4 (fh_filesz f) @ le_bytes 4 (fh_recordsz f) @ fh_name f"

definition calcChecksum :: "bytes \<Rightarrow> 8 word" where
  "calcChecksum b = foldl (\<lambda>a x. a XOR x) 0 b"

text \<open>The newer of the two headers, and which one it is.\<close>

definition getOldHeader :: "nat \<Rightarrow> mdev \<Rightarrow> (header_old \<times> nat \<times> mdev) option" where
  "getOldHeader off d = do {
     (b0, d1) \<leftarrow> mread 12 (mseek off d);
     (b1, d2) \<leftarrow> mread 12 (mseek (off + HEADER_SECTOR_CNT * SIZE_SECTOR) d1);
     let h = header_old_of b0;
     let temp = header_old_of b1;
     let second = (ix_nvalid (ho_id h) \<noteq> 0 \<or> (ix_nvalid (ho_id temp) = 0 \<and> ix_no (ho_id h) < ix_no (ho_id temp)));
     let h1 = (if second then temp else h);
     (if ix_nvalid (ho_id h1) \<noteq> 0 then None else Some (h1, if second then 1 else 0, d2)) }"

fun getOldFiles :: "nat \<Rightarrow> nat \<Rightarrow> nat list \<Rightarrow> mdev \<Rightarrow> (fileheader list \<times> mdev) option" where
  "getOldFiles off which [] d = Some ([], d)"
| "getOldFiles off which (i # is) d = do {
     (b, d1) \<leftarrow> mread 24 (mseek (off + which * HEADER_SECTOR_CNT * SIZE_SECTOR + (i + 1) * HGRAIN) d);
     (fs, d2) \<leftarrow> getOldFiles off which is d1;
     Some (fileheader_of b # fs, d2) }"

definition minSectorCnt :: "fileheader \<Rightarrow> nat option" where
  "minSectorCnt f =
     (if fh_recordsz f = 0 then None
      else (let nrecords = fh_filesz f div fh_recordsz f; bytes = (nrecords * (fh_recordsz f + 8)) mod 2 ^ 32
        in Some (((bytes + (SIZE_SECTOR - 1)) mod 2 ^ 32) div SIZE_SECTOR + 1)))"

section \<open>Sectors\<close>

definition sector_off :: "nat \<Rightarrow> nat \<Rightarrow> nat" where
  "sector_off off s = off + (s * SIZE_SECTOR) mod 2 ^ 32"

definition copySector :: "nat \<Rightarrow> nat \<Rightarrow> nat \<Rightarrow> mdev \<Rightarrow> mdev option" where
  "copySector off dest src d = do {
     (b, d1) \<leftarrow> mread SIZE_SECTOR (mseek (sector_off off src) d);
     fwrite_workaround b (mseek (sector_off off dest) d1) }"

definition eraseSector :: "nat \<Rightarrow> nat \<Rightarrow> mdev \<Rightarrow> mdev option" where
  "eraseSector off s d = fwrite_workaround (replicate SIZE_SECTOR 0xff) (mseek (sector_off off s) d)"

text \<open>\<open>nsectors + 1\<close> sectors, the last one first.\<close>

fun moveSectors :: "nat \<Rightarrow> nat \<Rightarrow> nat \<Rightarrow> nat \<Rightarrow> mdev \<Rightarrow> mdev option" where
  "moveSectors off from 0 diff d = copySector off (from + diff) from d"
| "moveSectors off from (Suc i) diff d = do { d1 \<leftarrow> copySector off (from + Suc i + diff) (from + Suc i) d; moveSectors off from i diff d1 }"

fun eraseRepeat :: "nat \<Rightarrow> nat \<Rightarrow> nat \<Rightarrow> mdev \<Rightarrow> mdev option" where
  "eraseRepeat off s 0 d = Some d"
| "eraseRepeat off s (Suc n) d = do { d1 \<leftarrow> eraseSector off s d; eraseRepeat off s n d1 }"

text \<open>The files above, from the last one down to \<open>k + 1\<close>, are moved.\<close>

fun move_above :: "nat \<Rightarrow> nat \<Rightarrow> nat list \<Rightarrow> fileheader list \<times> mdev \<Rightarrow> (fileheader list \<times> mdev) option" where
  "move_above off diff [] s = Some s"
| "move_above off diff (i # is) (f, d) = do {
     d1 \<leftarrow> moveSectors off (fh_sector (f ! i)) (fh_sectorcnt (f ! i)) diff d;
     move_above off diff is (f[i := (f ! i)\<lparr>fh_sector := (fh_sector (f ! i) + diff) mod 2 ^ 32\<rparr>], d1) }"

definition realocateFile :: "nat \<Rightarrow> nat \<Rightarrow> fileheader list \<times> mdev \<Rightarrow> (fileheader list \<times> mdev) option" where
  "realocateFile off k s = do {
     need \<leftarrow> minSectorCnt (fst s ! k);
     (if need \<le> fh_sectorcnt (fst s ! k) then Some s
      else do {
        let diff = need - fh_sectorcnt (fst s ! k);
        (f, d) \<leftarrow> move_above off diff (rev [k + 1..<length (fst s)]) s;
        d1 \<leftarrow> eraseRepeat off (fh_sector (f ! k) + fh_sectorcnt (f ! k) + diff - 1) diff d;
        Some (f[k := (f ! k)\<lparr>fh_sectorcnt := (fh_sectorcnt (f ! k) + diff) mod 2 ^ 32\<rparr>], d1) }) }"

section \<open>The new header\<close>

definition header_bytes :: "nat \<Rightarrow> nat \<Rightarrow> 8 word \<Rightarrow> bytes" where
  "header_bytes no cnt chk = le_bytes 4 (no * 2) @ le_bytes 4 cnt @ [chk, 0, 0, 0] @ magicConst"

fun write_files :: "nat \<Rightarrow> nat \<Rightarrow> fileheader list \<Rightarrow> mdev \<Rightarrow> mdev option" where
  "write_files hoff j [] d = Some d"
| "write_files hoff j (f # fs) d = do { d1 \<leftarrow> fwrite_workaround (fileheader_bytes f) (mseek (hoff + (j + 1) * HGRAIN) d); write_files hoff (j + 1) fs d1 }"

definition updateHeader :: "nat \<Rightarrow> header_old \<Rightarrow> fileheader list \<Rightarrow> mdev \<Rightarrow> mdev option" where
  "updateHeader off h f d = (let no = ix_no (ho_id h);
     chk = foldl (\<lambda>a x. a XOR calcChecksum (fileheader_bytes x)) 0 f XOR calcChecksum (header_bytes no (ho_filecnt h) 0);
     one = (\<lambda>hoff d. do { d1 \<leftarrow> fwrite_workaround (header_bytes no (ho_filecnt h) chk) (mseek hoff d); write_files hoff 0 f d1 })
     in do { d1 \<leftarrow> one off d; one (off + HEADER_SECTOR_CNT * SIZE_SECTOR) d1 })"

section \<open>Records\<close>

text \<open>Both macros have the size of an old entry, 4.\<close>

definition RECORD_OLD_OFFS :: "nat \<Rightarrow> nat \<Rightarrow> nat \<Rightarrow> nat" where
  "RECORD_OLD_OFFS sector recordsz idx = (sector * SIZE_SECTOR) mod 2 ^ 32 + idx * (recordsz + 4)"

definition RECORD_OFFS :: "nat \<Rightarrow> nat \<Rightarrow> nat \<Rightarrow> nat" where
  "RECORD_OFFS sector recordsz idx = (sector * SIZE_SECTOR) mod 2 ^ 32 + idx * (recordsz + 4)"

definition getRecord :: "nat \<Rightarrow> fileheader \<Rightarrow> nat \<Rightarrow> mdev \<Rightarrow> (nat \<times> bytes \<times> mdev) option" where
  "getRecord off f pos d = do {
     (b, d1) \<leftarrow> mread (fh_recordsz f + 4) (mseek (off + RECORD_OLD_OFFS (fh_sector f) (fh_recordsz f) pos) d);
     Some (le_val (take 4 b), drop 4 b, d1) }"

definition getRecordHeader :: "nat \<Rightarrow> fileheader \<Rightarrow> nat \<Rightarrow> mdev \<Rightarrow> (nat \<times> mdev) option" where
  "getRecordHeader off f pos d = do {
     (b, d1) \<leftarrow> mread 4 (mseek (off + RECORD_OLD_OFFS (fh_sector f) (fh_recordsz f) pos) d);
     Some (le_val b, d1) }"

text \<open>An entry: its index, its checksum and the data.\<close>

definition entry_bytes :: "nat \<Rightarrow> bytes \<Rightarrow> bytes" where
  "entry_bytes i b = le_bytes 4 i @ [calcChecksum b, 0, 0, 0] @ b"

definition writeRecord :: "nat \<Rightarrow> nat \<Rightarrow> bytes \<Rightarrow> nat \<Rightarrow> nat \<Rightarrow> mdev \<Rightarrow> mdev option" where
  "writeRecord off sector input recordsz pos d = fwrite_workaround input (mseek (off + RECORD_OFFS sector recordsz pos) d)"

fun find_latest :: "nat \<Rightarrow> fileheader \<Rightarrow> nat list \<Rightarrow> (nat \<times> nat) option \<Rightarrow> mdev \<Rightarrow> ((nat \<times> nat) option \<times> mdev) option" where
  "find_latest off f [] best d = Some (best, d)"
| "find_latest off f (i # is) best d = do {
     (ix, d1) \<leftarrow> getRecordHeader off f i d;
     find_latest off f is (if ix_nvalid ix = 0 \<and> (case best of None \<Rightarrow> True | Some (no, _) \<Rightarrow> ix_no ix > no) then Some (ix_no ix, i) else best) d1 }"

text \<open>Backwards from the latest record, around the end of the file.\<close>

function find_first :: "nat \<Rightarrow> fileheader \<Rightarrow> nat \<Rightarrow> nat \<Rightarrow> nat \<Rightarrow> nat \<Rightarrow> nat \<Rightarrow> mdev \<Rightarrow> (nat \<times> mdev) option" where
  "find_first off f cnt olidx olpos mx ofpos d =
     (if olpos \<ge> mx then None
      else (let p = (if ofpos = 0 then mx - 1 else ofpos - 1) in
        case getRecordHeader off f p d of
          None \<Rightarrow> None
        | Some (ix, d1) \<Rightarrow>
            if ix_nvalid ix \<noteq> 0 \<or> int olidx - int (ix_no ix) = int cnt - 1 then Some (if p + 1 = mx then 0 else p + 1, d1)
            else if p \<noteq> olpos then find_first off f cnt olidx olpos mx p d1
            else Some (p, d1)))"
  by pat_completeness auto
termination
  by (relation "measure (\<lambda>(off, f, cnt, olidx, olpos, mx, ofpos, d). if ofpos > olpos then ofpos - olpos else ofpos + mx - olpos)")
    (auto split: if_splits)

declare find_first.simps [simp del]

fun convert :: "nat \<Rightarrow> nat \<Rightarrow> fileheader \<Rightarrow> nat \<Rightarrow> nat \<Rightarrow> nat list \<Rightarrow> nat \<Rightarrow> mdev \<Rightarrow> mdev option" where
  "convert off free f olpos mx [] ofpos d = Some d"
| "convert off free f olpos mx (i # is) ofpos d = do {
     (ix, b, d1) \<leftarrow> getRecord off f ofpos d;
     d2 \<leftarrow> writeRecord off free (entry_bytes ix b) (fh_recordsz f) i d1;
     (if ofpos = olpos then Some d2 else convert off free f olpos mx is (if ofpos + 1 \<ge> mx then 0 else ofpos + 1) d2) }"

fun erase_range :: "nat \<Rightarrow> nat list \<Rightarrow> mdev \<Rightarrow> mdev option" where
  "erase_range off [] d = Some d"
| "erase_range off (s # ss) d = do { d1 \<leftarrow> eraseSector off s d; erase_range off ss d1 }"

fun copy_range :: "nat \<Rightarrow> nat \<Rightarrow> nat \<Rightarrow> nat list \<Rightarrow> mdev \<Rightarrow> mdev option" where
  "copy_range off dst src [] d = Some d"
| "copy_range off dst src (i # is) d = do { d1 \<leftarrow> copySector off (dst + i) (src + i) d; copy_range off dst src is d1 }"

definition updateRecords :: "nat \<Rightarrow> (nat \<Rightarrow> bool) \<Rightarrow> nat \<Rightarrow> fileheader \<Rightarrow> mdev \<Rightarrow> mdev option" where
  "updateRecords off mem free f d =
     (if fh_recordsz f = 0 \<or> \<not> mem (fh_recordsz f + 8) \<or> \<not> mem (fh_recordsz f + 4) then None
      else (let cnt = fh_filesz f div fh_recordsz f; mx = ((fh_sectorcnt f * SIZE_SECTOR) mod 2 ^ 32) div (fh_recordsz f + 4) in do {
        (best, d1) \<leftarrow> find_latest off f [0..<mx] None d;
        (case best of
           None \<Rightarrow> Some d1
         | Some (olidx, olpos) \<Rightarrow> do {
             (ofpos, d2) \<leftarrow> (if cnt \<noteq> 1 then find_first off f cnt olidx olpos mx olpos d1 else Some (olpos, d1));
             let need = (cnt * (8 + fh_recordsz f) + SIZE_SECTOR - 1) div SIZE_SECTOR;
             d3 \<leftarrow> erase_range off (map (\<lambda>i. free + i) [0..<need]) d2;
             d4 \<leftarrow> convert off free f olpos mx [0..<cnt] ofpos d3;
             d5 \<leftarrow> erase_range off (map (\<lambda>i. fh_sector f + i) [0..<fh_sectorcnt f]) d4;
             copy_range off (fh_sector f) free [0..<need] d5 }) }))"

section \<open>The program\<close>

fun realocate_all :: "nat \<Rightarrow> nat list \<Rightarrow> fileheader list \<times> mdev \<Rightarrow> (fileheader list \<times> mdev) option" where
  "realocate_all off [] s = Some s"
| "realocate_all off (i # is) s = do { s1 \<leftarrow> realocateFile off i s; realocate_all off is s1 }"

fun update_all :: "nat \<Rightarrow> (nat \<Rightarrow> bool) \<Rightarrow> nat \<Rightarrow> fileheader list \<Rightarrow> mdev \<Rightarrow> mdev option" where
  "update_all off mem free [] d = Some d"
| "update_all off mem free (f # fs) d = do { d1 \<leftarrow> updateRecords off mem free f d; update_all off mem free fs d1 }"

text \<open>From the offset of the partition on; \<open>None\<close> is a failure or a fault on the way.\<close>

definition migrate :: "nat \<Rightarrow> (nat \<Rightarrow> bool) \<Rightarrow> mdev \<Rightarrow> mdev option" where
  "migrate off mem d = do {
     (h, which, d1) \<leftarrow> getOldHeader off d;
     (if ho_magic h \<noteq> oldMagicConst then None
      else if ho_filecnt h = 0 then Some d1
      else if \<not> mem (24 * ho_filecnt h) then None
      else do {
        (f, d2) \<leftarrow> getOldFiles off which [0..<ho_filecnt h] d1;
        d3 \<leftarrow> moveSectors off (fh_sector (hd f)) (fh_sector (last f) + fh_sectorcnt (last f)) 2 d2;
        let f1 = map (\<lambda>x. x\<lparr>fh_sector := (fh_sector x + 2) mod 2 ^ 32\<rparr>) f;
        d4 \<leftarrow> eraseSector off (2 * HEADER_SECTOR_CNT) d3;
        d5 \<leftarrow> eraseSector off (2 * HEADER_SECTOR_CNT + 1) d4;
        (f2, d6) \<leftarrow> realocate_all off (rev [0..<ho_filecnt h]) (f1, d5);
        d7 \<leftarrow> updateHeader off h f2 d6;
        update_all off mem ((fh_sector (last f2) + fh_sectorcnt (last f2)) mod 2 ^ 32) f2 d7 }) }"

section \<open>Writing through whole sectors\<close>

lemma length_patch [simp]: "p + length x \<le> length s \<Longrightarrow> length (patch s p x) = length s"
  by (simp add: patch_def)

lemma nth_patch: "p + length x \<le> length s \<Longrightarrow> i < length s \<Longrightarrow> patch s p x ! i = (if p \<le> i \<and> i < p + length x then x ! (i - p) else s ! i)"
  by (auto simp: patch_def nth_append)

lemma patch_Nil [simp]: "patch s p [] = s"
  by (simp add: patch_def)

lemma patch_same: "p + n \<le> length s \<Longrightarrow> patch s p (take n (drop p s)) = s"
  by (rule nth_equalityI) (auto simp: nth_patch)

lemma patch_patch: "p + length (x @ y) \<le> length s \<Longrightarrow> patch (patch s p x) (p + length x) y = patch s p (x @ y)"
  by (rule nth_equalityI) (auto simp: nth_patch nth_append)

lemma patch_inside:
  assumes "t + n \<le> length s" "m + length x \<le> n"
  shows "patch s t (patch (take n (drop t s)) m x) = patch s (t + m) x"
  using assms by (intro nth_equalityI) (auto simp: nth_patch)

text \<open>A device of whole sectors, with room for what is written.\<close>

definition room :: "mdev \<Rightarrow> nat \<Rightarrow> bool" where
  "room d n \<longleftrightarrow> SIZE_SECTOR dvd length (md_data d) \<and> md_pos d + n \<le> length (md_data d)"

lemma sector_fits: "SIZE_SECTOR dvd n \<Longrightarrow> SIZE_SECTOR dvd p \<Longrightarrow> p < n \<Longrightarrow> p + SIZE_SECTOR \<le> n" for n p :: nat
  by (metis dvd_diff_nat dvd_imp_le le_diff_conv2 less_imp_le_nat zero_less_diff add.commute)

lemma write_head_ok:
  assumes "room d (length b)" "b \<noteq> []"
  shows "\<exists>k d1. write_head b d = Some (drop k b, d1) \<and> k \<le> length b \<and> md_data d1 = patch (md_data d) (md_pos d) (take k b)
    \<and> (k < length b \<longrightarrow> md_pos d1 = md_pos d + k \<and> SIZE_SECTOR dvd md_pos d1)"
proof (cases "md_pos d mod SIZE_SECTOR = 0")
  case True
  then show ?thesis by (intro exI [of _ 0] exI [of _ d]) (auto simp: write_head_def)
next
  case False
  define mis where "mis = md_pos d mod SIZE_SECTOR"
  define tmp where "tmp = md_pos d - mis"
  define k where "k = min (SIZE_SECTOR - mis) (length b)"
  have mis: "0 < mis" "mis < SIZE_SECTOR" "tmp + mis = md_pos d" "SIZE_SECTOR dvd tmp"
    using False by (auto simp: mis_def tmp_def)
  have r: "SIZE_SECTOR dvd length (md_data d)" "md_pos d + length b \<le> length (md_data d)" using assms(1) by (auto simp: room_def)
  have "tmp < length (md_data d)" using r(2) assms(2) mis(3) by (cases b) auto
  then have fit: "tmp + SIZE_SECTOR \<le> length (md_data d)" using sector_fits [OF r(1) mis(4)] by simp
  define chunk where "chunk = take SIZE_SECTOR (drop tmp (md_data d))"
  have k: "mis + length (take k b) \<le> SIZE_SECTOR" "k \<le> length b" using mis(2) by (auto simp: k_def)
  have lc: "length (patch chunk mis (take k b)) = SIZE_SECTOR" using k fit by (simp add: chunk_def)
  define d1 where "d1 = \<lparr>md_data = patch (md_data d) (md_pos d) (take k b), md_pos = tmp + SIZE_SECTOR\<rparr>"
  have "patch (md_data d) tmp (patch chunk mis (take k b)) = patch (md_data d) (md_pos d) (take k b)"
    using patch_inside [OF fit k(1)] mis(3) by (simp add: chunk_def)
  then have "write_head b d = Some (drop k b, d1)"
    unfolding write_head_def Let_def mis_def [symmetric] tmp_def [symmetric] k_def [symmetric]
    using mis(1) fit lc by (simp add: mread_def mseek_def mwrite_def chunk_def [symmetric] d1_def)
  moreover have "k < length b \<longrightarrow> md_pos d1 = md_pos d + k \<and> SIZE_SECTOR dvd md_pos d1"
    using mis by (auto simp: d1_def k_def min_def)
  ultimately show ?thesis using k(2) by (auto simp: d1_def)
qed

lemma write_sectors_ok:
  assumes "md_pos d + length b \<le> length (md_data d)"
  shows "\<exists>q. write_sectors b d = Some (drop q b, \<lparr>md_data = patch (md_data d) (md_pos d) (take q b), md_pos = md_pos d + q\<rparr>)
    \<and> q \<le> length b \<and> length b - q < SIZE_SECTOR \<and> SIZE_SECTOR dvd q"
  using assms
proof (induction b d rule: write_sectors.induct)
  case (1 b d)
  show ?case
  proof (cases "length b \<ge> SIZE_SECTOR")
    case True
    define x where "x = take SIZE_SECTOR b"
    have x: "length x = SIZE_SECTOR" "b = x @ drop SIZE_SECTOR b" using True by (simp_all add: x_def)
    define d1 where "d1 = \<lparr>md_data = patch (md_data d) (md_pos d) x, md_pos = md_pos d + SIZE_SECTOR\<rparr>"
    have w: "mwrite x d = Some d1" using 1(2) True x(1) by (simp add: mwrite_def d1_def)
    have l1: "length (md_data d1) = length (md_data d)" using 1(2) True x(1) by (simp add: d1_def)
    obtain q where q: "write_sectors (drop SIZE_SECTOR b) d1 = Some (drop q (drop SIZE_SECTOR b), \<lparr>md_data = patch (md_data d1) (md_pos d1) (take q (drop SIZE_SECTOR b)), md_pos = md_pos d1 + q\<rparr>)"
      "q \<le> length (drop SIZE_SECTOR b)" "length (drop SIZE_SECTOR b) - q < SIZE_SECTOR" "SIZE_SECTOR dvd q"
      using 1(1) [OF True w [unfolded x_def]] 1(2) True l1 by (auto simp: d1_def)
    have "patch (md_data d1) (md_pos d1) (take q (drop SIZE_SECTOR b)) = patch (md_data d) (md_pos d) (take (SIZE_SECTOR + q) b)"
      using patch_patch [of "md_pos d" x "take q (drop SIZE_SECTOR b)" "md_data d"] 1(2) q(2) x(1) True by (simp add: d1_def take_add x_def)
    then show ?thesis using True w q unfolding x_def
      by (subst write_sectors.simps) (intro exI [of _ "SIZE_SECTOR + q"], simp add: d1_def add.commute add.left_commute)
  next
    case False
    then show ?thesis by (intro exI [of _ 0]) (subst write_sectors.simps, simp)
  qed
qed

lemma write_tail_ok:
  assumes "room d (length b)" "SIZE_SECTOR dvd md_pos d \<or> b = []" "length b < SIZE_SECTOR"
  shows "\<exists>d1. write_tail b d = Some d1 \<and> md_data d1 = patch (md_data d) (md_pos d) b"
proof (cases "b = []")
  case False
  then have "md_pos d < length (md_data d)" using assms(1) by (cases b) (auto simp: room_def)
  then have fit: "md_pos d + SIZE_SECTOR \<le> length (md_data d)" using sector_fits assms(1,2) False by (auto simp: room_def)
  have "patch (md_data d) (md_pos d) (patch (take SIZE_SECTOR (drop (md_pos d) (md_data d))) 0 b) = patch (md_data d) (md_pos d) b"
    using patch_inside [OF fit, of 0 b] assms(3) by simp
  then show ?thesis using False fit assms(3) by (simp add: write_tail_def mread_def mseek_def mwrite_def)
qed (simp add: write_tail_def)

lemma workaround_eq:
  assumes "room d (length b)"
  shows "fwrite_workaround b d = Some \<lparr>md_data = patch (md_data d) (md_pos d) b, md_pos = md_pos d + length b\<rparr>"
proof (cases "b = []")
  case True
  have sim: "\<exists>d1. write_head [] d = Some ([], d1) \<and> md_data d1 = md_data d"
  proof (cases "md_pos d mod SIZE_SECTOR = 0")
    case False
    define tmp where "tmp = md_pos d - md_pos d mod SIZE_SECTOR"
    have t: "SIZE_SECTOR dvd tmp" "tmp < md_pos d" using False by (simp_all add: tmp_def)
    then have fit: "tmp + SIZE_SECTOR \<le> length (md_data d)" using sector_fits [of "length (md_data d)" tmp] assms by (simp add: room_def)
    then show ?thesis using False by (simp add: write_head_def Let_def tmp_def [symmetric] mread_def mseek_def mwrite_def patch_same)
  qed (simp add: write_head_def)
  then show ?thesis using True by (auto simp: fwrite_workaround_def write_sectors.simps write_tail_def mseek_def)
next
  case False
  obtain k d1 where h: "write_head b d = Some (drop k b, d1)" "k \<le> length b" "md_data d1 = patch (md_data d) (md_pos d) (take k b)"
    "k < length b \<longrightarrow> md_pos d1 = md_pos d + k \<and> SIZE_SECTOR dvd md_pos d1"
    using write_head_ok [OF assms False] by blast
  have r: "SIZE_SECTOR dvd length (md_data d)" "md_pos d + length b \<le> length (md_data d)" using assms by (auto simp: room_def)
  have l1: "length (md_data d1) = length (md_data d)" using h(2,3) r(2) by simp
  show ?thesis
  proof (cases "k = length b")
    case True
    then show ?thesis using h by (simp add: fwrite_workaround_def write_sectors.simps write_tail_def mseek_def)
  next
    case k: False
    define c where "c = drop k b"
    have p1: "md_pos d1 = md_pos d + k" "SIZE_SECTOR dvd md_pos d1" using h(2,4) k by auto
    obtain q where q: "write_sectors c d1 = Some (drop q c, \<lparr>md_data = patch (md_data d1) (md_pos d1) (take q c), md_pos = md_pos d1 + q\<rparr>)"
      "q \<le> length c" "length c - q < SIZE_SECTOR" "SIZE_SECTOR dvd q"
      using write_sectors_ok [of d1 c] p1 r(2) l1 h(2) by (auto simp: c_def)
    define d2 where "d2 = \<lparr>md_data = patch (md_data d1) (md_pos d1) (take q c), md_pos = md_pos d1 + q\<rparr>"
    have lq: "md_pos d1 + length c \<le> length (md_data d1)" using p1(1) r(2) l1 h(2) by (simp add: c_def)
    have "room d2 (length (drop q c))" "SIZE_SECTOR dvd md_pos d2" using lq r(1) l1 q(2,4) p1(2) by (auto simp: room_def d2_def)
    then obtain d3 where t: "write_tail (drop q c) d2 = Some d3" "md_data d3 = patch (md_data d2) (md_pos d2) (drop q c)"
      using write_tail_ok [of d2 "drop q c"] q(2,3) by auto
    have "md_data d3 = patch (md_data d1) (md_pos d1) c"
      using patch_patch [of "md_pos d1" "take q c" "drop q c" "md_data d1"] lq q(2) t(2) by (simp add: d2_def)
    also have "\<dots> = patch (md_data d) (md_pos d) (take k b @ c)"
      using patch_patch [of "md_pos d" "take k b" c "md_data d"] h(2,3) p1(1) r(2) by (simp add: c_def)
    finally have "md_data d3 = patch (md_data d) (md_pos d) b" by (simp add: c_def)
    then show ?thesis using h(1) q(1) t(1) by (simp add: fwrite_workaround_def c_def [symmetric] d2_def [symmetric] mseek_def)
  qed
qed


text \<open>
  C37: On a device of whole sectors, \<open>fwrite_workaround\<close>, which reads, changes and writes whole sectors, does for any position and
  any length that fits what one write would do: the same bytes change, nothing else, and the position is behind them.
\<close>

theorem fwrite_workaround_equiv:
  assumes "SIZE_SECTOR dvd length (md_data d)" "md_pos d + length b \<le> length (md_data d)"
  shows "fwrite_workaround b d = mwrite b d \<and> mwrite b d \<noteq> None"
  using workaround_eq [of d b] assms by (simp add: room_def mwrite_def)

theorem fwrite_workaround_equiv_witness:
  "let d = \<lparr>md_data = replicate 8192 0, md_pos = 4095\<rparr>; b = [1, 2, 3] in fwrite_workaround b d = mwrite b d \<and> mwrite b d \<noteq> None"
  unfolding Let_def by (rule fwrite_workaround_equiv) simp_all

section \<open>Moving sectors\<close>

lemma copySector_ok:
  assumes "SIZE_SECTOR dvd length (md_data d)" "off + (dest + 1) * SIZE_SECTOR \<le> length (md_data d)" "off + (src + 1) * SIZE_SECTOR \<le> length (md_data d)"
    "dest * SIZE_SECTOR < 2 ^ 32" "src * SIZE_SECTOR < 2 ^ 32"
  shows "\<exists>p. copySector off dest src d
    = Some \<lparr>md_data = patch (md_data d) (off + dest * SIZE_SECTOR) (take SIZE_SECTOR (drop (off + src * SIZE_SECTOR) (md_data d))), md_pos = p\<rparr>"
proof -
  define b where "b = take SIZE_SECTOR (drop (off + src * SIZE_SECTOR) (md_data d))"
  define d1 where "d1 = \<lparr>md_data = md_data d, md_pos = off + dest * SIZE_SECTOR\<rparr>"
  have b: "length b = SIZE_SECTOR" using assms(3) by (simp add: b_def)
  have so: "sector_off off src = off + src * SIZE_SECTOR" "sector_off off dest = off + dest * SIZE_SECTOR"
    using assms(4,5) by (simp_all add: sector_off_def)
  have "mread SIZE_SECTOR (mseek (sector_off off src) d) = Some (b, \<lparr>md_data = md_data d, md_pos = off + src * SIZE_SECTOR + SIZE_SECTOR\<rparr>)"
    unfolding so using assms(3) by (cases d) (simp add: mread_def mseek_def b_def)
  then have "copySector off dest src d = fwrite_workaround b d1" unfolding copySector_def so by (simp add: mseek_def d1_def)
  moreover have "room d1 (length b)" using assms(1,2) b by (simp add: room_def d1_def)
  ultimately show ?thesis using workaround_eq [of d1 b] by (simp add: d1_def b_def)
qed

text \<open>
  Areas may overlap: the sectors arrive above as they were, since the last one is moved first. The count is one
  more than the parameter says.
\<close>

lemma moveSectors_ok:
  assumes "SIZE_SECTOR dvd length (md_data d)" "off + (from + n + diff + 1) * SIZE_SECTOR \<le> length (md_data d)" "(from + n + diff) * SIZE_SECTOR < 2 ^ 32"
  shows "\<exists>p. moveSectors off from n diff d = Some \<lparr>md_data = patch (md_data d) (off + (from + diff) * SIZE_SECTOR)
    (take ((n + 1) * SIZE_SECTOR) (drop (off + from * SIZE_SECTOR) (md_data d))), md_pos = p\<rparr>"
  using assms
proof (induction n arbitrary: d)
  case 0
  then show ?case using copySector_ok [of d off "from + diff" "from"] by simp
next
  case (Suc n)
  define s where "s = md_data d"
  define P where "P = off + (from + diff) * SIZE_SECTOR"
  define Q where "Q = off + from * SIZE_SECTOR"
  define N where "N = (n + 1) * SIZE_SECTOR"
  define top where "top = take SIZE_SECTOR (drop (Q + N) s)"
  have fit: "P + N + SIZE_SECTOR \<le> length s" "Q \<le> P" using Suc(3) by (simp_all add: P_def N_def s_def Q_def algebra_simps)
  then have lt: "length top = SIZE_SECTOR" by (simp add: top_def)
  obtain p where "copySector off (from + Suc n + diff) (from + Suc n) d
      = Some \<lparr>md_data = patch s (off + (from + Suc n + diff) * SIZE_SECTOR) (take SIZE_SECTOR (drop (off + (from + Suc n) * SIZE_SECTOR) s)), md_pos = p\<rparr>"
    using copySector_ok [of d off "from + Suc n + diff" "from + Suc n"] Suc(2-4) by (auto simp: s_def)
  moreover have "off + (from + Suc n + diff) * SIZE_SECTOR = P + N" "off + (from + Suc n) * SIZE_SECTOR = Q + N" by (simp_all add: P_def N_def Q_def algebra_simps)
  ultimately have c: "copySector off (from + Suc n + diff) (from + Suc n) d = Some \<lparr>md_data = patch s (P + N) top, md_pos = p\<rparr>"
    by (simp add: top_def)
  have l: "length (patch s (P + N) top) = length s" using fit lt by simp
  then obtain p' where "moveSectors off from n diff \<lparr>md_data = patch s (P + N) top, md_pos = p\<rparr>
      = Some \<lparr>md_data = patch (patch s (P + N) top) P (take N (drop Q (patch s (P + N) top))), md_pos = p'\<rparr>"
    using Suc(1) [of "\<lparr>md_data = patch s (P + N) top, md_pos = p\<rparr>"] Suc(2-4) by (auto simp: s_def P_def Q_def N_def)
  moreover have "patch (patch s (P + N) top) P (take N (drop Q (patch s (P + N) top))) = patch s P (take (N + SIZE_SECTOR) (drop Q s))"
    using fit l lt by (intro nth_equalityI) (auto simp: nth_patch top_def)
  moreover have "(Suc n + 1) * SIZE_SECTOR = N + SIZE_SECTOR" by (simp add: N_def)
  ultimately show ?case using c by (simp add: s_def P_def Q_def add.commute [of SIZE_SECTOR N])
qed

section \<open>Converted records\<close>

lemma length_le_bytes [simp]: "length (le_bytes k n) = k"
  by (induction k arbitrary: n) auto

lemma length_entry [simp]: "length (entry_bytes i b) = length b + 8"
  by (simp add: entry_bytes_def)

text \<open>
  C38: Converted records are written with the stride of the old format, which is 4 bytes less than their length: of two records
  written one after the other, the first one ends, where the last 4 bytes of its data should be, with the index of
  the second one.
\<close>

theorem writeRecord_overlaps:
  assumes "SIZE_SECTOR dvd length (md_data d)" "length b0 = rs" "length b1 = rs" "4 \<le> rs" "off + RECORD_OFFS sec rs i + 2 * (rs + 8) \<le> length (md_data d)"
  shows "\<exists>d1 d2. writeRecord off sec (entry_bytes i0 b0) rs i d = Some d1 \<and> writeRecord off sec (entry_bytes i1 b1) rs (i + 1) d1 = Some d2
    \<and> take (rs + 8) (drop (off + RECORD_OFFS sec rs i) (md_data d2)) = take (rs + 4) (entry_bytes i0 b0) @ le_bytes 4 i1"
proof -
  define p where "p = off + RECORD_OFFS sec rs i"
  have p1: "off + RECORD_OFFS sec rs (i + 1) = p + (rs + 4)" by (simp add: p_def RECORD_OFFS_def)
  define d1 where "d1 = \<lparr>md_data = patch (md_data d) p (entry_bytes i0 b0), md_pos = p + (rs + 8)\<rparr>"
  have fit: "p + 2 * (rs + 8) \<le> length (md_data d)" using assms(5) by (simp add: p_def)
  have w1: "writeRecord off sec (entry_bytes i0 b0) rs i d = Some d1"
    using workaround_eq [of "mseek p d" "entry_bytes i0 b0"] assms(1,2) fit by (simp add: writeRecord_def room_def mseek_def p_def [symmetric] d1_def)
  have l1: "length (md_data d1) = length (md_data d)" using fit assms(2) by (simp add: d1_def)
  define d2 where "d2 = \<lparr>md_data = patch (md_data d1) (p + (rs + 4)) (entry_bytes i1 b1), md_pos = p + (rs + 4) + (rs + 8)\<rparr>"
  have w2: "writeRecord off sec (entry_bytes i1 b1) rs (i + 1) d1 = Some d2"
    using workaround_eq [of "mseek (p + (rs + 4)) d1" "entry_bytes i1 b1"] assms(1,3) fit l1
    unfolding writeRecord_def p1 by (simp add: room_def mseek_def d2_def)
  have "take (rs + 8) (drop p (md_data d2)) = take (rs + 4) (entry_bytes i0 b0) @ le_bytes 4 i1"
  proof (rule nth_equalityI)
    show "length (take (rs + 8) (drop p (md_data d2))) = length (take (rs + 4) (entry_bytes i0 b0) @ le_bytes 4 i1)"
      using fit l1 assms(2,3) by (simp add: d2_def)
    fix j assume "j < length (take (rs + 8) (drop p (md_data d2)))"
    then have j: "j < rs + 8" "p + j < length (md_data d)" using fit by auto
    have "take (rs + 8) (drop p (md_data d2)) ! j = md_data d2 ! (p + j)" using j fit l1 assms(3) by (simp add: d2_def)
    also have "\<dots> = (if rs + 4 \<le> j then entry_bytes i1 b1 ! (j - (rs + 4)) else entry_bytes i0 b0 ! j)"
      using j fit l1 assms(2,3) by (auto simp: d2_def d1_def nth_patch)
    also have "\<dots> = (take (rs + 4) (entry_bytes i0 b0) @ le_bytes 4 i1) ! j"
      using j assms(2) by (auto simp: nth_append entry_bytes_def [of i1])
    finally show "take (rs + 8) (drop p (md_data d2)) ! j = (take (rs + 4) (entry_bytes i0 b0) @ le_bytes 4 i1) ! j" .
  qed
  then show ?thesis using w1 w2 by (simp add: p_def)
qed

definition demo_device :: mdev where
  "demo_device = \<lparr>md_data = replicate 8192 0, md_pos = 0\<rparr>"

theorem writeRecord_overlaps_witness:
  "\<exists>d1 d2. writeRecord 0 1 (entry_bytes 2 [1, 2, 3, 4]) 4 0 demo_device = Some d1 \<and> writeRecord 0 1 (entry_bytes 4 [5, 6, 7, 8]) 4 (0 + 1) d1 = Some d2
    \<and> take (4 + 8) (drop (0 + RECORD_OFFS 1 4 0) (md_data d2)) = take (4 + 4) (entry_bytes 2 [1, 2, 3, 4]) @ le_bytes 4 4"
  by (rule writeRecord_overlaps) (simp_all add: demo_device_def RECORD_OFFS_def)

text \<open>When the file is enlarged by several sectors only the last of them is erased, again and again.\<close>

lemma eraseRepeat_one:
  assumes "SIZE_SECTOR dvd length (md_data d)" "sector_off off s + SIZE_SECTOR \<le> length (md_data d)"
  shows "\<exists>p. eraseRepeat off s (Suc n) d = Some \<lparr>md_data = patch (md_data d) (sector_off off s) (replicate SIZE_SECTOR 0xff), md_pos = p\<rparr>"
  using assms
proof (induction n arbitrary: d)
  case 0
  then show ?case using workaround_eq [of "mseek (sector_off off s) d" "replicate SIZE_SECTOR 0xff"] by (simp add: eraseSector_def room_def mseek_def)
next
  case (Suc n)
  define e where "e = (replicate SIZE_SECTOR 0xff :: bytes)"
  define d1 where "d1 = \<lparr>md_data = patch (md_data d) (sector_off off s) e, md_pos = sector_off off s + SIZE_SECTOR\<rparr>"
  have le: "length e = SIZE_SECTOR" by (simp add: e_def)
  have one: "eraseSector off s d = Some d1"
    using workaround_eq [of "mseek (sector_off off s) d" e] Suc(2,3) le unfolding eraseSector_def e_def [symmetric] by (simp add: room_def mseek_def d1_def)
  have l1: "length (md_data d1) = length (md_data d)" using Suc(3) le by (simp add: d1_def)
  have "patch (md_data d1) (sector_off off s) e = patch (md_data d) (sector_off off s) e"
    using Suc(3) l1 le by (intro nth_equalityI) (auto simp: nth_patch d1_def)
  then show ?case using Suc(1) [of d1, folded e_def] Suc(2,3) l1 one unfolding e_def [symmetric] by (subst eraseRepeat.simps) simp
qed


end
