(* ===== verification/Smallapps.thy ===== *)
theory Smallapps
  imports Wget Dd
begin

text \<open>
  The applets \<open>cat\<close> (\<open>src/psh/cat/cat.c\<close>) and \<open>kill\<close> (\<open>src/psh/kill/kill.c\<close>). The files, the results of the calls and the
  numbers of the signals are parameters.
\<close>

section \<open>cat\<close>

text \<open>A file: whether it exists and is a directory, opens, what each \<open>fread\<close> gives with the stop flags before it, and \<open>ferror\<close>.\<close>

record catfile =
  cf_stat :: "bool option"
  cf_open :: bool
  cf_reads :: "(bool \<times> string) list"
  cf_error :: bool

record catenv =
  ca_file :: "string \<Rightarrow> catfile"
  ca_stop :: "nat \<Rightarrow> bool"
  ca_malloc :: bool
  ca_fwrite :: "nat \<Rightarrow> nat \<Rightarrow> nat"

text \<open>The inner loop: success and the output so far.\<close>

function cat_write :: "catenv \<Rightarrow> string \<Rightarrow> string \<Rightarrow> bool \<times> string" where
  "cat_write env b out =
     (let r = min (ca_fwrite env (length out) (length b)) (length b) in
      if r = 0 then (False, out)
      else if r < length b then cat_write env (drop r b) (out @ take r b)
      else (True, out @ b))"
  by pat_completeness auto
termination by (relation "measure (\<lambda>(env, b, out). length b)") auto

declare cat_write.simps [simp del]

fun cat_read :: "catenv \<Rightarrow> bool \<Rightarrow> (bool \<times> string) list \<Rightarrow> int \<times> string \<Rightarrow> int \<times> string" where
  "cat_read env err [] (ret, out) = (if err then 1 else ret, out)"
| "cat_read env err (x # xs) (ret, out) =
     (if fst x then (ret, out)
      else if snd x = [] then (if err then 1 else ret, out)
      else (case cat_write env (snd x) out of (ok, out1) \<Rightarrow> cat_read env err xs (if ok then ret else 1, out1)))"

fun cat_files :: "catenv \<Rightarrow> nat \<Rightarrow> string list \<Rightarrow> int \<times> string \<Rightarrow> int \<times> string" where
  "cat_files env i [] s = s"
| "cat_files env i (a # as) s =
     (if ca_stop env i then s
      else (let f = ca_file env a in
        if cf_stat f \<noteq> Some False \<or> \<not> cf_open f then cat_files env (i + 1) as (1, snd s)
        else cat_files env (i + 1) as (cat_read env (cf_error f) (cf_reads f) s)))"

definition psh_cat :: "catenv \<Rightarrow> string list \<Rightarrow> int \<times> string" where
  "psh_cat env argv = (case getopt_scan ''h'' (tl argv) of (evs, args) \<Rightarrow>
     (case evs of
        [] \<Rightarrow> if \<not> ca_malloc env then (1, []) else cat_files env 0 args (0, [])
      | Opt _ _ # _ \<Rightarrow> (0, [])
      | OptErr _ # _ \<Rightarrow> (1, [])))"

text \<open>With an output that accepts at least one byte at a time, \<open>cat\<close> prints its files one after the other.\<close>

lemma cat_write_all:
  assumes "\<And>p n. 0 < n \<Longrightarrow> 0 < ca_fwrite env p n" "b \<noteq> []"
  shows "cat_write env b out = (True, out @ b)"
  using assms
proof (induction env b out rule: cat_write.induct)
  case (1 env b out)
  define r where "r = min (ca_fwrite env (length out) (length b)) (length b)"
  have r: "r \<noteq> 0" using 1(2) [of "length b" "length out"] 1(3) by (simp add: r_def)
  show ?case
  proof (cases "r < length b")
    case True
    then have "cat_write env (drop r b) (out @ take r b) = (True, (out @ take r b) @ drop r b)" using 1(1) [OF r_def r] 1(2) by auto
    then show ?thesis using r True by (subst cat_write.simps) (simp add: r_def [symmetric] Let_def)
  next
    case False
    then show ?thesis using r by (subst cat_write.simps) (simp add: r_def [symmetric] Let_def)
  qed
qed

definition cat_ok :: "catenv \<Rightarrow> string \<Rightarrow> string list \<Rightarrow> bool" where
  "cat_ok env a bs \<longleftrightarrow> cf_stat (ca_file env a) = Some False \<and> cf_open (ca_file env a) \<and> \<not> cf_error (ca_file env a) \<and> [] \<notin> set bs
     \<and> cf_reads (ca_file env a) = map (Pair False) bs"

lemma cat_prints_files:
  assumes "\<And>p n. 0 < n \<Longrightarrow> 0 < ca_fwrite env p n" "\<And>i. \<not> ca_stop env i" "list_all2 (cat_ok env) as bss"
  shows "cat_files env i as (0, out) = (0, out @ concat (map concat bss))"
  using assms(3)
proof (induction as bss arbitrary: i out rule: list_all2_induct)
  case (Cons a as bs bss)
  have "cat_read env False (map (Pair False) bs) (0, o1) = (0, o1 @ concat bs)" if "[] \<notin> set bs" for o1
    using that
  proof (induction bs arbitrary: o1)
    case (Cons b bs)
    then show ?case using cat_write_all [of env b, OF assms(1)] by auto
  qed simp
  then show ?case using Cons assms(2) by (simp add: cat_ok_def Let_def)
qed simp

section \<open>kill\<close>

record killenv =
  ke_signal :: "string \<Rightarrow> int option"
  ke_einval :: bool
  ke_kill :: "int \<Rightarrow> int \<Rightarrow> bool"

abbreviation (input) sigNames :: "string list" where
  "sigNames \<equiv> [''HUP'', ''INT'', ''QUIT'', ''ILL'', ''TRAP'', ''ABRT'', ''EMT'', ''FPE'', ''KILL'', ''BUS'', ''SEGV'', ''SYS'', ''PIPE'', ''ALRM'', ''TERM'',
    ''USR1'', ''USR2'', ''CHLD'', ''WINCH'', ''URG'', ''IO'', ''STOP'', ''TSTP'', ''CONT'', ''TTIN'', ''TTOU'', ''VTALRM'', ''PROF'', ''XCPU'', ''XFSZ'', ''INFO'']"

definition signalByName :: "killenv \<Rightarrow> string \<Rightarrow> int" where
  "signalByName env name = (let n = (if take 3 name = ''SIG'' then drop 3 name else name) in
     if n \<in> set sigNames then (case ke_signal env n of Some s \<Rightarrow> s | None \<Rightarrow> -1) else -1)"

text \<open>The result and the signals sent.\<close>

fun kill_all :: "killenv \<Rightarrow> int \<Rightarrow> string list \<Rightarrow> int \<times> (int \<times> int) list" where
  "kill_all env s [] = (0, [])"
| "kill_all env s (a # as) = (case strtol10 a of (v, e) \<Rightarrow>
     let pid = to_int v in
     if (a \<noteq> [] \<and> hd a = CHR ''-'') \<or> e \<noteq> [] \<or> (pid = 0 \<and> e = a \<and> ke_einval env) then (1, [])
     else if \<not> ke_kill env pid s then (1, [])
     else (case kill_all env s as of (r, sent) \<Rightarrow> (r, (pid, s) # sent)))"

definition kill_signal :: "killenv \<Rightarrow> string \<Rightarrow> int option" where
  "kill_signal env arg = (case strtoul10 arg of (v, e) \<Rightarrow>
     if e = [] then Some (to_int v)
     else if signalByName env arg < 0 then None else Some (signalByName env arg))"

definition psh_killMain :: "killenv \<Rightarrow> string list \<Rightarrow> int \<times> (int \<times> int) list" where
  "psh_killMain env argv =
     (if length argv \<le> 1 then (1, [])
      else if argv ! 1 \<noteq> [] \<and> hd (argv ! 1) = CHR ''-'' then
        (let a = argv ! 1; s = (length a > 1 \<and> a ! 1 = CHR ''s'') in
         if s \<and> length a > 2 then (1, [])
         else if length argv \<le> (if s then 3 else 2) \<or> length a = 1 \<or> a ! 1 = CHR ''-'' then (1, [])
         else (case kill_signal env (if s then argv ! 2 else tl a) of
             None \<Rightarrow> (1, [])
           | Some sg \<Rightarrow> kill_all env sg (drop (if s then 3 else 2) argv)))
      else kill_all env (signalByName env ''TERM'') (tl argv))"

text \<open>The prefix \<open>SIG\<close> makes no difference, and the signal goes to every process named by its number.\<close>

lemma signalByName_prefix: "take 3 n \<noteq> ''SIG'' \<Longrightarrow> signalByName env (''SIG'' @ n) = signalByName env n"
  by (simp add: signalByName_def)

lemma strtol10_number: "n < 2 ^ 31 \<Longrightarrow> strtol10 (dec n) = (int n, [])"
proof -
  assume n: "n < 2 ^ 31"
  obtain c cs where d: "dec n = c # cs" using dec_hd [of n] by (cases "dec n") auto
  have c: "digit_val c < 10" using dec_digits [of n] d by auto
  have "digits 10 0 (dec n) = (n, [])" using digits_all [OF dec_digits [of n], of 0 "[]"] by (simp add: dec_value)
  then show ?thesis using c digit_not_blank [OF c] n unfolding d strtol10_def by (simp add: Let_def)
qed

lemma kill_signals_all:
  assumes "\<forall>p \<in> set ps. p < 2 ^ 31 \<and> ke_kill env (int p) s"
  shows "kill_all env s (map dec ps) = (0, map (\<lambda>p. (int p, s)) ps)"
  using assms
proof (induction ps)
  case (Cons p ps)
  have "strtol10 (dec p) = (int p, [])" "to_int (int p) = int p" using Cons(2) strtol10_number [of p] by (auto simp: to_int_def)
  moreover have "dec p \<noteq> []" "hd (dec p) \<noteq> CHR ''-''" using dec_hd [of p] dec_digits [of p] digit_not_blank by (cases "dec p"; auto)+
  ultimately show ?case using Cons by simp
qed simp

end
