(* ===== verification/Spec2Isabelle.thy ===== *)
theory Spec2Isabelle
  imports Shell Auth Copyproofs Nandpart Chmod Dd Texteditsession Ping Lowmemd Profev Lsproofs Wgetproofs Ntp Hd Migrate Smallapps
begin

text \<open>
  A verification library for the Phoenix-RTOS utilities (\<open>phoenix-rtos-utils\<close>).

  \<^bold>\<open>The program.\<close> The repository holds the shell \<open>psh\<close> with its applets, and stand-alone tools. The
  shell is one program: \<open>src/psh/psh.c\<close> keeps the registry of applets and has \<open>main\<close>;
  \<open>src/psh/pshapp/pshapp.c\<close> is the interactive shell (line editor, history, path completion,
  command parsing, redirections, scripts, command loop); \<open>auth.c\<close> and \<open>env.c\<close> beside it are the login and the
  environment applets. Of the other applets \<open>chmod\<close>, \<open>dd\<close>, \<open>ls\<close>, \<open>hd\<close>, \<open>cat\<close>, \<open>cp\<close>, \<open>mv\<close>, \<open>mkdir\<close>, \<open>rmdir\<close>,
  \<open>rm\<close>, \<open>ln\<close>, \<open>kill\<close>, the text editor \<open>edit\<close>, \<open>ping\<close>, \<open>wget\<close> and \<open>ntpclient\<close> are modelled. Of the tools,
  four are: the NAND partition utility \<open>src/nandpart\<close>, which moves partitions block by block on a device with
  bad blocks and edits the partition table; \<open>src/lowmemd\<close>, which kills the largest process when memory runs
  out; \<open>src/prof/event.c\<close>, which reads the streams of trace events for the profiler; and \<open>src/meterfs-migrate\<close>, which
  converts a partition in place.

  \<^bold>\<open>How the code is modelled.\<close> C functions are HOL functions on explicit states. Structs are records,
  enumerations are datatypes. A result type \<open>option\<close> has \<open>None\<close> for a fault of the C program: an access
  outside a buffer, a double free, a null pointer, an overflow of signed arithmetic. Error codes are
  the integers the code returns. Machine integers are checked or wrap where that matters: \<open>psh_prefix\<close> has
  checked 32 bit arithmetic, the partition offsets are \<open>32 word\<close>. What is not in the repository (libc
  allocation, terminal and file system calls, the password database, the flash server, libptable) is a
  parameter, and the hypotheses of the theorems say what is relied on.

  \<^bold>\<open>Theories\<close>, in the order of their imports:

  \<^item> \<open>Prelude\<close>: error codes, C strings and buffers with bounds (\<open>peek\<close>, \<open>poke\<close>, \<open>cslice\<close>, \<open>memcpy\<close>,
    \<open>strcmp\<close>) and the collections of simplification rules.
  \<^item> \<open>Getopt\<close>: the \<open>getopt\<close> loop. \<open>Apps\<close>: the registry (\<open>psh_registerapp\<close>, \<open>psh_findapp\<close>), with the locale
    \<open>command_table\<close> for what a client of a look-up table relies on and its interpretation \<open>applist\<close>.
  \<^item> \<open>Numfmt\<close>: \<open>psh_mod\<close> to \<open>psh_prefix\<close>; no overflow, and the printed number is the rounded one.
  \<^item> \<open>History\<close>: the ring of commands with ownership of their buffers, refined to a bounded log; the locale
    \<open>line_log\<close> states that log, the interpretation \<open>ring\<close> discharges it for the ring; the \<open>history\<close> applet.
  \<^item> \<open>Keys\<close>: cursor movement and key decoding. \<open>Complete\<close>: path completion and the table of candidates.
  \<^item> \<open>LineEdit\<close>, \<open>EditProofs\<close>, \<open>EditLoop\<close>: \<open>psh_readcmd\<close>. One definition per key; the state invariant \<open>ed_inv\<close>,
    the refinement of every key to an abstract editor, safety for every input without the three keys
    whose defect is shown, and browsing the history. Path completion relies on two conditions of its own:
    \<open>resolve_ok\<close> on the buffer of \<open>resolve_path\<close>, and \<open>hints_fit\<close>, without which \<open>psh_printfiles\<close> reads widths that
    were never written (\<open>psh_printfiles_uninitialised\<close>).
  \<^item> \<open>Parse\<close>: \<open>strtok\<close> and \<open>psh_parsecmd\<close>; the words of a line, and that a stored line keeps its words.
  \<^item> \<open>Redirect\<close>: the descriptor table and the redirections; parsing, redirecting and restoring is a round
    trip, also around an applet that changes the standard streams, and succeeds when more than six descriptors are
    free (\<open>fd_room\<close>).
  \<^item> \<open>Script\<close>: \<open>psh_runscript\<close>. \<open>Env\<close>: \<open>export\<close>, \<open>unset\<close>. \<open>Tty\<close>: \<open>psh_write\<close>, \<open>psh_read\<close>,
    \<open>psh_ttyopen\<close>, the applet \<open>tty\<close> and \<open>main\<close>, whose login loop has a result for every finite part of its
    endless run. \<open>Auth\<close>: \<open>psh_auth\<close>, from its options and the attempts to open the console to the check.
  \<^item> \<open>Shell\<close>: \<open>psh_run\<close> composes the line editor's result, \<open>psh_parsecmd\<close>, the history, the redirections
    and the dispatch; \<open>psh_pshapp\<close> starts it. An applet is any function of its arguments, the descriptor table and the
    history; \<open>applet_ok\<close> is what the shell relies on, shown for \<open>exit\<close> and \<open>tty\<close>. The theorems that span these components are here: a whole
    session, the life of one command, recalling a command.
  \<^item> \<open>Flash\<close>: \<open>flashmng.c\<close> and the copy loops of \<open>nandpart.c\<close>, over any flash server. \<open>Ptable\<close>: descriptions of
    partitions and \<open>nandpart_verifyPart\<close>. \<open>Blockmove\<close>: the safe copies and \<open>nandpart_movePart\<close>, with the
    termination of their retry loops. \<open>Copyproofs\<close>: what the loops do on a server that behaves.
    \<open>Nandpart\<close>: the table, the actions, the update and the program's \<open>main\<close>.
  \<^item> \<open>Chmod\<close>: \<open>parsemode\<close> against the meaning of its clauses, and \<open>do_chmod\<close> with the path buffer. \<open>Dd\<close>: \<open>getnumber\<close>,
    the operands, the files and the copy loop of \<open>psh_dd\<close>, for any sizes of the single reads and writes.
  \<^item> \<open>Textedit\<close>: every function of \<open>edit.c\<close>. \<open>Texteditproofs\<close>: the invariant \<open>text_ok\<close> and the refinement of each key
    to an operation on a document (\<open>d_key\<close>). \<open>Texteditscreen\<close>: drawing the marked rows only is as good as
    drawing all of them. \<open>Texteditsession\<close>: from the file through the typed text to the file written.
  \<^item> \<open>Ping\<close>: the checksum against the reference of RFC 1071, request and reply, the options. \<open>Lowmemd\<close>: the scan and
    the loop of \<open>main\<close>; the locale \<open>ranking\<close> states what a choice from a sorted list relies on, its
    interpretation \<open>procs\<close> discharges it for the processes. \<open>Profev\<close>: sizes of events, finding the start of an
    event, the accounting of bytes and the table printed of it.
  \<^item> \<open>Ls\<close>: every function of \<open>ls.c\<close>. \<open>Lsproofs\<close>: the locale \<open>comparison\<close> states what sorting relies on, with one
    interpretation for each order of the applet; the layout in columns, the listing of a directory and of what is
    left out.
  \<^item> \<open>Wget\<close>: every function of \<open>wget.c\<close>, with the reading of lines through its buffer. \<open>Wgetproofs\<close>: a download for any
    division of the answer into segments, and what surplus bytes do. \<open>Ntp\<close>: the exchange of \<open>ntpclient.c\<close>, the error of its
    microseconds, the retries over the addresses of a host and the server from the configuration. \<open>Hd\<close>: the dump of
    \<open>hd.c\<close> and reading it back.
  \<^item> \<open>Fileops\<close>: \<open>cp\<close>, \<open>mv\<close>, \<open>mkdir\<close>, \<open>rmdir\<close>, \<open>rm\<close> and \<open>ln\<close>; that \<open>mv\<close> loses no data, what \<open>cp\<close> leaves behind and what
    \<open>mkdir -p\<close> has created. \<open>Smallapps\<close>: \<open>cat\<close> and \<open>kill\<close>.
  \<^item> \<open>Migrate\<close>: \<open>migrate.c\<close> on a device of bytes; writing by whole sectors is writing, moving sectors upwards keeps them,
    and the converted records overlap.

  \<^bold>\<open>What the properties show.\<close> For each component: functional correctness against a specification
  (\<open>words_of\<close>, \<open>redir_spec\<close>, \<open>line_acts\<close>, \<open>part_fits\<close> and \<open>extent\<close>, \<open>goods\<close> and \<open>content\<close>), invariants kept by every
  operation (\<open>hist_ok\<close>, \<open>ed_inv\<close>, \<open>shell_ok\<close>, \<open>table_ok\<close>, \<open>text_ok\<close>), round trips, and the defects the modelling found,
  each proved as a theorem about the code as it is.

  \<^bold>\<open>Loops and bounds.\<close> No model has fuel that could run out (\<open>do_chmod\<close> has fuel for its depth, and
  \<open>do_chmod_fuel\<close> shows that it is never used up): loops recurse on the input, on a counter
  of the code (\<open>PSH_RUNSCRIPT_RETRIES\<close>, \<open>PSH_TTYOPEN_RETRIES\<close>) or on a distance that shrinks, with a termination
  proof where the recursion is not structural. Loops that wait for the world (\<open>auth\<close>, the input of
  \<open>psh_readcmd\<close>, the login loop, the turns of \<open>lowmemd\<close>, the packets of \<open>ping\<close>) run over the list of what the world
  gives. The main loop of \<open>edit\<close> is a \<open>partial_function\<close>, since an event can follow another without input; that
  it returns is part of the theorem on its sessions; so is the loop of attempts of \<open>ntpclient\<close>, which ends with the window
  (\<open>retry_loop_gives_up\<close>). \<open>hist_free_loop\<close> counts down from
  \<open>HISTSZ\<close>, which the ring cannot exceed.

  \<^bold>\<open>Not modelled.\<close> Signals, job control and timing; the text of help messages; colours and escape sequences of
  the editor's screen; \<open>flashmng_info\<close>; \<open>ping\<close> for IPv6, which is compiled only on demand; the other applets and
  tools, of which most pass their arguments to system calls. The BCH decoders (three copies) are vendored.
  Left out with logic of their own: the report of \<open>prof\<close>, the images of \<open>nandtool\<close>, the dialogue of \<open>sms\<close>.
\<close>

end
